(* ===== verification/Prelude.thy ===== *)
theory Prelude
  imports Main "HOL-Library.Char_ord" "HOL-Library.List_Lexorder" "HOL-Library.Sublist"
    "HOL-Library.Word"
begin

text \<open>
  What every component of the development shares: results with an error branch and the loops
  over them, the instants of Go's \<^verbatim>\<open>time.Time\<close>, and the functions of Go's
  \<^verbatim>\<open>strings\<close> package the sources call, on strings of bytes.

  An error return is a value of \<open>'e + 'a\<close>: \<open>Inl\<close> is the error, \<open>Inr\<close> the value. The
  sources' \<^verbatim>\<open>if err != nil { return err }\<close> after a call is \<open>bindE\<close>, and a loop whose
  body may return an error is \<open>foldE\<close>. An instant is an \<open>int\<close> of nanoseconds counted
  from Go's zero time, so \<^verbatim>\<open>t.IsZero()\<close> is \<open>t = 0\<close>; \<^verbatim>\<open>time.Now()\<close> is an argument of
  the operation that reads the clock.
\<close>

named_theorems result_simps \<open>when a chain of fallible steps returned, and what\<close>
named_theorems key_simps \<open>the names of records in the data file\<close>

type_synonym time = int
type_synonym duration = int

subsection \<open>Results\<close>

definition bindE :: "'e + 'a \<Rightarrow> ('a \<Rightarrow> 'e + 'b) \<Rightarrow> 'e + 'b" where
  "bindE m f = (case m of Inl e \<Rightarrow> Inl e | Inr x \<Rightarrow> f x)"

definition ensure :: "bool \<Rightarrow> 'e \<Rightarrow> 'e + unit" where
  "ensure b e = (if b then Inr () else Inl e)"

primrec foldE :: "('x \<Rightarrow> 's \<Rightarrow> 'e + 's) \<Rightarrow> 'x list \<Rightarrow> 's \<Rightarrow> 'e + 's" where
  "foldE f [] s = Inr s"
| "foldE f (x # xs) s = bindE (f x s) (foldE f xs)"

lemma bindE_Inl [simp]: "bindE (Inl e) f = Inl e"
  by (simp add: bindE_def)

lemma bindE_Inr [simp]: "bindE (Inr x) f = f x"
  by (simp add: bindE_def)

lemma bindE_returns [result_simps]: "bindE m f = Inr y \<longleftrightarrow> (\<exists>x. m = Inr x \<and> f x = Inr y)"
  by (cases m) auto

lemma bindE_fails [result_simps]:
  "bindE m f = Inl e \<longleftrightarrow> m = Inl e \<or> (\<exists>x. m = Inr x \<and> f x = Inl e)"
  by (cases m) auto

lemma ensure_returns [simp]: "ensure b e = Inr u \<longleftrightarrow> b"
  by (simp add: ensure_def)

lemma ensure_fails [simp]: "ensure b e = Inl e' \<longleftrightarrow> \<not> b \<and> e' = e"
  by (auto simp: ensure_def)

lemma bindE_assoc: "bindE (bindE m f) g = bindE m (\<lambda>x. bindE (f x) g)"
  by (cases m) auto

lemma foldE_append: "foldE f (xs @ ys) s = bindE (foldE f xs s) (foldE f ys)"
proof (induction xs arbitrary: s)
  case (Cons x xs)
  then show ?case by (cases "f x s") auto
qed simp

text \<open>A loop whose body keeps a property keeps it.\<close>

lemma foldE_invariant:
  assumes "foldE f xs s = Inr s'" and "P s"
    and "\<And>x s s'. x \<in> set xs \<Longrightarrow> P s \<Longrightarrow> f x s = Inr s' \<Longrightarrow> P s'"
  shows "P s'"
  using assms
proof (induction xs arbitrary: s)
  case Nil
  then show ?case by simp
next
  case (Cons x xs)
  from Cons.prems(1) obtain s1 where s1: "f x s = Inr s1" and rest: "foldE f xs s1 = Inr s'"
    by (auto simp: bindE_returns)
  have "P s1" by (rule Cons.prems(3) [OF _ Cons.prems(2) s1]) simp
  then show ?case
    by (rule Cons.IH [OF rest]) (rule Cons.prems(3), auto)
qed

text \<open>A loop returns when its body does, in every state the loop can be in.\<close>

lemma foldE_total:
  assumes "P s" and "\<And>x s. x \<in> set xs \<Longrightarrow> P s \<Longrightarrow> \<exists>s'. f x s = Inr s' \<and> P s'"
  shows "\<exists>s'. foldE f xs s = Inr s' \<and> P s'"
  using assms
proof (induction xs arbitrary: s)
  case Nil
  then show ?case by simp
next
  case (Cons x xs)
  from Cons.prems(2) [of x s] Cons.prems(1) obtain s1 where "f x s = Inr s1" and s1: "P s1"
    by auto
  moreover have "\<exists>s'. foldE f xs s1 = Inr s' \<and> P s'"
    by (rule Cons.IH [OF s1]) (rule Cons.prems(2), auto)
  ultimately show ?case by auto
qed

subsection \<open>Programs over a transaction\<close>

text \<open>
  A fallible operation that reads and changes a transaction \<open>'t\<close> and may leave changes behind
  when it fails. \<open>bindT\<close> is again the sources' \<^verbatim>\<open>if err != nil { return err }\<close>.
\<close>

type_synonym ('e, 't, 'a) prog = "'t \<Rightarrow> ('e + 'a) \<times> 't"

definition returnT :: "'a \<Rightarrow> ('e, 't, 'a) prog" where
  "returnT a = (\<lambda>t. (Inr a, t))"

definition failT :: "'e \<Rightarrow> ('e, 't, 'a) prog" where
  "failT e = (\<lambda>t. (Inl e, t))"

definition bindT :: "('e, 't, 'a) prog \<Rightarrow> ('a \<Rightarrow> ('e, 't, 'b) prog) \<Rightarrow> ('e, 't, 'b) prog" where
  "bindT m f = (\<lambda>t. case m t of (r, t') \<Rightarrow> (case r of Inl e \<Rightarrow> (Inl e, t') | Inr a \<Rightarrow> f a t'))"

definition liftT :: "'e + 'a \<Rightarrow> ('e, 't, 'a) prog" where
  "liftT r = (\<lambda>t. (r, t))"

definition whenT :: "bool \<Rightarrow> ('e, 't, unit) prog \<Rightarrow> ('e, 't, unit) prog" where
  "whenT b m = (if b then m else returnT ())"

primrec forT :: "('x \<Rightarrow> ('e, 't, unit) prog) \<Rightarrow> 'x list \<Rightarrow> ('e, 't, unit) prog" where
  "forT f [] = returnT ()"
| "forT f (x # xs) = bindT (f x) (\<lambda>_. forT f xs)"

lemma bindT_returns: "bindT m f t = (Inr b, t') \<longleftrightarrow> (\<exists>a t1. m t = (Inr a, t1) \<and> f a t1 = (Inr b, t'))"
  by (auto simp: bindT_def split: prod.splits sum.splits)

lemma failT_returns [simp]: "failT e t \<noteq> (Inr b, t')"
  by (simp add: failT_def)

lemma returnT_returns [simp]: "returnT a t = (Inr b, t') \<longleftrightarrow> b = a \<and> t' = t"
  by (auto simp: returnT_def)

lemma liftT_returns [simp]: "liftT r t = (Inr b, t') \<longleftrightarrow> r = Inr b \<and> t' = t"
  by (auto simp: liftT_def)

lemma whenT_returns: "whenT b m t = (Inr u, t') \<longleftrightarrow> (if b then m t = (Inr u, t') else t' = t)"
  by (simp add: whenT_def)

lemma bindT_cases:
  assumes "bindT m f t = (res, t')"
  obtains (fails) e where "m t = (Inl e, t')" "res = Inl e"
  | (goes) a t1 where "m t = (Inr a, t1)" "f a t1 = (res, t')"
  using assms by (auto simp: bindT_def split: prod.splits sum.splits)

subsection \<open>Strings\<close>

text \<open>
  Strings are lists of bytes. \<^verbatim>\<open>strings.ToLower\<close> is modelled on ASCII, the alphabet of the
  addresses and keywords the sources lower; other bytes are left as they are.
\<close>

definition lower_char :: "char \<Rightarrow> char" where
  "lower_char c = (if 65 \<le> (of_char c :: nat) \<and> (of_char c :: nat) \<le> 90
     then char_of ((of_char c :: nat) + 32) else c)"

definition ToLower :: "string \<Rightarrow> string" where
  "ToLower s = map lower_char s"

lemma lower_char_idem [simp]: "lower_char (lower_char c) = lower_char c"
  by (simp add: lower_char_def)

lemma ToLower_idem [simp]: "ToLower (ToLower s) = ToLower s"
  by (simp add: ToLower_def)

definition EqualFold :: "string \<Rightarrow> string \<Rightarrow> bool" where
  "EqualFold a b \<longleftrightarrow> ToLower a = ToLower b"

definition CutPrefix :: "string \<Rightarrow> string \<Rightarrow> string option" where
  "CutPrefix p s = (if prefix p s then Some (drop (length p) s) else None)"

definition TrimPrefix :: "string \<Rightarrow> string \<Rightarrow> string" where
  "TrimPrefix p s = (if prefix p s then drop (length p) s else s)"

definition TrimSuffix :: "string \<Rightarrow> string \<Rightarrow> string" where
  "TrimSuffix p s = (if suffix p s then take (length s - length p) s else s)"

lemma CutPrefix_append [simp]: "CutPrefix p (p @ s) = Some s"
  by (simp add: CutPrefix_def)

lemma CutPrefix_Some: "CutPrefix p s = Some r \<longleftrightarrow> s = p @ r"
  by (auto simp: CutPrefix_def prefix_def)

lemma TrimPrefix_append [simp]: "TrimPrefix p (p @ s) = s"
  by (simp add: TrimPrefix_def)

lemma TrimSuffix_append [simp]: "TrimSuffix p (s @ p) = s"
  by (simp add: TrimSuffix_def suffix_def)

text \<open>\<^verbatim>\<open>strings.Cut\<close> at a one-byte separator: before, after, and whether it was there.\<close>

fun Cut :: "char \<Rightarrow> string \<Rightarrow> string \<times> string \<times> bool" where
  "Cut c [] = ([], [], False)"
| "Cut c (x # xs) =
     (if x = c then ([], xs, True)
      else (case Cut c xs of (b, a, f) \<Rightarrow> (x # b, a, f)))"

lemma Cut_here [simp]: "c \<notin> set b \<Longrightarrow> Cut c (b @ c # a) = (b, a, True)"
  by (induction b) auto

lemma Cut_absent [simp]: "c \<notin> set s \<Longrightarrow> Cut c s = (s, [], False)"
  by (induction s) auto

lemma Cut_before: "Cut c s = (b, a, f) \<Longrightarrow> c \<notin> set b"
  by (induction s arbitrary: b) (auto split: if_splits prod.splits)

lemma Cut_found: "Cut c s = (b, a, True) \<Longrightarrow> s = b @ c # a"
  by (induction s arbitrary: b) (auto split: if_splits prod.splits)

lemma Cut_missing: "Cut c s = (b, a, False) \<Longrightarrow> b = s \<and> a = [] \<and> c \<notin> set s"
  by (induction s arbitrary: b) (auto split: if_splits prod.splits)

text \<open>\<^verbatim>\<open>strings.Split\<close> at a one-byte separator and \<^verbatim>\<open>strings.Join\<close>.\<close>

fun Split :: "char \<Rightarrow> string \<Rightarrow> string list" where
  "Split c [] = [[]]"
| "Split c (x # xs) =
     (if x = c then [] # Split c xs
      else (case Split c xs of [] \<Rightarrow> [[x]] | w # ws \<Rightarrow> (x # w) # ws))"

fun Join :: "string \<Rightarrow> string list \<Rightarrow> string" where
  "Join sep [] = []"
| "Join sep [w] = w"
| "Join sep (w # v # ws) = w @ sep @ Join sep (v # ws)"

lemma Split_nonempty [simp]: "Split c s \<noteq> []"
  by (induction s) (auto split: list.splits)

lemma Split_absent [simp]: "c \<notin> set s \<Longrightarrow> Split c s = [s]"
  by (induction s) auto

lemma Split_append [simp]: "c \<notin> set w \<Longrightarrow> Split c (w @ c # s) = w # Split c s"
  by (induction w) auto

lemma Split_parts: "w \<in> set (Split c s) \<Longrightarrow> c \<notin> set w"
  by (induction s arbitrary: w) (auto split: if_splits list.splits)

lemma Join_Split: "Join [c] (Split c s) = s"
proof (induction s)
  case (Cons x xs)
  obtain w ws where w: "Split c xs = w # ws" by (cases "Split c xs") auto
  show ?case
    using Cons w by (cases ws) auto
qed simp

lemma Split_Join:
  "ws \<noteq> [] \<Longrightarrow> (\<And>w. w \<in> set ws \<Longrightarrow> c \<notin> set w) \<Longrightarrow> Split c (Join [c] ws) = ws"
  by (induction "[c]" ws rule: Join.induct) auto

text \<open>\<^verbatim>\<open>path.Join\<close> of two elements: empty and single-dot elements go, a double dot takes the one before it.\<close>

fun clean_parts :: "bool \<Rightarrow> string list \<Rightarrow> string list \<Rightarrow> string list" where
  "clean_parts rooted stack [] = rev stack"
| "clean_parts rooted stack (w # ws) =
     (if w = [] \<or> w = ''.'' then clean_parts rooted stack ws
      else if w = ''..'' then
        (if stack \<noteq> [] \<and> hd stack \<noteq> ''..'' then clean_parts rooted (tl stack) ws
         else if rooted then clean_parts rooted stack ws
         else clean_parts rooted (w # stack) ws)
      else clean_parts rooted (w # stack) ws)"

definition path_Clean :: "string \<Rightarrow> string" where
  "path_Clean p =
     (let rooted = prefix ''/'' p;
          out = (if rooted then ''/'' else []) @ Join ''/'' (clean_parts rooted [] (Split (CHR ''/'') p))
      in if out = [] then ''.'' else out)"

definition path_Join :: "string \<Rightarrow> string \<Rightarrow> string" where
  "path_Join a b =
     (if a = [] \<and> b = [] then []
      else path_Clean (if a = [] then b else if b = [] then a else a @ ''/'' @ b))"

end
