(* ===== verification/KV.thy ===== *)
theory KV
  imports Prelude
begin

text \<open>
  The data file: flat string keys and values read and written in transactions
  (\<^verbatim>\<open>internal/kv/kv.go\<close>), kept in one bbolt bucket (\<^verbatim>\<open>internal/kv/bolt/bolt.go\<close>).

  A transaction's state \<open>tx\<close> is the bucket's entries in key order. Which writes the
  bucket refuses (a disk fault, a key too long) is a parameter kept in the state: every
  \<^verbatim>\<open>Put\<close> and \<^verbatim>\<open>Delete\<close> asks it. \<open>kv_scan\<close> walks the bucket as the cursor of \<^verbatim>\<open>txn.Scan\<close>
  does and gives the calls its callback gets, in order. The locale \<open>kv_tx\<close> is what the
  \<^verbatim>\<open>Tx\<close> interface promises; what is built on the interface is proved in it once.
\<close>

subsection \<open>The bucket\<close>

record ('v, 'e) tx =
  entries :: "(string \<times> 'v) list"
  put_refused :: "string \<Rightarrow> 'v \<Rightarrow> 'e option"
  delete_refused :: "string \<Rightarrow> 'e option"

fun put_entry :: "string \<Rightarrow> 'v \<Rightarrow> (string \<times> 'v) list \<Rightarrow> (string \<times> 'v) list" where
  "put_entry k v [] = [(k, v)]"
| "put_entry k v ((k', v') # es) =
     (if k = k' then (k, v) # es
      else if k < k' then (k, v) # (k', v') # es
      else (k', v') # put_entry k v es)"

definition delete_entry :: "string \<Rightarrow> (string \<times> 'v) list \<Rightarrow> (string \<times> 'v) list" where
  "delete_entry k es = filter (\<lambda>e. fst e \<noteq> k) es"

definition kv_get :: "string \<Rightarrow> ('v, 'e) tx \<Rightarrow> 'v option" where
  "kv_get k t = map_of (entries t) k"

definition kv_put :: "string \<Rightarrow> 'v \<Rightarrow> ('v, 'e) tx \<Rightarrow> 'e + ('v, 'e) tx" where
  "kv_put k v t = (case put_refused t k v of Some e \<Rightarrow> Inl e
     | None \<Rightarrow> Inr (t\<lparr>entries := put_entry k v (entries t)\<rparr>))"

definition kv_delete :: "string \<Rightarrow> ('v, 'e) tx \<Rightarrow> 'e + ('v, 'e) tx" where
  "kv_delete k t = (case delete_refused t k of Some e \<Rightarrow> Inl e
     | None \<Rightarrow> Inr (t\<lparr>entries := delete_entry k (entries t)\<rparr>))"

text \<open>\<^verbatim>\<open>for k, v := cur.Seek(p); k != nil && bytes.HasPrefix(k, p); k, v = cur.Next()\<close>\<close>

definition seek :: "string \<Rightarrow> (string \<times> 'v) list \<Rightarrow> (string \<times> 'v) list" where
  "seek p es = dropWhile (\<lambda>e. fst e < p) es"

definition kv_scan :: "string \<Rightarrow> ('v, 'e) tx \<Rightarrow> (string \<times> 'v) list" where
  "kv_scan p t = takeWhile (\<lambda>e. prefix p (fst e)) (seek p (entries t))"

text \<open>\<^verbatim>\<open>Update commits when fn returns nil and rolls back otherwise\<close>; \<^verbatim>\<open>View\<close> keeps nothing.\<close>

definition Update :: "('s \<Rightarrow> 'e + 'a \<times> 's) \<Rightarrow> 's \<Rightarrow> ('e + 'a) \<times> 's" where
  "Update fn db = (case fn db of Inl e \<Rightarrow> (Inl e, db) | Inr (a, db') \<Rightarrow> (Inr a, db'))"

definition View :: "('s \<Rightarrow> 'e + 'a \<times> 's) \<Rightarrow> 's \<Rightarrow> 'e + 'a" where
  "View fn db = (case fn db of Inl e \<Rightarrow> Inl e | Inr (a, _) \<Rightarrow> Inr a)"

subsection \<open>Deleting under a prefix\<close>

text \<open>
  Both take the transaction's \<^verbatim>\<open>Scan\<close> and \<^verbatim>\<open>Delete\<close>, as the sources take the interface; a
  \<^verbatim>\<open>match\<close> of \<open>None\<close> is the nil that accepts every key.
\<close>

definition accepts :: "(string \<Rightarrow> 'v \<Rightarrow> bool) option \<Rightarrow> string \<Rightarrow> 'v \<Rightarrow> bool" where
  "accepts match k v = (case match of None \<Rightarrow> True | Some m \<Rightarrow> m k v)"

definition DeleteUnder :: "(string \<Rightarrow> 't \<Rightarrow> (string \<times> 'v) list) \<Rightarrow> (string \<Rightarrow> 't \<Rightarrow> 'e + 't) \<Rightarrow>
    't \<Rightarrow> string \<Rightarrow> (string \<Rightarrow> 'v \<Rightarrow> bool) option \<Rightarrow> 'e + 't" where
  "DeleteUnder scan del t p match =
     (let keys = map fst (filter (\<lambda>e. accepts match (fst e) (snd e)) (scan p t))
      in foldE del keys t)"

definition DeleteExpired :: "(string \<Rightarrow> 't \<Rightarrow> (string \<times> 'v) list) \<Rightarrow> (string \<Rightarrow> 't \<Rightarrow> 'e + 't) \<Rightarrow>
    't \<Rightarrow> string \<Rightarrow> time \<Rightarrow> (string \<Rightarrow> 'v \<Rightarrow> time \<times> bool) \<Rightarrow> 'e + 't" where
  "DeleteExpired scan del t p now expires =
     DeleteUnder scan del t p (Some (\<lambda>k v. let (at, ok) = expires k v in ok \<and> \<not> at > now))"

subsection \<open>The interface\<close>

locale kv_tx =
  fixes get :: "string \<Rightarrow> 't \<Rightarrow> 'v option"
    and put :: "string \<Rightarrow> 'v \<Rightarrow> 't \<Rightarrow> 'e + 't"
    and del :: "string \<Rightarrow> 't \<Rightarrow> 'e + 't"
    and scan :: "string \<Rightarrow> 't \<Rightarrow> (string \<times> 'v) list"
    and inv :: "'t \<Rightarrow> bool"
  assumes put_inv: "inv t \<Longrightarrow> put k v t = Inr t' \<Longrightarrow> inv t'"
    and put_get: "inv t \<Longrightarrow> put k v t = Inr t' \<Longrightarrow> get k' t' = (if k' = k then Some v else get k' t)"
    and del_inv: "inv t \<Longrightarrow> del k t = Inr t' \<Longrightarrow> inv t'"
    and del_get: "inv t \<Longrightarrow> del k t = Inr t' \<Longrightarrow> get k' t' = (if k' = k then None else get k' t)"
    and scan_iff: "inv t \<Longrightarrow> (k, v) \<in> set (scan p t) \<longleftrightarrow> prefix p k \<and> get k t = Some v"
begin

lemma put_get_fun: "inv t \<Longrightarrow> put k v t = Inr t' \<Longrightarrow> (\<lambda>k. get k t') = (\<lambda>k. get k t)(k := Some v)"
  by (auto simp: put_get)

lemma del_each_inv: "foldE del ks t = Inr t' \<Longrightarrow> inv t \<Longrightarrow> inv t'"
  by (rule foldE_invariant) (auto intro: del_inv)

lemma del_each_get:
  "foldE del ks t = Inr t' \<Longrightarrow> inv t \<Longrightarrow> get k t' = (if k \<in> set ks then None else get k t)"
proof (induction ks arbitrary: t)
  case Nil
  then show ?case by simp
next
  case (Cons x xs)
  then obtain t1 where t1: "del x t = Inr t1" "foldE del xs t1 = Inr t'"
    by (auto simp: bindE_returns)
  with Cons.prems have "inv t1" by (blast intro: del_inv)
  with Cons.IH [OF t1(2)] del_get [OF Cons.prems(2) t1(1)] show ?case by auto
qed

lemma delete_under_run:
  assumes "DeleteUnder scan del t p match = Inr t'" and "inv t"
  obtains ks where "foldE del ks t = Inr t'"
    and "\<And>k. k \<in> set ks \<longleftrightarrow> prefix p k \<and> (\<exists>v. get k t = Some v \<and> accepts match k v)"
proof
  let ?ks = "map fst (filter (\<lambda>e. accepts match (fst e) (snd e)) (scan p t))"
  show "foldE del ?ks t = Inr t'"
    using assms(1) by (simp add: DeleteUnder_def Let_def)
  fix k
  have "k \<in> set ?ks \<longleftrightarrow> (\<exists>v. (k, v) \<in> set (scan p t) \<and> accepts match k v)"
    by force
  then show "k \<in> set ?ks \<longleftrightarrow> prefix p k \<and> (\<exists>v. get k t = Some v \<and> accepts match k v)"
    by (auto simp: scan_iff [OF assms(2)])
qed

lemma delete_under_inv:
  "DeleteUnder scan del t p match = Inr t' \<Longrightarrow> inv t \<Longrightarrow> inv t'"
  by (erule delete_under_run) (auto intro: del_each_inv)

lemma delete_under_get:
  assumes "DeleteUnder scan del t p match = Inr t'" and "inv t"
  shows "get k t' = (if prefix p k \<and> (\<exists>v. get k t = Some v \<and> accepts match k v)
           then None else get k t)"
  using assms
  by (rule delete_under_run) (simp add: del_each_get [OF _ assms(2)])

lemma delete_expired_get:
  assumes "DeleteExpired scan del t p now expires = Inr t'" and "inv t"
  shows "get k t' =
    (if prefix p k \<and> (\<exists>v. get k t = Some v \<and> snd (expires k v) \<and> fst (expires k v) \<le> now)
     then None else get k t)"
  using delete_under_get [OF assms(1) [unfolded DeleteExpired_def] assms(2), of k]
  by (simp add: accepts_def case_prod_beta not_less)

end

subsection \<open>The bucket keeps the interface's promises\<close>

definition ordered :: "(string \<times> 'v) list \<Rightarrow> bool" where
  "ordered es \<longleftrightarrow> sorted_wrt (<) (map fst es)"

definition ordered_tx :: "('v, 'e) tx \<Rightarrow> bool" where
  "ordered_tx t \<longleftrightarrow> ordered (entries t)"

lemma ordered_Nil [simp]: "ordered []"
  by (simp add: ordered_def)

lemma ordered_Cons: "ordered ((k, v) # es) \<longleftrightarrow> (\<forall>e \<in> set es. k < fst e) \<and> ordered es"
  by (auto simp: ordered_def)

lemma ordered_distinct: "ordered es \<Longrightarrow> distinct (map fst es)"
  by (simp add: ordered_def strict_sorted_iff)

lemma keys_put_entry: "fst ` set (put_entry k v es) = insert k (fst ` set es)"
  by (induction k v es rule: put_entry.induct) auto

lemma ordered_put_entry: "ordered es \<Longrightarrow> ordered (put_entry k v es)"
proof (induction k v es rule: put_entry.induct)
  case (2 k v k' v' es)
  have keys: "fst e = k \<or> fst e \<in> fst ` set es" if "e \<in> set (put_entry k v es)" for e
    using keys_put_entry [of k v es] that by blast
  consider "k = k'" | "k < k'" | "k \<noteq> k'" "k' < k" by (metis linorder_neqE)
  then show ?case
  proof cases
    case 3
    then have "\<not> k < k'" by simp
    moreover have "k' < fst e" if "e \<in> set (put_entry k v es)" for e
      using keys [OF that] 3 "2.prems" by (auto simp: ordered_Cons)
    ultimately show ?thesis using 3 2 by (simp add: ordered_Cons)
  qed (use "2.prems" in \<open>auto simp: ordered_Cons intro: less_trans\<close>)
qed (simp add: ordered_Cons)

lemma map_of_put_entry: "map_of (put_entry k v es) = (map_of es)(k := Some v)"
  by (induction k v es rule: put_entry.induct) auto

lemma ordered_filter: "ordered es \<Longrightarrow> ordered (filter P es)"
  by (simp add: ordered_def sorted_wrt_map sorted_wrt_filter)

lemma map_of_delete_entry: "map_of (delete_entry k es) k' = (if k' = k then None else map_of es k')"
  by (induction es) (auto simp: delete_entry_def)

text \<open>
  A string below a prefix sorts before every string with it, and one above that lacks it
  sorts after: the cursor meets the keys of a prefix in one run.
\<close>

lemma prefix_le: "prefix p k \<Longrightarrow> p \<le> (k :: string)"
  by (induction p k rule: list_induct2') auto

lemma prefix_run: "prefix p k \<Longrightarrow> p \<le> j \<Longrightarrow> \<not> prefix p j \<Longrightarrow> k < (j :: string)"
proof (induction p arbitrary: k j)
  case (Cons a p)
  from Cons.prems(1) obtain k' where k: "k = a # k'" "prefix p k'" by (cases k) auto
  from Cons.prems(2) obtain b j' where j: "j = b # j'" by (cases j) auto
  show ?case
    using Cons.prems(2,3) Cons.IH [OF k(2), of j'] by (auto simp: k(1) j)
qed simp

lemma seek_ordered: "ordered es \<Longrightarrow> ordered (seek p es)"
  unfolding ordered_def seek_def
  by (induction es) auto

lemma seek_ge: "ordered es \<Longrightarrow> e \<in> set (seek p es) \<Longrightarrow> p \<le> fst e"
proof (induction es)
  case (Cons x es)
  obtain k v where x: "x = (k, v)" by force
  show ?case
  proof (cases "k < p")
    case True
    with Cons x show ?thesis by (auto simp: seek_def ordered_Cons)
  next
    case False
    with Cons.prems x show ?thesis by (force simp: seek_def ordered_Cons)
  qed
qed (simp add: seek_def)

lemma seek_filter: "filter (\<lambda>e. prefix p (fst e)) (seek p es) = filter (\<lambda>e. prefix p (fst e)) es"
  unfolding seek_def by (induction es) (auto dest: prefix_le)

lemma run_filter:
  "ordered es \<Longrightarrow> (\<And>e. e \<in> set es \<Longrightarrow> p \<le> fst e) \<Longrightarrow>
     takeWhile (\<lambda>e. prefix p (fst e)) es = filter (\<lambda>e. prefix p (fst e)) es"
proof (induction es)
  case (Cons x es)
  obtain k v where x: "x = (k, v)" by force
  show ?case
  proof (cases "prefix p k")
    case True
    with Cons x show ?thesis by (auto simp: ordered_Cons)
  next
    case False
    have "\<not> prefix p (fst e)" if "e \<in> set es" for e
    proof
      assume "prefix p (fst e)"
      then have "fst e < k" using prefix_run Cons.prems(2) [of x] False x by simp
      moreover have "k < fst e" using Cons.prems(1) x that by (simp add: ordered_Cons)
      ultimately show False by simp
    qed
    with False x show ?thesis by (auto simp: filter_empty_conv)
  qed
qed simp

lemma kv_scan_filter:
  "ordered_tx t \<Longrightarrow> kv_scan p t = filter (\<lambda>e. prefix p (fst e)) (entries t)"
  unfolding kv_scan_def ordered_tx_def
  by (subst run_filter) (auto intro: seek_ordered seek_ge simp: seek_filter)

lemma kv_scan_iff:
  assumes "ordered_tx t"
  shows "(k, v) \<in> set (kv_scan p t) \<longleftrightarrow> prefix p k \<and> kv_get k t = Some v"
  using assms ordered_distinct [of "entries t"]
  by (auto simp: kv_scan_filter kv_get_def ordered_tx_def)

lemma kv_put_returns [result_simps]:
  "kv_put k v t = Inr t' \<longleftrightarrow>
     put_refused t k v = None \<and> t' = t\<lparr>entries := put_entry k v (entries t)\<rparr>"
  by (auto simp: kv_put_def split: option.splits)

lemma kv_delete_returns [result_simps]:
  "kv_delete k t = Inr t' \<longleftrightarrow>
     delete_refused t k = None \<and> t' = t\<lparr>entries := delete_entry k (entries t)\<rparr>"
  by (auto simp: kv_delete_def split: option.splits)

interpretation bolt: kv_tx kv_get kv_put kv_delete kv_scan ordered_tx
proof unfold_locales
  fix t t' :: "('v, 'e) tx" and k k' v p
  show "ordered_tx t \<Longrightarrow> kv_put k v t = Inr t' \<Longrightarrow> ordered_tx t'"
    by (auto simp: kv_put_returns ordered_tx_def ordered_put_entry)
  show "ordered_tx t \<Longrightarrow> kv_put k v t = Inr t' \<Longrightarrow>
      kv_get k' t' = (if k' = k then Some v else kv_get k' t)"
    by (auto simp: kv_put_returns kv_get_def map_of_put_entry)
  show "ordered_tx t \<Longrightarrow> kv_delete k t = Inr t' \<Longrightarrow> ordered_tx t'"
    by (auto simp: kv_delete_returns ordered_tx_def delete_entry_def ordered_filter)
  show "ordered_tx t \<Longrightarrow> kv_delete k t = Inr t' \<Longrightarrow>
      kv_get k' t' = (if k' = k then None else kv_get k' t)"
    by (auto simp: kv_delete_returns kv_get_def map_of_delete_entry)
  show "ordered_tx t \<Longrightarrow> ((k, v) \<in> set (kv_scan p t)) = (prefix p k \<and> kv_get k t = Some v)"
    by (rule kv_scan_iff)
qed

subsection \<open>Properties\<close>

definition sample_tx :: "(nat, string) tx" where
  "sample_tx = \<lparr>entries = [(''a/1'', 1), (''b'', 5), (''b/1'', 2), (''b/2'', 3), (''c'', 4)],
     put_refused = (\<lambda>_ _. None), delete_refused = (\<lambda>_. None)\<rparr>"

lemma ordered_sample_tx: "ordered_tx sample_tx"
  by code_simp

text \<open>
  A scan visits exactly the keys that begin with the prefix, each once and in key order:
  the cursor's walk from \<^verbatim>\<open>Seek\<close> to the first key without the prefix leaves none out.
\<close>

lemma scan_visits_prefix:
  assumes "ordered_tx t"
  shows "kv_scan p t = filter (\<lambda>e. prefix p (fst e)) (entries t) \<and>
    sorted_wrt (<) (map fst (kv_scan p t))"
  using assms ordered_filter [of "entries t"] kv_scan_filter [OF assms]
  by (simp add: ordered_tx_def ordered_def)

lemma scan_visits_prefix_witness:
  "kv_scan ''b/'' sample_tx = [(''b/1'', 2), (''b/2'', 3)] \<and>
   kv_scan ''b/'' sample_tx = filter (\<lambda>e. prefix ''b/'' (fst e)) (entries sample_tx)"
proof -
  have "kv_scan ''b/'' sample_tx = [(''b/1'', 2), (''b/2'', 3)]" by code_simp
  then show ?thesis using scan_visits_prefix [OF ordered_sample_tx, of "''b/''"] by simp
qed

text \<open>
  \<^verbatim>\<open>DeleteExpired\<close> removes a record exactly when it lies under the prefix, its expiry can be
  read and is at or before now; every other record is as it was.
\<close>

lemma delete_expired_exact:
  assumes "DeleteExpired kv_scan kv_delete t p now expires = Inr t'" and "ordered_tx t"
  shows "kv_get k t' =
    (if prefix p k \<and> (\<exists>v. kv_get k t = Some v \<and> snd (expires k v) \<and> fst (expires k v) \<le> now)
     then None else kv_get k t)"
  by (rule bolt.delete_expired_get [OF assms])

lemma delete_expired_exact_witness:
  "\<exists>t'. DeleteExpired kv_scan kv_delete sample_tx ''b/'' 2 (\<lambda>_ v. (int v, True)) = Inr t' \<and>
     kv_get ''b/1'' t' = None \<and> kv_get ''b/2'' t' = Some 3 \<and> kv_get ''a/1'' t' = Some 1"
proof -
  let ?e = "\<lambda>(_ :: string) v. (int v, True)"
  let ?d = "DeleteExpired kv_scan kv_delete sample_tx ''b/'' 2 ?e"
  have "\<not> isl ?d" by code_simp
  then obtain t' where t': "?d = Inr t'" by (cases ?d) auto
  have g: "kv_get ''b/1'' sample_tx = Some 1 \<or> kv_get ''b/1'' sample_tx = Some 2"
    "kv_get ''b/2'' sample_tx = Some 3" "kv_get ''a/1'' sample_tx = Some 1" by code_simp+
  show ?thesis
    using delete_expired_exact [OF t' ordered_sample_tx, of "''b/1''"]
      delete_expired_exact [OF t' ordered_sample_tx, of "''b/2''"]
      delete_expired_exact [OF t' ordered_sample_tx, of "''a/1''"] t' g
    by (intro exI [of _ t']) auto
qed

end
