(* ===== verification/Imap_Queue.thy ===== *)
theory Imap_Queue
  imports Prelude
begin

text \<open>
  The queue in front of an account's one IMAP connection (\<^verbatim>\<open>imap_queue.go\<close>): the owner
  runs, interactive work goes before background work, and at most \<open>imapQueueLimit\<close> callers
  with a lifetime wait.

  \<open>acquire_enter\<close> is the part of \<^verbatim>\<open>acquire\<close> under the first lock, \<open>acquire_leave\<close> the part
  after a wait ended by cancellation, \<open>release\<close> the hand-over. A caller's progress between
  them is its \<open>pc\<close>; closing \<^verbatim>\<open>w.ready\<close> makes it \<open>Ready\<close>, and it may still see its
  cancellation first. The step relation \<open>qstep\<close> interleaves any number of callers, one
  critical section at a time, as the mutex does.
\<close>

definition imapQueueLimit :: nat where
  "imapQueueLimit = 64"

datatype qerror = Canceled | DeadlineExceeded | ErrIMAPQueueFull

record imapWaiter =
  who :: nat
  background :: bool

record imapQueue =
  busy :: bool
  waiters :: "imapWaiter list"

datatype entered = Failed qerror | Holds | Parked

text \<open>
  \<open>ctx\<close> is what \<^verbatim>\<open>ctx.Err()\<close> returns, \<open>finished\<close> whether the \<^verbatim>\<open>done\<close> channel is closed,
  \<open>None\<close> for the nil channel.
\<close>

definition acquire_enter ::
    "qerror option \<Rightarrow> bool option \<Rightarrow> imapWaiter \<Rightarrow> imapQueue \<Rightarrow> entered \<times> imapQueue" where
  "acquire_enter ctx finished w q =
     (case ctx of Some e \<Rightarrow> (Failed e, q)
      | None \<Rightarrow>
         if finished = Some True then (Failed Canceled, q)
         else if \<not> busy q then (Holds, q\<lparr>busy := True\<rparr>)
         else if finished \<noteq> None \<and> imapQueueLimit \<le> length (waiters q) then (Failed ErrIMAPQueueFull, q)
         else (Parked, q\<lparr>waiters := waiters q @ [w]\<rparr>))"

fun first_interactive :: "imapWaiter list \<Rightarrow> nat option" where
  "first_interactive [] = None"
| "first_interactive (w # ws) =
     (if \<not> background w then Some 0 else map_option Suc (first_interactive ws))"

definition next_waiter :: "imapWaiter list \<Rightarrow> nat" where
  "next_waiter ws = (case first_interactive ws of Some i \<Rightarrow> i | None \<Rightarrow> 0)"

definition release :: "imapQueue \<Rightarrow> imapWaiter option \<times> imapQueue" where
  "release q =
     (if waiters q = [] then (None, q\<lparr>busy := False\<rparr>)
      else (let next = next_waiter (waiters q) in
        (Some (waiters q ! next),
         q\<lparr>waiters := take next (waiters q) @ drop (Suc next) (waiters q)\<rparr>)))"

fun remove_waiter :: "nat \<Rightarrow> imapWaiter list \<Rightarrow> imapWaiter list option" where
  "remove_waiter t [] = None"
| "remove_waiter t (w # ws) =
     (if who w = t then Some ws else map_option (Cons w) (remove_waiter t ws))"

text \<open>A caller still in the queue is taken out; one that was handed the connection passes it on.\<close>

definition acquire_leave :: "nat \<Rightarrow> imapQueue \<Rightarrow> imapWaiter option \<times> imapQueue" where
  "acquire_leave t q = (case remove_waiter t (waiters q) of
       Some ws \<Rightarrow> (None, q\<lparr>waiters := ws\<rparr>)
     | None \<Rightarrow> release q)"

subsection \<open>Callers\<close>

datatype pc = Idle | Waiting bool | Ready | Owner

record queue_sys =
  queue :: imapQueue
  pcs :: "nat \<Rightarrow> pc"

definition idle_sys :: queue_sys where
  "idle_sys = \<lparr>queue = \<lparr>busy = False, waiters = []\<rparr>, pcs = (\<lambda>_. Idle)\<rparr>"

definition hand_over :: "imapWaiter option \<Rightarrow> (nat \<Rightarrow> pc) \<Rightarrow> (nat \<Rightarrow> pc)" where
  "hand_over w ps = (case w of None \<Rightarrow> ps | Some w \<Rightarrow> ps(who w := Ready))"

datatype queue_event = Enters nat | Parks nat | Wakes nat | Leaves nat | Hands nat

inductive qstep :: "queue_sys \<Rightarrow> queue_event \<Rightarrow> queue_sys \<Rightarrow> bool" where
  refused: "pcs s t = Idle \<Longrightarrow> acquire_enter ctx fin \<lparr>who = t, background = b\<rparr> (queue s) = (Failed e, q) \<Longrightarrow>
     qstep s (Enters t) (s\<lparr>queue := q\<rparr>)"
| taken: "pcs s t = Idle \<Longrightarrow> acquire_enter ctx fin \<lparr>who = t, background = b\<rparr> (queue s) = (Holds, q) \<Longrightarrow>
     qstep s (Enters t) (s\<lparr>queue := q, pcs := (pcs s)(t := Owner)\<rparr>)"
| parked: "pcs s t = Idle \<Longrightarrow> acquire_enter ctx fin \<lparr>who = t, background = b\<rparr> (queue s) = (Parked, q) \<Longrightarrow>
     qstep s (Parks t) (s\<lparr>queue := q, pcs := (pcs s)(t := Waiting (fin \<noteq> None))\<rparr>)"
| woken: "pcs s t = Ready \<Longrightarrow> qstep s (Wakes t) (s\<lparr>pcs := (pcs s)(t := Owner)\<rparr>)"
| left: "pcs s t = Waiting f \<Longrightarrow> acquire_leave t (queue s) = (w, q) \<Longrightarrow>
     qstep s (Leaves t) (s\<lparr>queue := q, pcs := hand_over w ((pcs s)(t := Idle))\<rparr>)"
| passed_on: "pcs s t = Ready \<Longrightarrow> acquire_leave t (queue s) = (w, q) \<Longrightarrow>
     qstep s (Hands t) (s\<lparr>queue := q, pcs := hand_over w ((pcs s)(t := Idle))\<rparr>)"
| released: "pcs s t = Owner \<Longrightarrow> release (queue s) = (w, q) \<Longrightarrow>
     qstep s (Hands t) (s\<lparr>queue := q, pcs := hand_over w ((pcs s)(t := Idle))\<rparr>)"

inductive_cases qstep_Enters: "qstep s (Enters t) s'"
inductive_cases qstep_Hands: "qstep s (Hands t) s'"

inductive queue_reachable :: "queue_sys \<Rightarrow> bool" where
  start: "queue_reachable idle_sys"
| step: "queue_reachable s \<Longrightarrow> qstep s e s' \<Longrightarrow> queue_reachable s'"

subsection \<open>The hand-over\<close>

lemma first_interactive_Some:
  "first_interactive ws = Some i \<Longrightarrow>
     i < length ws \<and> \<not> background (ws ! i) \<and> (\<forall>j < i. background (ws ! j))"
proof (induction ws arbitrary: i)
  case (Cons w ws)
  show ?case
  proof (cases "background w")
    case True
    with Cons.prems obtain j where "first_interactive ws = Some j" "i = Suc j" by auto
    with Cons.IH True show ?thesis by (auto simp: nth_Cons less_Suc_eq_0_disj)
  qed (use Cons.prems in auto)
qed simp

lemma first_interactive_None: "first_interactive ws = None \<longleftrightarrow> (\<forall>w \<in> set ws. background w)"
  by (induction ws) auto

lemma next_waiter_less: "ws \<noteq> [] \<Longrightarrow> next_waiter ws < length ws"
  by (auto simp: next_waiter_def split: option.splits dest: first_interactive_Some)

lemma release_split:
  assumes "waiters q \<noteq> []"
  obtains pre w post where "waiters q = pre @ w # post"
    and "release q = (Some w, q\<lparr>waiters := pre @ post\<rparr>)"
    and "\<forall>v \<in> set pre. background v" and "background w \<longrightarrow> pre = [] \<and> (\<forall>v \<in> set post. background v)"
proof -
  let ?ws = "waiters q"
  let ?n = "next_waiter ?ws"
  have n: "?n < length ?ws" using assms by (rule next_waiter_less)
  have pre: "\<forall>v \<in> set (take ?n ?ws). background v"
    using first_interactive_Some [of ?ws ?n]
    by (auto simp: next_waiter_def in_set_conv_nth split: option.splits)
  have bg: "take ?n ?ws = [] \<and> (\<forall>v \<in> set (drop (Suc ?n) ?ws). background v)"
    if "background (?ws ! ?n)"
  proof (cases "first_interactive ?ws")
    case None
    then have "\<forall>v \<in> set ?ws. background v" by (simp add: first_interactive_None)
    with None show ?thesis by (auto simp: next_waiter_def dest: in_set_dropD)
  next
    case (Some i)
    with that first_interactive_Some [OF Some] show ?thesis by (simp add: next_waiter_def)
  qed
  show ?thesis
    by (rule that [OF id_take_nth_drop [OF n] _ pre]) (use bg in \<open>simp_all add: release_def Let_def assms\<close>)
qed

lemma release_empty: "waiters q = [] \<Longrightarrow> release q = (None, q\<lparr>busy := False\<rparr>)"
  by (simp add: release_def)

lemma remove_waiter_None: "remove_waiter t ws = None \<longleftrightarrow> t \<notin> who ` set ws"
  by (induction ws) auto

lemma remove_waiter_Some:
  "remove_waiter t ws = Some ws' \<Longrightarrow>
     \<exists>pre w post. ws = pre @ w # post \<and> who w = t \<and> ws' = pre @ post \<and> t \<notin> who ` set pre"
proof (induction ws arbitrary: ws')
  case (Cons v ws)
  show ?case
  proof (cases "who v = t")
    case True
    with Cons.prems show ?thesis by (intro exI [of _ "[]"]) auto
  next
    case False
    with Cons.prems obtain u where "remove_waiter t ws = Some u" "ws' = v # u" by auto
    with Cons.IH [of u] obtain pre w post where
      "ws = pre @ w # post" "who w = t" "u = pre @ post" "t \<notin> who ` set pre" by blast
    with False \<open>ws' = v # u\<close> show ?thesis
      by (intro exI [of _ "v # pre"] exI [of _ w] exI [of _ post]) auto
  qed
qed simp

subsection \<open>The invariant\<close>

definition holding :: "pc \<Rightarrow> bool" where
  "holding p \<longleftrightarrow> p = Ready \<or> p = Owner"

definition waiting :: "pc \<Rightarrow> bool" where
  "waiting p \<longleftrightarrow> (\<exists>f. p = Waiting f)"

definition unbounded :: "queue_sys \<Rightarrow> imapWaiter list \<Rightarrow> imapWaiter list" where
  "unbounded s ws = filter (\<lambda>w. pcs s (who w) = Waiting False) ws"

definition queue_inv :: "queue_sys \<Rightarrow> bool" where
  "queue_inv s \<longleftrightarrow>
     distinct (map who (waiters (queue s))) \<and>
     (\<forall>t. waiting (pcs s t) \<longleftrightarrow> t \<in> who ` set (waiters (queue s))) \<and>
     (\<forall>t u. holding (pcs s t) \<longrightarrow> holding (pcs s u) \<longrightarrow> t = u) \<and>
     (busy (queue s) \<longleftrightarrow> (\<exists>t. holding (pcs s t))) \<and>
     (waiters (queue s) \<noteq> [] \<longrightarrow> busy (queue s)) \<and>
     length (waiters (queue s)) \<le> imapQueueLimit + length (unbounded s (waiters (queue s)))"

lemma queue_invI:
  assumes "distinct (map who (waiters (queue s)))"
    and "\<And>t. waiting (pcs s t) \<longleftrightarrow> t \<in> who ` set (waiters (queue s))"
    and "\<And>t u. holding (pcs s t) \<Longrightarrow> holding (pcs s u) \<Longrightarrow> t = u"
    and "busy (queue s) \<longleftrightarrow> (\<exists>t. holding (pcs s t))"
    and "waiters (queue s) \<noteq> [] \<Longrightarrow> busy (queue s)"
    and "length (waiters (queue s)) \<le> imapQueueLimit + length (unbounded s (waiters (queue s)))"
  shows "queue_inv s"
  using assms unfolding queue_inv_def by blast

lemma queue_invD:
  assumes "queue_inv s"
  shows "distinct (map who (waiters (queue s)))"
    and "waiting (pcs s t) \<longleftrightarrow> t \<in> who ` set (waiters (queue s))"
    and "holding (pcs s t) \<Longrightarrow> holding (pcs s u) \<Longrightarrow> t = u"
    and "busy (queue s) \<longleftrightarrow> (\<exists>t. holding (pcs s t))"
    and "waiters (queue s) \<noteq> [] \<Longrightarrow> busy (queue s)"
    and "length (waiters (queue s)) \<le> imapQueueLimit + length (unbounded s (waiters (queue s)))"
  using assms unfolding queue_inv_def by blast+

lemma pc_simps [simp]:
  "holding Ready" "holding Owner" "\<not> holding Idle" "\<not> holding (Waiting f)"
  "waiting (Waiting f)" "\<not> waiting Idle" "\<not> waiting Ready" "\<not> waiting Owner"
  by (auto simp: holding_def waiting_def)

lemma holding_not_waiting: "holding p \<Longrightarrow> \<not> waiting p"
  by (auto simp: holding_def)

lemma queue_inv_idle: "queue_inv idle_sys"
  by (simp add: queue_inv_def idle_sys_def)

lemma unbounded_cong:
  "(\<And>w. w \<in> set ws \<Longrightarrow> pcs s (who w) = pcs s' (who w)) \<Longrightarrow> unbounded s ws = unbounded s' ws"
  unfolding unbounded_def by (rule filter_cong) auto

text \<open>The holder goes, and the connection goes to the next in the queue, or is free.\<close>

lemma queue_inv_release:
  assumes inv: "queue_inv s" and t: "holding (pcs s t)" and r: "release (queue s) = (w, q)"
  shows "queue_inv (s\<lparr>queue := q, pcs := hand_over w ((pcs s)(t := Idle))\<rparr>)"
proof (cases "waiters (queue s) = []")
  case True
  then have w: "w = None" "q = (queue s)\<lparr>busy := False\<rparr>" using r by (simp_all add: release_empty)
  have "\<not> holding (pcs s u)" if "u \<noteq> t" for u
    using that queue_invD(3) [OF inv t] by blast
  then show ?thesis
    using queue_invD(2) [OF inv] True w
    by (intro queue_invI) (auto simp: hand_over_def split: if_splits)
next
  case False
  then obtain pre v post where ws: "waiters (queue s) = pre @ v # post"
    and rel: "release (queue s) = (Some v, (queue s)\<lparr>waiters := pre @ post\<rparr>)"
    by (rule release_split)
  from rel r have q: "w = Some v" "q = (queue s)\<lparr>waiters := pre @ post\<rparr>" by simp_all
  let ?s' = "s\<lparr>queue := q, pcs := hand_over w ((pcs s)(t := Idle))\<rparr>"
  have pcs': "pcs ?s' = (pcs s)(t := Idle, who v := Ready)"
    by (simp add: q hand_over_def)
  have t': "t \<notin> who ` set (pre @ v # post)"
    using queue_invD(2) [OF inv, of t] holding_not_waiting [OF t] ws by simp
  have d: "distinct (map who (pre @ v # post))" using queue_invD(1) [OF inv] ws by simp
  have "unbounded ?s' (pre @ post) = unbounded s (pre @ post)"
    using t' d by (intro unbounded_cong) (auto simp: pcs' rev_image_eqI)
  then have len: "length (pre @ post) \<le> imapQueueLimit + length (unbounded ?s' (pre @ post))"
    using queue_invD(6) [OF inv] ws by (simp add: unbounded_def split: if_splits)
  have hold: "holding (pcs ?s' u) \<longleftrightarrow> u = who v" for u
    using queue_invD(3) [OF inv t, of u] t' by (auto simp: pcs')
  have wait: "waiting (pcs ?s' u) \<longleftrightarrow> u \<in> who ` set (pre @ post)" for u
    using queue_invD(2) [OF inv, of u] t' d ws by (auto simp: pcs')
  show ?thesis
  proof (rule queue_invI)
    show "busy (queue ?s') \<longleftrightarrow> (\<exists>t. holding (pcs ?s' t))"
      using queue_invD(5) [OF inv False] hold by (simp add: q)
    then show "waiters (queue ?s') \<noteq> [] \<Longrightarrow> busy (queue ?s')" using hold by blast
  qed (use d hold wait len in \<open>simp_all add: q\<close>)
qed

lemma queue_inv_withdraw:
  assumes inv: "queue_inv s" and t: "pcs s t = Waiting f"
    and ws': "remove_waiter t (waiters (queue s)) = Some ws'"
  shows "queue_inv (s\<lparr>queue := (queue s)\<lparr>waiters := ws'\<rparr>, pcs := (pcs s)(t := Idle)\<rparr>)"
proof -
  from remove_waiter_Some [OF ws'] obtain pre w post where
    ws: "waiters (queue s) = pre @ w # post" "who w = t" "ws' = pre @ post" by blast
  let ?s' = "s\<lparr>queue := (queue s)\<lparr>waiters := ws'\<rparr>, pcs := (pcs s)(t := Idle)\<rparr>"
  have d: "distinct (map who (pre @ w # post))" using queue_invD(1) [OF inv] ws by simp
  have "unbounded ?s' (pre @ post) = unbounded s (pre @ post)"
    using d ws(2) by (intro unbounded_cong) (auto simp: rev_image_eqI)
  then have len: "length (pre @ post) \<le> imapQueueLimit + length (unbounded ?s' (pre @ post))"
    using queue_invD(6) [OF inv] ws by (simp add: unbounded_def split: if_splits)
  have hold: "holding (pcs ?s' u) \<longleftrightarrow> holding (pcs s u)" for u
    using t by simp
  have wait: "waiting (pcs ?s' u) \<longleftrightarrow> u \<in> who ` set (pre @ post)" for u
    using queue_invD(2) [OF inv, of u] d ws by auto
  show ?thesis
  proof (rule queue_invI)
    show "holding (pcs ?s' u) \<Longrightarrow> holding (pcs ?s' v) \<Longrightarrow> u = v" for u v
      unfolding hold by (rule queue_invD(3) [OF inv])
    show "busy (queue ?s') \<longleftrightarrow> (\<exists>t. holding (pcs ?s' t))"
      unfolding hold using queue_invD(4) [OF inv] by simp
    show "waiters (queue ?s') \<noteq> [] \<Longrightarrow> busy (queue ?s')"
      using queue_invD(5) [OF inv] ws by simp
  qed (use d wait len ws(3) in \<open>simp_all del: fun_upd_apply\<close>)
qed

lemma queue_inv_park:
  assumes inv: "queue_inv s" and t: "pcs s t = Idle"
    and enter: "acquire_enter ctx fin \<lparr>who = t, background = b\<rparr> (queue s) = (Parked, q)"
    and f: "f \<longleftrightarrow> fin \<noteq> None"
  shows "queue_inv (s\<lparr>queue := q, pcs := (pcs s)(t := Waiting f)\<rparr>)"
proof -
  let ?w = "\<lparr>who = t, background = b\<rparr>"
  from enter f have q: "q = (queue s)\<lparr>waiters := waiters (queue s) @ [?w]\<rparr>" and busy: "busy (queue s)"
    and room: "f \<Longrightarrow> length (waiters (queue s)) < imapQueueLimit"
    by (auto simp: acquire_enter_def split: option.splits if_splits)
  let ?s' = "s\<lparr>queue := q, pcs := (pcs s)(t := Waiting f)\<rparr>"
  have fresh: "t \<notin> who ` set (waiters (queue s))"
    using queue_invD(2) [OF inv, of t] t by simp
  have "unbounded ?s' (waiters (queue s)) = unbounded s (waiters (queue s))"
    using fresh by (intro unbounded_cong) auto
  then have len: "length (waiters q) \<le> imapQueueLimit + length (unbounded ?s' (waiters q))"
    using queue_invD(6) [OF inv] room by (cases f) (auto simp: q unbounded_def)
  have hold: "holding (pcs ?s' u) \<longleftrightarrow> holding (pcs s u)" for u
    using t by simp
  have wait: "waiting (pcs ?s' u) \<longleftrightarrow> u \<in> who ` set (waiters q)" for u
    using queue_invD(2) [OF inv, of u] by (auto simp: q)
  show ?thesis
  proof (rule queue_invI)
    show "holding (pcs ?s' u) \<Longrightarrow> holding (pcs ?s' v) \<Longrightarrow> u = v" for u v
      unfolding hold by (rule queue_invD(3) [OF inv])
    show "busy (queue ?s') \<longleftrightarrow> (\<exists>t. holding (pcs ?s' t))"
      unfolding hold using queue_invD(4) [OF inv] by (simp add: q)
    show "distinct (map who (waiters (queue ?s')))"
      using queue_invD(1) [OF inv] fresh by (simp add: q)
  qed (use busy wait len in \<open>simp_all add: q del: fun_upd_apply\<close>)
qed

lemma queue_inv_take:
  assumes inv: "queue_inv s" and free: "\<not> busy (queue s)"
  shows "queue_inv (s\<lparr>queue := (queue s)\<lparr>busy := True\<rparr>, pcs := (pcs s)(t := Owner)\<rparr>)"
proof -
  have none: "waiters (queue s) = []" using queue_invD(5) [OF inv] free by blast
  have "\<not> holding (pcs s u)" for u using queue_invD(4) [OF inv] free by blast
  then show ?thesis
    using none queue_invD(2) [OF inv] by (intro queue_invI) (auto split: if_splits)
qed

lemma queue_inv_wake:
  assumes inv: "queue_inv s" and t: "pcs s t = Ready"
  shows "queue_inv (s\<lparr>pcs := (pcs s)(t := Owner)\<rparr>)"
proof -
  let ?s' = "s\<lparr>pcs := (pcs s)(t := Owner)\<rparr>"
  have "t \<notin> who ` set (waiters (queue s))" using queue_invD(2) [OF inv, of t] t by simp
  then have "unbounded ?s' (waiters (queue s)) = unbounded s (waiters (queue s))"
    by (intro unbounded_cong) auto
  moreover have "holding (pcs ?s' u) \<longleftrightarrow> holding (pcs s u)" "waiting (pcs ?s' u) \<longleftrightarrow> waiting (pcs s u)" for u
    using t by simp_all
  ultimately show ?thesis
    using inv by (auto simp: queue_inv_def simp del: fun_upd_apply)
qed

lemma qstep_inv: "qstep s e s' \<Longrightarrow> queue_inv s \<Longrightarrow> queue_inv s'"
proof (induction rule: qstep.induct)
  case (refused s t ctx fin b e q)
  then have "q = queue s" by (auto simp: acquire_enter_def split: option.splits if_splits)
  with refused show ?case by simp
next
  case (taken s t ctx fin b q)
  then have "q = (queue s)\<lparr>busy := True\<rparr>" "\<not> busy (queue s)"
    by (auto simp: acquire_enter_def split: option.splits if_splits)
  with taken queue_inv_take show ?case by simp
next
  case (parked s t ctx fin b q)
  then show ?case by (intro queue_inv_park) auto
next
  case (woken s t)
  then show ?case by (intro queue_inv_wake)
next
  case (left s t f w q)
  then have "t \<in> who ` set (waiters (queue s))" using queue_invD(2) [of s t] by simp
  then obtain ws' where ws': "remove_waiter t (waiters (queue s)) = Some ws'"
    by (metis option.exhaust remove_waiter_None)
  with left(2) have "w = None" "q = (queue s)\<lparr>waiters := ws'\<rparr>" by (auto simp: acquire_leave_def)
  with queue_inv_withdraw [OF left(3,1) ws'] show ?case by (simp add: hand_over_def)
next
  case (passed_on s t w q)
  then have "t \<notin> who ` set (waiters (queue s))" using queue_invD(2) [of s t] by simp
  then have "release (queue s) = (w, q)"
    using passed_on(2) by (simp add: acquire_leave_def remove_waiter_None [THEN iffD2])
  with passed_on queue_inv_release show ?case by simp
next
  case (released s t w q)
  with queue_inv_release show ?case by simp
qed

lemma reachable_queue_inv: "queue_reachable s \<Longrightarrow> queue_inv s"
  by (induction rule: queue_reachable.induct) (auto intro: queue_inv_idle qstep_inv)

subsection \<open>No interactive caller starves\<close>

text \<open>
  An interactive waiter's rank counts the interactive waiters before it. Every hand-over
  either gives it the connection or lowers its rank by one, and nothing raises it.
\<close>

fun rank :: "nat \<Rightarrow> imapWaiter list \<Rightarrow> nat" where
  "rank t [] = 0"
| "rank t (w # ws) = (if who w = t then 0 else (if background w then 0 else 1) + rank t ws)"

definition interactive_waits :: "nat \<Rightarrow> queue_sys \<Rightarrow> bool" where
  "interactive_waits t s \<longleftrightarrow> (\<exists>w \<in> set (waiters (queue s)). who w = t \<and> \<not> background w)"

inductive qrun :: "queue_sys \<Rightarrow> queue_event list \<Rightarrow> queue_sys \<Rightarrow> bool" where
  stop: "qrun s [] s"
| more: "qstep s e s' \<Longrightarrow> qrun s' es s'' \<Longrightarrow> qrun s (e # es) s''"

inductive_cases qrun_Nil: "qrun s [] s'"
inductive_cases qrun_Cons: "qrun s (e # es) s'"

definition hand_overs :: "queue_event list \<Rightarrow> nat" where
  "hand_overs es = length (filter (\<lambda>e. \<exists>t. e = Hands t) es)"

lemma rank_append:
  "t \<notin> who ` set pre \<Longrightarrow> rank t (pre @ post) = length (filter (\<lambda>w. \<not> background w) pre) + rank t post"
  by (induction pre) auto

lemma rank_remove_le: "who w \<noteq> t \<Longrightarrow> rank t (pre @ post) \<le> rank t (pre @ w # post)"
  by (induction pre) auto

lemma rank_snoc: "t \<in> who ` set ws \<Longrightarrow> rank t (ws @ vs) = rank t ws"
  by (induction ws) auto

text \<open>The hand-over from the waiter's point of view.\<close>

lemma release_rank:
  assumes t: "v \<in> set (waiters q)" "who v = t" "\<not> background v" and d: "distinct (map who (waiters q))"
    and r: "release q = (w, q')"
  shows "(w = Some v \<and> rank t (waiters q) = 0) \<or>
    (v \<in> set (waiters q') \<and> Suc (rank t (waiters q')) = rank t (waiters q))"
proof -
  have "waiters q \<noteq> []" using t(1) by auto
  then obtain pre u post where ws: "waiters q = pre @ u # post"
    and rel: "release q = (Some u, q\<lparr>waiters := pre @ post\<rparr>)"
    and pre: "\<forall>x \<in> set pre. background x"
    and bg: "background u \<longrightarrow> pre = [] \<and> (\<forall>x \<in> set post. background x)"
    by (rule release_split)
  have u: "\<not> background u" using bg ws t by auto
  have vpre: "v \<notin> set pre" using pre t(3) by auto
  have tpre: "t \<notin> who ` set pre"
    using d ws t(1,2) vpre by (auto simp: rev_image_eqI)
  have f: "filter (\<lambda>w. \<not> background w) pre = []" using pre by (simp add: filter_empty_conv)
  show ?thesis
  proof (cases "u = v")
    case True
    then show ?thesis using rel r ws t(2) by (simp add: rank_append [OF tpre] f)
  next
    case False
    then have "v \<in> set post" using ws t(1) vpre by auto
    moreover have "who u \<noteq> t" using d ws t(2) \<open>v \<in> set post\<close> by (auto simp: rev_image_eqI)
    ultimately show ?thesis
      using rel r ws u by (auto simp: rank_append [OF tpre] f)
  qed
qed

lemma hand_over_rank:
  assumes inv: "queue_inv s" and t: "interactive_waits t s" and h: "holding (pcs s u)"
    and r: "release (queue s) = (w, q)"
    and s': "s' = s\<lparr>queue := q, pcs := hand_over w ((pcs s)(u := Idle))\<rparr>"
  shows "pcs s' t = Ready \<or>
    (interactive_waits t s' \<and> Suc (rank t (waiters (queue s'))) = rank t (waiters (queue s)))"
proof -
  from t obtain v where v: "v \<in> set (waiters (queue s))" "who v = t" "\<not> background v"
    unfolding interactive_waits_def by blast
  from release_rank [OF v queue_invD(1) [OF inv] r] show ?thesis
  proof
    assume "w = Some v \<and> rank t (waiters (queue s)) = 0"
    then show ?thesis using v(2) s' by (simp add: hand_over_def)
  next
    assume "v \<in> set (waiters q) \<and> Suc (rank t (waiters q)) = rank t (waiters (queue s))"
    then show ?thesis using v s' by (auto simp: interactive_waits_def)
  qed
qed

lemma qstep_rank:
  assumes "qstep s e s'" and "queue_inv s" and "interactive_waits t s" and "e \<noteq> Leaves t"
  shows "pcs s' t = Ready \<or>
    (interactive_waits t s' \<and>
     rank t (waiters (queue s')) + hand_overs [e] \<le> rank t (waiters (queue s)))"
  using assms
proof (induction rule: qstep.induct)
  case (refused s u ctx fin b e q)
  then have "q = queue s" by (auto simp: acquire_enter_def split: option.splits if_splits)
  with refused show ?case by (simp add: interactive_waits_def hand_overs_def)
next
  case (taken s u ctx fin b q)
  then have "q = (queue s)\<lparr>busy := True\<rparr>"
    by (auto simp: acquire_enter_def split: option.splits if_splits)
  with taken show ?case by (simp add: interactive_waits_def hand_overs_def)
next
  case (parked s u ctx fin b q)
  then have q: "waiters q = waiters (queue s) @ [\<lparr>who = u, background = b\<rparr>]"
    by (auto simp: acquire_enter_def split: option.splits if_splits)
  have "t \<in> who ` set (waiters (queue s))" using parked by (auto simp: interactive_waits_def)
  then have "rank t (waiters q) = rank t (waiters (queue s))" unfolding q by (rule rank_snoc)
  with parked q show ?case by (auto simp: interactive_waits_def hand_overs_def)
next
  case (woken s u)
  then show ?case by (simp add: interactive_waits_def hand_overs_def)
next
  case (left s u f w q)
  then have "u \<in> who ` set (waiters (queue s))" using queue_invD(2) [of s u] by simp
  then obtain ws' where ws': "remove_waiter u (waiters (queue s)) = Some ws'"
    by (metis option.exhaust remove_waiter_None)
  with left(2) have q: "w = None" "waiters q = ws'" by (auto simp: acquire_leave_def)
  from remove_waiter_Some [OF ws'] obtain pre x post where
    ws: "waiters (queue s) = pre @ x # post" "who x = u" "ws' = pre @ post" by blast
  have "u \<noteq> t" using left by simp
  then have "rank t ws' \<le> rank t (waiters (queue s))" using ws rank_remove_le by simp
  with left q ws \<open>u \<noteq> t\<close> show ?case by (auto simp: interactive_waits_def hand_overs_def)
next
  case (passed_on s u w q)
  then have "u \<notin> who ` set (waiters (queue s))" using queue_invD(2) [of s u] by simp
  then have "release (queue s) = (w, q)"
    using passed_on(2) by (simp add: acquire_leave_def remove_waiter_None [THEN iffD2])
  from hand_over_rank [where u = u, OF passed_on(3,4) _ this refl] passed_on(1) show ?case
    by (auto simp: hand_overs_def)
next
  case (released s u w q)
  from hand_over_rank [where u = u, OF released(3,4) _ released(2) refl] released(1) show ?case
    by (auto simp: hand_overs_def)
qed

lemma qrun_hands_over:
  assumes "qrun s es s'" and "queue_inv s" and "interactive_waits t s" and "Leaves t \<notin> set es"
    and "rank t (waiters (queue s)) < hand_overs es"
  shows "\<exists>es1 s1 es2. es = es1 @ es2 \<and> qrun s es1 s1 \<and> qrun s1 es2 s' \<and> pcs s1 t = Ready"
  using assms
proof (induction rule: qrun.induct)
  case (stop s)
  then show ?case by (simp add: hand_overs_def)
next
  case (more s e s1 es s')
  have e: "qrun s [e] s1" using more.hyps(1) by (auto intro: qrun.intros)
  from qstep_rank [OF more.hyps(1) more.prems(1,2)] more.prems(3)
  consider "pcs s1 t = Ready"
    | "interactive_waits t s1" "rank t (waiters (queue s1)) + hand_overs [e] \<le> rank t (waiters (queue s))"
    by fastforce
  then show ?case
  proof cases
    case 1
    with e more.hyps(2) show ?thesis
      by (intro exI [of _ "[e]"] exI [of _ s1] exI [of _ es]) simp
  next
    case 2
    have "hand_overs (e # es) = hand_overs [e] + hand_overs es" by (simp add: hand_overs_def)
    with 2(2) more.prems(4) have "rank t (waiters (queue s1)) < hand_overs es" by linarith
    with more.IH [OF qstep_inv [OF more.hyps(1) more.prems(1)] 2(1)] more.prems(3)
    obtain es1 s2 es2 where "es = es1 @ es2" "qrun s1 es1 s2" "qrun s2 es2 s'" "pcs s2 t = Ready"
      by auto
    with more.hyps(1) show ?thesis
      by (intro exI [of _ "e # es1"] exI [of _ s2] exI [of _ es2]) (auto intro: qrun.intros)
  qed
qed

subsection \<open>Properties\<close>

text \<open>A run on which the hypotheses below hold: one owner, one background and one interactive waiter.\<close>

definition sample_queue :: queue_sys where
  "sample_queue = \<lparr>queue = \<lparr>busy = True, waiters = [\<lparr>who = 1, background = True\<rparr>, \<lparr>who = 2, background = False\<rparr>]\<rparr>,
     pcs = (\<lambda>_. Idle)(0 := Owner, 1 := Waiting True, 2 := Waiting True)\<rparr>"

lemma sample_queue_reachable: "queue_reachable sample_queue"
proof -
  let ?s1 = "\<lparr>queue = \<lparr>busy = True, waiters = []\<rparr>, pcs = (\<lambda>_. Idle)(0 := Owner)\<rparr>"
  let ?s2 = "\<lparr>queue = \<lparr>busy = True, waiters = [\<lparr>who = 1, background = True\<rparr>]\<rparr>,
    pcs = (\<lambda>_. Idle)(0 := Owner, 1 := Waiting True)\<rparr>"
  have "qstep idle_sys (Enters 0) ?s1"
    using qstep.taken [of idle_sys 0 None "Some False" False "\<lparr>busy = True, waiters = []\<rparr>"]
    by (simp add: idle_sys_def acquire_enter_def)
  then have 1: "queue_reachable ?s1" by (rule queue_reachable.step [OF queue_reachable.start])
  have "qstep ?s1 (Parks 1) ?s2"
    using qstep.parked [of ?s1 1 None "Some False" True "\<lparr>busy = True, waiters = [\<lparr>who = 1, background = True\<rparr>]\<rparr>"]
    by (simp add: acquire_enter_def imapQueueLimit_def)
  with 1 have 2: "queue_reachable ?s2" by (rule queue_reachable.step)
  have "qstep ?s2 (Parks 2) sample_queue"
    using qstep.parked [of ?s2 2 None "Some False" False
        "\<lparr>busy = True, waiters = [\<lparr>who = 1, background = True\<rparr>, \<lparr>who = 2, background = False\<rparr>]\<rparr>"]
    by (simp add: acquire_enter_def imapQueueLimit_def sample_queue_def)
  with 2 show ?thesis by (rule queue_reachable.step)
qed

text \<open>
  C3: at most one caller holds an account's IMAP connection, in every interleaving of callers
  entering, waking, withdrawing and releasing; and while anyone waits someone holds it, so a
  hand-over is still to come and no wake-up is lost.
\<close>

theorem imap_connection_exclusive:
  assumes "queue_reachable s"
  shows "(\<forall>t u. holding (pcs s t) \<longrightarrow> holding (pcs s u) \<longrightarrow> t = u) \<and>
    ((\<exists>t. waiting (pcs s t)) \<longrightarrow> (\<exists>u. holding (pcs s u)))"
proof -
  note inv = reachable_queue_inv [OF assms]
  have "\<exists>u. holding (pcs s u)" if "waiting (pcs s t)" for t
  proof -
    have "waiters (queue s) \<noteq> []" using queue_invD(2) [OF inv, of t] that by auto
    then show ?thesis using queue_invD(4,5) [OF inv] by blast
  qed
  then show ?thesis using queue_invD(3) [OF inv] by blast
qed

theorem imap_connection_exclusive_witness:
  "holding (pcs sample_queue 0) \<and> waiting (pcs sample_queue 2) \<and>
   {t. holding (pcs sample_queue t)} = {0}"
proof -
  have h: "holding (pcs sample_queue 0)" and w: "waiting (pcs sample_queue 2)"
    by (simp_all add: sample_queue_def)
  have "{t. holding (pcs sample_queue t)} = {0}"
    using imap_connection_exclusive [OF sample_queue_reachable] h by blast
  with h w show ?thesis by simp
qed

text \<open>
  At most 64 callers with a lifetime wait: the queue is never longer than its limit and the
  waiters that came with no \<^verbatim>\<open>done\<close> channel.
\<close>

lemma imap_queue_bounded:
  assumes "queue_reachable s"
  shows "length (filter (\<lambda>w. pcs s (who w) = Waiting True) (waiters (queue s))) \<le> 64"
proof -
  let ?ws = "waiters (queue s)"
  note inv = reachable_queue_inv [OF assms]
  have "pcs s (who w) = Waiting True \<or> pcs s (who w) = Waiting False" if "w \<in> set ?ws" for w
    using queue_invD(2) [OF inv, of "who w"] that unfolding waiting_def by (metis (full_types) imageI)
  then have "filter (\<lambda>w. pcs s (who w) = Waiting True) ?ws = filter (\<lambda>w. \<not> pcs s (who w) = Waiting False) ?ws"
    by (intro filter_cong) auto
  moreover have "length (filter (\<lambda>w. pcs s (who w) = Waiting False) ?ws) +
      length (filter (\<lambda>w. \<not> pcs s (who w) = Waiting False) ?ws) = length ?ws"
    by (rule sum_length_filter_compl)
  ultimately show ?thesis
    using queue_invD(6) [OF inv] by (simp add: unbounded_def imapQueueLimit_def)
qed

lemma imap_queue_bounded_witness:
  "length (filter (\<lambda>w. pcs sample_queue (who w) = Waiting True) (waiters (queue sample_queue))) = 2 \<and>
   length (filter (\<lambda>w. pcs sample_queue (who w) = Waiting True) (waiters (queue sample_queue))) \<le> 64"
  using imap_queue_bounded [OF sample_queue_reachable] by (simp add: sample_queue_def)



end
