(* ===== verification/Seal.thy ===== *)
theory Seal
  imports KV
begin

text \<open>
  Sealed values and keyed names (\<^verbatim>\<open>internal/seal/seal.go\<close>), and the errors of the data
  file's components.

  What the sources take from Go's crypto packages is symbolic: AES-256-GCM is an ideal
  authenticated encryption, so a sealed value is the term \<open>Sealed f s a p\<close> (leading
  format byte, sealing secret, authenticated format byte, plaintext) or \<open>Raw\<close> bytes no
  key made; the random nonce leaves no trace in the term. The derivations the code only
  calls (HKDF, HMAC, the KEM and the hash naming a public key) are the fields of
  \<open>crypto\<close>, an argument of every definition that uses them.
\<close>

datatype err =
    ErrFormat | ErrOpen | ErrLocked | ErrNotFound | ErrExists | ErrForbidden | ErrPrecondition
  | ErrUIDConflict | ErrJSON | ErrNumber | ErrNotFed | ErrPublicKey | ErrRootKey | ErrPanic
  | ErrOther string
  | ErrHTTP nat err
  | ErrDav string

type_synonym byte = "8 word"

record crypto =
  hkdf :: "string \<Rightarrow> string \<Rightarrow> string"
  mac :: "string \<Rightarrow> string \<Rightarrow> string"
  kem_public :: "string \<Rightarrow> string"
  kem_public_ok :: "string \<Rightarrow> bool"
  kem_private_ok :: "string \<Rightarrow> bool"
  idOf :: "string \<Rightarrow> string"

definition KeySize :: nat where
  "KeySize = 32"

definition ByInstance :: byte where
  "ByInstance = 1"

definition ByAccount :: byte where
  "ByAccount = 2"

record Key =
  key_secret :: string
  key_format :: byte

datatype 'p sealed = Sealed byte string byte 'p | Raw string

definition NewKey :: "string \<Rightarrow> Key" where
  "NewKey s = \<lparr>key_secret = s, key_format = ByInstance\<rparr>"

definition NewAccountKey :: "string \<Rightarrow> Key" where
  "NewAccountKey s = \<lparr>key_secret = s, key_format = ByAccount\<rparr>"

fun Format :: "'p sealed \<Rightarrow> byte" where
  "Format (Sealed f s a p) = f"
| "Format (Raw []) = 0"
| "Format (Raw (c # cs)) = of_nat (of_char c)"

definition Seal :: "Key \<Rightarrow> 'p \<Rightarrow> 'p sealed" where
  "Seal k p = Sealed (key_format k) (key_secret k) (key_format k) p"

definition Open :: "Key \<Rightarrow> 'p sealed \<Rightarrow> err + 'p" where
  "Open k v =
     (if Format v \<noteq> ByInstance \<and> Format v \<noteq> ByAccount then Inl ErrFormat
      else (case v of
          Sealed f s a p \<Rightarrow> if s = key_secret k \<and> a = f then Inr p else Inl ErrOpen
        | Raw _ \<Rightarrow> Inl ErrOpen))"

subsection \<open>Roots and names\<close>

record Root =
  root_secret :: string
  root_format :: byte

definition AccountRoot :: "string \<Rightarrow> Root" where
  "AccountRoot s = \<lparr>root_secret = s, root_format = ByAccount\<rparr>"

text \<open>The two base64 alphabets are tried in turn; what they decode is the library's.\<close>

definition ParseRoot :: "(string \<Rightarrow> string option) \<Rightarrow> (string \<Rightarrow> string option) \<Rightarrow> string \<Rightarrow> err + Root" where
  "ParseRoot std url text =
     (let raw = (case std text of Some r \<Rightarrow> Some r | None \<Rightarrow> url text)
      in case raw of
          Some r \<Rightarrow> if length r \<noteq> KeySize then Inl ErrRootKey
            else Inr \<lparr>root_secret = r, root_format = ByInstance\<rparr>
        | None \<Rightarrow> Inl ErrRootKey)"

definition derive :: "crypto \<Rightarrow> Root \<Rightarrow> string \<Rightarrow> string" where
  "derive C r info = hkdf C (root_secret r) info"

definition Root_Key :: "crypto \<Rightarrow> Root \<Rightarrow> string \<Rightarrow> Key" where
  "Root_Key C r purpose =
     \<lparr>key_secret = derive C r (''alborz seal '' @ purpose), key_format = root_format r\<rparr>"

definition Root_Names :: "crypto \<Rightarrow> Root \<Rightarrow> string" where
  "Root_Names C r = derive C r ''alborz names''"

definition hex_digit :: "nat \<Rightarrow> char" where
  "hex_digit n = ''0123456789abcdef'' ! (n mod 16)"

definition hex_encode :: "string \<Rightarrow> string" where
  "hex_encode bs = concat (map (\<lambda>c. [hex_digit (of_char c div 16), hex_digit (of_char c)]) bs)"

definition Names_Of :: "crypto \<Rightarrow> string \<Rightarrow> string \<Rightarrow> string" where
  "Names_Of C n s = hex_encode (take 16 (mac C n s))"

subsection \<open>Sealing\<close>

lemma formats_differ [simp]: "ByInstance \<noteq> ByAccount" "ByAccount \<noteq> ByInstance" "ByInstance \<noteq> 0" "ByAccount \<noteq> 0"
  by (simp_all add: ByInstance_def ByAccount_def)

lemma Format_Seal [simp]: "Format (Seal k p) = key_format k"
  by (simp add: Seal_def)

lemma Open_Seal:
  "key_format k = ByInstance \<or> key_format k = ByAccount \<Longrightarrow> Open k (Seal k p) = Inr p"
  by (auto simp: Open_def Seal_def)

lemma Open_Seal_iff:
  "Open k (Seal k' p) = Inr p' \<longleftrightarrow>
     key_secret k = key_secret k' \<and> p' = p \<and> (key_format k' = ByInstance \<or> key_format k' = ByAccount)"
  by (auto simp: Open_def Seal_def)

lemma Open_Inr:
  "Open k v = Inr p \<longleftrightarrow>
     (\<exists>f. v = Sealed f (key_secret k) f p \<and> (f = ByInstance \<or> f = ByAccount))"
  by (cases v) (auto simp: Open_def)

lemma length_hex_encode [simp]: "length (hex_encode bs) = 2 * length bs"
  by (induction bs) (auto simp: hex_encode_def)

lemma hex_digit_in: "hex_digit n \<in> set ''0123456789abcdef''"
  unfolding hex_digit_def by (rule nth_mem) simp

lemma set_hex_encode: "set (hex_encode bs) \<subseteq> set ''0123456789abcdef''"
proof
  fix c
  assume "c \<in> set (hex_encode bs)"
  then obtain n where "c = hex_digit n" by (auto simp: hex_encode_def)
  then show "c \<in> set ''0123456789abcdef''" by (simp only: hex_digit_in)
qed

text \<open>A keyed name: 32 hexadecimal digits, for a mac of at least 16 bytes.\<close>

definition named :: "crypto \<Rightarrow> bool" where
  "named C \<longleftrightarrow> (\<forall>n s. 16 \<le> length (mac C n s))"

lemma length_Names_Of: "named C \<Longrightarrow> length (Names_Of C n s) = 32"
  by (simp add: Names_Of_def named_def)

lemma Names_Of_chars: "c \<in> set (Names_Of C n s) \<Longrightarrow> c \<in> set ''0123456789abcdef''"
  using set_hex_encode unfolding Names_Of_def by blast

lemma Names_Of_no_sep [simp]:
  "CHR ''/'' \<notin> set (Names_Of C n s)" "CHR 0x00 \<notin> set (Names_Of C n s)"
  by (auto dest: Names_Of_chars)

subsection \<open>A concrete derivation\<close>

text \<open>Injective stand-ins for the derivations, on which the hypotheses of the theorems are met.\<close>

definition sample_crypto :: crypto where
  "sample_crypto = \<lparr>hkdf = (\<lambda>s i. s @ i), mac = (\<lambda>n s. s @ replicate 16 CHR ''.''),
     kem_public = (\<lambda>b. ''pub'' @ b), kem_public_ok = (\<lambda>_. True), kem_private_ok = (\<lambda>_. True),
     idOf = (\<lambda>p. ''id'' @ p)\<rparr>"

lemma named_sample_crypto: "named sample_crypto"
  by (simp add: named_def sample_crypto_def)

definition sample_root :: Root where
  "sample_root = \<lparr>root_secret = replicate 32 CHR ''r'', root_format = ByInstance\<rparr>"

end
