(* ===== verification/Keyring.thy ===== *)
theory Keyring
  imports Seal
begin

text \<open>
  Every account's key pair and, while a login or a lease holds it, its own key
  (\<^verbatim>\<open>internal/keyring/keyring.go\<close>).

  The ring's accounts are records the operations read and write under \<^verbatim>\<open>r.mu\<close>; each
  operation here is one such critical section, from the ring to a result and the ring
  after it. A private key is its bytes; \<open>kem_public\<close> gives its public half. A wrap is the
  term \<open>HpkeBox pub info secret\<close>, which opens with the private half and the same info
  (HPKE, symbolic as the seal is). \<^verbatim>\<open>kem.GenerateKey()\<close> is the argument \<open>gen\<close> and
  \<^verbatim>\<open>time.Now()\<close> the argument \<open>now\<close>. The conversion of a slice to a key array panics on a
  short slice and reads 32 bytes of a long one. The cache \<open>akeys\<close> of keys derived from the
  own key is kept, as its reset is what makes it right; the cache of instance keys is not,
  its root never changes.
\<close>

definition Owner :: string where
  "Owner = ''alborz.keys''"

datatype hpke_box = HpkeBox string string string

definition hpke_open :: "crypto \<Rightarrow> string \<Rightarrow> string \<Rightarrow> hpke_box \<Rightarrow> string option" where
  "hpke_open C priv info b =
     (case b of HpkeBox pub i s \<Rightarrow> if pub = kem_public C priv \<and> i = info then Some s else None)"

record Wrap =
  To :: string
  WKey :: hpke_box

record retiredPair =
  rID :: string
  rPrivate :: "string sealed"

record pairRecord =
  pPublic :: string
  pPrivate :: "string sealed"
  pRetired :: "retiredPair list"

record account =
  pub :: "string option"
  aid :: string
  priv :: "string sealed"
  opened :: "string option"
  retired :: "retiredPair list"
  own :: "string option"
  old :: "string list"
  akeys :: "(string \<times> Key) list"
  on :: bool
  holds :: int
  until :: time

definition zero_account :: account where
  "zero_account = \<lparr>pub = None, aid = [], priv = Raw [], opened = None, retired = [], own = None,
     old = [], akeys = [], on = False, holds = 0, until = 0\<rparr>"

record ring =
  rdb :: "(pairRecord, err) tx"
  rroot :: Root
  accounts :: "string \<Rightarrow> account option"

subsection \<open>An account\<close>

definition take_pair :: "crypto \<Rightarrow> pairRecord \<Rightarrow> account \<Rightarrow> err + account" where
  "take_pair C rec a =
     (if \<not> kem_public_ok C (pPublic rec) then Inl ErrPublicKey
      else Inr (a\<lparr>pub := Some (pPublic rec), aid := idOf C (pPublic rec), priv := pPrivate rec,
                  retired := pRetired rec, on := (Format (pPrivate rec) = ByAccount)\<rparr>))"

definition acc_record :: "account \<Rightarrow> err + pairRecord" where
  "acc_record a = (case pub a of None \<Rightarrow> Inl ErrPanic
     | Some p \<Rightarrow> Inr \<lparr>pPublic = p, pPrivate = priv a, pRetired = retired a\<rparr>)"

definition expire :: "time \<Rightarrow> account \<Rightarrow> account" where
  "expire now a =
     (if holds a > 0 \<or> now < until a then a
      else a\<lparr>own := None, old := [], akeys := [],
             opened := (if Format (priv a) = ByAccount then None else opened a),
             on := (Format (priv a) = ByAccount)\<rparr>)"

definition acc_key :: "crypto \<Rightarrow> string \<Rightarrow> string \<Rightarrow> account \<Rightarrow> Key \<times> account" where
  "acc_key C secret purpose a = (case map_of (akeys a) purpose of
       Some k \<Rightarrow> (k, a)
     | None \<Rightarrow> let k = Root_Key C (AccountRoot secret) purpose in (k, a\<lparr>akeys := (purpose, k) # akeys a\<rparr>))"

fun open_old :: "crypto \<Rightarrow> string list \<Rightarrow> string \<Rightarrow> 'p sealed \<Rightarrow> err + 'p" where
  "open_old C [] purpose v = Inl ErrLocked"
| "open_old C (o1 # os) purpose v = (case Open (Root_Key C (AccountRoot o1) purpose) v of
       Inr p \<Rightarrow> Inr p
     | Inl _ \<Rightarrow> open_old C os purpose v)"

definition acc_open :: "crypto \<Rightarrow> Root \<Rightarrow> account \<Rightarrow> string \<Rightarrow> 'p sealed \<Rightarrow> (err + 'p) \<times> account" where
  "acc_open C root a purpose v =
     (if Format v \<noteq> ByAccount then (Open (Root_Key C root purpose) v, a)
      else (case own a of
          None \<Rightarrow> (open_old C (old a) purpose v, a)
        | Some s \<Rightarrow> (case acc_key C s purpose a of (k, a') \<Rightarrow>
            (case Open k v of
                Inr p \<Rightarrow> (Inr p, a')
              | Inl _ \<Rightarrow> (open_old C (old a) purpose v, a')))))"

definition parse_private :: "crypto \<Rightarrow> Root \<Rightarrow> account \<Rightarrow> string sealed \<Rightarrow> string option \<times> account" where
  "parse_private C root a v = (case acc_open C root a Owner v of
       (Inl _, a') \<Rightarrow> (None, a')
     | (Inr raw, a') \<Rightarrow> (if kem_private_ok C raw then Some raw else None, a'))"

definition privateKey :: "crypto \<Rightarrow> Root \<Rightarrow> account \<Rightarrow> string option \<times> account" where
  "privateKey C root a =
     (if opened a = None \<and> pub a \<noteq> None
      then (case parse_private C root a (priv a) of (p, a') \<Rightarrow> (p, a'\<lparr>opened := p\<rparr>))
      else (opened a, a))"

text \<open>The loop of \<^verbatim>\<open>settle\<close> over the retired pairs: one a key at hand opens goes under the target.\<close>

fun reseal_retired :: "crypto \<Rightarrow> Root \<Rightarrow> Key \<Rightarrow> account \<Rightarrow> retiredPair list \<Rightarrow> retiredPair list \<times> account" where
  "reseal_retired C root target a [] = ([], a)"
| "reseal_retired C root target a (o1 # os) = (case parse_private C root a (rPrivate o1) of
     (p, a1) \<Rightarrow> (case reseal_retired C root target a1 os of
       (os', a2) \<Rightarrow>
         ((case p of None \<Rightarrow> o1 | Some b \<Rightarrow> o1\<lparr>rPrivate := Seal target b\<rparr>) # os', a2)))"

text \<open>The key \<^verbatim>\<open>settle\<close> seals the pair under; \<open>None\<close> while the own key it asks for is not at hand.\<close>

definition settle_target :: "crypto \<Rightarrow> Root \<Rightarrow> account \<Rightarrow> Key option \<times> account" where
  "settle_target C root a =
     (if on a then (case own a of None \<Rightarrow> (None, a)
        | Some s \<Rightarrow> (case acc_key C s Owner a of (k, a') \<Rightarrow> (Some k, a')))
      else (Some (Root_Key C root Owner), a))"

text \<open>The rest of \<^verbatim>\<open>settle\<close>, once the private key \<open>pk\<close> (\<open>None\<close> where there is no pair yet) is open.\<close>

definition settle_pair :: "crypto \<Rightarrow> Root \<Rightarrow> err + string \<Rightarrow> Key \<Rightarrow> string option \<Rightarrow> account \<Rightarrow>
    (err + bool) \<times> account" where
  "settle_pair C root gen target pk a = (case reseal_retired C root target a (retired a) of
     (ret, a1) \<Rightarrow>
       (let a2 = a1\<lparr>retired := ret\<rparr>;
            kept = (case pk of Some b \<Rightarrow> if on a2 then ret @ [\<lparr>rID = aid a2, rPrivate = Seal target b\<rparr>] else ret
                    | None \<Rightarrow> ret);
            pk' = (if on a2 then None else pk)
        in case (case pk' of Some b \<Rightarrow> Inr b | None \<Rightarrow> gen) of
            Inl e \<Rightarrow> (Inl e, a2)
          | Inr b \<Rightarrow>
              (case take_pair C \<lparr>pPublic = kem_public C b, pPrivate = Seal target b, pRetired = kept\<rparr> a2 of
                  Inl e \<Rightarrow> (Inl e, a2)
                | Inr a3 \<Rightarrow> (Inr True, a3\<lparr>opened := Some b, on := (key_format target = ByAccount)\<rparr>))))"

definition settle :: "crypto \<Rightarrow> Root \<Rightarrow> err + string \<Rightarrow> account \<Rightarrow> (err + bool) \<times> account" where
  "settle C root gen a = (case settle_target C root a of
       (None, a1) \<Rightarrow> (Inr False, a1)
     | (Some target, a1) \<Rightarrow>
         if pub a1 \<noteq> None \<and> \<not> isl (Open target (priv a1)) then (Inr False, a1)
         else (case privateKey C root a1 of (pk, a2) \<Rightarrow>
           if pk = None \<and> pub a2 \<noteq> None then (Inr False, a2)
           else settle_pair C root gen target pk a2))"

definition acc_locked :: "crypto \<Rightarrow> Root \<Rightarrow> account \<Rightarrow> bool \<times> account" where
  "acc_locked C root a =
     (if \<not> on a then (False, a)
      else if own a = None then (True, a)
      else if pub a = None then (False, a)
      else (case privateKey C root a of (p, a') \<Rightarrow> (p = None, a')))"

subsection \<open>The ring\<close>

definition Ring_New :: "crypto \<Rightarrow> (pairRecord, err) tx \<Rightarrow> Root \<Rightarrow> err + ring" where
  "Ring_New C db root =
     foldE (\<lambda>(k, rec) r. bindE (take_pair C rec zero_account)
         (\<lambda>a. Inr (r\<lparr>accounts := (accounts r)(TrimPrefix (Owner @ ''/'') k := Some a)\<rparr>)))
       (kv_scan (Owner @ ''/'') db) \<lparr>rdb = db, rroot = root, accounts = (\<lambda>_. None)\<rparr>"

definition Ring_Name :: "crypto \<Rightarrow> ring \<Rightarrow> string \<Rightarrow> string" where
  "Ring_Name C r address = Names_Of C (Root_Names C (rroot r)) (ToLower address)"

definition put_account :: "string \<Rightarrow> account \<Rightarrow> ring \<Rightarrow> ring" where
  "put_account name a r = r\<lparr>accounts := (accounts r)(name := Some a)\<rparr>"

definition ring_get :: "string \<Rightarrow> time \<Rightarrow> ring \<Rightarrow> account \<times> ring" where
  "ring_get name now r =
     (let a = expire now (case accounts r name of None \<Rightarrow> zero_account | Some a \<Rightarrow> a)
      in (a, put_account name a r))"

definition ring_write :: "string \<Rightarrow> pairRecord \<Rightarrow> ring \<Rightarrow> err option \<times> ring" where
  "ring_write name rec r = (case kv_put (Owner @ ''/'' @ name) rec (rdb r) of
       Inl e \<Rightarrow> (Some e, r)
     | Inr db \<Rightarrow> (None, r\<lparr>rdb := db\<rparr>))"

definition short_key :: "string option \<Rightarrow> bool" where
  "short_key o1 = (case o1 of None \<Rightarrow> False | Some s \<Rightarrow> length s < KeySize)"

definition take_own :: "string option \<Rightarrow> account \<Rightarrow> account" where
  "take_own o1 a = (case o1 of None \<Rightarrow> a
     | Some s \<Rightarrow> let k = take KeySize s in
         a\<lparr>old := (case own a of Some was \<Rightarrow> if was \<noteq> k then old a @ [was] else old a | None \<Rightarrow> old a),
           own := Some k, akeys := []\<rparr>)"

definition turn :: "crypto \<Rightarrow> err + string \<Rightarrow> string \<Rightarrow> string option \<Rightarrow> bool \<Rightarrow> bool \<Rightarrow> time \<Rightarrow> ring \<Rightarrow>
    err option \<times> ring" where
  "turn C gen name o1 want hold now r =
     (case ring_get name now r of (a, r1) \<Rightarrow>
       if short_key o1 then (Some ErrPanic, r1)
       else
        (let a1 = take_own o1 a;
             a2 = (if hold then a1\<lparr>holds := holds a1 + 1\<rparr> else a1);
             a3 = a2\<lparr>on := want\<rparr>
         in case settle C (rroot r1) gen a3 of
             (Inl e, a4) \<Rightarrow> (Some e, put_account name a4 r1)
           | (Inr False, a4) \<Rightarrow> (None, put_account name a4 r1)
           | (Inr True, a4) \<Rightarrow>
               (case acc_record a4 of
                   Inl e \<Rightarrow> (Some e, put_account name a4 r1)
                 | Inr rec \<Rightarrow> ring_write name rec (put_account name a4 r1))))"

text \<open>\<open>Hold\<close> gives no release on an error; \<open>release_hold\<close> is the function it returns otherwise.\<close>

definition Hold :: "crypto \<Rightarrow> err + string \<Rightarrow> string \<Rightarrow> string option \<Rightarrow> bool \<Rightarrow> time \<Rightarrow> ring \<Rightarrow> err option \<times> ring" where
  "Hold C gen name o1 want now r = turn C gen name o1 want True now r"

definition release_hold :: "string \<Rightarrow> time \<Rightarrow> ring \<Rightarrow> ring" where
  "release_hold name now r = (case accounts r name of None \<Rightarrow> r
     | Some a \<Rightarrow> put_account name (expire now (a\<lparr>holds := holds a - 1\<rparr>)) r)"

definition Turn :: "crypto \<Rightarrow> err + string \<Rightarrow> string \<Rightarrow> string option \<Rightarrow> bool \<Rightarrow> time \<Rightarrow> ring \<Rightarrow> err option \<times> ring" where
  "Turn C gen name o1 want now r = turn C gen name o1 want False now r"

definition Retire :: "string \<Rightarrow> string list \<Rightarrow> time \<Rightarrow> ring \<Rightarrow> err option \<times> ring" where
  "Retire name ks now r = (case ring_get name now r of (a, r1) \<Rightarrow>
     if (\<exists>k \<in> set ks. length k < KeySize) then (Some ErrPanic, r1)
     else (None, put_account name (a\<lparr>old := old a @ map (take KeySize) ks, opened := None\<rparr>) r1))"

definition Settled :: "string \<Rightarrow> time \<Rightarrow> ring \<Rightarrow> err option \<times> ring" where
  "Settled name now r = (case ring_get name now r of (a, r1) \<Rightarrow>
     let a1 = a\<lparr>old := [], retired := []\<rparr>; r2 = put_account name a1 r1
     in if retired a = [] then (None, r2)
        else (case acc_record a1 of Inl e \<Rightarrow> (Some e, r2) | Inr rec \<Rightarrow> ring_write name rec r2))"

definition Replace :: "crypto \<Rightarrow> err + string \<Rightarrow> string \<Rightarrow> string option \<Rightarrow> time \<Rightarrow> ring \<Rightarrow> err option \<times> ring" where
  "Replace C gen name o1 now r = (case ring_get name now r of (a, r1) \<Rightarrow>
     if short_key o1 then (Some ErrPanic, r1)
     else
      (let a1 = a\<lparr>pub := None, opened := None, retired := [], own := map_option (take KeySize) o1,
                  old := [], akeys := [], on := (o1 \<noteq> None)\<rparr>
       in case settle C (rroot r1) gen a1 of
           (res, a2) \<Rightarrow>
             (case acc_record a2 of
                 Inl e \<Rightarrow> (Some e, put_account name a2 r1)
               | Inr rec \<Rightarrow>
                   (case res of Inl e \<Rightarrow> (Some e, put_account name a2 r1)
                    | Inr _ \<Rightarrow> ring_write name rec (put_account name a2 r1)))))"

definition Lease :: "string \<Rightarrow> duration \<Rightarrow> time \<Rightarrow> ring \<Rightarrow> ring" where
  "Lease name d now r = (case ring_get name now r of (a, r1) \<Rightarrow>
     if own a \<noteq> None then put_account name (a\<lparr>until := now + d\<rparr>) r1 else r1)"

definition On :: "string \<Rightarrow> time \<Rightarrow> ring \<Rightarrow> bool \<times> ring" where
  "On name now r = (case ring_get name now r of (a, r1) \<Rightarrow> (on a, r1))"

definition Locked :: "crypto \<Rightarrow> string \<Rightarrow> time \<Rightarrow> ring \<Rightarrow> bool \<times> ring" where
  "Locked C name now r = (case ring_get name now r of (a, r1) \<Rightarrow>
     (case acc_locked C (rroot r1) a of (l, a1) \<Rightarrow> (l, put_account name a1 r1)))"

definition Own :: "string \<Rightarrow> time \<Rightarrow> ring \<Rightarrow> string option \<times> ring" where
  "Own name now r = (case ring_get name now r of (a, r1) \<Rightarrow> (own a, r1))"

definition For :: "crypto \<Rightarrow> string \<Rightarrow> string \<Rightarrow> time \<Rightarrow> ring \<Rightarrow> (err + Key) \<times> ring" where
  "For C name purpose now r = (case ring_get name now r of (a, r1) \<Rightarrow>
     if \<not> on a then (Inr (Root_Key C (rroot r1) purpose), r1)
     else (case acc_locked C (rroot r1) a of
         (True, a1) \<Rightarrow> (Inl ErrLocked, put_account name a1 r1)
       | (False, a1) \<Rightarrow>
           (case own a1 of None \<Rightarrow> (Inl ErrPanic, put_account name a1 r1)
            | Some s \<Rightarrow> (case acc_key C s purpose a1 of (k, a2) \<Rightarrow> (Inr k, put_account name a2 r1)))))"

definition Ring_Open :: "crypto \<Rightarrow> string \<Rightarrow> string \<Rightarrow> 'p sealed \<Rightarrow> time \<Rightarrow> ring \<Rightarrow> (err + 'p) \<times> ring" where
  "Ring_Open C name purpose v now r = (case ring_get name now r of (a, r1) \<Rightarrow>
     (case acc_open C (rroot r1) a purpose v of (res, a1) \<Rightarrow> (res, put_account name a1 r1)))"

definition Stale :: "crypto \<Rightarrow> string \<Rightarrow> string \<Rightarrow> 'p sealed \<Rightarrow> time \<Rightarrow> ring \<Rightarrow> bool \<times> ring" where
  "Stale C name purpose v now r = (case For C name purpose now r of
       (Inl _, r1) \<Rightarrow> (False, r1)
     | (Inr k, r1) \<Rightarrow> (Format v \<noteq> key_format k \<or> isl (Open k v), r1))"

definition Ring_ID :: "string \<Rightarrow> time \<Rightarrow> ring \<Rightarrow> string \<times> ring" where
  "Ring_ID name now r = (case ring_get name now r of (a, r1) \<Rightarrow> (aid a, r1))"

definition Ring_Wrap :: "string \<Rightarrow> string \<Rightarrow> string \<Rightarrow> time \<Rightarrow> ring \<Rightarrow> Wrap option \<times> ring" where
  "Ring_Wrap name secret info now r = (case ring_get name now r of (a, r1) \<Rightarrow>
     (case pub a of None \<Rightarrow> (None, r1)
      | Some p \<Rightarrow> (Some \<lparr>To = aid a, WKey = HpkeBox p info secret\<rparr>, r1)))"

text \<open>The retired pair a wrap was made to, opened: the inner loop of \<^verbatim>\<open>Unwrap\<close>.\<close>

fun retired_private :: "crypto \<Rightarrow> Root \<Rightarrow> string \<Rightarrow> retiredPair list \<Rightarrow> string option \<Rightarrow> account \<Rightarrow>
    string option \<times> account" where
  "retired_private C root to [] p a = (p, a)"
| "retired_private C root to (o1 # os) p a =
     (if p = None \<and> to = rID o1
      then (case parse_private C root a (rPrivate o1) of (p', a') \<Rightarrow> retired_private C root to os p' a')
      else retired_private C root to os p a)"

definition unwrap_private :: "crypto \<Rightarrow> Root \<Rightarrow> Wrap \<Rightarrow> account \<Rightarrow> string option \<times> account" where
  "unwrap_private C root w a =
     (case (if To w = aid a then privateKey C root a else (None, a)) of
        (p, a1) \<Rightarrow> retired_private C root (To w) (retired a1) p a1)"

text \<open>The list is the order Go's map iteration takes, which the language leaves open.\<close>

fun Unwrap :: "crypto \<Rightarrow> (string \<times> Wrap) list \<Rightarrow> string \<Rightarrow> time \<Rightarrow> ring \<Rightarrow> string option \<times> ring" where
  "Unwrap C [] info now r = (None, r)"
| "Unwrap C ((name, w) # ws) info now r =
     (case ring_get name now r of (a, r1) \<Rightarrow>
       (case unwrap_private C (rroot r1) w a of
         (p, a1) \<Rightarrow>
           (let r2 = put_account name a1 r1
            in case p of None \<Rightarrow> Unwrap C ws info now r2
               | Some pk \<Rightarrow> (case hpke_open C pk info (WKey w) of
                     Some s \<Rightarrow> (Some s, r2)
                   | None \<Rightarrow> Unwrap C ws info now r2))))"

subsection \<open>The cache of derived keys\<close>

text \<open>
  \<open>coherent\<close>: every cached key is the one the own key derives. Under it an operation that
  reads through the cache is the operation without one, \<open>open_spec\<close>, and changes the
  cache alone.
\<close>

definition coherent :: "crypto \<Rightarrow> account \<Rightarrow> bool" where
  "coherent C a \<longleftrightarrow> (\<forall>pu k. map_of (akeys a) pu = Some k \<longrightarrow>
     (\<exists>s. own a = Some s \<and> k = Root_Key C (AccountRoot s) pu))"

definition at_hand :: "account \<Rightarrow> string list" where
  "at_hand a = (case own a of None \<Rightarrow> old a | Some s \<Rightarrow> s # old a)"

lemma at_hand_upd [simp]:
  "at_hand (a\<lparr>opened := o1\<rparr>) = at_hand a" "at_hand (a\<lparr>akeys := ks\<rparr>) = at_hand a"
  by (simp_all add: at_hand_def split: option.splits)

definition open_spec :: "crypto \<Rightarrow> Root \<Rightarrow> string list \<Rightarrow> string \<Rightarrow> 'p sealed \<Rightarrow> err + 'p" where
  "open_spec C root ss pu v =
     (if Format v \<noteq> ByAccount then Open (Root_Key C root pu) v else open_old C ss pu v)"

definition parse_spec :: "crypto \<Rightarrow> Root \<Rightarrow> string list \<Rightarrow> string sealed \<Rightarrow> string option" where
  "parse_spec C root ss v = (case open_spec C root ss Owner v of
      Inl _ \<Rightarrow> None | Inr raw \<Rightarrow> if kem_private_ok C raw then Some raw else None)"

definition cached :: "crypto \<Rightarrow> account \<Rightarrow> account \<Rightarrow> bool" where
  "cached C a a' \<longleftrightarrow> (\<exists>ks. a' = a\<lparr>akeys := ks\<rparr>) \<and> coherent C a'"

lemma cachedD:
  assumes "cached C a a'"
  shows "pub a' = pub a" "aid a' = aid a" "priv a' = priv a" "opened a' = opened a"
    "retired a' = retired a" "own a' = own a" "old a' = old a" "on a' = on a"
    "holds a' = holds a" "until a' = until a" "coherent C a'" "at_hand a' = at_hand a"
  using assms by (auto simp: cached_def at_hand_def split: option.splits)

lemma cached_refl: "coherent C a \<Longrightarrow> cached C a a"
  unfolding cached_def by (metis account.surjective account.update_convs(8))

lemma cached_trans: "cached C a a' \<Longrightarrow> cached C a' a'' \<Longrightarrow> cached C a a''"
  by (auto simp: cached_def)

lemma coherent_no_keys [simp]: "akeys a = [] \<Longrightarrow> coherent C a"
  by (simp add: coherent_def)

lemma coherent_upd [simp]:
  "coherent C (a\<lparr>opened := o1\<rparr>) = coherent C a" "coherent C (a\<lparr>retired := rs\<rparr>) = coherent C a"
  "coherent C (a\<lparr>on := b\<rparr>) = coherent C a" "coherent C (a\<lparr>holds := n\<rparr>) = coherent C a"
  "coherent C (a\<lparr>until := t\<rparr>) = coherent C a" "coherent C (a\<lparr>old := os\<rparr>) = coherent C a"
  "coherent C (a\<lparr>pub := p\<rparr>) = coherent C a" "coherent C (a\<lparr>priv := v\<rparr>) = coherent C a"
  "coherent C (a\<lparr>aid := i\<rparr>) = coherent C a"
  by (simp_all add: coherent_def)

lemma acc_key_spec:
  assumes "coherent C a" and "own a = Some s" and "acc_key C s pu a = (k, a')"
  shows "k = Root_Key C (AccountRoot s) pu \<and> cached C a a'"
proof (cases "map_of (akeys a) pu")
  case None
  then have "k = Root_Key C (AccountRoot s) pu" "a' = a\<lparr>akeys := (pu, k) # akeys a\<rparr>"
    using assms(3) by (auto simp: acc_key_def Let_def)
  then show ?thesis using assms(1,2) by (auto simp: cached_def coherent_def)
next
  case (Some k1)
  then show ?thesis
    using assms cached_refl [OF assms(1)] by (auto simp: acc_key_def coherent_def)
qed

lemma acc_open_spec:
  assumes "coherent C a" and "acc_open C root a pu v = (res, a')"
  shows "res = open_spec C root (at_hand a) pu v \<and> cached C a a'"
proof (cases "Format v = ByAccount")
  case False
  then show ?thesis
    using assms cached_refl by (auto simp: acc_open_def open_spec_def)
next
  case True
  show ?thesis
  proof (cases "own a")
    case None
    then show ?thesis
      using assms True cached_refl by (auto simp: acc_open_def open_spec_def at_hand_def)
  next
    case (Some s)
    obtain k a1 where k: "acc_key C s pu a = (k, a1)" by force
    from acc_key_spec [OF assms(1) Some k] show ?thesis
      using assms(2) True Some k
      by (auto simp: acc_open_def open_spec_def at_hand_def split: sum.splits)
  qed
qed

lemma parse_private_spec:
  assumes "coherent C a" and "parse_private C root a v = (p, a')"
  shows "p = parse_spec C root (at_hand a) v \<and> cached C a a'"
  using assms acc_open_spec [OF assms(1), of root Owner v]
  by (auto simp: parse_private_def parse_spec_def split: prod.splits sum.splits)

text \<open>The account's private key where a key at hand opens it.\<close>

definition private_spec :: "crypto \<Rightarrow> Root \<Rightarrow> account \<Rightarrow> string option" where
  "private_spec C root a =
     (if opened a = None \<and> pub a \<noteq> None then parse_spec C root (at_hand a) (priv a) else opened a)"

lemma privateKey_spec:
  assumes "coherent C a" and "privateKey C root a = (p, a')"
  shows "p = private_spec C root a \<and> (\<exists>a1. cached C a a1 \<and> a' = a1\<lparr>opened := p\<rparr>)"
proof (cases "opened a = None \<and> pub a \<noteq> None")
  case True
  obtain q a1 where q: "parse_private C root a (priv a) = (q, a1)" by force
  with assms(2) True have "p = q" "a' = a1\<lparr>opened := p\<rparr>" by (auto simp: privateKey_def)
  with parse_private_spec [OF assms(1) q] True show ?thesis
    unfolding private_spec_def by auto
next
  case False
  with assms(2) have "p = opened a" "a' = a" by (auto simp: privateKey_def)
  then have "a' = a\<lparr>opened := p\<rparr>" by simp
  with False \<open>p = opened a\<close> cached_refl [OF assms(1)] show ?thesis
    unfolding private_spec_def by auto
qed

lemma reseal_retired_spec:
  "coherent C a \<Longrightarrow> reseal_retired C root target a rs = (rs', a') \<Longrightarrow>
     cached C a a' \<and>
     rs' = map (\<lambda>q. case parse_spec C root (at_hand a) (rPrivate q) of None \<Rightarrow> q
                    | Some b \<Rightarrow> q\<lparr>rPrivate := Seal target b\<rparr>) rs"
proof (induction rs arbitrary: a rs' a')
  case Nil
  then show ?case by (auto intro: cached_refl)
next
  case (Cons q rs)
  obtain p a1 where p: "parse_private C root a (rPrivate q) = (p, a1)" by force
  obtain rs1 a2 where r: "reseal_retired C root target a1 rs = (rs1, a2)" by force
  from parse_private_spec [OF Cons.prems(1) p]
  have ps: "p = parse_spec C root (at_hand a) (rPrivate q)" and c1: "cached C a a1" by auto
  from Cons.IH [OF _ r] cachedD [OF c1] have
    "cached C a1 a2" and rs1: "rs1 = map (\<lambda>q. case parse_spec C root (at_hand a) (rPrivate q) of None \<Rightarrow> q
                    | Some b \<Rightarrow> q\<lparr>rPrivate := Seal target b\<rparr>) rs" by auto
  with c1 have "cached C a a2" by (blast intro: cached_trans)
  with Cons.prems(2) p r ps rs1 show ?case by auto
qed

subsection \<open>Settling the pair\<close>

lemma settle_target_spec:
  assumes "coherent C a" and "settle_target C root a = (t, a')"
  shows "cached C a a' \<and>
    t = (if on a then map_option (\<lambda>s. Root_Key C (AccountRoot s) Owner) (own a) else Some (Root_Key C root Owner))"
proof (cases "on a")
  case False
  then show ?thesis using assms cached_refl by (auto simp: settle_target_def)
next
  case True
  show ?thesis
  proof (cases "own a")
    case None
    then show ?thesis using assms True cached_refl by (auto simp: settle_target_def)
  next
    case (Some s)
    obtain k a1 where k: "acc_key C s Owner a = (k, a1)" by force
    from acc_key_spec [OF assms(1) Some k] assms(2) True Some k show ?thesis
      by (auto simp: settle_target_def)
  qed
qed

text \<open>What a retired pair becomes, and what the pair of a settled account is.\<close>

definition resealed :: "crypto \<Rightarrow> Root \<Rightarrow> string list \<Rightarrow> Key \<Rightarrow> retiredPair \<Rightarrow> retiredPair" where
  "resealed C root ss target q = (case parse_spec C root ss (rPrivate q) of None \<Rightarrow> q
     | Some b \<Rightarrow> q\<lparr>rPrivate := Seal target b\<rparr>)"

lemma settle_pair_changed:
  assumes "coherent C a" and "settle_pair C root gen target pk a = (Inr True, a')"
  obtains b where "(if on a then gen else (case pk of Some b \<Rightarrow> Inr b | None \<Rightarrow> gen)) = Inr b"
    and "pub a' = Some (kem_public C b)" and "priv a' = Seal target b" and "opened a' = Some b"
    and "aid a' = idOf C (kem_public C b)" and "on a' = (key_format target = ByAccount)"
    and "retired a' = map (resealed C root (at_hand a) target) (retired a) @
      (case pk of Some b \<Rightarrow> if on a then [\<lparr>rID = aid a, rPrivate = Seal target b\<rparr>] else [] | None \<Rightarrow> [])"
    and "own a' = own a" and "old a' = old a" and "holds a' = holds a" and "coherent C a'"
proof -
  obtain rs a1 where r: "reseal_retired C root target a (retired a) = (rs, a1)" by force
  from reseal_retired_spec [OF assms(1) r] have c: "cached C a a1"
    and rs: "rs = map (resealed C root (at_hand a) target) (retired a)"
    by (simp_all add: resealed_def [abs_def])
  note cD = cachedD [OF c]
  let ?b = "case (if on a1 then None else pk) of Some b \<Rightarrow> Inr b | None \<Rightarrow> gen"
  obtain b where b: "?b = Inr b"
    using assms(2) r by (cases ?b) (auto simp: settle_pair_def Let_def)
  then have b': "(if on a then gen else (case pk of Some b \<Rightarrow> Inr b | None \<Rightarrow> gen)) = Inr b"
    using cD(8) by (auto split: option.splits)
  show thesis
    using assms(2) r b cD rs
    by (intro that [OF b']) (auto simp: settle_pair_def Let_def take_pair_def split: if_splits option.splits)
qed

lemma settle_pair_coherent:
  assumes "coherent C a" and "settle_pair C root gen target pk a = (res, a')"
  shows "coherent C a' \<and> own a' = own a \<and> old a' = old a \<and> holds a' = holds a \<and> until a' = until a"
proof -
  obtain rs a1 where r: "reseal_retired C root target a (retired a) = (rs, a1)" by force
  from reseal_retired_spec [OF assms(1) r] have c: "cached C a a1" by simp
  show ?thesis
    using assms(2) r cachedD [OF c]
    by (auto simp: settle_pair_def Let_def take_pair_def split: if_splits option.splits sum.splits)
qed

text \<open>The branches of \<open>settle\<close>, over the account alone.\<close>

lemma settle_cases:
  assumes "coherent C a" and "settle C root gen a = (res, a')"
  obtains (kept) "res = Inr False" and "coherent C a'" and "own a' = own a" and "old a' = old a"
      and "holds a' = holds a" and "until a' = until a" and "priv a' = priv a" and "pub a' = pub a"
      and "retired a' = retired a" and "on a' = on a" and "aid a' = aid a"
      and "private_spec C root a' = private_spec C root a"
    | (made) target a1 where
      "target = (if on a then Root_Key C (AccountRoot (the (own a))) Owner else Root_Key C root Owner)"
      and "on a \<Longrightarrow> own a \<noteq> None" and "\<exists>ks o1. a1 = a\<lparr>akeys := ks, opened := o1\<rparr>" and "coherent C a1"
      and "settle_pair C root gen target (private_spec C root a) a1 = (res, a')"
      and "private_spec C root a = None \<longrightarrow> pub a = None"
proof -
  obtain t a1 where t: "settle_target C root a = (t, a1)" by force
  from settle_target_spec [OF assms(1) t] have c: "cached C a a1"
    and tgt: "t = (if on a then map_option (\<lambda>s. Root_Key C (AccountRoot s) Owner) (own a)
                   else Some (Root_Key C root Owner))" by auto
  note cD = cachedD [OF c]
  show thesis
  proof (cases t)
    case None
    then have "res = Inr False" "a' = a1" using assms(2) t by (auto simp: settle_def)
    then show thesis using cD by (intro kept) (simp_all add: private_spec_def)
  next
    case (Some target)
    have own: "on a \<Longrightarrow> own a \<noteq> None" using tgt Some by (cases "own a") auto
    have target: "target = (if on a then Root_Key C (AccountRoot (the (own a))) Owner else Root_Key C root Owner)"
      using tgt Some own by (auto split: if_splits)
    obtain pk a2 where p: "privateKey C root a1 = (pk, a2)" by force
    from privateKey_spec [OF cD(11) p] obtain a3 where
      pk: "pk = private_spec C root a1" and c3: "cached C a1 a3" and a2: "a2 = a3\<lparr>opened := pk\<rparr>" by blast
    note c3D = cachedD [OF c3]
    have pk': "pk = private_spec C root a" using pk cD by (simp add: private_spec_def)
    consider "pub a1 \<noteq> None" "\<not> isl (Open target (priv a1))"
      | "pk = None" "pub a2 \<noteq> None" "\<not> (pub a1 \<noteq> None \<and> \<not> isl (Open target (priv a1)))"
      | "settle_pair C root gen target pk a2 = (res, a')" "pk = None \<longrightarrow> pub a2 = None"
      using assms(2) t Some p by (auto simp: settle_def split: if_splits)
    then show thesis
    proof cases
      case 1
      then have "res = Inr False" "a' = a1" using assms(2) t Some by (auto simp: settle_def)
      then show thesis using cD by (intro kept) (simp_all add: private_spec_def)
    next
      case 2
      then have "res = Inr False" "a' = a2" using assms(2) t Some p by (auto simp: settle_def)
      moreover have "private_spec C root a2 = private_spec C root a"
        using 2(1,2) pk' a2 c3D cD by (auto simp: private_spec_def split: if_splits)
      ultimately show thesis using cD c3D a2 by (intro kept) simp_all
    next
      case 3
      obtain ks where "a2 = a\<lparr>akeys := ks, opened := pk\<rparr>"
        using c c3 a2 by (auto simp: cached_def)
      then have "\<exists>ks o1. a2 = a\<lparr>akeys := ks, opened := o1\<rparr>" by blast
      moreover have "coherent C a2" using a2 c3D(11) by simp
      moreover have "pub a2 = pub a" using a2 c3D cD by simp
      ultimately show thesis using 3 target own pk' by (intro made [of target a2]) auto
    qed
  qed
qed

lemma settle_coherent:
  assumes "coherent C a" and "settle C root gen a = (res, a')"
  shows "coherent C a' \<and> own a' = own a \<and> old a' = old a \<and> holds a' = holds a \<and> until a' = until a"
  using assms
proof (cases rule: settle_cases)
  case kept
  then show ?thesis by simp
next
  case (made target a1)
  from made(3) have "own a1 = own a" "old a1 = old a" "holds a1 = holds a" "until a1 = until a" by auto
  with settle_pair_coherent [OF made(4,5)] show ?thesis by simp
qed

subsection \<open>Every operation keeps the caches right\<close>

definition ring_ok :: "crypto \<Rightarrow> ring \<Rightarrow> bool" where
  "ring_ok C r \<longleftrightarrow> (\<forall>n a. accounts r n = Some a \<longrightarrow> coherent C a)"

definition held_account :: "string \<Rightarrow> time \<Rightarrow> ring \<Rightarrow> account" where
  "held_account name now r = expire now (case accounts r name of None \<Rightarrow> zero_account | Some a \<Rightarrow> a)"

lemma coherent_expire: "coherent C a \<Longrightarrow> coherent C (expire now a)"
  by (simp add: expire_def)

lemma expire_idem [simp]: "expire now (expire now a) = expire now a"
  by (simp add: expire_def)

lemma coherent_held: "ring_ok C r \<Longrightarrow> coherent C (held_account name now r)"
  by (auto simp: held_account_def ring_ok_def zero_account_def intro!: coherent_expire split: option.splits)

lemma ring_get_eq: "ring_get name now r = (held_account name now r, put_account name (held_account name now r) r)"
  by (simp add: ring_get_def held_account_def Let_def)

lemma accounts_put_account [simp]: "accounts (put_account n a r) = (accounts r)(n := Some a)"
  by (simp add: put_account_def)

lemma rroot_put_account [simp]: "rroot (put_account n a r) = rroot r"
  by (simp add: put_account_def)

lemma put_account_twice [simp]: "put_account n a (put_account n b r) = put_account n a r"
  by (simp add: put_account_def)

lemma ring_ok_put: "ring_ok C r \<Longrightarrow> coherent C a \<Longrightarrow> ring_ok C (put_account n a r)"
  by (simp add: ring_ok_def)

lemma ring_ok_write: "ring_write n rec r = (e, r') \<Longrightarrow> ring_ok C r' = ring_ok C r"
  by (auto simp: ring_write_def ring_ok_def split: sum.splits)

lemma accounts_write: "ring_write n rec r = (e, r') \<Longrightarrow> accounts r' = accounts r \<and> rroot r' = rroot r"
  by (auto simp: ring_write_def split: sum.splits)

lemma coherent_take_own: "coherent C a \<Longrightarrow> coherent C (take_own o1 a)"
  by (auto simp: take_own_def Let_def split: option.splits)

lemma turn_ring_ok:
  assumes "ring_ok C r" and "turn C gen name o1 want hold now r = (e, r')"
  shows "ring_ok C r'"
proof (cases "short_key o1")
  case True
  with assms show ?thesis by (auto simp: turn_def ring_get_eq intro: ring_ok_put coherent_held)
next
  case False
  let ?a = "held_account name now r"
  let ?a3 = "(if hold then (take_own o1 ?a)\<lparr>holds := holds (take_own o1 ?a) + 1\<rparr> else take_own o1 ?a)\<lparr>on := want\<rparr>"
  have c: "coherent C ?a3" using coherent_take_own [OF coherent_held [OF assms(1)]] by simp
  obtain res a4 where st: "settle C (rroot r) gen ?a3 = (res, a4)" by force
  have ok: "ring_ok C (put_account name a4 r)"
    using settle_coherent [OF c st] ring_ok_put [OF assms(1)] by simp
  show ?thesis
    using assms(2) False st ok
    by (auto simp: turn_def ring_get_eq Let_def split: sum.splits bool.splits dest: ring_ok_write)
qed

lemma acc_locked_spec:
  assumes "coherent C a" and "acc_locked C root a = (l, a')"
  shows "coherent C a' \<and> own a' = own a \<and> old a' = old a \<and> on a' = on a \<and> holds a' = holds a \<and>
    until a' = until a \<and> priv a' = priv a \<and> pub a' = pub a \<and>
    (l \<longleftrightarrow> on a \<and> (own a = None \<or> pub a \<noteq> None \<and> private_spec C root a = None))"
proof (cases "on a \<and> own a \<noteq> None \<and> pub a \<noteq> None")
  case False
  then show ?thesis using assms by (auto simp: acc_locked_def split: if_splits)
next
  case True
  obtain p a1 where p: "privateKey C root a = (p, a1)" by force
  from privateKey_spec [OF assms(1) p] obtain a2 where
    "p = private_spec C root a" "cached C a a2" "a1 = a2\<lparr>opened := p\<rparr>" by blast
  with True assms(2) p cachedD [of C a a2] show ?thesis by (auto simp: acc_locked_def)
qed

lemma For_spec:
  assumes "ring_ok C r" and "For C name pu now r = (res, r')"
  shows "\<exists>a'. r' = put_account name a' r \<and> coherent C a' \<and> expire now a' = a' \<and>
    own a' = own (held_account name now r) \<and> old a' = old (held_account name now r) \<and>
    (res = (let a = held_account name now r in
       if \<not> on a then Inr (Root_Key C (rroot r) pu)
       else if own a = None \<or> pub a \<noteq> None \<and> private_spec C (rroot r) a = None then Inl ErrLocked
       else Inr (Root_Key C (AccountRoot (the (own a))) pu)))"
proof -
  let ?a = "held_account name now r"
  have c: "coherent C ?a" by (rule coherent_held [OF assms(1)])
  have ex: "expire now ?a = ?a" by (simp add: held_account_def)
  show ?thesis
  proof (cases "on ?a")
    case False
    with assms(2) c ex show ?thesis
      by (intro exI [of _ ?a]) (auto simp: For_def ring_get_eq)
  next
    case True
    obtain l a1 where l: "acc_locked C (rroot r) ?a = (l, a1)" by force
    note lD = acc_locked_spec [OF c l]
    have unexpired: "holds ?a > 0 \<or> now < until ?a \<or> own ?a = None"
      by (auto simp: held_account_def expire_def)
    show ?thesis
    proof (cases l)
      case True': True
      have "expire now a1 = a1" if "own ?a \<noteq> None"
        using unexpired that lD by (auto simp: expire_def)
      moreover have "a1 = ?a" if "own ?a = None"
        using l that True by (auto simp: acc_locked_def)
      ultimately show ?thesis
        using assms(2) True l True' lD ex
        by (intro exI [of _ a1]) (cases "own ?a"; auto simp: For_def ring_get_eq)
    next
      case False
      then obtain s where s: "own ?a = Some s" using lD True by auto
      obtain k a2 where k: "acc_key C s pu a1 = (k, a2)" by force
      from acc_key_spec [OF _ _ k] lD s have k': "k = Root_Key C (AccountRoot s) pu" "cached C a1 a2" by auto
      then have "expire now a2 = a2"
        using unexpired s lD cachedD [OF k'(2)] by (auto simp: expire_def)
      with assms(2) True l False lD s k k' cachedD [OF k'(2)] show ?thesis
        by (intro exI [of _ a2]) (auto simp: For_def ring_get_eq)
    qed
  qed
qed

subsection \<open>What a turn leaves\<close>

definition turned :: "string option \<Rightarrow> bool \<Rightarrow> bool \<Rightarrow> account \<Rightarrow> account" where
  "turned o1 want hold a =
     (let a1 = take_own o1 a; a2 = (if hold then a1\<lparr>holds := holds a1 + 1\<rparr> else a1) in a2\<lparr>on := want\<rparr>)"

lemma turned_simps [simp]:
  "on (turned o1 want hold a) = want" "pub (turned o1 want hold a) = pub a"
  "priv (turned o1 want hold a) = priv a" "aid (turned o1 want hold a) = aid a"
  "retired (turned o1 want hold a) = retired a" "opened (turned o1 want hold a) = opened a"
  "holds (turned o1 want hold a) = holds a + (if hold then 1 else 0)"
  "own (turned (Some s) want hold a) = Some (take KeySize s)" "own (turned None want hold a) = own a"
  by (auto simp: turned_def take_own_def Let_def split: option.splits)

lemma coherent_turned: "coherent C a \<Longrightarrow> coherent C (turned o1 want hold a)"
  by (simp add: turned_def Let_def coherent_take_own)

lemma turn_returns:
  assumes "turn C gen name o1 want hold now r = (None, r')"
  obtains c a' where "settle C (rroot r) gen (turned o1 want hold (held_account name now r)) = (Inr c, a')"
    and "accounts r' name = Some a'" and "rroot r' = rroot r"
    and "c \<Longrightarrow> pub a' \<noteq> None \<and> kv_get (Owner @ ''/'' @ name) (rdb r') =
           Some \<lparr>pPublic = the (pub a'), pPrivate = priv a', pRetired = retired a'\<rparr>"
proof -
  let ?a = "turned o1 want hold (held_account name now r)"
  obtain res a' where st: "settle C (rroot r) gen ?a = (res, a')" by force
  have short: "\<not> short_key o1" using assms by (auto simp: turn_def ring_get_eq)
  have run: "(case res of Inl e \<Rightarrow> (Some e, put_account name a' r)
      | Inr c \<Rightarrow> if c then (case acc_record a' of Inl e \<Rightarrow> (Some e, put_account name a' r)
                 | Inr rec \<Rightarrow> ring_write name rec (put_account name a' r))
               else (None, put_account name a' r)) = (None, r')"
    using assms short st
    by (auto simp: turn_def ring_get_eq turned_def Let_def split: sum.splits bool.splits)
  then obtain c where c: "res = Inr c" by (cases res) auto
  show thesis
  proof (cases c)
    case False
    with run c st show thesis by (intro that [of False a']) auto
  next
    case True
    with run c obtain rec where rec: "acc_record a' = Inr rec"
      "ring_write name rec (put_account name a' r) = (None, r')" by (auto split: sum.splits)
    then obtain db where db: "kv_put (Owner @ ''/'' @ name) rec (rdb r) = Inr db"
      "r' = (put_account name a' r)\<lparr>rdb := db\<rparr>"
      by (auto simp: ring_write_def put_account_def split: sum.splits)
    have "kv_get (Owner @ ''/'' @ name) db = Some rec"
      using db(1) by (auto simp: kv_put_returns kv_get_def map_of_put_entry)
    with rec(1) db c st True show thesis
      by (intro that [of True a']) (auto simp: acc_record_def split: option.splits)
  qed
qed

lemma turn_fails_holds:
  assumes "turn C gen name o1 want True now r = (Some e, r')" and "\<not> short_key o1" and "ring_ok C r"
  shows "holds (the (accounts r' name)) = holds (held_account name now r) + 1"
proof -
  let ?a = "turned o1 want True (held_account name now r)"
  obtain res a' where st: "settle C (rroot r) gen ?a = (res, a')" by force
  have "accounts r' name = Some a'"
    using assms(1,2) st
    by (auto simp: turn_def ring_get_eq turned_def Let_def split: sum.splits bool.splits dest!: accounts_write)
  moreover have "holds a' = holds ?a"
    using settle_coherent [OF coherent_turned [OF coherent_held [OF assms(3)]] st] by simp
  ultimately show ?thesis by simp
qed

subsection \<open>Unwrapping\<close>

lemma retired_private_found [simp]: "retired_private C root to qs (Some b) a = (Some b, a)"
  by (induction qs) auto

lemma retired_private_skip:
  "(\<And>q. q \<in> set qs \<Longrightarrow> rID q \<noteq> to) \<Longrightarrow> retired_private C root to (qs @ qs') p a = retired_private C root to qs' p a"
  by (induction qs) auto

lemma unwrap_private_own:
  assumes "coherent C a" and "To w = aid a" and "private_spec C root a = Some b"
  shows "fst (unwrap_private C root w a) = Some b"
proof -
  obtain p a1 where p: "privateKey C root a = (p, a1)" by force
  with privateKey_spec [OF assms(1) p] assms(2,3) show ?thesis by (simp add: unwrap_private_def)
qed

lemma unwrap_private_retired:
  assumes "coherent C a" and "To w \<noteq> aid a" and "retired a = qs @ q # qs'"
    and "\<And>x. x \<in> set qs \<Longrightarrow> rID x \<noteq> To w" and "rID q = To w"
    and "parse_spec C root (at_hand a) (rPrivate q) = Some b"
  shows "fst (unwrap_private C root w a) = Some b"
proof -
  obtain p a1 where p: "parse_private C root a (rPrivate q) = (p, a1)" by force
  with parse_private_spec [OF assms(1) p] assms show ?thesis
    by (simp add: unwrap_private_def retired_private_skip)
qed

lemma Unwrap_one:
  assumes "fst (unwrap_private C (rroot r) w (held_account name now r)) = Some b"
    and "hpke_open C b info (WKey w) = Some s"
  shows "fst (Unwrap C [(name, w)] info now r) = Some s"
  using assms
  by (cases "unwrap_private C (rroot r) w (held_account name now r)") (simp add: ring_get_eq)

lemma Wrap_spec:
  "Ring_Wrap name secret info now r = (Some w, r') \<Longrightarrow>
     (\<exists>p. pub (held_account name now r) = Some p \<and>
        w = \<lparr>To = aid (held_account name now r), WKey = HpkeBox p info secret\<rparr>) \<and>
     r' = put_account name (held_account name now r) r"
  by (auto simp: Ring_Wrap_def ring_get_eq split: option.splits)

lemma held_account_put [simp]: "held_account n now (put_account n (held_account n now r) r) = held_account n now r"
  by (simp add: held_account_def)

lemma parse_spec_Seal:
  "key_format k = ByAccount \<Longrightarrow> k = Root_Key C (AccountRoot s) Owner \<Longrightarrow> kem_private_ok C b \<Longrightarrow>
     parse_spec C root (s # ss) (Seal k b) = Some b"
  by (simp add: parse_spec_def open_spec_def Open_Seal)

lemma Root_Key_formats [simp]:
  "key_format (Root_Key C (AccountRoot s) pu) = ByAccount" "key_format (Root_Key C r pu) = root_format r"
  by (simp_all add: Root_Key_def AccountRoot_def)

lemma root_format_AccountRoot [simp]: "root_format (AccountRoot s) = ByAccount"
  by (simp add: AccountRoot_def)

lemma held_account_held:
  "accounts r name = Some a \<Longrightarrow> holds a > 0 \<Longrightarrow> held_account name now r = a"
  by (simp add: held_account_def expire_def)

subsection \<open>Reading leaves the ring as it was\<close>

text \<open>
  A transaction on the collections asks the ring for a key, a wrap or a name many times.
  Each question may fill a cache (the derived keys, the opened private key) and nothing
  else: \<open>alike\<close> accounts and rings answer every later question alike.
\<close>

definition acc_alike :: "crypto \<Rightarrow> Root \<Rightarrow> account \<Rightarrow> account \<Rightarrow> bool" where
  "acc_alike C root a a' \<longleftrightarrow> coherent C a' \<and> pub a' = pub a \<and> aid a' = aid a \<and> priv a' = priv a \<and>
     retired a' = retired a \<and> own a' = own a \<and> old a' = old a \<and> on a' = on a \<and> holds a' = holds a \<and>
     until a' = until a \<and> private_spec C root a' = private_spec C root a"

lemma at_hand_cong: "own a' = own a \<Longrightarrow> old a' = old a \<Longrightarrow> at_hand a' = at_hand a"
  by (cases "own a") (simp_all add: at_hand_def)

lemma acc_alike_refl: "coherent C a \<Longrightarrow> acc_alike C root a a"
  by (simp add: acc_alike_def)

lemma acc_alike_trans: "acc_alike C root a b \<Longrightarrow> acc_alike C root b c \<Longrightarrow> acc_alike C root a c"
  by (simp add: acc_alike_def)

lemma acc_alike_cached: "cached C a a' \<Longrightarrow> acc_alike C root a a'"
  by (simp add: acc_alike_def cachedD private_spec_def)

lemma acc_alike_opened:
  "cached C a a1 \<Longrightarrow> p = private_spec C root a \<Longrightarrow> acc_alike C root a (a1\<lparr>opened := p\<rparr>)"
  by (auto simp: acc_alike_def cachedD private_spec_def)

text \<open>The private key a wrap addressed \<open>to\<close> a pair of the account opens with.\<close>

fun retired_spec :: "crypto \<Rightarrow> Root \<Rightarrow> string list \<Rightarrow> string \<Rightarrow> retiredPair list \<Rightarrow> string option" where
  "retired_spec C root ss to [] = None"
| "retired_spec C root ss to (q # qs) =
     (if to = rID q \<and> parse_spec C root ss (rPrivate q) \<noteq> None then parse_spec C root ss (rPrivate q)
      else retired_spec C root ss to qs)"

definition wrap_private :: "crypto \<Rightarrow> Root \<Rightarrow> account \<Rightarrow> string \<Rightarrow> string option" where
  "wrap_private C root a to =
     (if to = aid a \<and> private_spec C root a \<noteq> None then private_spec C root a
      else retired_spec C root (at_hand a) to (retired a))"

lemma retired_private_spec:
  "coherent C a \<Longrightarrow> retired_private C root to qs None a = (p, a') \<Longrightarrow>
     p = retired_spec C root (at_hand a) to qs \<and> cached C a a'"
proof (induction qs arbitrary: a)
  case Nil
  then show ?case by (simp add: cached_refl)
next
  case (Cons q qs)
  show ?case
  proof (cases "to = rID q")
    case True
    obtain b a1 where b: "parse_private C root a (rPrivate q) = (b, a1)" by force
    note spec = parse_private_spec [OF Cons.prems(1) b]
    show ?thesis
    proof (cases b)
      case None
      have r: "retired_private C root to qs None a1 = (p, a')"
        using Cons.prems(2) True b None by simp
      from spec have c: "cached C a a1" "coherent C a1" "at_hand a1 = at_hand a"
        by (auto simp: cachedD)
      from Cons.IH [OF c(2) r] c spec None True show ?thesis
        by (auto intro: cached_trans)
    next
      case (Some x)
      then show ?thesis using Cons.prems(2) True b spec by auto
    qed
  next
    case False
    then show ?thesis using Cons by auto
  qed
qed

lemma unwrap_private_spec:
  assumes "coherent C a" and "unwrap_private C root w a = (p, a')"
  shows "p = wrap_private C root a (To w) \<and> acc_alike C root a a'"
proof (cases "To w = aid a")
  case True
  obtain b a1 where b: "privateKey C root a = (b, a1)" by force
  from privateKey_spec [OF assms(1) b] obtain a0 where
    spec: "b = private_spec C root a" "cached C a a0" "a1 = a0\<lparr>opened := b\<rparr>" by auto
  then have al: "acc_alike C root a a1" by (simp add: acc_alike_opened)
  show ?thesis
  proof (cases b)
    case None
    have r: "retired_private C root (To w) (retired a1) None a1 = (p, a')"
      using assms(2) True b None by (simp add: unwrap_private_def)
    from al have "coherent C a1" by (simp add: acc_alike_def)
    from retired_private_spec [OF this r] al spec(1) None True show ?thesis
      by (auto simp: wrap_private_def acc_alike_def at_hand_cong [of a1 a]
            dest: acc_alike_cached [of C a1 a' root])
  next
    case (Some x)
    then show ?thesis using assms(2) True b spec(1) al by (auto simp: unwrap_private_def wrap_private_def)
  qed
next
  case False
  with assms(2) have "retired_private C root (To w) (retired a) None a = (p, a')"
    by (simp add: unwrap_private_def)
  from retired_private_spec [OF assms(1) this] False show ?thesis
    by (auto simp: wrap_private_def acc_alike_cached)
qed

definition alike :: "crypto \<Rightarrow> time \<Rightarrow> ring \<Rightarrow> ring \<Rightarrow> bool" where
  "alike C now r r' \<longleftrightarrow> ring_ok C r' \<and> rroot r' = rroot r \<and> rdb r' = rdb r \<and>
     (\<forall>n. acc_alike C (rroot r) (held_account n now r) (held_account n now r'))"

lemma alike_refl: "ring_ok C r \<Longrightarrow> alike C now r r"
  by (simp add: alike_def acc_alike_refl coherent_held)

lemma alike_trans: "alike C now r r' \<Longrightarrow> alike C now r' r'' \<Longrightarrow> alike C now r r''"
  unfolding alike_def using acc_alike_trans by metis

lemma alike_ring_ok: "alike C now r r' \<Longrightarrow> ring_ok C r'"
  by (simp add: alike_def)

lemma private_spec_gone:
  "own a = None \<Longrightarrow> old a = [] \<Longrightarrow> opened a = None \<Longrightarrow> Format (priv a) = ByAccount \<Longrightarrow> private_spec C root a = None"
  by (simp add: private_spec_def parse_spec_def open_spec_def at_hand_def)

lemma opened_private_spec: "opened a = Some b \<Longrightarrow> private_spec C root a = Some b"
  by (simp add: private_spec_def)

lemma expire_alike:
  assumes "acc_alike C root (expire now a) a'"
  shows "expire now a' = a'"
proof (cases "holds a' > 0 \<or> now < until a'")
  case True
  then show ?thesis by (simp add: expire_def)
next
  case False
  with assms have idle: "\<not> (holds a > 0 \<or> now < until a)"
    by (auto simp: acc_alike_def expire_def split: if_splits)
  with assms have e: "own a' = None" "old a' = []" "coherent C a'" "priv a' = priv a"
      "on a' \<longleftrightarrow> Format (priv a) = ByAccount"
    and p: "private_spec C root a' = private_spec C root (expire now a)"
    by (auto simp: acc_alike_def expire_def)
  have k: "akeys a' = []"
  proof (rule ccontr)
    assume "akeys a' \<noteq> []"
    then obtain pu k ks where "akeys a' = (pu, k) # ks" by (cases "akeys a'") auto
    then have "map_of (akeys a') pu = Some k" by simp
    with e(1,3) show False unfolding coherent_def by fastforce
  qed
  have "opened a' = None" if "Format (priv a) = ByAccount"
  proof -
    from that idle have "private_spec C root (expire now a) = None"
      by (intro private_spec_gone) (simp_all add: expire_def)
    with p show ?thesis using opened_private_spec by (cases "opened a'") fastforce+
  qed
  with False e k show ?thesis by (simp add: expire_def)
qed

lemma alike_put:
  assumes "ring_ok C r" and "acc_alike C (rroot r) (held_account n now r) a"
  shows "alike C now r (put_account n a r)"
proof -
  have e: "expire now a = a" using assms(2) expire_alike by (auto simp: held_account_def)
  have "acc_alike C (rroot r) (held_account m now r) (held_account m now (put_account n a r))" for m
  proof (cases "m = n")
    case True
    then show ?thesis using assms(2) e by (simp add: held_account_def)
  next
    case False
    then have "held_account m now (put_account n a r) = held_account m now r"
      by (simp add: held_account_def)
    then show ?thesis using acc_alike_refl [OF coherent_held [OF assms(1)]] by metis
  qed
  moreover have "ring_ok C (put_account n a r)"
    using assms by (simp add: ring_ok_put acc_alike_def)
  moreover have "rdb (put_account n a r) = rdb r" by (simp add: put_account_def)
  ultimately show ?thesis by (simp add: alike_def)
qed

text \<open>What \<open>Unwrap\<close> answers, without the caches.\<close>

fun unwrap_spec :: "crypto \<Rightarrow> time \<Rightarrow> ring \<Rightarrow> (string \<times> Wrap) list \<Rightarrow> string \<Rightarrow> string option" where
  "unwrap_spec C now r [] info = None"
| "unwrap_spec C now r ((n, w) # ws) info =
     (case wrap_private C (rroot r) (held_account n now r) (To w) of
        None \<Rightarrow> unwrap_spec C now r ws info
      | Some pk \<Rightarrow> (case hpke_open C pk info (WKey w) of
            Some s \<Rightarrow> Some s
          | None \<Rightarrow> unwrap_spec C now r ws info))"

lemma wrap_private_alike: "acc_alike C root a a' \<Longrightarrow> wrap_private C root a' to = wrap_private C root a to"
  unfolding acc_alike_def wrap_private_def using at_hand_cong [of a' a] by metis

lemma unwrap_spec_alike: "alike C now r r' \<Longrightarrow> unwrap_spec C now r' ws info = unwrap_spec C now r ws info"
proof (induction ws)
  case (Cons nw ws)
  obtain n w where nw: "nw = (n, w)" by force
  have "wrap_private C (rroot r') (held_account n now r') (To w) = wrap_private C (rroot r) (held_account n now r) (To w)"
    using Cons.prems wrap_private_alike unfolding alike_def by metis
  with Cons nw show ?case by (simp split: option.split)
qed simp

lemma Unwrap_spec:
  "ring_ok C r \<Longrightarrow> Unwrap C ws info now r = (res, r') \<Longrightarrow>
     res = unwrap_spec C now r ws info \<and> alike C now r r'"
proof (induction ws arbitrary: r)
  case Nil
  then show ?case by (simp add: alike_refl)
next
  case (Cons nw ws)
  obtain n w where nw: "nw = (n, w)" by force
  let ?a = "held_account n now r"
  obtain p a1 where p: "unwrap_private C (rroot r) w ?a = (p, a1)" by force
  from unwrap_private_spec [OF coherent_held [OF Cons.prems(1)] p]
  have spec: "p = wrap_private C (rroot r) ?a (To w)" "alike C now r (put_account n a1 r)"
    by (auto intro: alike_put [OF Cons.prems(1)])
  let ?r = "put_account n a1 r"
  have rest: "res = unwrap_spec C now r ws info \<and> alike C now r r'"
    if "Unwrap C ws info now ?r = (res, r')"
    using Cons.IH [OF alike_ring_ok [OF spec(2)] that] spec(2) unwrap_spec_alike [OF spec(2)]
    by (auto intro: alike_trans)
  show ?case
    using Cons.prems(2) nw p spec rest
    by (auto simp: ring_get_eq Let_def split: option.splits)
qed

lemma ring_get_alike: "ring_ok C r \<Longrightarrow> ring_get n now r = (a, r') \<Longrightarrow> a = held_account n now r \<and> alike C now r r'"
  by (auto simp: ring_get_eq intro!: alike_put acc_alike_refl coherent_held)

lemma Ring_Wrap_alike: "ring_ok C r \<Longrightarrow> Ring_Wrap n s i now r = (w, r') \<Longrightarrow> alike C now r r'"
  by (auto simp: Ring_Wrap_def dest: ring_get_alike split: prod.splits option.splits)

lemma Ring_ID_alike: "ring_ok C r \<Longrightarrow> Ring_ID n now r = (i, r') \<Longrightarrow> alike C now r r' \<and> i = aid (held_account n now r)"
  by (auto simp: Ring_ID_def dest: ring_get_alike split: prod.splits)

lemma On_alike: "ring_ok C r \<Longrightarrow> On n now r = (b, r') \<Longrightarrow> alike C now r r'"
  by (auto simp: On_def dest: ring_get_alike split: prod.splits)

subsection \<open>A ring for witnesses\<close>

definition sample_ring :: ring where
  "sample_ring = \<lparr>rdb = \<lparr>entries = [], put_refused = (\<lambda>_ _. None), delete_refused = (\<lambda>_. None)\<rparr>,
     rroot = sample_root, accounts = (\<lambda>_. None)\<rparr>"

definition sample_own :: "string" where
  "sample_own = replicate 32 CHR ''k''"

definition held_ring :: ring where
  "held_ring = snd (turn sample_crypto (Inr ''first'') ''ann'' (Some sample_own) True True 100 sample_ring)"

definition failing_ring :: ring where
  "failing_ring = sample_ring\<lparr>rdb := \<lparr>entries = [], put_refused = (\<lambda>_ _. Some (ErrOther ''disk full'')),
     delete_refused = (\<lambda>_. None)\<rparr>\<rparr>"

lemma ring_ok_sample: "ring_ok C sample_ring" "ring_ok C failing_ring"
  by (simp_all add: ring_ok_def sample_ring_def failing_ring_def)

lemma ring_ok_held: "ring_ok sample_crypto held_ring"
  unfolding held_ring_def
  by (rule turn_ring_ok [OF ring_ok_sample(1)]) (rule prod.collapse [symmetric])

subsection \<open>Properties\<close>

text \<open>
  C6: what the ring gives an account to seal new values under also opens them: a value
  sealed with the key \<open>For\<close> returned is opened by \<open>Ring_Open\<close>, whether the account's
  encryption is on or off and whatever the cache of derived keys holds.
\<close>

theorem For_Open_roundtrip:
  assumes "ring_ok C r" and "root_format (rroot r) = ByInstance"
    and "For C name pu now r = (Inr k, r')"
  shows "fst (Ring_Open C name pu (Seal k p) now r') = Inr p"
proof -
  let ?a = "held_account name now r"
  from For_spec [OF assms(1,3)] obtain a' where
    r': "r' = put_account name a' r" and c: "coherent C a'" and ex: "expire now a' = a'"
    and o1: "own a' = own ?a"
    and k: "Inr k = (if \<not> on ?a then Inr (Root_Key C (rroot r) pu)
       else if own ?a = None \<or> pub ?a \<noteq> None \<and> private_spec C (rroot r) ?a = None then Inl ErrLocked
       else Inr (Root_Key C (AccountRoot (the (own ?a))) pu))" unfolding Let_def by blast
  have held: "held_account name now r' = a'" by (simp add: r' held_account_def ex)
  obtain res a2 where o2: "acc_open C (rroot r) a' pu (Seal k p) = (res, a2)" by force
  with acc_open_spec [OF c o2] held have "fst (Ring_Open C name pu (Seal k p) now r') =
      open_spec C (rroot r) (at_hand a') pu (Seal k p)"
    by (simp add: Ring_Open_def ring_get_eq r')
  also have "\<dots> = Inr p"
    using k o1 assms(2)
    by (cases "own ?a") (auto simp: open_spec_def at_hand_def Open_Seal split: if_splits)
  finally show ?thesis .
qed

theorem For_Open_roundtrip_witness:
  "fst (For sample_crypto ''ann'' ''mail'' 100 held_ring) =
     Inr (Root_Key sample_crypto (AccountRoot sample_own) ''mail'') \<and>
   fst (Ring_Open sample_crypto ''ann'' ''mail''
     (Seal (Root_Key sample_crypto (AccountRoot sample_own) ''mail'') ''text'') 100
     (snd (For sample_crypto ''ann'' ''mail'' 100 held_ring))) = Inr ''text''"
proof -
  let ?k = "Root_Key sample_crypto (AccountRoot sample_own) ''mail''"
  have k: "fst (For sample_crypto ''ann'' ''mail'' 100 held_ring) = Inr ?k" by code_simp
  have f: "root_format (rroot held_ring) = ByInstance" by code_simp
  have "For sample_crypto ''ann'' ''mail'' 100 held_ring =
      (Inr ?k, snd (For sample_crypto ''ann'' ''mail'' 100 held_ring))"
    using k by (metis prod.collapse)
  from For_Open_roundtrip [OF ring_ok_held f this, of "''text''"] k show ?thesis by simp
qed

text \<open>
  C27: when the last login of an account ends and no lease runs, its own key is gone: nothing
  sealed under an account key opens for it any more, until a login brings the key again.
\<close>

theorem key_forgotten_at_last_logout:
  assumes "accounts r name = Some a" and "holds a = 1" and "until a \<le> now" and "now \<le> later"
    and "Format v = ByAccount"
  shows "fst (Ring_Open C name pu v later (release_hold name now r)) = Inl ErrLocked \<and>
    fst (Own name later (release_hold name now r)) = None"
  using assms
  by (auto simp: Ring_Open_def Own_def ring_get_def release_hold_def expire_def acc_open_def Let_def)

theorem key_forgotten_at_last_logout_witness:
  "fst (Ring_Open sample_crypto ''ann'' ''mail''
      (Seal (Root_Key sample_crypto (AccountRoot sample_own) ''mail'') ''text'') 101
      (release_hold ''ann'' 100 held_ring)) = Inl ErrLocked"
proof -
  let ?a = "the (accounts held_ring ''ann'')"
  have a: "accounts held_ring ''ann'' = Some ?a" by code_simp
  have h: "holds ?a = 1" by code_simp
  have u: "until ?a \<le> 100" by code_simp
  show ?thesis
    using key_forgotten_at_last_logout [OF a h u, where later = 101
      and v = "Seal (Root_Key sample_crypto (AccountRoot sample_own) ''mail'') ''text''"] by simp
qed



text \<open>A value opens under at most one content, so more keys at hand only open more.\<close>

lemma open_old_Inr:
  "open_old C ss pu v = Inr p \<longleftrightarrow>
     (\<exists>s \<in> set ss. Open (Root_Key C (AccountRoot s) pu) v = Inr p)"
proof (induction ss)
  case (Cons s ss)
  have "p' = p" if "Open k v = Inr p'" "Open k' v = Inr p" for k k' p' p
    using that by (auto simp: Open_Inr)
  with Cons show ?case by (cases "Open (Root_Key C (AccountRoot s) pu) v") auto
qed simp

lemma parse_spec_mono:
  assumes "parse_spec C root ss v = Some b" and "set ss \<subseteq> set ss'"
  shows "parse_spec C root ss' v = Some b"
proof (cases "Format v = ByAccount")
  case False
  with assms(1) show ?thesis by (simp add: parse_spec_def open_spec_def)
next
  case True
  with assms(1) have p: "open_old C ss Owner v = Inr b" "kem_private_ok C b"
    by (auto simp: parse_spec_def open_spec_def split: sum.splits if_splits)
  then have "open_old C ss' Owner v = Inr b" using assms(2) by (auto simp: open_old_Inr)
  with True p(2) show ?thesis by (simp add: parse_spec_def open_spec_def)
qed

lemma at_hand_turned: "set (at_hand a) \<subseteq> set (at_hand (turned o1 want hold a))"
  by (auto simp: at_hand_def turned_def take_own_def Let_def split: option.splits)

lemma private_spec_turned:
  "private_spec C root a = Some b \<Longrightarrow> private_spec C root (turned o1 want hold a) = Some b"
  using parse_spec_mono [OF _ at_hand_turned] by (auto simp: private_spec_def split: if_splits)

definition paired :: "crypto \<Rightarrow> string \<Rightarrow> account \<Rightarrow> bool" where
  "paired C b a \<longleftrightarrow> pub a = Some (kem_public C b) \<and> aid a = idOf C (kem_public C b) \<and> kem_private_ok C b"



text \<open>
  A login whose \<open>Hold\<close> fails is given no release, yet the hold it took stays counted, so
  the account's own key is not forgotten when the other logins end.
\<close>

lemma failed_Hold_keeps_count:
  assumes "ring_ok C r" and "\<not> short_key o1" and "Hold C gen name o1 want now r = (Some e, r')"
  shows "holds (the (accounts r' name)) = holds (held_account name now r) + 1"
  using turn_fails_holds [OF assms(3) [unfolded Hold_def] assms(2,1)] .

lemma failed_Hold_keeps_count_witness:
  "holds (the (accounts (snd (Hold sample_crypto (Inr ''first'') ''ann'' (Some sample_own) True 100 failing_ring)) ''ann'')) = 1"
proof -
  let ?h = "Hold sample_crypto (Inr ''first'') ''ann'' (Some sample_own) True 100 failing_ring"
  have k: "\<not> short_key (Some sample_own)" by code_simp
  have h: "?h = (Some (ErrOther ''disk full''), snd ?h)" by (rule prod_eqI) (code_simp, simp)
  have z: "holds (held_account ''ann'' 100 failing_ring) = 0" by code_simp
  show ?thesis using failed_Hold_keeps_count [OF ring_ok_sample(2) k h] z by simp
qed

end
