(* ===== verification/Pim_Data.thy ===== *)
theory Pim_Data
  imports Keyring
begin

text \<open>
  The records of alborz's own calendars, task lists and address books and the names they are
  kept under (the types and the \<^verbatim>\<open>keys\<close> of \<^verbatim>\<open>pim/store/store.go\<close>).

  A stored value is the record it encodes: \<^verbatim>\<open>json.Unmarshal\<close> into another type is the
  error \<open>ErrJSON\<close>. \<open>unknown\<close> are the fields a newer version wrote, which \<^verbatim>\<open>record.Keep\<close>
  carries over (for a collection, at its top and inside its feed). Every key function takes
  \<open>nm\<close>, the keyed naming \<^verbatim>\<open>names.Of\<close> of the instance.
\<close>

subsection \<open>Decimal counters\<close>

definition digit :: "nat \<Rightarrow> char" where
  "digit d = char_of (48 + d)"

fun FormatUint :: "nat \<Rightarrow> string" where
  "FormatUint n = (if n < 10 then [digit n] else FormatUint (n div 10) @ [digit (n mod 10)])"

declare FormatUint.simps [simp del]

definition is_digit :: "char \<Rightarrow> bool" where
  "is_digit c \<longleftrightarrow> 48 \<le> (of_char c :: nat) \<and> (of_char c :: nat) \<le> 57"

definition decimal :: "string \<Rightarrow> nat" where
  "decimal s = foldl (\<lambda>n c. 10 * n + (of_char c - 48)) 0 s"

definition ParseUint :: "string \<Rightarrow> err + 64 word" where
  "ParseUint s = (if s = [] \<or> \<not> list_all is_digit s \<or> decimal s \<ge> 2 ^ 64 then Inl ErrNumber
     else Inr (of_nat (decimal s)))"

lemma digit_digit [simp]: "d < 10 \<Longrightarrow> is_digit (digit d)" "d < 10 \<Longrightarrow> of_char (digit d) = 48 + d"
  by (simp_all add: digit_def is_digit_def)

lemma FormatUint_digits: "list_all is_digit (FormatUint n) \<and> FormatUint n \<noteq> [] \<and> decimal (FormatUint n) = n"
proof (induction n rule: FormatUint.induct)
  case (1 n)
  show ?case
  proof (cases "n < 10")
    case True
    then show ?thesis by (simp add: FormatUint.simps [of n] decimal_def)
  next
    case False
    with 1 have "list_all is_digit (FormatUint (n div 10))" "decimal (FormatUint (n div 10)) = n div 10"
      by auto
    moreover have "n mod 10 < 10" by simp
    ultimately show ?thesis
      using False by (simp add: FormatUint.simps [of n] decimal_def)
  qed
qed

lemma ParseUint_FormatUint [simp]: "ParseUint (FormatUint (unat w)) = Inr (w :: 64 word)"
  using FormatUint_digits [of "unat w"] unsigned_less [of w, where ?'a = nat] by (simp add: ParseUint_def)

subsection \<open>The records\<close>

type_synonym Kind = string

definition Calendar :: Kind where
  "Calendar = ''calendar''"

definition AddressBook :: Kind where
  "AddressBook = ''addressbook''"

record Ref =
  refOwner :: string
  refID :: string

record Feed =
  fURL :: string
  fETag :: string
  fLastModified :: string
  fFetched :: time
  fEvery :: duration
  fNamed :: time

record Dead =
  dSpace :: string
  dLocal :: string
  dXML :: string

record Collection =
  cID :: string
  cOwner :: string
  cKind :: Kind
  cComponents :: "string list"
  cName :: string
  cColor :: string
  cDescription :: string
  CTag :: "64 word"
  cPublic :: string
  cTimezone :: string
  cDead :: "Dead list"
  cFeed :: "Feed option"

record Dropped =
  dpID :: string
  dpURL :: string
  dpAt :: time

record Object =
  oName :: string
  oUID :: string
  oData :: string
  oETag :: string
  oModified :: time
  oCreator :: string
  oCreated :: time
  oEditor :: string

record Share =
  sOwner :: string
  sCollection :: string
  sTo :: string
  sWrite :: bool
  sExpires :: time
  sAccepted :: bool
  sCreated :: time
  sDeclined :: bool
  sLeft :: bool
  sAnswered :: time

definition zero_Collection :: Collection where
  "zero_Collection = \<lparr>cID = [], cOwner = [], cKind = [], cComponents = [], cName = [], cColor = [],
     cDescription = [], CTag = 0, cPublic = [], cTimezone = [], cDead = [], cFeed = None\<rparr>"

definition Collection_Ref :: "Collection \<Rightarrow> Ref" where
  "Collection_Ref c = \<lparr>refOwner = cOwner c, refID = cID c\<rparr>"

definition Share_Ref :: "Share \<Rightarrow> Ref" where
  "Share_Ref sh = \<lparr>refOwner = sOwner sh, refID = sCollection sh\<rparr>"

definition Live :: "Share \<Rightarrow> time \<Rightarrow> bool" where
  "Live sh now \<longleftrightarrow> sAccepted sh \<and> (sExpires sh = 0 \<or> now < sExpires sh)"

definition Ended :: "Share \<Rightarrow> time \<Rightarrow> bool" where
  "Ended sh now \<longleftrightarrow> sExpires sh \<noteq> 0 \<and> \<not> now < sExpires sh"

text \<open>A collection's own key: wrapped to each account that may read it, and sealed under the instance's key while it is published.\<close>

record keyRecord =
  Wraps :: "(string \<times> Wrap) list"
  kPublic :: "string sealed option"

type_synonym unknown = "(string \<times> string) list"

datatype "stored" =
    VText string
  | VCollection Collection unknown unknown
  | VObject Object unknown
  | VShare Share unknown
  | VRef Ref unknown
  | VDropped Dropped unknown
  | VKeyRecord keyRecord

fun Keep :: "stored option \<Rightarrow> stored \<Rightarrow> stored" where
  "Keep (Some (VCollection _ u f)) (VCollection c _ _) = VCollection c u (if cFeed c = None then [] else f)"
| "Keep (Some (VObject _ u)) (VObject ob _) = VObject ob u"
| "Keep (Some (VShare _ u)) (VShare sh _) = VShare sh u"
| "Keep (Some (VRef _ u)) (VRef r _) = VRef r u"
| "Keep (Some (VDropped _ u)) (VDropped d _) = VDropped d u"
| "Keep _ v = v"

fun as_collection :: "stored \<Rightarrow> err + Collection" where
  "as_collection (VCollection c _ _) = Inr c"
| "as_collection _ = Inl ErrJSON"

fun as_object :: "stored \<Rightarrow> err + Object" where
  "as_object (VObject ob _) = Inr ob"
| "as_object _ = Inl ErrJSON"

fun as_share :: "stored \<Rightarrow> err + Share" where
  "as_share (VShare sh _) = Inr sh"
| "as_share _ = Inl ErrJSON"

fun as_ref :: "stored \<Rightarrow> err + Ref" where
  "as_ref (VRef r _) = Inr r"
| "as_ref _ = Inl ErrJSON"

fun as_dropped :: "stored \<Rightarrow> err + Dropped" where
  "as_dropped (VDropped d _) = Inr d"
| "as_dropped _ = Inl ErrJSON"

fun as_key_record :: "stored \<Rightarrow> err + keyRecord" where
  "as_key_record (VKeyRecord r) = Inr r"
| "as_key_record _ = Inl ErrJSON"

text \<open>The bytes of a value read as text; the sources do so with the values they wrote as text only.\<close>

fun text_of :: "stored \<Rightarrow> string" where
  "text_of (VText s) = s"
| "text_of _ = []"

lemma as_Keep [simp]:
  "as_collection (Keep was (VCollection c u f)) = Inr c"
  "as_object (Keep was (VObject ob u)) = Inr ob"
  "as_share (Keep was (VShare sh u)) = Inr sh"
  "as_ref (Keep was (VRef r u)) = Inr r"
  "as_dropped (Keep was (VDropped d u)) = Inr d"
  by (cases was; cases "the was"; simp)+

lemma as_Inr [result_simps]:
  "as_collection v = Inr c \<longleftrightarrow> (\<exists>u f. v = VCollection c u f)"
  "as_object v = Inr ob \<longleftrightarrow> (\<exists>u. v = VObject ob u)"
  "as_share v = Inr sh \<longleftrightarrow> (\<exists>u. v = VShare sh u)"
  "as_ref v = Inr r \<longleftrightarrow> (\<exists>u. v = VRef r u)"
  "as_dropped v = Inr d \<longleftrightarrow> (\<exists>u. v = VDropped d u)"
  "as_key_record v = Inr kr \<longleftrightarrow> v = VKeyRecord kr"
  by (cases v; auto)+

subsection \<open>The names of records\<close>

type_synonym naming = "string \<Rightarrow> string"

definition Pim_Name :: string where
  "Pim_Name = ''alborz.pim''"

definition k_ref :: "naming \<Rightarrow> Ref \<Rightarrow> string" where
  "k_ref nm ref = nm (ToLower (refOwner ref)) @ ''/'' @ nm (refID ref)"

definition collectionsOf :: "naming \<Rightarrow> string \<Rightarrow> string" where
  "collectionsOf nm owner = Pim_Name @ ''/collections/'' @ nm (ToLower owner) @ ''/''"

definition collectionKey :: "naming \<Rightarrow> Ref \<Rightarrow> string" where
  "collectionKey nm ref = collectionsOf nm (refOwner ref) @ nm (refID ref)"

definition objectsOf :: "naming \<Rightarrow> Ref \<Rightarrow> string" where
  "objectsOf nm ref = Pim_Name @ ''/objects/'' @ k_ref nm ref @ ''/''"

definition objectKey :: "naming \<Rightarrow> Ref \<Rightarrow> string \<Rightarrow> string" where
  "objectKey nm ref name = objectsOf nm ref @ nm name"

definition NUL :: string where
  "NUL = [CHR 0x00]"

definition sharesOf :: "naming \<Rightarrow> Ref \<Rightarrow> string" where
  "sharesOf nm ref = Pim_Name @ ''/shares/'' @ k_ref nm ref @ NUL"

definition shareKey :: "naming \<Rightarrow> Ref \<Rightarrow> string \<Rightarrow> string" where
  "shareKey nm ref to = sharesOf nm ref @ nm (ToLower to)"

definition uidsOf :: "naming \<Rightarrow> Ref \<Rightarrow> string" where
  "uidsOf nm ref = Pim_Name @ ''/uids/'' @ k_ref nm ref @ NUL"

definition uidKey :: "naming \<Rightarrow> Ref \<Rightarrow> string \<Rightarrow> string" where
  "uidKey nm ref uid = uidsOf nm ref @ nm uid"

definition publicKey :: "naming \<Rightarrow> string \<Rightarrow> string" where
  "publicKey nm secret = Pim_Name @ ''/public/'' @ nm secret"

definition receivedBy :: "naming \<Rightarrow> string \<Rightarrow> string" where
  "receivedBy nm to = Pim_Name @ ''/received/'' @ nm (ToLower to) @ NUL"

definition receivedKey :: "naming \<Rightarrow> string \<Rightarrow> Ref \<Rightarrow> string" where
  "receivedKey nm to ref = receivedBy nm to @ k_ref nm ref"

definition droppedOf :: "naming \<Rightarrow> string \<Rightarrow> string" where
  "droppedOf nm owner = Pim_Name @ ''/dropped/'' @ nm (ToLower owner) @ ''/''"

definition droppedKey :: "naming \<Rightarrow> Ref \<Rightarrow> string" where
  "droppedKey nm ref = droppedOf nm (refOwner ref) @ nm (refID ref)"

definition ctagKey :: string where
  "ctagKey = Pim_Name @ ''/ctag''"

definition keyKey :: "string \<Rightarrow> string" where
  "keyKey scope = Pim_Name @ ''/keys/'' @ scope"

definition key_info :: "string \<Rightarrow> string" where
  "key_info scope = Pim_Name @ '' collection key '' @ scope"

definition scoped :: "string list" where
  "scoped = [Pim_Name @ ''/collections/'', Pim_Name @ ''/objects/'', Pim_Name @ ''/shares/'', Pim_Name @ ''/uids/'']"

definition scopeLen :: nat where
  "scopeLen = 65"

fun scope_under :: "string list \<Rightarrow> string \<Rightarrow> string" where
  "scope_under [] k = []"
| "scope_under (p # ps) k = (case CutPrefix p k of
      Some rest \<Rightarrow> if length rest \<ge> scopeLen then take scopeLen rest else scope_under ps k
    | None \<Rightarrow> scope_under ps k)"

definition scopeOf :: "string \<Rightarrow> string" where
  "scopeOf k = scope_under scoped k"

definition prefixesOf :: "string \<Rightarrow> string list" where
  "prefixesOf scope = [Pim_Name @ ''/collections/'' @ scope, Pim_Name @ ''/objects/'' @ scope @ ''/'',
     Pim_Name @ ''/shares/'' @ scope @ NUL, Pim_Name @ ''/uids/'' @ scope @ NUL]"

subsection \<open>Facts about names\<close>

text \<open>A keyed name is 32 hexadecimal digits, so it holds no separator.\<close>

definition naming_ok :: "naming \<Rightarrow> bool" where
  "naming_ok nm \<longleftrightarrow> (\<forall>s. length (nm s) = 32 \<and> CHR ''/'' \<notin> set (nm s) \<and> CHR 0x00 \<notin> set (nm s))"

lemma naming_ok_Names_Of: "named C \<Longrightarrow> naming_ok (Names_Of C n)"
  by (auto simp: naming_ok_def length_Names_Of)

lemma naming_length [simp]: "naming_ok nm \<Longrightarrow> length (nm s) = 32"
  by (simp add: naming_ok_def)

lemma length_k_ref [simp]: "naming_ok nm \<Longrightarrow> length (k_ref nm ref) = scopeLen"
  by (simp add: k_ref_def scopeLen_def)

lemmas key_defs = collectionKey_def collectionsOf_def objectKey_def objectsOf_def sharesOf_def shareKey_def
  uidsOf_def uidKey_def publicKey_def receivedBy_def receivedKey_def droppedOf_def droppedKey_def
  ctagKey_def keyKey_def Pim_Name_def

lemma collectionKey_scope: "collectionKey nm ref = Pim_Name @ ''/collections/'' @ k_ref nm ref"
  by (simp add: collectionKey_def collectionsOf_def k_ref_def)

text \<open>Records of different sorts never share a key.\<close>

lemma sorts_differ [key_simps]:
  "collectionKey nm r \<noteq> objectKey nm r' n" "collectionKey nm r \<noteq> shareKey nm r' n" "collectionKey nm r \<noteq> uidKey nm r' n"
  "collectionKey nm r \<noteq> publicKey nm n" "collectionKey nm r \<noteq> receivedKey nm n r'" "collectionKey nm r \<noteq> droppedKey nm r'"
  "collectionKey nm r \<noteq> ctagKey" "collectionKey nm r \<noteq> keyKey s"
  "objectKey nm r n \<noteq> shareKey nm r' m" "objectKey nm r n \<noteq> uidKey nm r' m" "objectKey nm r n \<noteq> publicKey nm m"
  "objectKey nm r n \<noteq> receivedKey nm m r'" "objectKey nm r n \<noteq> droppedKey nm r'" "objectKey nm r n \<noteq> ctagKey"
  "objectKey nm r n \<noteq> keyKey s"
  "shareKey nm r n \<noteq> uidKey nm r' m" "shareKey nm r n \<noteq> publicKey nm m" "shareKey nm r n \<noteq> receivedKey nm m r'"
  "shareKey nm r n \<noteq> droppedKey nm r'" "shareKey nm r n \<noteq> ctagKey" "shareKey nm r n \<noteq> keyKey s"
  "uidKey nm r n \<noteq> publicKey nm m" "uidKey nm r n \<noteq> receivedKey nm m r'" "uidKey nm r n \<noteq> droppedKey nm r'"
  "uidKey nm r n \<noteq> ctagKey" "uidKey nm r n \<noteq> keyKey s"
  "publicKey nm n \<noteq> receivedKey nm m r'" "publicKey nm n \<noteq> droppedKey nm r'" "publicKey nm n \<noteq> ctagKey"
  "publicKey nm n \<noteq> keyKey s"
  "receivedKey nm n r \<noteq> droppedKey nm r'" "receivedKey nm n r \<noteq> ctagKey" "receivedKey nm n r \<noteq> keyKey s"
  "droppedKey nm r \<noteq> ctagKey" "droppedKey nm r \<noteq> keyKey s" "ctagKey \<noteq> keyKey s"
  by (simp_all add: key_defs)

lemmas sorts_differ_sym [key_simps] = sorts_differ [symmetric]

lemma scopeOf_keys [key_simps]:
  assumes "naming_ok nm"
  shows "scopeOf (collectionKey nm r) = k_ref nm r" "scopeOf (objectKey nm r n) = k_ref nm r"
    "scopeOf (shareKey nm r n) = k_ref nm r" "scopeOf (uidKey nm r n) = k_ref nm r"
  using length_k_ref [OF assms, of r]
  by (simp_all add: scopeOf_def scoped_def collectionKey_scope objectKey_def objectsOf_def shareKey_def sharesOf_def
        uidKey_def uidsOf_def CutPrefix_def Pim_Name_def prefix_def)

lemma scopeOf_unscoped [key_simps]:
  "scopeOf (publicKey nm n) = []" "scopeOf (receivedKey nm n r) = []" "scopeOf (droppedKey nm r) = []"
  "scopeOf ctagKey = []" "scopeOf (keyKey s) = []"
  by (simp_all add: scopeOf_def scoped_def key_defs CutPrefix_def prefix_def)

end
