(* ===== verification/Sealed_Tx.thy ===== *)
theory Sealed_Tx
  imports Pim_Data
begin

text \<open>
  The data file with every value sealed (\<^verbatim>\<open>pim/store/sealed.go\<close>): under the instance's key,
  or under a collection's own key while its owner's encryption is on.

  \<open>sealedTx\<close> is the transaction: the file's entries as they are sealed, the instance's key,
  the ring, the first error a \<^verbatim>\<open>Get\<close> met, and the collections' keys it already looked up.
  \<^verbatim>\<open>c.rec\<close> is a pointer the cache shares, so a changed \<open>collKey\<close> is put back into \<open>sheld\<close>.
  \<open>C\<close> is the cryptography, \<open>now\<close> the clock the ring reads during the transaction, \<open>fresh\<close> what
  \<^verbatim>\<open>rand.Read\<close> gives. \<^verbatim>\<open>Scan\<close> gives the calls its callback gets before the error that ends
  the walk; no callback of the sources writes.
\<close>

record collKey =
  crec :: "keyRecord option"
  csecret :: string
  ckey :: "Key option"

definition ck_locked :: "collKey \<Rightarrow> bool" where
  "ck_locked c \<longleftrightarrow> crec c \<noteq> None \<and> ckey c = None"

record sealedTx =
  raw :: "(stored sealed, err) tx"
  skey :: Key
  sring :: ring
  writing :: bool
  serr :: "err option"
  sheld :: "string \<Rightarrow> collKey option"

definition no_key :: collKey where
  "no_key = \<lparr>crec = None, csecret = [], ckey = None\<rparr>"

text \<open>What \<^verbatim>\<open>collection\<close> makes of a key record and the secret it opened, if any.\<close>

definition opened_key :: "keyRecord \<Rightarrow> string option \<Rightarrow> collKey" where
  "opened_key rec sec = \<lparr>crec = Some rec, csecret = (case sec of None \<Rightarrow> [] | Some s \<Rightarrow> s),
     ckey = (case sec of None \<Rightarrow> None
       | Some s \<Rightarrow> if length s = KeySize then Some (NewAccountKey s) else None)\<rparr>"

definition record_secret :: "crypto \<Rightarrow> time \<Rightarrow> string \<Rightarrow> keyRecord \<Rightarrow> sealedTx \<Rightarrow> string option \<times> ring" where
  "record_secret C now scope rec t = (case kPublic rec of
       Some v \<Rightarrow> (case Open (skey t) v of Inl _ \<Rightarrow> None | Inr s \<Rightarrow> Some s, sring t)
     | None \<Rightarrow> Unwrap C (Wraps rec) (key_info scope) now (sring t))"

definition collection :: "crypto \<Rightarrow> time \<Rightarrow> string \<Rightarrow> (err, sealedTx, collKey) prog" where
  "collection C now scope t = (case sheld t scope of
       Some c \<Rightarrow> (Inr c, t)
     | None \<Rightarrow> (case kv_get (keyKey scope) (raw t) of
           None \<Rightarrow> (Inr no_key, t\<lparr>sheld := (sheld t)(scope := Some no_key)\<rparr>)
         | Some v \<Rightarrow> (case bindE (Open (skey t) v) as_key_record of
               Inl e \<Rightarrow> (Inl e, t)
             | Inr rec \<Rightarrow> (case record_secret C now scope rec t of (sec, r) \<Rightarrow>
                 let c = opened_key rec sec
                 in (Inr c, t\<lparr>sring := r, sheld := (sheld t)(scope := Some c)\<rparr>)))))"

definition open_value :: "crypto \<Rightarrow> time \<Rightarrow> string \<Rightarrow> stored sealed \<Rightarrow> (err, sealedTx, stored) prog" where
  "open_value C now k v t =
     (if Format v \<noteq> ByAccount then (Open (skey t) v, t)
      else (case collection C now (scopeOf k) t of
          (Inl e, t1) \<Rightarrow> (Inl e, t1)
        | (Inr c, t1) \<Rightarrow> (case ckey c of
              Some ck \<Rightarrow> (Open ck v, t1)
            | None \<Rightarrow> (Inl (if ck_locked c then ErrLocked else ErrOpen), t1))))"

definition passed :: "err \<Rightarrow> sealedTx \<Rightarrow> bool" where
  "passed e t \<longleftrightarrow> \<not> writing t \<and> e = ErrLocked"

definition tx_Get :: "crypto \<Rightarrow> time \<Rightarrow> string \<Rightarrow> sealedTx \<Rightarrow> stored option \<times> sealedTx" where
  "tx_Get C now k t = (case kv_get k (raw t) of
       None \<Rightarrow> (None, t)
     | Some v \<Rightarrow> (case open_value C now k v t of
           (Inr p, t1) \<Rightarrow> (Some p, t1)
         | (Inl e, t1) \<Rightarrow>
             (None, if \<not> passed e t1 \<and> serr t1 = None then t1\<lparr>serr := Some e\<rparr> else t1)))"

definition sealer :: "crypto \<Rightarrow> time \<Rightarrow> string \<Rightarrow> (err, sealedTx, Key) prog" where
  "sealer C now k t =
     (if scopeOf k = [] then (Inr (skey t), t)
      else (case collection C now (scopeOf k) t of
          (Inl e, t1) \<Rightarrow> (Inl e, t1)
        | (Inr c, t1) \<Rightarrow>
            if ck_locked c then (Inl ErrLocked, t1)
            else (case ckey c of Some ck \<Rightarrow> (Inr ck, t1) | None \<Rightarrow> (Inr (skey t1), t1))))"

definition raw_put :: "string \<Rightarrow> stored sealed \<Rightarrow> (err, sealedTx, unit) prog" where
  "raw_put k v t = (case kv_put k v (raw t) of
     Inl e \<Rightarrow> (Inl e, t) | Inr r \<Rightarrow> (Inr (), t\<lparr>raw := r\<rparr>))"

definition tx_Put :: "crypto \<Rightarrow> time \<Rightarrow> string \<Rightarrow> stored \<Rightarrow> (err, sealedTx, unit) prog" where
  "tx_Put C now k v = bindT (sealer C now k) (\<lambda>key. raw_put k (Seal key v))"

definition tx_Delete :: "string \<Rightarrow> (err, sealedTx, unit) prog" where
  "tx_Delete k t = (case kv_delete k (raw t) of
     Inl e \<Rightarrow> (Inl e, t) | Inr r \<Rightarrow> (Inr (), t\<lparr>raw := r\<rparr>))"

fun scan_values :: "crypto \<Rightarrow> time \<Rightarrow> (string \<times> stored sealed) list \<Rightarrow> sealedTx \<Rightarrow>
    ((string \<times> stored) list \<times> err option) \<times> sealedTx" where
  "scan_values C now [] t = (([], None), t)"
| "scan_values C now ((k, v) # es) t = (case open_value C now k v t of
       (Inr p, t1) \<Rightarrow> (case scan_values C now es t1 of ((kvs, e), t2) \<Rightarrow> (((k, p) # kvs, e), t2))
     | (Inl e, t1) \<Rightarrow> if passed e t1 then scan_values C now es t1 else (([], Some e), t1))"

definition tx_Scan :: "crypto \<Rightarrow> time \<Rightarrow> string \<Rightarrow> sealedTx \<Rightarrow> ((string \<times> stored) list \<times> err option) \<times> sealedTx" where
  "tx_Scan C now p t = scan_values C now (kv_scan p (raw t)) t"

subsection \<open>A collection's key\<close>

definition hold_key :: "string \<Rightarrow> collKey \<Rightarrow> (err, sealedTx, unit) prog" where
  "hold_key scope c t = (Inr (), t\<lparr>sheld := (sheld t)(scope := Some c)\<rparr>)"

definition saveKey :: "string \<Rightarrow> collKey \<Rightarrow> (err, sealedTx, unit) prog" where
  "saveKey scope c t = raw_put (keyKey scope)
     (Seal (skey t) (case crec c of None \<Rightarrow> VText ''null'' | Some rec \<Rightarrow> VKeyRecord rec)) t"

definition wrapped_to :: "keyRecord \<Rightarrow> string \<Rightarrow> string" where
  "wrapped_to rec name = (case map_of (Wraps rec) name of None \<Rightarrow> [] | Some w \<Rightarrow> To w)"

definition put_wrap :: "string \<Rightarrow> Wrap \<Rightarrow> keyRecord \<Rightarrow> keyRecord" where
  "put_wrap name w rec = rec\<lparr>Wraps := (name, w) # filter (\<lambda>x. fst x \<noteq> name) (Wraps rec)\<rparr>"

definition ring_wrap :: "time \<Rightarrow> string \<Rightarrow> string \<Rightarrow> string \<Rightarrow> (err, sealedTx, Wrap option) prog" where
  "ring_wrap now name secret info t = (case Ring_Wrap name secret info now (sring t) of
     (w, r) \<Rightarrow> (Inr w, t\<lparr>sring := r\<rparr>))"

definition ring_id :: "time \<Rightarrow> string \<Rightarrow> (err, sealedTx, string) prog" where
  "ring_id now name t = (case Ring_ID name now (sring t) of (i, r) \<Rightarrow> (Inr i, t\<lparr>sring := r\<rparr>))"

definition wrapTo :: "crypto \<Rightarrow> time \<Rightarrow> string \<Rightarrow> string \<Rightarrow> (err, sealedTx, unit) prog" where
  "wrapTo C now scope name = bindT (collection C now scope) (\<lambda>c.
     case (ckey c, crec c) of
       (Some _, Some rec) \<Rightarrow> bindT (ring_id now name) (\<lambda>i.
         if wrapped_to rec name = i \<and> wrapped_to rec name \<noteq> [] then returnT ()
         else bindT (ring_wrap now name (csecret c) (key_info scope)) (\<lambda>w.
           case w of None \<Rightarrow> returnT ()
           | Some w \<Rightarrow> let c' = c\<lparr>crec := Some (put_wrap name w rec)\<rparr>
               in bindT (hold_key scope c') (\<lambda>_. saveKey scope c')))
     | _ \<Rightarrow> returnT ())"

definition unwrapFrom :: "crypto \<Rightarrow> time \<Rightarrow> string \<Rightarrow> string \<Rightarrow> (err, sealedTx, unit) prog" where
  "unwrapFrom C now scope name = bindT (collection C now scope) (\<lambda>c. case crec c of
       None \<Rightarrow> returnT ()
     | Some rec \<Rightarrow> let c' = c\<lparr>crec := Some (rec\<lparr>Wraps := filter (\<lambda>x. fst x \<noteq> name) (Wraps rec)\<rparr>)\<rparr>
         in bindT (hold_key scope c') (\<lambda>_. saveKey scope c'))"

definition instance_seal :: "string \<Rightarrow> (err, sealedTx, string sealed) prog" where
  "instance_seal s t = (Inr (Seal (skey t) s), t)"

definition publicWrap :: "crypto \<Rightarrow> time \<Rightarrow> string \<Rightarrow> bool \<Rightarrow> (err, sealedTx, unit) prog" where
  "publicWrap C now scope published = bindT (collection C now scope) (\<lambda>c. case crec c of
       None \<Rightarrow> returnT ()
     | Some rec \<Rightarrow>
         if (kPublic rec \<noteq> None) = published then returnT ()
         else if ck_locked c then failT ErrLocked
         else bindT (instance_seal (csecret c)) (\<lambda>s.
           let c' = c\<lparr>crec := Some (rec\<lparr>kPublic := if published then Some s else None\<rparr>)\<rparr>
           in bindT (hold_key scope c') (\<lambda>_. saveKey scope c')))"

definition dropKey :: "string \<Rightarrow> (err, sealedTx, unit) prog" where
  "dropKey scope t = tx_Delete (keyKey scope) (t\<lparr>sheld := (sheld t)(scope := None)\<rparr>)"

text \<open>The records under one prefix, opened; an error ends the walk.\<close>

fun open_each :: "crypto \<Rightarrow> time \<Rightarrow> (string \<times> stored sealed) list \<Rightarrow> (err, sealedTx, (string \<times> stored) list) prog" where
  "open_each C now [] = returnT []"
| "open_each C now ((k, v) # es) = bindT (open_value C now k v) (\<lambda>p.
     bindT (open_each C now es) (\<lambda>kvs. returnT ((k, p) # kvs)))"

definition raw_scan :: "string \<Rightarrow> (err, sealedTx, (string \<times> stored sealed) list) prog" where
  "raw_scan p t = (Inr (kv_scan p (raw t)), t)"

fun values_under :: "crypto \<Rightarrow> time \<Rightarrow> string list \<Rightarrow> (err, sealedTx, (string \<times> stored) list) prog" where
  "values_under C now [] = returnT []"
| "values_under C now (p # ps) = bindT (raw_scan p) (\<lambda>es. bindT (open_each C now es) (\<lambda>kvs.
     bindT (values_under C now ps) (\<lambda>rest. returnT (kvs @ rest))))"

definition tx_values :: "crypto \<Rightarrow> time \<Rightarrow> string \<Rightarrow> (err, sealedTx, (string \<times> stored) list) prog" where
  "tx_values C now scope = values_under C now (prefixesOf scope)"

text \<open>The loop of \<^verbatim>\<open>rekey\<close> that wraps the new secret to the holders.\<close>

fun wrap_all :: "time \<Rightarrow> string \<Rightarrow> string \<Rightarrow> string list \<Rightarrow> keyRecord \<Rightarrow> (err, sealedTx, keyRecord) prog" where
  "wrap_all now secret info [] rec = returnT rec"
| "wrap_all now secret info (h # hs) rec = bindT (ring_wrap now h secret info) (\<lambda>w.
     wrap_all now secret info hs (case w of None \<Rightarrow> rec | Some w \<Rightarrow> put_wrap h w rec))"

text \<open>The rest of \<^verbatim>\<open>rekey\<close>, once the values are open: the new key is made, wrapped, saved and used.\<close>

definition seal_anew :: "time \<Rightarrow> string \<Rightarrow> string \<Rightarrow> string list \<Rightarrow> bool \<Rightarrow> (string \<times> stored) list \<Rightarrow> (err, sealedTx, unit) prog" where
  "seal_anew now fresh scope holders published vs = bindT (instance_seal fresh) (\<lambda>s.
     bindT (wrap_all now fresh (key_info scope) holders
              \<lparr>Wraps = [], kPublic = (if published then Some s else None)\<rparr>) (\<lambda>rec.
       let c = \<lparr>crec = Some rec, csecret = fresh, ckey = Some (NewAccountKey fresh)\<rparr>
       in bindT (hold_key scope c) (\<lambda>_. bindT (saveKey scope c) (\<lambda>_.
          forT (\<lambda>(k, v). raw_put k (Seal (NewAccountKey fresh) v)) vs))))"

definition rekey :: "crypto \<Rightarrow> time \<Rightarrow> string \<Rightarrow> string \<Rightarrow> string list \<Rightarrow> (err, sealedTx, unit) prog" where
  "rekey C now fresh scope holders = bindT (collection C now scope) (\<lambda>c.
     if ck_locked c then failT ErrLocked
     else bindT (tx_values C now scope)
       (seal_anew now fresh scope holders (case crec c of None \<Rightarrow> False | Some rec \<Rightarrow> kPublic rec \<noteq> None)))"

definition encrypt :: "crypto \<Rightarrow> time \<Rightarrow> string \<Rightarrow> string \<Rightarrow> string list \<Rightarrow> (err, sealedTx, unit) prog" where
  "encrypt C now fresh scope holders = bindT (collection C now scope) (\<lambda>c.
     if crec c \<noteq> None then returnT () else rekey C now fresh scope holders)"

definition instance_put :: "string \<Rightarrow> stored \<Rightarrow> (err, sealedTx, unit) prog" where
  "instance_put k v t = raw_put k (Seal (skey t) v) t"

definition decrypt :: "crypto \<Rightarrow> time \<Rightarrow> string \<Rightarrow> (err, sealedTx, unit) prog" where
  "decrypt C now scope = bindT (collection C now scope) (\<lambda>c.
     if crec c = None then returnT ()
     else if ck_locked c then failT ErrLocked
     else bindT (tx_values C now scope) (\<lambda>vs.
       bindT (forT (\<lambda>(k, v). instance_put k v) vs) (\<lambda>_. dropKey scope)))"

subsection \<open>Transactions\<close>

record pimDB =
  pdb :: "(stored sealed, err) tx"
  pkey :: Key
  pring :: ring

definition begin_tx :: "bool \<Rightarrow> pimDB \<Rightarrow> sealedTx" where
  "begin_tx write s = \<lparr>raw = pdb s, skey = pkey s, sring = pring s, writing = write, serr = None, sheld = (\<lambda>_. None)\<rparr>"

definition run_tx :: "bool \<Rightarrow> (err, sealedTx, 'a) prog \<Rightarrow> pimDB \<Rightarrow> (err + 'a) \<times> sealedTx" where
  "run_tx write fn s = (case fn (begin_tx write s) of (res, t) \<Rightarrow>
     (case serr t of Some e \<Rightarrow> (Inl e, t) | None \<Rightarrow> (res, t)))"

definition db_View :: "(err, sealedTx, 'a) prog \<Rightarrow> pimDB \<Rightarrow> (err + 'a) \<times> pimDB" where
  "db_View fn s = (case run_tx False fn s of (res, t) \<Rightarrow> (res, s\<lparr>pring := sring t\<rparr>))"

definition db_Update :: "(err, sealedTx, 'a) prog \<Rightarrow> pimDB \<Rightarrow> (err + 'a) \<times> pimDB" where
  "db_Update fn s = (case run_tx True fn s of
     (Inl e, t) \<Rightarrow> (Inl e, s\<lparr>pring := sring t\<rparr>)
   | (Inr a, t) \<Rightarrow> (Inr a, s\<lparr>pdb := raw t, pring := sring t\<rparr>))"

subsection \<open>What a transaction reads\<close>

text \<open>
  \<open>reads\<close> is the key of a scope the transaction can read with, and \<open>view\<close> the value every
  record holds in plain, \<open>None\<close> where it cannot be opened: the store above is written against
  \<open>view\<close> alone.
\<close>

definition key_on_file :: "crypto \<Rightarrow> time \<Rightarrow> Key \<Rightarrow> (stored sealed, err) tx \<Rightarrow> ring \<Rightarrow> string \<Rightarrow> err + collKey" where
  "key_on_file C now key file r scope = (case kv_get (keyKey scope) file of
       None \<Rightarrow> Inr no_key
     | Some v \<Rightarrow> (case bindE (Open key v) as_key_record of
           Inl e \<Rightarrow> Inl e
         | Inr rec \<Rightarrow> Inr (opened_key rec (case kPublic rec of
               Some p \<Rightarrow> (case Open key p of Inl _ \<Rightarrow> None | Inr s \<Rightarrow> Some s)
             | None \<Rightarrow> unwrap_spec C now r (Wraps rec) (key_info scope)))))"

definition known :: "crypto \<Rightarrow> time \<Rightarrow> sealedTx \<Rightarrow> string \<Rightarrow> err + collKey" where
  "known C now t scope = (case sheld t scope of
     Some c \<Rightarrow> Inr c | None \<Rightarrow> key_on_file C now (skey t) (raw t) (sring t) scope)"

definition plain_key :: "string \<Rightarrow> bool" where
  "plain_key k \<longleftrightarrow> \<not> prefix (Pim_Name @ ''/keys/'') k \<and>
     (scopeOf k = [] \<or> list_ex (\<lambda>p. prefix p k) (prefixesOf (scopeOf k)))"

definition opens :: "crypto \<Rightarrow> time \<Rightarrow> sealedTx \<Rightarrow> string \<Rightarrow> stored sealed \<Rightarrow> err + stored" where
  "opens C now t k v =
     (if Format v \<noteq> ByAccount then Open (skey t) v
      else (case known C now t (scopeOf k) of
          Inl e \<Rightarrow> Inl e
        | Inr c \<Rightarrow> (case ckey c of Some ck \<Rightarrow> Open ck v
            | None \<Rightarrow> Inl (if ck_locked c then ErrLocked else ErrOpen))))"

definition the_right :: "'e + 'a \<Rightarrow> 'a option" where
  "the_right x = (case x of Inl _ \<Rightarrow> None | Inr a \<Rightarrow> Some a)"

lemma the_right_simps [simp]: "the_right (Inr a) = Some a" "the_right (Inl e) = None"
  "the_right x = Some a \<longleftrightarrow> x = Inr a"
  by (auto simp: the_right_def split: sum.splits)

definition view :: "crypto \<Rightarrow> time \<Rightarrow> sealedTx \<Rightarrow> string \<Rightarrow> stored option" where
  "view C now t k = (if plain_key k then Option.bind (kv_get k (raw t)) (\<lambda>v. the_right (opens C now t k v)) else None)"

definition key_ok :: "collKey \<Rightarrow> bool" where
  "key_ok c \<longleftrightarrow> (ckey c \<noteq> None \<longrightarrow> key_format (the (ckey c)) = ByAccount \<and> crec c \<noteq> None)"

definition tx_inv :: "crypto \<Rightarrow> sealedTx \<Rightarrow> bool" where
  "tx_inv C t \<longleftrightarrow> ordered_tx (raw t) \<and> ring_ok C (sring t) \<and> key_format (skey t) = ByInstance \<and>
     (\<forall>s c. sheld t s = Some c \<longrightarrow> key_ok c) \<and>
     (\<forall>k. kv_get k (raw t) \<noteq> None \<longrightarrow> plain_key k \<or> prefix (Pim_Name @ ''/keys/'') k)"

lemma key_format_New [simp]: "key_format (NewAccountKey s) = ByAccount"
  by (simp add: NewAccountKey_def)

lemma key_ok_simps [simp]: "key_ok no_key" "key_ok (opened_key rec sec)"
  by (auto simp: key_ok_def no_key_def opened_key_def split: option.splits)

lemma known_ok: "tx_inv C t \<Longrightarrow> known C now t s = Inr c \<Longrightarrow> key_ok c"
  by (auto simp: known_def key_on_file_def tx_inv_def split: option.splits sum.splits)

text \<open>Looking a key up fills the caches and changes nothing else.\<close>

definition quiet :: "crypto \<Rightarrow> time \<Rightarrow> sealedTx \<Rightarrow> sealedTx \<Rightarrow> bool" where
  "quiet C now t t' \<longleftrightarrow> raw t' = raw t \<and> skey t' = skey t \<and> writing t' = writing t \<and>
     alike C now (sring t) (sring t') \<and> (\<forall>s. sheld t s \<noteq> None \<longrightarrow> sheld t' s = sheld t s) \<and>
     (\<forall>s c. sheld t' s = Some c \<longrightarrow> known C now t s = Inr c)"

lemma key_on_file_alike: "alike C now r r' \<Longrightarrow> key_on_file C now key file r' s = key_on_file C now key file r s"
  by (simp add: key_on_file_def unwrap_spec_alike split: option.splits sum.splits)

lemma quiet_known: "quiet C now t t' \<Longrightarrow> known C now t' s = known C now t s"
  by (cases "sheld t' s") (auto simp: quiet_def known_def key_on_file_alike split: option.splits)

lemma quiet_refl: "tx_inv C t \<Longrightarrow> quiet C now t t"
  by (simp add: quiet_def tx_inv_def alike_refl known_def)

lemma quiet_trans: "quiet C now t t' \<Longrightarrow> quiet C now t' t'' \<Longrightarrow> quiet C now t t''"
  using quiet_known [of C now t t'] by (auto simp: quiet_def intro: alike_trans)

lemma quiet_inv: "quiet C now t t' \<Longrightarrow> tx_inv C t \<Longrightarrow> tx_inv C t'"
proof -
  assume q: "quiet C now t t'" and inv: "tx_inv C t"
  have "\<forall>s c. sheld t' s = Some c \<longrightarrow> key_ok c"
    using q known_ok [OF inv] unfolding quiet_def by blast
  then show ?thesis
    using q inv alike_ring_ok [of C now "sring t" "sring t'"] by (simp add: quiet_def tx_inv_def)
qed

lemma quiet_opens: "quiet C now t t' \<Longrightarrow> opens C now t' k v = opens C now t k v"
  using quiet_known [of C now t t'] by (simp add: opens_def quiet_def)

lemma quiet_view: "quiet C now t t' \<Longrightarrow> view C now t' = view C now t"
  by (rule ext) (simp add: view_def quiet_opens, simp add: quiet_def)

lemma quiet_serr: "quiet C now t t' \<Longrightarrow> quiet C now t (t'\<lparr>serr := e\<rparr>)"
  by (simp add: quiet_def)

lemma collection_spec:
  assumes inv: "tx_inv C t" and run: "collection C now scope t = (res, t')"
  shows "res = known C now t scope \<and> quiet C now t t' \<and> serr t' = serr t \<and>
    (\<forall>c. res = Inr c \<longrightarrow> sheld t' scope = Some c)"
proof (cases "sheld t scope")
  case (Some c)
  then show ?thesis using run quiet_refl [OF inv] by (auto simp: collection_def known_def)
next
  case None
  show ?thesis
  proof (cases "kv_get (keyKey scope) (raw t)")
    case N: None
    then have "known C now t scope = Inr no_key" using None by (simp add: known_def key_on_file_def)
    then show ?thesis
      using run None N inv
      by (auto simp: collection_def quiet_def known_def tx_inv_def alike_refl split: if_splits)
  next
    case (Some v)
    show ?thesis
    proof (cases "bindE (Open (skey t) v) as_key_record")
      case (Inl e)
      then show ?thesis
        using run None Some quiet_refl [OF inv] by (auto simp: collection_def known_def key_on_file_def)
    next
      case (Inr rec)
      obtain sec r where sec: "record_secret C now scope rec t = (sec, r)" by force
      have ring: "ring_ok C (sring t)" using inv by (simp add: tx_inv_def)
      have spec: "sec = (case kPublic rec of Some p \<Rightarrow> (case Open (skey t) p of Inl _ \<Rightarrow> None | Inr s \<Rightarrow> Some s)
             | None \<Rightarrow> unwrap_spec C now (sring t) (Wraps rec) (key_info scope)) \<and> alike C now (sring t) r"
        using sec Unwrap_spec [OF ring] alike_refl [OF ring]
        by (auto simp: record_secret_def split: option.splits)
      then have "known C now t scope = Inr (opened_key rec sec)"
        using None Some Inr by (simp add: known_def key_on_file_def)
      then show ?thesis
        using run None Some Inr sec spec
        by (auto simp: collection_def Let_def quiet_def known_def split: if_splits)
    qed
  qed
qed

lemma open_value_spec:
  assumes inv: "tx_inv C t" and run: "open_value C now k v t = (res, t')"
  shows "res = opens C now t k v \<and> quiet C now t t' \<and> serr t' = serr t"
proof (cases "Format v = ByAccount")
  case False
  then show ?thesis using run quiet_refl [OF inv] by (auto simp: open_value_def opens_def)
next
  case True
  obtain rc t1 where c: "collection C now (scopeOf k) t = (rc, t1)" by force
  show ?thesis
    using run True c collection_spec [OF inv c]
    by (auto simp: open_value_def opens_def split: sum.splits option.splits)
qed

lemma tx_Get_spec:
  assumes inv: "tx_inv C t" and "plain_key k" and run: "tx_Get C now k t = (r, t')"
  shows "r = view C now t k \<and> quiet C now t t' \<and> (serr t' = None \<longrightarrow> serr t = None)"
proof (cases "kv_get k (raw t)")
  case None
  then show ?thesis using run quiet_refl [OF inv] by (auto simp: tx_Get_def view_def)
next
  case (Some v)
  obtain res t1 where o: "open_value C now k v t = (res, t1)" by force
  from open_value_spec [OF inv o] have s: "res = opens C now t k v" "quiet C now t t1" "serr t1 = serr t" by auto
  show ?thesis
    using run Some o s assms(2) quiet_serr [OF s(2)]
    by (auto simp: tx_Get_def view_def split: sum.splits if_splits)
qed

lemma sealer_spec:
  assumes inv: "tx_inv C t" and run: "sealer C now k t = (res, t')"
  shows "quiet C now t t' \<and> serr t' = serr t \<and>
    (\<forall>key. res = Inr key \<longrightarrow> key = skey t \<or>
       (\<exists>c. known C now t (scopeOf k) = Inr c \<and> ckey c = Some key \<and> key_format key = ByAccount))"
proof (cases "scopeOf k = []")
  case True
  then show ?thesis using run quiet_refl [OF inv] by (auto simp: sealer_def)
next
  case False
  obtain rc t1 where c: "collection C now (scopeOf k) t = (rc, t1)" by force
  have q: "skey t1 = skey t" if "quiet C now t t1" using that by (simp add: quiet_def)
  show ?thesis
    using run False c collection_spec [OF inv c] q known_ok [OF inv, of now "scopeOf k"]
    by (auto simp: sealer_def key_ok_def split: sum.splits option.splits if_splits)
qed

text \<open>A write under a plain name leaves the keys alone, so it changes the view at its name only.\<close>

lemma keyKey_not_plain: "plain_key k \<Longrightarrow> k \<noteq> keyKey s"
  by (auto simp: plain_key_def keyKey_def)

lemma keyKey_inj [simp]: "keyKey s = keyKey s' \<longleftrightarrow> s = s'"
  by (simp add: keyKey_def)

lemma known_raw_cong:
  "(\<And>s. sheld t s = None \<Longrightarrow> kv_get (keyKey s) f = kv_get (keyKey s) (raw t)) \<Longrightarrow> known C now (t\<lparr>raw := f\<rparr>) s = known C now t s"
  by (auto simp: known_def key_on_file_def split: option.splits)

lemma raw_put_returns:
  "raw_put k v t = (Inr u, t') \<longleftrightarrow> (\<exists>f. kv_put k v (raw t) = Inr f \<and> t' = t\<lparr>raw := f\<rparr>)"
  by (auto simp: raw_put_def split: sum.splits)

lemma raw_put_serr [simp]: "serr (snd (raw_put k v t)) = serr t"
  by (simp add: raw_put_def split: sum.splits)

lemma opens_cong:
  "skey t' = skey t \<Longrightarrow> (\<And>s. known C now t' s = known C now t s) \<Longrightarrow> opens C now t' k v = opens C now t k v"
  by (simp add: opens_def)

lemma plain_put_known:
  assumes "tx_inv C t" and "plain_key k" and "kv_put k v (raw t) = Inr f"
  shows "known C now (t\<lparr>raw := f\<rparr>) s = known C now t s"
proof (rule known_raw_cong)
  fix s
  show "kv_get (keyKey s) f = kv_get (keyKey s) (raw t)"
    using bolt.put_get [OF _ assms(3)] assms(1) keyKey_not_plain [OF assms(2), of s] by (simp add: tx_inv_def)
qed

lemma plain_put_inv:
  assumes "tx_inv C t" and "plain_key k" and "kv_put k v (raw t) = Inr f"
  shows "tx_inv C (t\<lparr>raw := f\<rparr>)"
  using assms bolt.put_get [OF _ assms(3)] bolt.put_inv [OF _ assms(3)] by (auto simp: tx_inv_def)

lemma tx_Put_spec:
  assumes inv: "tx_inv C t" and plain: "plain_key k" and run: "tx_Put C now k v t = (Inr u, t')"
  shows "view C now t' = (view C now t)(k := Some v) \<and> tx_inv C t' \<and> serr t' = serr t"
proof -
  from run obtain key t1 where s: "sealer C now k t = (Inr key, t1)" and p: "raw_put k (Seal key v) t1 = (Inr u, t')"
    by (auto simp: tx_Put_def bindT_def split: prod.splits sum.splits)
  note spec = sealer_spec [OF inv s]
  then have q: "quiet C now t t1" by simp
  note inv1 = quiet_inv [OF q inv]
  from p obtain f where f: "kv_put k (Seal key v) (raw t1) = Inr f" and t': "t' = t1\<lparr>raw := f\<rparr>"
    by (auto simp: raw_put_returns)
  have g: "kv_get k' f = (if k' = k then Some (Seal key v) else kv_get k' (raw t1))" for k'
    using bolt.put_get [OF _ f] inv1 by (simp add: tx_inv_def)
  have kn: "known C now t' s = known C now t s" for s
    using plain_put_known [OF inv1 plain f] quiet_known [OF q] t' by simp
  have sk: "skey t' = skey t" "raw t1 = raw t" using q t' by (simp_all add: quiet_def)
  have inst: "key_format (skey t) = ByInstance" using inv by (simp add: tx_inv_def)
  have self: "opens C now t' k (Seal key v) = Inr v"
    using spec kn sk inst by (auto simp: opens_def Open_Seal)
  have "view C now t' k' = ((view C now t)(k := Some v)) k'" for k'
    using self plain opens_cong [OF sk(1) kn] g sk(2) t' by (simp add: view_def)
  then show ?thesis using plain_put_inv [OF inv1 plain f] spec t' by (auto simp: fun_eq_iff)
qed

lemma tx_Delete_spec:
  assumes inv: "tx_inv C t" and plain: "plain_key k" and run: "tx_Delete k t = (Inr u, t')"
  shows "view C now t' = (view C now t)(k := None) \<and> tx_inv C t' \<and> serr t' = serr t"
proof -
  from run obtain f where f: "kv_delete k (raw t) = Inr f" and t': "t' = t\<lparr>raw := f\<rparr>"
    by (auto simp: tx_Delete_def split: sum.splits)
  have o: "ordered_tx (raw t)" using inv by (simp add: tx_inv_def)
  note g = bolt.del_get [OF o f]
  have kn: "known C now t' s = known C now t s" for s
    unfolding t' by (rule known_raw_cong) (use g keyKey_not_plain [OF plain] in auto)
  have "view C now t' k' = ((view C now t)(k := None)) k'" for k'
    using opens_cong [OF _ kn] g t' by (simp add: view_def)
  moreover have "tx_inv C t'" using inv bolt.del_inv [OF o f] g t' by (auto simp: tx_inv_def)
  ultimately show ?thesis using t' by (auto simp: fun_eq_iff)
qed

lemma scan_values_spec:
  "tx_inv C t \<Longrightarrow> scan_values C now es t = ((kvs, e), t') \<Longrightarrow>
     quiet C now t t' \<and> serr t' = serr t \<and>
     (e = None \<longrightarrow> kvs = List.map_filter (\<lambda>(k, v). map_option (Pair k) (the_right (opens C now t k v))) es)"
proof (induction es arbitrary: t kvs e t')
  case Nil
  then show ?case by (simp add: quiet_refl)
next
  case (Cons kv es)
  obtain k v where kv: "kv = (k, v)" by force
  obtain res t1 where o: "open_value C now k v t = (res, t1)" by force
  from open_value_spec [OF Cons.prems(1) o]
  have s: "res = opens C now t k v" "quiet C now t t1" "serr t1 = serr t" by auto
  note inv1 = quiet_inv [OF s(2) Cons.prems(1)]
  have op: "opens C now t1 = opens C now t" using quiet_opens [OF s(2)] by (simp add: fun_eq_iff)
  obtain kvs1 e1 t2 where r: "scan_values C now es t1 = ((kvs1, e1), t2)" by (metis surj_pair)
  note ih = Cons.IH [OF inv1 r]
  show ?case
    using Cons.prems(2) kv o r s ih op quiet_trans [OF s(2)]
    by (auto simp: List.map_filter_simps split: sum.splits if_splits)
qed

lemma tx_Scan_spec:
  assumes inv: "tx_inv C t" and run: "tx_Scan C now p t = ((kvs, None), t')"
    and apart: "\<And>k. prefix p k \<Longrightarrow> \<not> prefix (Pim_Name @ ''/keys/'') k"
  shows "quiet C now t t' \<and> serr t' = serr t \<and> distinct (map fst kvs) \<and>
    (\<forall>k v. (k, v) \<in> set kvs \<longleftrightarrow> prefix p k \<and> view C now t k = Some v)"
proof -
  have o: "ordered_tx (raw t)" using inv by (simp add: tx_inv_def)
  let ?es = "kv_scan p (raw t)"
  let ?f = "\<lambda>(k, v). map_option (Pair k) (the_right (opens C now t k v))"
  note spec = scan_values_spec [OF inv run [unfolded tx_Scan_def]]
  then have kvs: "kvs = List.map_filter ?f ?es" by simp
  have sc: "?es = filter (\<lambda>e. prefix p (fst e)) (entries (raw t))"
    using o by (simp add: kv_scan_filter ordered_tx_def)
  have "distinct (map fst (List.map_filter ?f es))" if "distinct (map fst es)" for es :: "(string \<times> stored sealed) list"
    using that by (induction es) (auto simp: List.map_filter_def split: option.splits, force)
  moreover have "distinct (map fst ?es)"
    using o sc by (simp add: ordered_tx_def ordered_distinct ordered_filter)
  ultimately have d: "distinct (map fst kvs)" using kvs by simp
  have pl: "plain_key k" if "prefix p k" "kv_get k (raw t) = Some v" for k v
    using inv apart [OF that(1)] that(2) by (auto simp: tx_inv_def)
  have "(k, v) \<in> set kvs \<longleftrightarrow> prefix p k \<and> view C now t k = Some v" for k v
  proof -
    have "(k, v) \<in> set kvs \<longleftrightarrow> (\<exists>w. (k, w) \<in> set ?es \<and> opens C now t k w = Inr v)"
      unfolding kvs List.map_filter_def by (force split: option.splits)
    also have "\<dots> \<longleftrightarrow> prefix p k \<and> view C now t k = Some v"
      using pl by (auto simp: bolt.scan_iff [OF o] view_def split: bind_splits)
    finally show ?thesis .
  qed
  then show ?thesis using spec d by blast
qed

subsection \<open>Keys change hands, records stay readable\<close>

definition reads :: "crypto \<Rightarrow> time \<Rightarrow> sealedTx \<Rightarrow> string \<Rightarrow> Key option" where
  "reads C now t s = Option.bind (the_right (known C now t s)) ckey"

lemma view_reads:
  "view C now t k = (if plain_key k then Option.bind (kv_get k (raw t)) (\<lambda>v.
     if Format v \<noteq> ByAccount then the_right (Open (skey t) v)
     else Option.bind (reads C now t (scopeOf k)) (\<lambda>ck. the_right (Open ck v))) else None)"
  by (cases "known C now t (scopeOf k)"; cases "ckey (projr (known C now t (scopeOf k)))")
     (auto simp: view_def opens_def reads_def intro!: Option.bind_cong split: option.splits)

definition kept :: "crypto \<Rightarrow> time \<Rightarrow> sealedTx \<Rightarrow> sealedTx \<Rightarrow> bool" where
  "kept C now t t' \<longleftrightarrow> view C now t' = view C now t \<and> tx_inv C t' \<and> serr t' = serr t"

lemma keptI:
  assumes "tx_inv C t'" and "skey t' = skey t" and "serr t' = serr t"
    and "\<And>k. plain_key k \<Longrightarrow> kv_get k (raw t') = kv_get k (raw t)"
    and "\<And>s. reads C now t' s = reads C now t s"
  shows "kept C now t t'"
proof -
  have "view C now t' k = view C now t k" for k
    unfolding view_reads assms(2,5) using assms(4) by simp
  then show ?thesis using assms(1,3) by (simp add: kept_def fun_eq_iff)
qed

lemma kept_quiet: "tx_inv C t \<Longrightarrow> quiet C now t t' \<Longrightarrow> serr t' = serr t \<Longrightarrow> kept C now t t'"
  by (simp add: kept_def quiet_inv quiet_view)

lemma kept_trans: "kept C now t t' \<Longrightarrow> kept C now t' t'' \<Longrightarrow> kept C now t t''"
  by (simp add: kept_def)

lemma kept_refl: "tx_inv C t \<Longrightarrow> kept C now t t"
  by (simp add: kept_def)

text \<open>A key record rewritten while the cache holds the key it had.\<close>

lemma saved_key:
  assumes inv: "tx_inv C t" and kn: "known C now t scope = Inr c" and c': "ckey c' = ckey c" "key_ok c'"
    and run: "bindT (hold_key scope c') (\<lambda>_. saveKey scope c') t = (res, t')"
  shows "serr t' = serr t \<and> (\<forall>u. res = Inr u \<longrightarrow> kept C now t t')"
proof -
  let ?t = "t\<lparr>sheld := (sheld t)(scope := Some c')\<rparr>"
  have r: "saveKey scope c' ?t = (res, t')" using run by (simp add: bindT_def hold_key_def)
  then have se: "serr t' = serr t"
    by (auto simp: saveKey_def raw_put_def split: sum.splits)
  have "kept C now t t'" if "res = Inr u" for u
  proof -
    from r that obtain v f where f: "kv_put (keyKey scope) v (raw t) = Inr f" and t': "t' = ?t\<lparr>raw := f\<rparr>"
      by (auto simp: saveKey_def raw_put_returns)
    have o: "ordered_tx (raw t)" using inv by (simp add: tx_inv_def)
    note g = bolt.put_get [OF o f]
    show ?thesis
    proof (rule keptI)
      show "tx_inv C t'"
        using inv c'(2) bolt.put_inv [OF o f] g t' by (auto simp: tx_inv_def keyKey_def)
      show "kv_get k (raw t') = kv_get k (raw t)" if "plain_key k" for k
        using g keyKey_not_plain [OF that] t' by auto
      show "reads C now t' s = reads C now t s" for s
      proof (cases "s = scope")
        case True
        then show ?thesis using kn c'(1) t' by (simp add: reads_def known_def)
      next
        case False
        then have "known C now t' s = known C now t s"
          using g t' by (auto simp: known_def key_on_file_def split: option.splits)
        then show ?thesis by (simp add: reads_def)
      qed
    qed (use se t' in auto)
  qed
  with se show ?thesis by blast
qed

definition keeps :: "crypto \<Rightarrow> time \<Rightarrow> (err, sealedTx, 'a) prog \<Rightarrow> bool" where
  "keeps C now m \<longleftrightarrow> (\<forall>t res t'. tx_inv C t \<longrightarrow> m t = (res, t') \<longrightarrow>
     serr t' = serr t \<and> (\<forall>a. res = Inr a \<longrightarrow> kept C now t t'))"

definition keeps_at :: "crypto \<Rightarrow> time \<Rightarrow> string \<Rightarrow> collKey \<Rightarrow> (err, sealedTx, 'a) prog \<Rightarrow> bool" where
  "keeps_at C now scope c m \<longleftrightarrow> (\<forall>t res t'. tx_inv C t \<longrightarrow> known C now t scope = Inr c \<longrightarrow> m t = (res, t') \<longrightarrow>
     serr t' = serr t \<and> (\<forall>a. res = Inr a \<longrightarrow> kept C now t t'))"

definition quiets :: "crypto \<Rightarrow> time \<Rightarrow> (err, sealedTx, 'a) prog \<Rightarrow> bool" where
  "quiets C now m \<longleftrightarrow> (\<forall>t res t'. tx_inv C t \<longrightarrow> m t = (res, t') \<longrightarrow> quiet C now t t' \<and> serr t' = serr t)"

lemma quietsD: "quiets C now m \<Longrightarrow> tx_inv C t \<Longrightarrow> m t = (res, t') \<Longrightarrow> quiet C now t t' \<and> serr t' = serr t"
  by (simp add: quiets_def)

lemma quiets_return: "quiets C now (returnT a)"
  by (auto simp: quiets_def returnT_def quiet_refl)

lemma quiets_bind:
  assumes "quiets C now m" and "\<And>a. quiets C now (f a)"
  shows "quiets C now (bindT m f)"
  unfolding quiets_def
proof (intro allI impI)
  fix t res t'
  assume inv: "tx_inv C t" and run: "bindT m f t = (res, t')"
  from run show "quiet C now t t' \<and> serr t' = serr t"
  proof (cases rule: bindT_cases)
    case (fails e)
    then show ?thesis using quietsD [OF assms(1) inv] by blast
  next
    case (goes a t1)
    from quietsD [OF assms(1) inv goes(1)] have q: "quiet C now t t1" "serr t1 = serr t" by auto
    from quietsD [OF assms(2) quiet_inv [OF q(1) inv] goes(2)] q show ?thesis
      by (auto intro: quiet_trans)
  qed
qed

lemma keeps_at_return: "keeps_at C now scope c (returnT a)"
  by (auto simp: keeps_at_def returnT_def kept_refl)

lemma keeps_at_fail: "keeps_at C now scope c (failT e)"
  by (auto simp: keeps_at_def failT_def)

lemma keeps_at_bind:
  assumes "quiets C now m" and "\<And>a. keeps_at C now scope c (f a)"
  shows "keeps_at C now scope c (bindT m f)"
  unfolding keeps_at_def
proof (intro allI impI)
  fix t res t'
  assume inv: "tx_inv C t" and kn: "known C now t scope = Inr c" and run: "bindT m f t = (res, t')"
  from run show "serr t' = serr t \<and> (\<forall>a. res = Inr a \<longrightarrow> kept C now t t')"
  proof (cases rule: bindT_cases)
    case (fails e)
    then show ?thesis using quietsD [OF assms(1) inv] by blast
  next
    case (goes a t1)
    from quietsD [OF assms(1) inv goes(1)] have q: "quiet C now t t1" "serr t1 = serr t" by auto
    have kn1: "known C now t1 scope = Inr c" using kn quiet_known [OF q(1)] by simp
    have "serr t' = serr t1 \<and> (\<forall>a. res = Inr a \<longrightarrow> kept C now t1 t')"
      using assms(2) [unfolded keeps_at_def] quiet_inv [OF q(1) inv] kn1 goes(2) by blast
    then show ?thesis using kept_quiet [OF inv q] q(2) by (auto intro: kept_trans)
  qed
qed

lemma keeps_at_save:
  "ckey c' = ckey c \<Longrightarrow> key_ok c' \<Longrightarrow> keeps_at C now scope c (bindT (hold_key scope c') (\<lambda>_. saveKey scope c'))"
  using saved_key unfolding keeps_at_def by blast

lemma quiets_collection: "quiets C now (collection C now scope)"
  using collection_spec by (fastforce simp: quiets_def)

lemma keeps_collection:
  assumes "\<And>c. key_ok c \<Longrightarrow> keeps_at C now scope c (f c)"
  shows "keeps C now (bindT (collection C now scope) f)"
  unfolding keeps_def
proof (intro allI impI)
  fix t res t'
  assume inv: "tx_inv C t" and run: "bindT (collection C now scope) f t = (res, t')"
  from run show "serr t' = serr t \<and> (\<forall>a. res = Inr a \<longrightarrow> kept C now t t')"
  proof (cases rule: bindT_cases)
    case (fails e)
    then show ?thesis using collection_spec [OF inv fails(1)] by auto
  next
    case (goes c t1)
    from collection_spec [OF inv goes(1)]
    have q: "known C now t scope = Inr c" "quiet C now t t1" "serr t1 = serr t" by auto
    have "serr t' = serr t1 \<and> (\<forall>a. res = Inr a \<longrightarrow> kept C now t1 t')"
      using assms [OF known_ok [OF inv q(1)], unfolded keeps_at_def] quiet_inv [OF q(2) inv]
        quiet_known [OF q(2)] q(1) goes(2) by metis
    then show ?thesis using kept_quiet [OF inv q(2,3)] q(3) by (auto intro: kept_trans)
  qed
qed

lemma ring_alike_quiet:
  "tx_inv C t \<Longrightarrow> alike C now (sring t) r \<Longrightarrow> quiet C now t (t\<lparr>sring := r\<rparr>)"
  by (simp add: quiet_def known_def)

lemma ring_wrap_quiet: "tx_inv C t \<Longrightarrow> ring_wrap now n sec i t = (res, t') \<Longrightarrow> quiet C now t t' \<and> serr t' = serr t"
  by (auto simp: ring_wrap_def tx_inv_def split: prod.splits
        intro!: ring_alike_quiet Ring_Wrap_alike [of C "sring t" n sec i now])

lemma ring_id_quiet: "tx_inv C t \<Longrightarrow> ring_id now n t = (res, t') \<Longrightarrow> quiet C now t t' \<and> serr t' = serr t"
  by (auto simp: ring_id_def tx_inv_def split: prod.splits
        intro!: ring_alike_quiet dest: Ring_ID_alike [of C "sring t" n now])

lemma ring_quiets: "quiets C now (ring_wrap now n sec i)" "quiets C now (ring_id now n)"
  using ring_wrap_quiet ring_id_quiet unfolding quiets_def by blast+

lemma instance_seal_quiets: "quiets C now (instance_seal x)"
  by (auto simp: quiets_def instance_seal_def quiet_refl)

lemma open_value_quiets: "quiets C now (open_value C now k v)"
  using open_value_spec by (fastforce simp: quiets_def)

lemma raw_scan_quiets: "quiets C now (raw_scan p)"
  by (auto simp: quiets_def raw_scan_def quiet_refl)

lemma open_each_quiets: "quiets C now (open_each C now es)"
  by (induction es) (auto intro!: quiets_return quiets_bind open_value_quiets)

lemma values_under_quiets: "quiets C now (values_under C now ps)"
  by (induction ps) (auto intro!: quiets_return quiets_bind raw_scan_quiets open_each_quiets)

lemma wrap_all_quiets: "quiets C now (wrap_all now sec i hs rec)"
  by (induction hs arbitrary: rec) (auto intro!: quiets_return quiets_bind ring_quiets)

lemma key_ok_rec: "key_ok c \<Longrightarrow> key_ok (c\<lparr>crec := Some rec\<rparr>)"
  by (simp add: key_ok_def)

lemma wrapTo_keeps: "keeps C now (wrapTo C now scope name)"
  unfolding wrapTo_def
  by (rule keeps_collection)
     (auto simp: Let_def intro!: keeps_at_return keeps_at_bind ring_quiets keeps_at_save key_ok_rec split: option.split)

lemma unwrapFrom_keeps: "keeps C now (unwrapFrom C now scope name)"
  unfolding unwrapFrom_def
  by (rule keeps_collection)
     (auto simp: Let_def intro!: keeps_at_return keeps_at_save key_ok_rec split: option.split)

lemma publicWrap_keeps: "keeps C now (publicWrap C now scope published)"
  unfolding publicWrap_def
  by (rule keeps_collection)
     (auto simp: Let_def intro!: keeps_at_return keeps_at_fail keeps_at_bind instance_seal_quiets keeps_at_save key_ok_rec
       split: option.split)

text \<open>What \<^verbatim>\<open>values\<close> collects: every record of the scope, opened, or the first error.\<close>

lemma open_each_spec:
  "tx_inv C t \<Longrightarrow> open_each C now es t = (Inr kvs, t') \<Longrightarrow>
     list_all2 (\<lambda>(k, v) (k', p). k' = k \<and> opens C now t k v = Inr p) es kvs"
proof (induction es arbitrary: t kvs t')
  case Nil
  then show ?case by (simp add: returnT_def)
next
  case (Cons kv es)
  obtain k v where kv: "kv = (k, v)" by force
  from Cons.prems(2) kv obtain p t1 kvs1 t2 where o: "open_value C now k v t = (Inr p, t1)"
    and r: "open_each C now es t1 = (Inr kvs1, t2)" and kvs: "kvs = (k, p) # kvs1"
    by (auto simp: bindT_def returnT_def split: prod.splits sum.splits)
  from open_value_spec [OF Cons.prems(1) o] have p: "opens C now t k v = Inr p" and q: "quiet C now t t1" by auto
  from Cons.IH [OF quiet_inv [OF q Cons.prems(1)] r] kv kvs p show ?case
    by (simp add: quiet_opens [OF q])
qed

lemma values_under_spec:
  "tx_inv C t \<Longrightarrow> values_under C now ps t = (Inr vs, t') \<Longrightarrow>
     list_all2 (\<lambda>(k, v) (k', p). k' = k \<and> opens C now t k v = Inr p)
       (concat (map (\<lambda>p. kv_scan p (raw t)) ps)) vs"
proof (induction ps arbitrary: t vs t')
  case Nil
  then show ?case by (simp add: returnT_def)
next
  case (Cons p ps)
  from Cons.prems(2) obtain kvs t1 rest t2 where o: "open_each C now (kv_scan p (raw t)) t = (Inr kvs, t1)"
    and r: "values_under C now ps t1 = (Inr rest, t2)" and vs: "vs = kvs @ rest"
    by (auto simp: bindT_def returnT_def raw_scan_def split: prod.splits sum.splits)
  from quietsD [OF open_each_quiets Cons.prems(1) o] have q: "quiet C now t t1" by simp
  from Cons.IH [OF quiet_inv [OF q Cons.prems(1)] r] open_each_spec [OF Cons.prems(1) o] vs q show ?case
    by (simp add: quiet_opens [OF q] list_all2_appendI quiet_def)
qed

lemma under_scope:
  assumes "length scope = scopeLen" and "p \<in> set (prefixesOf scope)" and "prefix p k"
  shows "scopeOf k = scope" and "\<not> prefix (Pim_Name @ ''/keys/'') k"
proof -
  from assms(2,3) obtain cls rest where k: "k = Pim_Name @ cls @ scope @ rest"
    and cls: "cls \<in> {''/collections/'', ''/objects/'', ''/shares/'', ''/uids/''}"
  proof -
    have "\<exists>cls \<in> {''/collections/'', ''/objects/'', ''/shares/'', ''/uids/''}. prefix (Pim_Name @ cls @ scope) k"
      using assms(2,3) by (auto simp: prefixesOf_def elim!: prefixE)
    then obtain cls rest where "cls \<in> {''/collections/'', ''/objects/'', ''/shares/'', ''/uids/''}"
      and "k = (Pim_Name @ cls @ scope) @ rest" unfolding prefix_def by blast
    then show ?thesis by (intro that [of cls rest]) simp_all
  qed
  show "scopeOf k = scope"
    using cls assms(1) unfolding k
    by (elim insertE emptyE) (simp_all add: scopeOf_def scoped_def CutPrefix_def Pim_Name_def)
  show "\<not> prefix (Pim_Name @ ''/keys/'') k"
    using cls unfolding k by (elim insertE emptyE) (simp_all add: Pim_Name_def)
qed

lemma list_all2_fst: "list_all2 (\<lambda>(k, v) (k', p). k' = k \<and> R k v p) es vs \<Longrightarrow>
    (\<forall>k p. (k, p) \<in> set vs \<longrightarrow> (\<exists>v. (k, v) \<in> set es \<and> R k v p)) \<and>
    (\<forall>k v. (k, v) \<in> set es \<longrightarrow> (\<exists>p. (k, p) \<in> set vs))"
  by (induction es vs rule: list_all2_induct) (simp, force)

lemma tx_values_spec:
  assumes inv: "tx_inv C t" and len: "length scope = scopeLen" and run: "tx_values C now scope t = (Inr vs, t')"
  shows "\<forall>k v. (k, v) \<in> set vs \<longrightarrow> plain_key k \<and> scopeOf k = scope \<and> view C now t k = Some v"
    and "\<forall>k. plain_key k \<longrightarrow> scopeOf k = scope \<longrightarrow> kv_get k (raw t) \<noteq> None \<longrightarrow> k \<in> fst ` set vs"
proof -
  have o: "ordered_tx (raw t)" using inv by (simp add: tx_inv_def)
  let ?es = "concat (map (\<lambda>p. kv_scan p (raw t)) (prefixesOf scope))"
  have es: "(k, v) \<in> set ?es \<longleftrightarrow> (\<exists>p \<in> set (prefixesOf scope). prefix p k) \<and> kv_get k (raw t) = Some v" for k v
    by (auto simp: bolt.scan_iff [OF o])
  note rel = list_all2_fst [OF values_under_spec [OF inv run [unfolded tx_values_def]]]
  have pl: "plain_key k \<and> scopeOf k = scope" if "(k, v) \<in> set ?es" for k v
  proof -
    from that obtain p where p: "p \<in> set (prefixesOf scope)" "prefix p k" and g: "kv_get k (raw t) = Some v"
      unfolding es by blast
    from under_scope [OF len p] inv g show ?thesis by (auto simp: tx_inv_def)
  qed
  show "\<forall>k v. (k, v) \<in> set vs \<longrightarrow> plain_key k \<and> scopeOf k = scope \<and> view C now t k = Some v"
  proof (intro allI impI)
    fix k v assume "(k, v) \<in> set vs"
    with rel obtain w where w: "(k, w) \<in> set ?es" "opens C now t k w = Inr v" by blast
    then show "plain_key k \<and> scopeOf k = scope \<and> view C now t k = Some v"
      using pl [OF w(1)] w(1) [unfolded es] by (simp add: view_def)
  qed
  show "\<forall>k. plain_key k \<longrightarrow> scopeOf k = scope \<longrightarrow> kv_get k (raw t) \<noteq> None \<longrightarrow> k \<in> fst ` set vs"
  proof (intro allI impI)
    fix k assume k: "plain_key k" "scopeOf k = scope" "kv_get k (raw t) \<noteq> None"
    then obtain v where v: "kv_get k (raw t) = Some v" by blast
    have "scope \<noteq> []" using len by (auto simp: scopeLen_def)
    with k have "\<exists>p \<in> set (prefixesOf scope). prefix p k" by (auto simp: plain_key_def list_ex_iff)
    with v have "(k, v) \<in> set ?es" unfolding es by blast
    with rel obtain p where "(k, p) \<in> set vs" by blast
    then show "k \<in> fst ` set vs" by force
  qed
qed

lemma put_all_spec:
  "ordered_tx (raw t) \<Longrightarrow> (\<And>k v. (k, v) \<in> set vs \<Longrightarrow> v = V k) \<Longrightarrow>
     forT (\<lambda>(k, v). raw_put k (g v)) vs t = (Inr u, t') \<Longrightarrow>
     (\<exists>f. t' = t\<lparr>raw := f\<rparr> \<and> ordered_tx f \<and>
        (\<forall>k. kv_get k f = (if k \<in> fst ` set vs then Some (g (V k)) else kv_get k (raw t))))"
proof (induction vs arbitrary: t)
  case Nil
  then show ?case by (auto simp: returnT_def intro!: exI [of _ "raw t"])
next
  case (Cons kv vs)
  obtain k v where kv: "kv = (k, v)" by force
  with Cons.prems(2) have v: "v = V k" by simp
  from Cons.prems(3) kv obtain f1 where f1: "kv_put k (g v) (raw t) = Inr f1"
    and r: "forT (\<lambda>(k, v). raw_put k (g v)) vs (t\<lparr>raw := f1\<rparr>) = (Inr u, t')"
    by (auto simp: bindT_def raw_put_returns split: prod.splits sum.splits)
  have o: "ordered_tx (raw (t\<lparr>raw := f1\<rparr>))" using bolt.put_inv [OF Cons.prems(1) f1] by simp
  from Cons.IH [OF o _ r] Cons.prems(2) obtain f where
    f: "t' = t\<lparr>raw := f\<rparr>" "ordered_tx f"
      "\<forall>k. kv_get k f = (if k \<in> fst ` set vs then Some (g (V k)) else kv_get k f1)" by auto
  have "\<forall>j. kv_get j f = (if j \<in> fst ` set (kv # vs) then Some (g (V j)) else kv_get j (raw t))"
    using f(3) bolt.put_get [OF Cons.prems(1) f1] kv v by auto
  with f show ?case by blast
qed

text \<open>Every record of a scope sealed again under a key the transaction then reads it with.\<close>

lemma reseal_kept:
  assumes inv: "tx_inv C t" and len: "length scope = scopeLen"
    and vals: "tx_values C now scope t0 = (Inr vs, t)" and q0: "quiet C now t0 t" "tx_inv C t0"
    and inv': "tx_inv C t'" and se: "serr t' = serr t" and sk: "skey t' = skey t"
    and onfile: "\<And>k. plain_key k \<Longrightarrow> kv_get k (raw t') =
        (if k \<in> fst ` set vs then Some (g (the (view C now t k))) else kv_get k (raw t))"
    and opened: "\<And>k v. plain_key k \<Longrightarrow> scopeOf k = scope \<Longrightarrow> opens C now t' k (g v) = Inr v"
    and others: "\<And>s. s \<noteq> scope \<Longrightarrow> reads C now t' s = reads C now t s"
  shows "kept C now t t'"
proof -
  note v = tx_values_spec [OF q0(2) len vals]
  have raw0: "raw t = raw t0" "view C now t = view C now t0" using q0(1) quiet_view by (auto simp: quiet_def)
  have "view C now t' k = view C now t k" for k
  proof (cases "plain_key k")
    case False
    then show ?thesis by (simp add: view_def)
  next
    case plain: True
    show ?thesis
    proof (cases "k \<in> fst ` set vs")
      case True
      then obtain x where x: "(k, x) \<in> set vs" by force
      with v(1) raw0 have "scopeOf k = scope" "view C now t k = Some x" by auto
      then show ?thesis using onfile [OF plain] opened [OF plain] True plain by (simp add: view_def)
    next
      case False
      show ?thesis
      proof (cases "scopeOf k = scope")
        case True
        then have "kv_get k (raw t) = None" using v(2) plain False raw0 by metis
        then show ?thesis using onfile [OF plain] False by (simp add: view_def)
      next
        case other: False
        show ?thesis
          unfolding view_reads sk others [OF other] using onfile [OF plain] False by simp
      qed
    qed
  qed
  then show ?thesis using inv' se by (simp add: kept_def fun_eq_iff)
qed

lemma tx_inv_file:
  assumes "tx_inv C t" and "ordered_tx f"
    and "\<And>k. kv_get k f \<noteq> None \<Longrightarrow> kv_get k (raw t) \<noteq> None \<or> plain_key k \<or> prefix (Pim_Name @ ''/keys/'') k"
  shows "tx_inv C (t\<lparr>raw := f\<rparr>)"
  using assms unfolding tx_inv_def by (simp, blast)

lemma rekey_spec:
  assumes inv: "tx_inv C t" and len: "length scope = scopeLen"
    and run: "rekey C now fresh scope holders t = (Inr u, t')"
  shows "kept C now t t' \<and>
    (\<forall>k v. plain_key k \<longrightarrow> scopeOf k = scope \<longrightarrow> kv_get k (raw t') = Some v \<longrightarrow> (\<exists>p. v = Seal (NewAccountKey fresh) p)) \<and>
    (\<forall>k. plain_key k \<longrightarrow> scopeOf k \<noteq> scope \<longrightarrow> kv_get k (raw t') = kv_get k (raw t)) \<and>
    (\<forall>x. kv_get (keyKey x) (raw t') = None \<longleftrightarrow> x \<noteq> scope \<and> kv_get (keyKey x) (raw t) = None) \<and>
    (\<exists>c. sheld t' scope = Some c \<and> crec c \<noteq> None) \<and>
    (\<forall>x c. x \<noteq> scope \<longrightarrow> sheld t' x = Some c \<longrightarrow> known C now t x = Inr c)"
proof -
  let ?k = "NewAccountKey fresh"
  from run obtain c t1 vs t2 pb where c: "collection C now scope t = (Inr c, t1)"
    and vs: "tx_values C now scope t1 = (Inr vs, t2)" and r2: "seal_anew now fresh scope holders pb vs t2 = (Inr u, t')"
    by (auto simp: rekey_def bindT_returns split: if_splits)
  from r2 obtain rec t3 x f1 where
    w: "wrap_all now fresh (key_info scope) holders \<lparr>Wraps = [], kPublic = (if pb then Some (Seal (skey t2) fresh) else None)\<rparr> t2 = (Inr rec, t3)"
    and f1: "kv_put (keyKey scope) x (raw t3) = Inr f1"
    and puts: "forT (\<lambda>(k, v). raw_put k (Seal ?k v)) vs
      (t3\<lparr>sheld := (sheld t3)(scope := Some \<lparr>crec = Some rec, csecret = fresh, ckey = Some ?k\<rparr>), raw := f1\<rparr>) = (Inr u, t')"
    by (auto simp: seal_anew_def Let_def instance_seal_def hold_key_def saveKey_def raw_put_returns bindT_returns)
  let ?c = "\<lparr>crec = Some rec, csecret = fresh, ckey = Some ?k\<rparr>"
  have q1: "quiet C now t t1" "serr t1 = serr t" using collection_spec [OF inv c] by auto
  note inv1 = quiet_inv [OF q1(1) inv]
  have q2: "quiet C now t1 t2" "serr t2 = serr t1"
    using quietsD [OF values_under_quiets inv1 vs [unfolded tx_values_def]] by auto
  note inv2 = quiet_inv [OF q2(1) inv1]
  have q3: "quiet C now t2 t3" "serr t3 = serr t2" using quietsD [OF wrap_all_quiets inv2 w] by auto
  note inv3 = quiet_inv [OF q3(1) inv2]
  have o3: "ordered_tx (raw t3)" using inv3 by (simp add: tx_inv_def)
  let ?t4 = "t3\<lparr>sheld := (sheld t3)(scope := Some ?c), raw := f1\<rparr>"
  note g1 = bolt.put_get [OF o3 f1]
  have inv4: "tx_inv C ?t4"
    using inv3 bolt.put_inv [OF o3 f1] g1 by (auto simp: tx_inv_def key_ok_def keyKey_def)
  note v = tx_values_spec [OF inv1 len vs]
  have V: "v = the (view C now t2 k)" if "(k, v) \<in> set vs" for k v
    using v(1) that quiet_view [OF q2(1)] by fastforce
  have "ordered_tx (raw ?t4)" using inv4 by (simp add: tx_inv_def)
  have "\<exists>f. t' = ?t4\<lparr>raw := f\<rparr> \<and> ordered_tx f \<and> (\<forall>k. kv_get k f =
      (if k \<in> fst ` set vs then Some (Seal ?k (the (view C now t2 k))) else kv_get k (raw ?t4)))"
    by (rule put_all_spec [OF \<open>ordered_tx (raw ?t4)\<close> _ puts]) (rule V)
  then obtain f where f: "t' = ?t4\<lparr>raw := f\<rparr>" "ordered_tx f"
      "\<forall>k. kv_get k f = (if k \<in> fst ` set vs then Some (Seal ?k (the (view C now t2 k))) else kv_get k f1)"
    by auto
  have inv': "tx_inv C t'"
    unfolding f(1) by (rule tx_inv_file [OF inv4 f(2)]) (use f(3) v(1) in \<open>auto split: if_splits\<close>)
  have kn: "known C now t' s = (if s = scope then Inr ?c else known C now t3 s)" for s
  proof -
    have "keyKey s \<notin> fst ` set vs" using v(1) keyKey_not_plain by fastforce
    then have "kv_get (keyKey s) f = (if s = scope then Some x else kv_get (keyKey s) (raw t3))"
      using f(3) g1 by simp
    then show ?thesis using f(1) by (simp add: known_def key_on_file_def split: option.split)
  qed
  have "kept C now t2 t'"
  proof (rule reseal_kept [OF inv2 len vs q2(1) inv1 inv'])
    show "serr t' = serr t2" "skey t' = skey t2" using f(1) q3 by (auto simp: quiet_def)
    show "kv_get k (raw t') = (if k \<in> fst ` set vs then Some (Seal ?k (the (view C now t2 k))) else kv_get k (raw t2))"
      if "plain_key k" for k
      using f g1 keyKey_not_plain [OF that] q3(1) by (auto simp: quiet_def)
    show "opens C now t' k (Seal ?k v) = Inr v" if "scopeOf k = scope" for k v
      using kn that by (simp add: opens_def Open_Seal)
    show "reads C now t' s = reads C now t2 s" if "s \<noteq> scope" for s
      using kn [of s] that quiet_known [OF q3(1)] by (simp add: reads_def)
  qed
  then have "kept C now t t'"
    using kept_quiet [OF inv q1] kept_quiet [OF inv1 q2] by (blast intro: kept_trans)
  moreover have "\<exists>p. y = Seal ?k p" if "plain_key k" "scopeOf k = scope" "kv_get k (raw t') = Some y" for k y
  proof -
    have "kv_get k (raw t') = (if k \<in> fst ` set vs then Some (Seal ?k (the (view C now t2 k))) else kv_get k (raw t1))"
      using f g1 keyKey_not_plain [OF that(1)] q3(1) q2(1) by (auto simp: quiet_def)
    with that v(2) show ?thesis by (auto split: if_splits)
  qed
  moreover have "kv_get k (raw t') = kv_get k (raw t)" if "plain_key k" "scopeOf k \<noteq> scope" for k
    using f g1 keyKey_not_plain [OF that(1)] q3(1) q2(1) q1(1) that(2) v(1) by (auto simp: quiet_def)
  moreover have "kv_get (keyKey x) (raw t') = None \<longleftrightarrow> x \<noteq> scope \<and> kv_get (keyKey x) (raw t) = None" for x
  proof -
    have "keyKey x \<notin> fst ` set vs" using v(1) keyKey_not_plain by fastforce
    then show ?thesis using f g1 q3(1) q2(1) q1(1) by (auto simp: quiet_def)
  qed
  moreover have "known C now t x = Inr c" if "x \<noteq> scope" "sheld t' x = Some c" for x c
    using that f(1) q3(1) quiet_known [OF q2(1)] quiet_known [OF q1(1)] by (auto simp: quiet_def)
  ultimately show ?thesis using f(1) by simp
qed

lemma instance_puts:
  "forT (\<lambda>(k, v). instance_put k v) vs t = forT (\<lambda>(k, v). raw_put k (Seal (skey t) v)) vs t"
proof (induction vs arbitrary: t)
  case (Cons kv vs)
  obtain k v where "kv = (k, v)" by force
  then show ?case
    using Cons by (auto simp: bindT_def instance_put_def raw_put_def split: sum.splits)
qed simp

lemma encrypt_kept:
  assumes inv: "tx_inv C t" and len: "length scope = scopeLen"
    and run: "encrypt C now fresh scope holders t = (Inr u, t')"
  shows "kept C now t t'"
proof -
  from run obtain c t1 where c: "collection C now scope t = (Inr c, t1)"
    and r: "(if crec c \<noteq> None then returnT () else rekey C now fresh scope holders) t1 = (Inr u, t')"
    unfolding encrypt_def bindT_returns by blast
  have q: "quiet C now t t1" "serr t1 = serr t" using collection_spec [OF inv c] by auto
  have "kept C now t1 t'"
    using r rekey_spec [OF quiet_inv [OF q(1) inv] len] kept_refl [OF quiet_inv [OF q(1) inv]]
    by (auto split: if_splits)
  then show ?thesis using kept_quiet [OF inv q] by (blast intro: kept_trans)
qed

text \<open>Dropping a collection's key leaves every record outside the collection as readable as it was.\<close>

lemma dropKey_spec:
  assumes inv: "tx_inv C t" and run: "dropKey scope t = (Inr u, t')"
  shows "tx_inv C t' \<and> serr t' = serr t \<and> skey t' = skey t \<and>
    (\<forall>k. plain_key k \<longrightarrow> kv_get k (raw t') = kv_get k (raw t)) \<and>
    (\<forall>s. s \<noteq> scope \<longrightarrow> reads C now t' s = reads C now t s) \<and>
    (\<forall>k. scopeOf k \<noteq> scope \<longrightarrow> view C now t' k = view C now t k)"
proof -
  from run obtain f where f: "kv_delete (keyKey scope) (raw t) = Inr f"
    and t': "t' = t\<lparr>sheld := (sheld t)(scope := None), raw := f\<rparr>"
    by (auto simp: dropKey_def tx_Delete_def split: sum.splits)
  have o: "ordered_tx (raw t)" using inv by (simp add: tx_inv_def)
  note g = bolt.del_get [OF o f]
  have "tx_inv C t'" using inv bolt.del_inv [OF o f] g t' by (auto simp: tx_inv_def)
  moreover have p: "kv_get k (raw t') = kv_get k (raw t)" if "plain_key k" for k
    using g keyKey_not_plain [OF that] t' by auto
  moreover have rd: "reads C now t' s = reads C now t s" if "s \<noteq> scope" for s
    using that g t' by (simp add: reads_def known_def key_on_file_def split: option.splits)
  moreover have "view C now t' k = view C now t k" if "scopeOf k \<noteq> scope" for k
  proof -
    have sk: "skey t' = skey t" using t' by simp
    show ?thesis unfolding view_reads rd [OF that] sk using p by simp
  qed
  ultimately show ?thesis using t' by simp
qed

lemma decrypt_spec:
  assumes inv: "tx_inv C t" and len: "length scope = scopeLen"
    and run: "decrypt C now scope t = (Inr u, t')"
  shows "kept C now t t' \<and> (\<exists>c. known C now t scope = Inr c \<and>
    (if crec c = None then quiet C now t t'
     else (\<forall>k v. plain_key k \<longrightarrow> scopeOf k = scope \<longrightarrow> kv_get k (raw t') = Some v \<longrightarrow> (\<exists>p. v = Seal (skey t) p)) \<and>
       (\<forall>k. plain_key k \<longrightarrow> scopeOf k \<noteq> scope \<longrightarrow> kv_get k (raw t') = kv_get k (raw t)) \<and>
       (\<forall>x. kv_get (keyKey x) (raw t') = (if x = scope then None else kv_get (keyKey x) (raw t))) \<and>
       sheld t' scope = None \<and> (\<forall>x c. sheld t' x = Some c \<longrightarrow> known C now t x = Inr c)))"
proof -
  from run obtain c t1 where c: "collection C now scope t = (Inr c, t1)"
    and r: "(if crec c = None then returnT () else if ck_locked c then failT ErrLocked
      else bindT (tx_values C now scope) (\<lambda>vs.
        bindT (forT (\<lambda>(k, v). instance_put k v) vs) (\<lambda>_. dropKey scope))) t1 = (Inr u, t')"
    unfolding decrypt_def bindT_returns [of "collection C now scope"] by blast
  have q1: "quiet C now t t1" "serr t1 = serr t" using collection_spec [OF inv c] by auto
  note inv1 = quiet_inv [OF q1(1) inv]
  have kn: "known C now t scope = Inr c" using collection_spec [OF inv c] by auto
  show ?thesis
  proof (cases "crec c = None")
    case True
    then show ?thesis using r kept_quiet [OF inv q1] kn q1(1) by simp
  next
    case False
    with r obtain vs t2 t3 where vs: "tx_values C now scope t1 = (Inr vs, t2)"
      and puts: "forT (\<lambda>(k, v). instance_put k v) vs t2 = (Inr (), t3)" and drop: "dropKey scope t3 = (Inr u, t')"
      by (auto simp: bindT_returns split: if_splits)
    have q2: "quiet C now t1 t2" "serr t2 = serr t1"
      using quietsD [OF values_under_quiets inv1 vs [unfolded tx_values_def]] by auto
    note inv2 = quiet_inv [OF q2(1) inv1]
    have o2: "ordered_tx (raw t2)" using inv2 by (simp add: tx_inv_def)
    note v = tx_values_spec [OF inv1 len vs]
    have inst: "forT (\<lambda>(k, v). instance_put k v) vs t = forT (\<lambda>(k, v). raw_put k (Seal (skey t) v)) vs t" for t
      using instance_puts by simp
    have V: "v = the (view C now t2 k)" if "(k, v) \<in> set vs" for k v
      using v(1) that quiet_view [OF q2(1)] by fastforce
    have "\<exists>f. t3 = t2\<lparr>raw := f\<rparr> \<and> ordered_tx f \<and> (\<forall>k. kv_get k f =
        (if k \<in> fst ` set vs then Some (Seal (skey t2) (the (view C now t2 k))) else kv_get k (raw t2)))"
      by (rule put_all_spec [OF o2 _ puts [unfolded inst]]) (rule V)
    then obtain f where f: "t3 = t2\<lparr>raw := f\<rparr>" "ordered_tx f"
        "\<forall>k. kv_get k f = (if k \<in> fst ` set vs then Some (Seal (skey t2) (the (view C now t2 k))) else kv_get k (raw t2))"
      by auto
    have inv3: "tx_inv C t3"
      unfolding f(1) by (rule tx_inv_file [OF inv2 f(2)]) (use f(3) v(1) in \<open>auto split: if_splits\<close>)
    note d = dropKey_spec [OF inv3 drop, of now]
    have k3: "known C now t3 s = known C now t2 s" for s
    proof -
      have "keyKey s \<notin> fst ` set vs" using v(1) keyKey_not_plain by fastforce
      then show ?thesis using f by (simp add: known_def key_on_file_def split: option.split)
    qed
    have "key_format (skey t2) = ByInstance" using inv2 by (simp add: tx_inv_def)
    then have "kept C now t2 t'"
      using d f k3
      by (intro reseal_kept [OF inv2 len vs q2(1) inv1, where g = "Seal (skey t2)"])
         (auto simp: opens_def Open_Seal reads_def)
    then have K: "kept C now t t'"
      using kept_quiet [OF inv q1] kept_quiet [OF inv1 q2] by (blast intro: kept_trans)
    from drop obtain f' where f': "kv_delete (keyKey scope) (raw t3) = Inr f'"
      and t': "t' = t3\<lparr>sheld := (sheld t3)(scope := None), raw := f'\<rparr>"
      by (auto simp: dropKey_def tx_Delete_def split: sum.splits)
    have g: "kv_get k f' = (if k = keyKey scope then None else kv_get k f)" for k
      using bolt.del_get [OF _ f', of k] f(1,2) by simp
    have same: "raw t2 = raw t" "skey t2 = skey t" using q1(1) q2(1) by (auto simp: quiet_def)
    have "\<exists>p. y = Seal (skey t) p" if "plain_key k" "scopeOf k = scope" "kv_get k (raw t') = Some y" for k y
      using that t' g [of k] f(3) v(2) same q2(1) by (auto simp: quiet_def split: if_splits)
    moreover have "kv_get k (raw t') = kv_get k (raw t)" if "plain_key k" "scopeOf k \<noteq> scope" for k
      using that t' g [of k] f(3) v(1) same keyKey_not_plain [OF that(1)] by (auto split: if_splits)
    moreover have "kv_get (keyKey x) (raw t') = (if x = scope then None else kv_get (keyKey x) (raw t))" for x
    proof -
      have "keyKey x \<notin> fst ` set vs" using v(1) keyKey_not_plain by fastforce
      then show ?thesis using t' g f(3) same by auto
    qed
    moreover have "known C now t x = Inr c" if "sheld t' x = Some c" for x c
      using that t' f(1) q2(1) quiet_known [OF q1(1)] by (auto simp: quiet_def split: if_splits)
    ultimately show ?thesis using K kn False t' by auto
  qed
qed

lemmas decrypt_kept = decrypt_spec [THEN conjunct1]

subsection \<open>A new transaction reads what the last one left\<close>

text \<open>
  \<open>synced\<close>: the keys a transaction holds are the keys on file. Operations that do not change a
  key record keep it, and a transaction begun on the file they leave has the same view.
\<close>

definition synced :: "crypto \<Rightarrow> time \<Rightarrow> sealedTx \<Rightarrow> bool" where
  "synced C now t \<longleftrightarrow> (\<forall>s c. sheld t s = Some c \<longrightarrow> key_on_file C now (skey t) (raw t) (sring t) s = Inr c)"

lemma synced_begin: "synced C now (begin_tx w s)"
  by (simp add: synced_def begin_tx_def)

lemma known_synced: "synced C now t \<Longrightarrow> known C now t s = key_on_file C now (skey t) (raw t) (sring t) s"
  by (auto simp: synced_def known_def split: option.splits)

lemma synced_quiet: "quiet C now t t' \<Longrightarrow> synced C now t \<Longrightarrow> synced C now t'"
  using known_synced [of C now t]
  by (auto simp: synced_def quiet_def key_on_file_alike [of C now "sring t" "sring t'"])

lemma synced_file:
  "synced C now t \<Longrightarrow> (\<And>s. kv_get (keyKey s) f = kv_get (keyKey s) (raw t)) \<Longrightarrow> synced C now (t\<lparr>raw := f\<rparr>)"
  by (simp add: synced_def key_on_file_def)

lemma tx_Put_synced:
  assumes inv: "tx_inv C t" and plain: "plain_key k" and run: "tx_Put C now k v t = (Inr u, t')" and "synced C now t"
  shows "synced C now t'"
proof -
  from run obtain key t1 f where s: "sealer C now k t = (Inr key, t1)"
    and f: "kv_put k (Seal key v) (raw t1) = Inr f" "t' = t1\<lparr>raw := f\<rparr>"
    by (auto simp: tx_Put_def bindT_returns raw_put_returns)
  have q: "quiet C now t t1" using sealer_spec [OF inv s] by simp
  have "ordered_tx (raw t1)" using quiet_inv [OF q inv] by (simp add: tx_inv_def)
  from bolt.put_get [OF this f(1)] keyKey_not_plain [OF plain] show ?thesis
    unfolding f(2) by (intro synced_file synced_quiet [OF q assms(4)]) auto
qed

lemma tx_Delete_synced:
  assumes inv: "tx_inv C t" and plain: "plain_key k" and run: "tx_Delete k t = (Inr u, t')" and "synced C now t"
  shows "synced C now t'"
proof -
  from run obtain f where f: "kv_delete k (raw t) = Inr f" "t' = t\<lparr>raw := f\<rparr>"
    by (auto simp: tx_Delete_def split: sum.splits)
  have "ordered_tx (raw t)" using inv by (simp add: tx_inv_def)
  from bolt.del_get [OF this f(1)] keyKey_not_plain [OF plain] show ?thesis
    unfolding f(2) by (intro synced_file [OF assms(4)]) auto
qed

lemma dropKey_synced:
  assumes inv: "tx_inv C t" and run: "dropKey scope t = (Inr u, t')" and "synced C now t"
  shows "synced C now t'"
proof -
  from run obtain f where f: "kv_delete (keyKey scope) (raw t) = Inr f"
    and t': "t' = t\<lparr>sheld := (sheld t)(scope := None), raw := f\<rparr>"
    by (auto simp: dropKey_def tx_Delete_def split: sum.splits)
  have "ordered_tx (raw t)" using inv by (simp add: tx_inv_def)
  from bolt.del_get [OF this f] assms(3) t' show ?thesis
    by (auto simp: synced_def key_on_file_def split: if_splits)
qed

lemma dropKey_gone:
  assumes inv: "tx_inv C t" and run: "dropKey scope t = (Inr u, t')" and gone: "view C now t k = None"
  shows "view C now t' k = None"
proof (cases "scopeOf k = scope")
  case False
  then show ?thesis using dropKey_spec [OF inv run, of now] gone by simp
next
  case True
  from run obtain f where f: "kv_delete (keyKey scope) (raw t) = Inr f"
    and t': "t' = t\<lparr>sheld := (sheld t)(scope := None), raw := f\<rparr>"
    by (auto simp: dropKey_def tx_Delete_def split: sum.splits)
  have "ordered_tx (raw t)" using inv by (simp add: tx_inv_def)
  from bolt.del_get [OF this f] have "reads C now t' scope = None"
    using t' by (simp add: reads_def known_def key_on_file_def no_key_def)
  then show ?thesis
    using True gone dropKey_spec [OF inv run, of now] t'
    by (cases "kv_get k (raw t)") (auto simp: view_reads split: if_splits)
qed

text \<open>What the file and the ring of a store show.\<close>

definition seen_in :: "crypto \<Rightarrow> time \<Rightarrow> pimDB \<Rightarrow> string \<Rightarrow> stored option" where
  "seen_in C now s = view C now (begin_tx True s)"

definition db_ok :: "crypto \<Rightarrow> pimDB \<Rightarrow> bool" where
  "db_ok C s \<longleftrightarrow> tx_inv C (begin_tx True s)"

lemma tx_inv_begin: "tx_inv C (begin_tx w s) \<longleftrightarrow> db_ok C s"
  by (simp add: db_ok_def tx_inv_def begin_tx_def)

lemma view_begin: "view C now (begin_tx w s) = seen_in C now s"
proof -
  have "opens C now (begin_tx w s) k v = opens C now (begin_tx True s) k v" for k v
    by (rule opens_cong) (simp_all add: begin_tx_def known_def)
  then show ?thesis by (simp add: seen_in_def view_def fun_eq_iff) (simp add: begin_tx_def)
qed

lemma seen_synced:
  assumes "tx_inv C t" and "synced C now t" and "skey t = pkey s"
  shows "seen_in C now (s\<lparr>pdb := raw t, pring := sring t\<rparr>) = view C now t"
proof -
  have "known C now (begin_tx True (s\<lparr>pdb := raw t, pring := sring t\<rparr>)) x = known C now t x" for x
    using known_synced [OF assms(2), of x] assms(3) by (simp add: known_def begin_tx_def)
  then have "opens C now (begin_tx True (s\<lparr>pdb := raw t, pring := sring t\<rparr>)) k v = opens C now t k v" for k v
    using assms(3) by (intro opens_cong) (simp_all add: begin_tx_def)
  then show ?thesis by (simp add: seen_in_def view_def fun_eq_iff) (simp add: begin_tx_def)
qed

end
