(* ===== verification/Collections.thy ===== *)
theory Collections
  imports Sealed_Tx
begin

text \<open>
  Alborz's own calendars, task lists and address books (\<^verbatim>\<open>pim/store/store.go\<close>, and \<^verbatim>\<open>Reseal\<close>
  and \<^verbatim>\<open>Drop\<close> of \<^verbatim>\<open>pim/store/sealed.go\<close>).

  Every method is one transaction. Its body is a program over \<open>X\<close>, the operations of the
  transaction it is given (\<open>txops\<close>: the interface \<^verbatim>\<open>kv.Tx\<close> and the methods reached through
  \<^verbatim>\<open>keyed\<close>); \<open>sealed_ops\<close> are those of the sealed file. \<open>nm\<close> is the keyed naming, \<open>rnm\<close> the
  ring's (\<^verbatim>\<open>ring.Name\<close>), \<open>etag\<close> the digest of \<^verbatim>\<open>ETagOf\<close>, \<open>now\<close> what \<^verbatim>\<open>time.Now()\<close> gives,
  \<open>fresh\<close> and \<open>newID\<close> what the random source gives. A program run by \<^verbatim>\<open>change\<close> returns the
  accounts its watchers are told.
\<close>

record 't txops =
  Get :: "string \<Rightarrow> 't \<Rightarrow> stored option \<times> 't"
  Put :: "string \<Rightarrow> stored \<Rightarrow> (err, 't, unit) prog"
  Delete :: "string \<Rightarrow> (err, 't, unit) prog"
  Scan :: "string \<Rightarrow> 't \<Rightarrow> ((string \<times> stored) list \<times> err option) \<times> 't"
  WrapTo :: "string \<Rightarrow> string \<Rightarrow> (err, 't, unit) prog"
  UnwrapFrom :: "string \<Rightarrow> string \<Rightarrow> (err, 't, unit) prog"
  PublicWrap :: "string \<Rightarrow> bool \<Rightarrow> (err, 't, unit) prog"
  Encrypt :: "string \<Rightarrow> string \<Rightarrow> string list \<Rightarrow> (err, 't, unit) prog"
  DropKey :: "string \<Rightarrow> (err, 't, unit) prog"
  RingOn :: "string \<Rightarrow> (err, 't, bool) prog"

definition ring_on :: "time \<Rightarrow> string \<Rightarrow> (err, sealedTx, bool) prog" where
  "ring_on now name t = (case On name now (sring t) of (b, r) \<Rightarrow> (Inr b, t\<lparr>sring := r\<rparr>))"

definition sealed_ops :: "crypto \<Rightarrow> time \<Rightarrow> sealedTx txops" where
  "sealed_ops C now = \<lparr>Get = tx_Get C now, Put = tx_Put C now, Delete = tx_Delete, Scan = tx_Scan C now,
     WrapTo = wrapTo C now, UnwrapFrom = unwrapFrom C now, PublicWrap = publicWrap C now,
     Encrypt = encrypt C now, DropKey = dropKey, RingOn = ring_on now\<rparr>"

subsection \<open>Reading and writing records\<close>

definition getT :: "'t txops \<Rightarrow> string \<Rightarrow> (err, 't, stored option) prog" where
  "getT X k t = (case Get X k t of (r, t') \<Rightarrow> (Inr r, t'))"

definition get_as :: "'t txops \<Rightarrow> (stored \<Rightarrow> err + 'a) \<Rightarrow> string \<Rightarrow> (err, 't, 'a) prog" where
  "get_as X dec k = bindT (getT X k) (\<lambda>r. case r of None \<Rightarrow> failT ErrNotFound | Some v \<Rightarrow> liftT (dec v))"

text \<open>\<^verbatim>\<open>get\<close> where the caller goes on without a record that is not there.\<close>

definition get_if :: "'t txops \<Rightarrow> (stored \<Rightarrow> err + 'a) \<Rightarrow> string \<Rightarrow> (err, 't, 'a option) prog" where
  "get_if X dec k = bindT (getT X k) (\<lambda>r. case r of None \<Rightarrow> returnT None
     | Some v \<Rightarrow> liftT (bindE (dec v) (\<lambda>a. Inr (Some a))))"

definition scan_with :: "'t txops \<Rightarrow> string \<Rightarrow> (string \<times> stored \<Rightarrow> 'a \<Rightarrow> err + 'a) \<Rightarrow> 'a \<Rightarrow> (err, 't, 'a) prog" where
  "scan_with X p f acc t = (case Scan X p t of ((kvs, e), t') \<Rightarrow>
     (case foldE f kvs acc of Inl e' \<Rightarrow> (Inl e', t')
      | Inr a \<Rightarrow> (case e of Some e' \<Rightarrow> (Inl e', t') | None \<Rightarrow> (Inr a, t'))))"

definition each :: "'t txops \<Rightarrow> string \<Rightarrow> (stored \<Rightarrow> err + 'x) \<Rightarrow> ('x \<Rightarrow> 'a \<Rightarrow> err + 'a) \<Rightarrow> 'a \<Rightarrow> (err, 't, 'a) prog" where
  "each X p dec f acc = scan_with X p (\<lambda>kv a. bindE (dec (snd kv)) (\<lambda>x. f x a)) acc"

definition list_as :: "'t txops \<Rightarrow> (stored \<Rightarrow> err + 'x) \<Rightarrow> string \<Rightarrow> (err, 't, 'x list) prog" where
  "list_as X dec p = each X p dec (\<lambda>x xs. Inr (xs @ [x])) []"

definition put_value :: "'t txops \<Rightarrow> string \<Rightarrow> stored \<Rightarrow> (err, 't, unit) prog" where
  "put_value X k v = bindT (getT X k) (\<lambda>was. Put X k (Keep was v))"

definition new_collection :: "Collection \<Rightarrow> stored" where
  "new_collection c = VCollection c [] []"

definition stamp :: "'t txops \<Rightarrow> Collection \<Rightarrow> (err, 't, Collection) prog" where
  "stamp X c = bindT (getT X ctagKey) (\<lambda>v.
     bindT (case v of None \<Rightarrow> returnT 0 | Some v \<Rightarrow> liftT (ParseUint (text_of v))) (\<lambda>last.
       bindT (Put X ctagKey (VText (FormatUint (unat (last + 1))))) (\<lambda>_. returnT (c\<lparr>CTag := last + 1\<rparr>))))"

definition touch :: "'t txops \<Rightarrow> naming \<Rightarrow> Ref \<Rightarrow> (err, 't, unit) prog" where
  "touch X nm ref = bindT (get_as X as_collection (collectionKey nm ref)) (\<lambda>c.
     bindT (stamp X c) (\<lambda>c. put_value X (collectionKey nm ref) (new_collection c)))"

definition sharees :: "'t txops \<Rightarrow> naming \<Rightarrow> Ref \<Rightarrow> (err, 't, string list) prog" where
  "sharees X nm ref = each X (sharesOf nm ref) as_share (\<lambda>sh seen. Inr (seen @ [sTo sh])) []"

definition change :: "'t txops \<Rightarrow> naming \<Rightarrow> Ref \<Rightarrow> (err, 't, 'a) prog \<Rightarrow> (err, 't, 'a \<times> string list) prog" where
  "change X nm ref write = bindT (sharees X nm ref) (\<lambda>before. bindT write (\<lambda>a.
     bindT (sharees X nm ref) (\<lambda>after. returnT (a, refOwner ref # before @ after))))"

definition publish :: "'t txops \<Rightarrow> naming \<Rightarrow> string \<Rightarrow> Collection \<Rightarrow> (err, 't, unit) prog" where
  "publish X nm before c =
     bindT (whenT (cID c \<noteq> []) (PublicWrap X (k_ref nm (Collection_Ref c)) (cPublic c \<noteq> []))) (\<lambda>_.
     bindT (whenT (before \<noteq> [] \<and> before \<noteq> cPublic c) (Delete X (publicKey nm before))) (\<lambda>_.
     whenT (cPublic c \<noteq> []) (Put X (publicKey nm (cPublic c)) (VText (collectionKey nm (Collection_Ref c))))))"

subsection \<open>Collections\<close>

definition Create_in :: "'t txops \<Rightarrow> naming \<Rightarrow> naming \<Rightarrow> string \<Rightarrow> Collection \<Rightarrow> (err, 't, Collection) prog" where
  "Create_in X nm rnm fresh c = bindT (getT X (collectionKey nm (Collection_Ref c))) (\<lambda>held.
     if held \<noteq> None then failT ErrExists
     else bindT (RingOn X (rnm (cOwner c))) (\<lambda>on.
       bindT (whenT on (Encrypt X fresh (k_ref nm (Collection_Ref c)) [rnm (cOwner c)])) (\<lambda>_.
       bindT (stamp X c) (\<lambda>c.
       bindT (put_value X (collectionKey nm (Collection_Ref c)) (new_collection c)) (\<lambda>_.
       bindT (Delete X (droppedKey nm (Collection_Ref c))) (\<lambda>_.
       bindT (publish X nm [] c) (\<lambda>_. returnT c)))))))"

definition Create :: "'t txops \<Rightarrow> naming \<Rightarrow> naming \<Rightarrow> string \<Rightarrow> string \<Rightarrow> Collection \<Rightarrow> (err, 't, Collection \<times> string list) prog" where
  "Create X nm rnm fresh newID c =
     (let c1 = c\<lparr>cID := (if cID c = [] then newID else cID c), cOwner := ToLower (cOwner c)\<rparr>
      in change X nm (Collection_Ref c1) (Create_in X nm rnm fresh c1))"

definition Collection_get :: "'t txops \<Rightarrow> naming \<Rightarrow> Ref \<Rightarrow> (err, 't, Collection) prog" where
  "Collection_get X nm ref = get_as X as_collection (collectionKey nm ref)"

text \<open>The date a changed name or colour of a fed calendar gets, unless the change dates it.\<close>

definition date_named :: "time \<Rightarrow> Collection \<Rightarrow> Collection \<Rightarrow> Collection" where
  "date_named now was c = (case cFeed c of
       None \<Rightarrow> c
     | Some fd \<Rightarrow>
         let named = (case cFeed was of None \<Rightarrow> 0 | Some w \<Rightarrow> fNamed w)
         in if (cName c \<noteq> cName was \<or> cColor c \<noteq> cColor was) \<and> fNamed fd = named
            then c\<lparr>cFeed := Some (fd\<lparr>fNamed := now\<rparr>)\<rparr> else c)"

definition Update_in :: "'t txops \<Rightarrow> naming \<Rightarrow> Ref \<Rightarrow> (Collection \<Rightarrow> Collection) \<Rightarrow> time \<Rightarrow> (err, 't, unit) prog" where
  "Update_in X nm ref ch now = bindT (get_as X as_collection (collectionKey nm ref)) (\<lambda>was.
     bindT (stamp X (date_named now was (ch was))) (\<lambda>c.
     bindT (put_value X (collectionKey nm ref) (new_collection c)) (\<lambda>_.
     publish X nm (cPublic was) c)))"

definition Update_collection :: "'t txops \<Rightarrow> naming \<Rightarrow> Ref \<Rightarrow> (Collection \<Rightarrow> Collection) \<Rightarrow> time \<Rightarrow> (err, 't, unit \<times> string list) prog" where
  "Update_collection X nm ref ch now = change X nm ref (Update_in X nm ref ch now)"

definition keys_under :: "'t txops \<Rightarrow> string \<Rightarrow> string list \<Rightarrow> (err, 't, string list) prog" where
  "keys_under X p gone = scan_with X p (\<lambda>kv ks. Inr (ks @ [fst kv])) gone"

definition Delete_in :: "'t txops \<Rightarrow> naming \<Rightarrow> Ref \<Rightarrow> time \<Rightarrow> (err, 't, unit) prog" where
  "Delete_in X nm ref now = bindT (get_as X as_collection (collectionKey nm ref)) (\<lambda>c.
     bindT (publish X nm (cPublic c) zero_Collection) (\<lambda>_.
     bindT (case cFeed c of None \<Rightarrow> returnT ()
        | Some fd \<Rightarrow> put_value X (droppedKey nm ref) (VDropped \<lparr>dpID = refID ref, dpURL = fURL fd, dpAt = now\<rparr> [])) (\<lambda>_.
     bindT (keys_under X (objectsOf nm ref) []) (\<lambda>g1.
     bindT (keys_under X (uidsOf nm ref) g1) (\<lambda>g2.
     bindT (each X (sharesOf nm ref) as_share
        (\<lambda>sh ks. Inr (ks @ [shareKey nm ref (sTo sh), receivedKey nm (sTo sh) ref])) g2) (\<lambda>gone.
     bindT (forT (Delete X) (gone @ [collectionKey nm ref])) (\<lambda>_.
     DropKey X (k_ref nm ref))))))))"

definition Delete_collection :: "'t txops \<Rightarrow> naming \<Rightarrow> Ref \<Rightarrow> time \<Rightarrow> (err, 't, unit \<times> string list) prog" where
  "Delete_collection X nm ref now = change X nm ref (Delete_in X nm ref now)"

definition Keeps :: "'t txops \<Rightarrow> naming \<Rightarrow> string \<Rightarrow> (err, 't, bool) prog" where
  "Keeps X nm owner = scan_with X (collectionsOf nm owner) (\<lambda>_ _. Inr True) False"

subsection \<open>Who may do what\<close>

datatype access = no_access | read_access | write_access | own_access

definition rank_of :: "access \<Rightarrow> nat" where
  "rank_of a = (case a of no_access \<Rightarrow> 0 | read_access \<Rightarrow> 1 | write_access \<Rightarrow> 2 | own_access \<Rightarrow> 3)"

definition accessOf :: "Share \<Rightarrow> access" where
  "accessOf sh = (if sWrite sh then write_access else read_access)"

definition allowed :: "'t txops \<Rightarrow> naming \<Rightarrow> Ref \<Rightarrow> string \<Rightarrow> time \<Rightarrow> (err, 't, Collection \<times> access) prog" where
  "allowed X nm ref account now = bindT (get_as X as_collection (collectionKey nm ref)) (\<lambda>c.
     if cOwner c = account then returnT (c, own_access)
     else bindT (get_as X as_share (shareKey nm ref account)) (\<lambda>sh.
       if \<not> Live sh now then failT ErrNotFound else returnT (c, accessOf sh)))"

definition writable :: "'t txops \<Rightarrow> naming \<Rightarrow> Ref \<Rightarrow> string \<Rightarrow> time \<Rightarrow> (err, 't, unit) prog" where
  "writable X nm ref by1 now = bindT (allowed X nm ref (ToLower by1) now) (\<lambda>(c, may).
     if rank_of may < rank_of write_access \<or> cFeed c \<noteq> None then failT ErrForbidden else returnT ())"

text \<open>The collection a received share leads to, as \<^verbatim>\<open>Visible\<close> looks it up.\<close>

definition received_one :: "'t txops \<Rightarrow> naming \<Rightarrow> string \<Rightarrow> Kind \<Rightarrow> time \<Rightarrow> Ref \<Rightarrow> (err, 't, (Collection \<times> access) list) prog" where
  "received_one X nm account kind now ref = bindT (get_if X as_share (shareKey nm ref account)) (\<lambda>sh. case sh of
       None \<Rightarrow> returnT []
     | Some sh \<Rightarrow> if \<not> Live sh now then returnT []
         else bindT (get_if X as_collection (collectionKey nm ref)) (\<lambda>c. case c of
             None \<Rightarrow> returnT []
           | Some c \<Rightarrow> returnT (if cKind c = kind then [(c, accessOf sh)] else [])))"

fun received_all :: "'t txops \<Rightarrow> naming \<Rightarrow> string \<Rightarrow> Kind \<Rightarrow> time \<Rightarrow> Ref list \<Rightarrow> (err, 't, (Collection \<times> access) list) prog" where
  "received_all X nm account kind now [] = returnT []"
| "received_all X nm account kind now (r # rs) = bindT (received_one X nm account kind now r) (\<lambda>a.
     bindT (received_all X nm account kind now rs) (\<lambda>b. returnT (a @ b)))"

definition Visible :: "'t txops \<Rightarrow> naming \<Rightarrow> string \<Rightarrow> Kind \<Rightarrow> time \<Rightarrow> (err, 't, (Collection \<times> access) list) prog" where
  "Visible X nm acc kind now = (let account = ToLower acc in
     bindT (each X (collectionsOf nm account) as_collection
        (\<lambda>c out. Inr (if cKind c = kind then out @ [(c, own_access)] else out)) []) (\<lambda>mine.
     bindT (list_as X as_ref (receivedBy nm account)) (\<lambda>refs.
     bindT (received_all X nm account kind now refs) (\<lambda>theirs.
     returnT (sort_key (\<lambda>s. cName (fst s)) (mine @ theirs))))))"

definition ByPublic :: "'t txops \<Rightarrow> naming \<Rightarrow> string \<Rightarrow> (err, 't, Collection) prog" where
  "ByPublic X nm secret = bindT (getT X (publicKey nm secret)) (\<lambda>key. case key of
       None \<Rightarrow> failT ErrNotFound
     | Some v \<Rightarrow> if secret = [] then failT ErrNotFound else get_as X as_collection (text_of v))"

subsection \<open>Objects\<close>

definition Objects :: "'t txops \<Rightarrow> naming \<Rightarrow> Ref \<Rightarrow> (err, 't, Object list) prog" where
  "Objects X nm ref = list_as X as_object (objectsOf nm ref)"

definition Object_get :: "'t txops \<Rightarrow> naming \<Rightarrow> Ref \<Rightarrow> string \<Rightarrow> (err, 't, Object) prog" where
  "Object_get X nm ref name = get_as X as_object (objectKey nm ref name)"

type_synonym Unless = "(string \<Rightarrow> err option) option"

definition check_unless :: "Unless \<Rightarrow> string \<Rightarrow> (err, 't, unit) prog" where
  "check_unless unless held = (case unless of None \<Rightarrow> returnT ()
     | Some f \<Rightarrow> (case f held of Some e \<Rightarrow> failT e | None \<Rightarrow> returnT ()))"

text \<open>The index of UIDs: another object's entry is believed only where the object agrees.\<close>

definition claim_uid :: "'t txops \<Rightarrow> naming \<Rightarrow> Ref \<Rightarrow> string \<Rightarrow> string \<Rightarrow> (err, 't, unit) prog" where
  "claim_uid X nm ref name uid = bindT (getT X (uidKey nm ref uid)) (\<lambda>holder.
     bindT (case holder of None \<Rightarrow> returnT ()
        | Some h \<Rightarrow> if text_of h = name then returnT ()
            else bindT (get_if X as_object (objectKey nm ref (text_of h))) (\<lambda>other. case other of
                None \<Rightarrow> returnT ()
              | Some ob \<Rightarrow> if oUID ob = uid then failT ErrUIDConflict else returnT ())) (\<lambda>_.
     Put X (uidKey nm ref uid) (VText name)))"

definition PutObject :: "'t txops \<Rightarrow> naming \<Rightarrow> (string \<Rightarrow> string) \<Rightarrow> Ref \<Rightarrow> string \<Rightarrow> string \<Rightarrow> string \<Rightarrow> Unless \<Rightarrow> string \<Rightarrow> time \<Rightarrow>
    (err, 't, Object) prog" where
  "PutObject X nm etag ref name uid data unless by1 now =
     (let ob = \<lparr>oName = name, oUID = uid, oData = data, oETag = etag data, oModified = now,
                oCreator = by1, oCreated = now, oEditor = by1\<rparr>
      in bindT (writable X nm ref by1 now) (\<lambda>_.
         bindT (get_if X as_object (objectKey nm ref name)) (\<lambda>was.
         let held = (case was of None \<Rightarrow> [] | Some w \<Rightarrow> oETag w);
             ob' = (case was of None \<Rightarrow> ob | Some w \<Rightarrow> ob\<lparr>oCreator := oCreator w, oCreated := oCreated w\<rparr>)
         in bindT (check_unless unless held) (\<lambda>_.
            if (case was of None \<Rightarrow> False | Some w \<Rightarrow> oUID w \<noteq> uid) then failT ErrUIDConflict
            else bindT (whenT (uid \<noteq> []) (claim_uid X nm ref name uid)) (\<lambda>_.
                 bindT (put_value X (objectKey nm ref name) (VObject ob' [])) (\<lambda>_.
                 bindT (touch X nm ref) (\<lambda>_. returnT ob')))))))"

definition RemoveObject :: "'t txops \<Rightarrow> naming \<Rightarrow> Ref \<Rightarrow> string \<Rightarrow> Unless \<Rightarrow> string \<Rightarrow> time \<Rightarrow> (err, 't, unit) prog" where
  "RemoveObject X nm ref name unless by1 now = bindT (writable X nm ref by1 now) (\<lambda>_.
     bindT (get_as X as_object (objectKey nm ref name)) (\<lambda>was.
     bindT (check_unless unless (oETag was)) (\<lambda>_.
     bindT (whenT (oUID was \<noteq> []) (Delete X (uidKey nm ref (oUID was)))) (\<lambda>_.
     bindT (Delete X (objectKey nm ref name)) (\<lambda>_. touch X nm ref)))))"

subsection \<open>Calendars filled from a feed\<close>

definition Dropped_list :: "'t txops \<Rightarrow> naming \<Rightarrow> string \<Rightarrow> (err, 't, Dropped list) prog" where
  "Dropped_list X nm owner = list_as X as_dropped (droppedOf nm owner)"

definition Told :: "'t txops \<Rightarrow> naming \<Rightarrow> Ref \<Rightarrow> (err, 't, unit) prog" where
  "Told X nm ref = Delete X (droppedKey nm ref)"

definition Feeds :: "'t txops \<Rightarrow> (err, 't, Collection list) prog" where
  "Feeds X = each X (Pim_Name @ ''/collections/'') as_collection
     (\<lambda>c out. Inr (if cFeed c \<noteq> None then out @ [c] else out)) []"

definition FeedRef :: "naming \<Rightarrow> string \<Rightarrow> string \<Rightarrow> Ref" where
  "FeedRef nm owner url = \<lparr>refOwner = ToLower owner, refID = ''feed-'' @ nm url\<rparr>"

text \<open>\<open>held\<close> is the map of held objects by name, in the order the loop takes it.\<close>

definition hold_object :: "Object \<Rightarrow> (string \<times> Object) list \<Rightarrow> (string \<times> Object) list" where
  "hold_object ob held = (oName ob, ob) # filter (\<lambda>x. fst x \<noteq> oName ob) held"

definition feed_changed :: "(string \<Rightarrow> string) \<Rightarrow> (string \<times> Object) list \<Rightarrow> Object list \<Rightarrow> bool" where
  "feed_changed etag held obs \<longleftrightarrow> length held \<noteq> length obs \<or>
     list_ex (\<lambda>ob. (case map_of held (oName ob) of None \<Rightarrow> [] | Some w \<Rightarrow> oETag w) \<noteq> etag (oData ob)) obs"

definition drop_object :: "'t txops \<Rightarrow> naming \<Rightarrow> Ref \<Rightarrow> string \<times> Object \<Rightarrow> (err, 't, unit) prog" where
  "drop_object X nm ref h = bindT (Delete X (objectKey nm ref (oName (snd h)))) (\<lambda>_. Delete X (uidKey nm ref (oUID (snd h))))"

definition fill_object :: "'t txops \<Rightarrow> naming \<Rightarrow> (string \<Rightarrow> string) \<Rightarrow> Ref \<Rightarrow> time \<Rightarrow> (string \<times> Object) list \<Rightarrow> Object \<Rightarrow> (err, 't, unit) prog" where
  "fill_object X nm etag ref now held ob =
     (let ob1 = ob\<lparr>oETag := etag (oData ob), oModified := now,
                  oCreated := (case map_of held (oName ob) of None \<Rightarrow> now | Some w \<Rightarrow> oCreated w)\<rparr>
      in bindT (put_value X (objectKey nm ref (oName ob)) (VObject ob1 [])) (\<lambda>_.
         Put X (uidKey nm ref (oUID ob)) (VText (oName ob))))"

definition replace :: "'t txops \<Rightarrow> naming \<Rightarrow> (string \<Rightarrow> string) \<Rightarrow> time \<Rightarrow> Collection \<Rightarrow> Object list \<Rightarrow> (err, 't, Collection) prog" where
  "replace X nm etag now c obs = (let ref = Collection_Ref c in
     bindT (each X (objectsOf nm ref) as_object (\<lambda>ob held. Inr (hold_object ob held)) []) (\<lambda>held.
       if \<not> feed_changed etag held obs then returnT c
       else bindT (forT (drop_object X nm ref) held) (\<lambda>_.
            bindT (forT (fill_object X nm etag ref now held) obs) (\<lambda>_. stamp X c))))"

definition Fill :: "'t txops \<Rightarrow> naming \<Rightarrow> (string \<Rightarrow> string) \<Rightarrow> Ref \<Rightarrow> Feed \<Rightarrow> Object list option \<Rightarrow> time \<Rightarrow> (err, 't, unit) prog" where
  "Fill X nm etag ref fd objects now = bindT (get_as X as_collection (collectionKey nm ref)) (\<lambda>c.
     case cFeed c of
       None \<Rightarrow> failT ErrNotFed
     | Some was \<Rightarrow>
         if fURL was \<noteq> fURL fd then failT ErrNotFed
         else (let c1 = c\<lparr>cFeed := Some (fd\<lparr>fNamed := fNamed was\<rparr>)\<rparr>
               in bindT (case objects of None \<Rightarrow> returnT c1 | Some obs \<Rightarrow> replace X nm etag now c1 obs) (\<lambda>c2.
                  put_value X (collectionKey nm ref) (new_collection c2))))"

subsection \<open>Shares\<close>

definition PutShare :: "'t txops \<Rightarrow> naming \<Rightarrow> naming \<Rightarrow> Share \<Rightarrow> (err, 't, unit \<times> string list) prog" where
  "PutShare X nm rnm sh0 = (let sh = sh0\<lparr>sTo := ToLower (sTo sh0)\<rparr>; ref = Share_Ref sh in
     change X nm ref (bindT (getT X (collectionKey nm ref)) (\<lambda>c.
       if c = None then failT ErrNotFound
       else bindT (put_value X (shareKey nm ref (sTo sh)) (VShare sh [])) (\<lambda>_.
            bindT (WrapTo X (k_ref nm ref) (rnm (sTo sh))) (\<lambda>_.
            put_value X (receivedKey nm (sTo sh) ref) (VRef ref []))))))"

definition Share_get :: "'t txops \<Rightarrow> naming \<Rightarrow> Ref \<Rightarrow> string \<Rightarrow> (err, 't, Share) prog" where
  "Share_get X nm ref to = get_as X as_share (shareKey nm ref to)"

definition answered :: "Share \<Rightarrow> bool \<Rightarrow> time \<Rightarrow> Share" where
  "answered sh yes now = (let s = sh\<lparr>sAnswered := now\<rparr> in
     if yes then s\<lparr>sAccepted := True, sDeclined := False, sLeft := False\<rparr>
     else if sAccepted s then s\<lparr>sAccepted := False, sLeft := True\<rparr>
     else s\<lparr>sDeclined := True\<rparr>)"

definition Answer :: "'t txops \<Rightarrow> naming \<Rightarrow> Ref \<Rightarrow> string \<Rightarrow> bool \<Rightarrow> time \<Rightarrow> (err, 't, unit \<times> string list) prog" where
  "Answer X nm ref to yes now = change X nm ref (bindT (get_as X as_share (shareKey nm ref to)) (\<lambda>sh.
     put_value X (shareKey nm ref to) (VShare (answered sh yes now) [])))"

definition RemoveShare :: "'t txops \<Rightarrow> naming \<Rightarrow> naming \<Rightarrow> Ref \<Rightarrow> string \<Rightarrow> (err, 't, unit \<times> string list) prog" where
  "RemoveShare X nm rnm ref to = change X nm ref (bindT (getT X (shareKey nm ref to)) (\<lambda>sh.
     if sh = None then failT ErrNotFound
     else bindT (Delete X (receivedKey nm to ref)) (\<lambda>_.
          bindT (UnwrapFrom X (k_ref nm ref) (rnm to)) (\<lambda>_.
          Delete X (shareKey nm ref to)))))"

definition Shares :: "'t txops \<Rightarrow> (Share \<Rightarrow> bool) \<Rightarrow> (err, 't, Share list) prog" where
  "Shares X keep = bindT (each X (Pim_Name @ ''/shares/'') as_share
     (\<lambda>sh out. Inr (if keep sh then out @ [sh] else out)) []) (\<lambda>out. returnT (sort_key sTo out))"

subsection \<open>The interface of a transaction\<close>

lemma plain_keys [key_simps]:
  assumes "naming_ok nm"
  shows "plain_key (collectionKey nm r)" "plain_key (objectKey nm r n)" "plain_key (shareKey nm r n)" "plain_key (uidKey nm r n)"
    "plain_key (publicKey nm n)" "plain_key (receivedKey nm n r)" "plain_key (droppedKey nm r)"
  using scopeOf_keys [OF assms] scopeOf_unscoped
  by (simp_all add: plain_key_def prefixesOf_def)
     (simp_all add: key_defs k_ref_def)

lemma plain_ctagKey [key_simps]: "plain_key ctagKey"
  using scopeOf_unscoped(4) by (simp add: plain_key_def) (simp add: key_defs)

definition apart :: "string \<Rightarrow> bool" where
  "apart p \<longleftrightarrow> (\<forall>k. prefix p k \<longrightarrow> \<not> prefix (Pim_Name @ ''/keys/'') k)"

lemma apart_prefixes [key_simps]:
  "apart (collectionsOf nm o1)" "apart (objectsOf nm r)" "apart (sharesOf nm r)" "apart (uidsOf nm r)"
  "apart (receivedBy nm o1)" "apart (droppedOf nm o1)" "apart (Pim_Name @ ''/collections/'')" "apart (Pim_Name @ ''/shares/'')"
  by (auto simp: apart_def key_defs elim!: prefixE)

locale store_tx =
  fixes X :: "'t txops" and view :: "'t \<Rightarrow> string \<Rightarrow> stored option" and inv :: "'t \<Rightarrow> bool"
  assumes get_law: "inv t \<Longrightarrow> plain_key k \<Longrightarrow> Get X k t = (r, t') \<Longrightarrow> inv t' \<and> view t' = view t \<and> view t k = r"
    and put_law: "inv t \<Longrightarrow> plain_key k \<Longrightarrow> Put X k v t = (Inr u, t') \<Longrightarrow> inv t' \<and> view t' = (view t)(k := Some v)"
    and del_law: "inv t \<Longrightarrow> plain_key k \<Longrightarrow> Delete X k t = (Inr u, t') \<Longrightarrow> inv t' \<and> view t' = (view t)(k := None)"
    and scan_law: "inv t \<Longrightarrow> apart p \<Longrightarrow> Scan X p t = ((kvs, None), t') \<Longrightarrow>
      inv t' \<and> view t' = view t \<and> distinct (map fst kvs) \<and>
      (\<forall>k v. (k, v) \<in> set kvs \<longleftrightarrow> prefix p k \<and> view t k = Some v)"
    and drop_law: "inv t \<Longrightarrow> DropKey X s t = (Inr u, t') \<Longrightarrow>
      inv t' \<and> (\<forall>k. scopeOf k \<noteq> s \<longrightarrow> view t' k = view t k) \<and> (\<forall>k. view t k = None \<longrightarrow> view t' k = None)"
    and view_plain: "view t k = Some v \<Longrightarrow> plain_key k"
begin

lemma getT_returns:
  assumes "inv t" and "plain_key k" and "getT X k t = (Inr r, t')"
  shows "inv t' \<and> view t' = view t \<and> view t k = r"
  using get_law [OF assms(1,2)] assms(3) by (auto simp: getT_def split: prod.splits)

lemma get_as_returns:
  assumes "inv t" and "plain_key k" and "get_as X dec k t = (Inr a, t')"
  shows "inv t' \<and> view t' = view t \<and> (\<exists>v. view t k = Some v \<and> dec v = Inr a)"
proof -
  from assms(3) obtain r t1 where g: "getT X k t = (Inr r, t1)"
    and d: "(case r of None \<Rightarrow> failT ErrNotFound | Some v \<Rightarrow> liftT (dec v)) t1 = (Inr a, t')"
    by (auto simp: get_as_def bindT_returns)
  with getT_returns [OF assms(1,2) g] show ?thesis by (cases r) auto
qed

lemma get_if_returns:
  assumes "inv t" and "plain_key k" and "get_if X dec k t = (Inr a, t')"
  shows "inv t' \<and> view t' = view t \<and>
    (case a of None \<Rightarrow> view t k = None | Some x \<Rightarrow> \<exists>v. view t k = Some v \<and> dec v = Inr x)"
proof -
  from assms(3) obtain r t1 where g: "getT X k t = (Inr r, t1)"
    and d: "(case r of None \<Rightarrow> returnT None | Some v \<Rightarrow> liftT (bindE (dec v) (\<lambda>a. Inr (Some a)))) t1 = (Inr a, t')"
    by (auto simp: get_if_def bindT_returns)
  with getT_returns [OF assms(1,2) g] show ?thesis by (cases r) (auto simp: bindE_returns)
qed

lemma put_value_returns:
  assumes "inv t" and "plain_key k" and "put_value X k v t = (Inr u, t')"
  shows "inv t' \<and> view t' = (view t)(k := Some (Keep (view t k) v))"
proof -
  from assms(3) obtain r t1 where g: "getT X k t = (Inr r, t1)" and p: "Put X k (Keep r v) t1 = (Inr u, t')"
    by (auto simp: put_value_def bindT_returns)
  with getT_returns [OF assms(1,2) g] put_law [OF _ assms(2) p] show ?thesis by auto
qed

lemma scan_with_returns:
  assumes "inv t" and "apart p" and "scan_with X p f acc t = (Inr a, t')"
  shows "inv t' \<and> view t' = view t \<and>
    (\<exists>kvs. foldE f kvs acc = Inr a \<and> distinct (map fst kvs) \<and> (\<forall>k v. (k, v) \<in> set kvs \<longleftrightarrow> prefix p k \<and> view t k = Some v))"
proof -
  from assms(3) obtain kvs where s: "Scan X p t = ((kvs, None), t')" and f: "foldE f kvs acc = Inr a"
    by (auto simp: scan_with_def split: prod.splits sum.splits option.splits)
  from scan_law [OF assms(1,2) s] f show ?thesis by blast
qed

lemma each_returns:
  assumes "inv t" and "apart p" and "each X p dec f acc t = (Inr a, t')"
  shows "inv t' \<and> view t' = view t"
  using scan_with_returns [OF assms(1,2) assms(3) [unfolded each_def]] by blast

end

text \<open>The counter on file.\<close>

definition last_ctag :: "(string \<Rightarrow> stored option) \<Rightarrow> err + 64 word" where
  "last_ctag V = (case V ctagKey of None \<Rightarrow> Inr 0 | Some v \<Rightarrow> ParseUint (text_of v))"

definition next_ctag :: "(string \<Rightarrow> stored option) \<Rightarrow> 64 word" where
  "next_ctag V = projr (last_ctag V) + 1"

definition stamped :: "(string \<Rightarrow> stored option) \<Rightarrow> string \<Rightarrow> stored option" where
  "stamped V = V(ctagKey := Some (VText (FormatUint (unat (next_ctag V)))))"

text \<open>Who may write to a collection's objects.\<close>

definition may_write :: "naming \<Rightarrow> (string \<Rightarrow> stored option) \<Rightarrow> Ref \<Rightarrow> string \<Rightarrow> time \<Rightarrow> bool" where
  "may_write nm V ref by1 now \<longleftrightarrow>
     (\<exists>c u f. V (collectionKey nm ref) = Some (VCollection c u f) \<and> cFeed c = None \<and>
        (cOwner c = ToLower by1 \<or>
         (\<exists>sh u. V (shareKey nm ref (ToLower by1)) = Some (VShare sh u) \<and> Live sh now \<and> sWrite sh)))"

text \<open>What the operations leave: the records of the collection touched, and of an object put.\<close>

definition touched :: "naming \<Rightarrow> Ref \<Rightarrow> Collection \<Rightarrow> (string \<Rightarrow> stored option) \<Rightarrow> string \<Rightarrow> stored option" where
  "touched nm ref c V = (stamped V)(collectionKey nm ref :=
     Some (Keep (V (collectionKey nm ref)) (new_collection (c\<lparr>CTag := next_ctag V\<rparr>))))"

definition indexed :: "naming \<Rightarrow> Ref \<Rightarrow> string \<Rightarrow> string \<Rightarrow> (string \<Rightarrow> stored option) \<Rightarrow> string \<Rightarrow> stored option" where
  "indexed nm ref name uid V = (if uid = [] then V else V(uidKey nm ref uid := Some (VText name)))"

definition uid_free :: "naming \<Rightarrow> (string \<Rightarrow> stored option) \<Rightarrow> Ref \<Rightarrow> string \<Rightarrow> string \<Rightarrow> bool" where
  "uid_free nm V ref name uid \<longleftrightarrow> (\<forall>h ob u. V (uidKey nm ref uid) = Some h \<longrightarrow> text_of h \<noteq> name \<longrightarrow>
     V (objectKey nm ref (text_of h)) = Some (VObject ob u) \<longrightarrow> oUID ob \<noteq> uid)"

definition object_put :: "naming \<Rightarrow> (string \<Rightarrow> string) \<Rightarrow> (string \<Rightarrow> stored option) \<Rightarrow> Ref \<Rightarrow> string \<Rightarrow> string \<Rightarrow> string \<Rightarrow> string \<Rightarrow> time \<Rightarrow> Object" where
  "object_put nm etag V ref name uid data by1 now =
     (case V (objectKey nm ref name) of
        Some (VObject w u) \<Rightarrow> \<lparr>oName = name, oUID = uid, oData = data, oETag = etag data, oModified = now,
                oCreator = oCreator w, oCreated = oCreated w, oEditor = by1\<rparr>
      | _ \<Rightarrow> \<lparr>oName = name, oUID = uid, oData = data, oETag = etag data, oModified = now,
                oCreator = by1, oCreated = now, oEditor = by1\<rparr>)"

definition shares_named :: "naming \<Rightarrow> (string \<Rightarrow> stored option) \<Rightarrow> Ref \<Rightarrow> bool" where
  "shares_named nm V ref \<longleftrightarrow> (\<forall>k v. prefix (sharesOf nm ref) k \<longrightarrow> V k = Some v \<longrightarrow>
     (\<exists>sh u. v = VShare sh u \<and> k = shareKey nm ref (sTo sh)))"

lemma share_sorts: "prefix (sharesOf nm ref) k \<Longrightarrow> k \<noteq> publicKey nm x \<and> k \<noteq> droppedKey nm r"
  by (auto simp: key_defs elim!: prefixE)

lemma scopeOf_under:
  assumes "naming_ok nm"
  shows "prefix (objectsOf nm ref) k \<Longrightarrow> scopeOf k = k_ref nm ref" "prefix (uidsOf nm ref) k \<Longrightarrow> scopeOf k = k_ref nm ref"
  using under_scope(1) [OF length_k_ref [OF assms]]
  by (auto simp: prefixesOf_def objectsOf_def uidsOf_def)

context store_tx
begin

lemma stamp_returns:
  assumes "inv t" and "stamp X c t = (Inr c', t')"
  shows "inv t' \<and> view t' = stamped (view t) \<and> c' = c\<lparr>CTag := next_ctag (view t)\<rparr> \<and>
    last_ctag (view t) = Inr (next_ctag (view t) - 1)"
proof -
  from assms(2) obtain v t1 last t2 where g: "getT X ctagKey t = (Inr v, t1)"
    and l: "(case v of None \<Rightarrow> returnT 0 | Some v \<Rightarrow> liftT (ParseUint (text_of v))) t1 = (Inr last, t2)"
    and p: "Put X ctagKey (VText (FormatUint (unat (last + 1)))) t2 = (Inr (), t')" and c': "c' = c\<lparr>CTag := last + 1\<rparr>"
    by (auto simp: stamp_def bindT_returns)
  from getT_returns [OF assms(1) plain_ctagKey g] have t1: "inv t1" "view t1 = view t" "view t ctagKey = v" by auto
  with l have last: "last_ctag (view t) = Inr last" and t2: "t2 = t1" by (cases v; auto simp: last_ctag_def)+
  with put_law [OF t1(1) plain_ctagKey p [unfolded t2]] t1 c' show ?thesis by (auto simp: stamped_def next_ctag_def)
qed

lemma touch_returns:
  assumes "inv t" and "touch X nm ref t = (Inr u, t')" and naming: "naming_ok nm"
  shows "inv t' \<and> (\<exists>c v f. view t (collectionKey nm ref) = Some (VCollection c v f) \<and>
     view t' = touched nm ref c (view t) \<and> last_ctag (view t) = Inr (next_ctag (view t) - 1))"
proof -
  from assms(2) obtain c t1 c1 t2 where g: "get_as X as_collection (collectionKey nm ref) t = (Inr c, t1)"
    and s: "stamp X c t1 = (Inr c1, t2)" and p: "put_value X (collectionKey nm ref) (new_collection c1) t2 = (Inr u, t')"
    by (auto simp: touch_def bindT_returns)
  from get_as_returns [OF assms(1) plain_keys(1) [OF naming] g] have t1: "inv t1" "view t1 = view t"
    and c: "\<exists>v f. view t (collectionKey nm ref) = Some (VCollection c v f)" by (auto simp: as_Inr)
  from stamp_returns [OF t1(1) s] t1 have t2: "inv t2" "view t2 = stamped (view t)"
    "c1 = c\<lparr>CTag := next_ctag (view t)\<rparr>" "last_ctag (view t) = Inr (next_ctag (view t) - 1)" by auto
  have "stamped (view t) (collectionKey nm ref) = view t (collectionKey nm ref)"
    by (simp add: stamped_def key_simps)
  with put_value_returns [OF t2(1) plain_keys(1) [OF naming] p] t2 c show ?thesis by (auto simp: touched_def)
qed

lemma allowed_returns:
  assumes "inv t" and "allowed X nm ref account now t = (Inr (c, may), t')" and naming: "naming_ok nm"
  shows "inv t' \<and> view t' = view t \<and> (\<exists>u f. view t (collectionKey nm ref) = Some (VCollection c u f)) \<and>
    (cOwner c = account \<and> may = own_access \<or>
     cOwner c \<noteq> account \<and> (\<exists>sh u. view t (shareKey nm ref account) = Some (VShare sh u) \<and> Live sh now \<and> may = accessOf sh))"
proof -
  from assms(2) obtain c1 t1 where g: "get_as X as_collection (collectionKey nm ref) t = (Inr c1, t1)"
    and r: "(if cOwner c1 = account then returnT (c1, own_access)
     else bindT (get_as X as_share (shareKey nm ref account)) (\<lambda>sh.
       if \<not> Live sh now then failT ErrNotFound else returnT (c1, accessOf sh))) t1 = (Inr (c, may), t')"
    by (auto simp: allowed_def bindT_returns [of "get_as X as_collection (collectionKey nm ref)"])
  from get_as_returns [OF assms(1) plain_keys(1) [OF naming] g] have t1: "inv t1" "view t1 = view t"
    and c: "\<exists>u f. view t (collectionKey nm ref) = Some (VCollection c1 u f)" by (auto simp: as_Inr)
  show ?thesis
  proof (cases "cOwner c1 = account")
    case True
    with r t1 c show ?thesis by auto
  next
    case False
    with r obtain sh t2 where h: "get_as X as_share (shareKey nm ref account) t1 = (Inr sh, t2)"
      and l: "Live sh now" "c = c1" "may = accessOf sh" "t' = t2"
      by (auto simp: bindT_returns split: if_splits)
    from get_as_returns [OF t1(1) plain_keys(3) [OF naming] h] t1 c l False show ?thesis by (auto simp: as_Inr)
  qed
qed

lemma writable_returns:
  assumes "inv t" and "writable X nm ref by1 now t = (Inr u, t')" and naming: "naming_ok nm"
  shows "inv t' \<and> view t' = view t \<and> may_write nm (view t) ref by1 now"
proof -
  from assms(2) obtain c may where a: "allowed X nm ref (ToLower by1) now t = (Inr (c, may), t')"
    and w: "\<not> rank_of may < rank_of write_access" "cFeed c = None"
    by (auto simp: writable_def bindT_returns split: if_splits)
  from allowed_returns [OF assms(1) a naming] w show ?thesis
    by (auto simp: may_write_def rank_of_def accessOf_def split: if_splits)
qed

lemma claim_uid_returns:
  assumes "inv t" and "claim_uid X nm ref name uid t = (Inr u, t')" and naming: "naming_ok nm"
  shows "inv t' \<and> view t' = (view t)(uidKey nm ref uid := Some (VText name)) \<and> uid_free nm (view t) ref name uid"
proof -
  from assms(2) obtain h t1 t2 where g: "getT X (uidKey nm ref uid) t = (Inr h, t1)"
    and m: "(case h of None \<Rightarrow> returnT ()
        | Some h \<Rightarrow> if text_of h = name then returnT ()
            else bindT (get_if X as_object (objectKey nm ref (text_of h))) (\<lambda>other. case other of
                None \<Rightarrow> returnT ()
              | Some ob \<Rightarrow> if oUID ob = uid then failT ErrUIDConflict else returnT ())) t1 = (Inr (), t2)"
    and p: "Put X (uidKey nm ref uid) (VText name) t2 = (Inr u, t')"
    by (auto simp: claim_uid_def bindT_returns [of "getT X _"] bindT_returns [where f = "\<lambda>_. Put X (uidKey nm ref uid) (VText name)"])
  from getT_returns [OF assms(1) plain_keys(4) [OF naming] g] have t1: "inv t1" "view t1 = view t" "view t (uidKey nm ref uid) = h" by auto
  have t2: "inv t2 \<and> view t2 = view t \<and> uid_free nm (view t) ref name uid"
  proof (cases "\<exists>x. h = Some x \<and> text_of x \<noteq> name")
    case False
    then show ?thesis using m t1 by (cases h) (auto simp: uid_free_def split: if_splits)
  next
    case True
    then obtain x where x: "h = Some x" "text_of x \<noteq> name" by blast
    with m obtain other where o: "get_if X as_object (objectKey nm ref (text_of x)) t1 = (Inr other, t2)"
      and n: "\<And>ob. other = Some ob \<Longrightarrow> oUID ob \<noteq> uid"
      by (auto simp: bindT_returns split: option.splits if_splits)
    from get_if_returns [OF t1(1) plain_keys(2) [OF naming] o] t1 x n show ?thesis
      by (cases other) (auto simp: uid_free_def as_Inr)
  qed
  with put_law [OF _ plain_keys(4) [OF naming] p] show ?thesis by auto
qed

lemma check_unless_returns [simp]:
  "check_unless unless held t = (Inr u, t') \<longleftrightarrow> t' = t \<and> (case unless of None \<Rightarrow> True | Some f \<Rightarrow> f held = None)"
  by (auto simp: check_unless_def split: option.splits)

lemma PutObject_returns:
  assumes "inv t" and "PutObject X nm etag ref name uid data unless by1 now t = (Inr ob, t')" and naming: "naming_ok nm"
  shows "inv t' \<and> may_write nm (view t) ref by1 now \<and> ob = object_put nm etag (view t) ref name uid data by1 now \<and>
    (\<forall>w u. view t (objectKey nm ref name) = Some (VObject w u) \<longrightarrow> oUID w = uid) \<and>
    (uid \<noteq> [] \<longrightarrow> uid_free nm (view t) ref name uid) \<and>
    (\<exists>c v f. view t (collectionKey nm ref) = Some (VCollection c v f) \<and>
       view t' = touched nm ref c ((indexed nm ref name uid (view t))(objectKey nm ref name :=
          Some (Keep (view t (objectKey nm ref name)) (VObject ob [])))) \<and>
       last_ctag (view t) = Inr (next_ctag (view t) - 1))"
proof -
  let ?new = "\<lparr>oName = name, oUID = uid, oData = data, oETag = etag data, oModified = now,
                oCreator = by1, oCreated = now, oEditor = by1\<rparr>"
  let ?ob = "\<lambda>was. case was of None \<Rightarrow> ?new | Some w \<Rightarrow> ?new\<lparr>oCreator := oCreator w, oCreated := oCreated w\<rparr>"
  from assms(2) obtain t1 was t2 t3 t4 t5 where w: "writable X nm ref by1 now t = (Inr (), t1)"
    and g: "get_if X as_object (objectKey nm ref name) t1 = (Inr was, t2)"
    and same: "\<And>w. was = Some w \<Longrightarrow> oUID w = uid"
    and cl: "whenT (uid \<noteq> []) (claim_uid X nm ref name uid) t2 = (Inr (), t3)"
    and p: "put_value X (objectKey nm ref name) (VObject (?ob was) []) t3 = (Inr (), t4)"
    and tc: "touch X nm ref t4 = (Inr (), t5)" and ob: "ob = ?ob was" "t' = t5"
  proof -
    from assms(2) obtain t1 was t2 t3 t4 where "writable X nm ref by1 now t = (Inr (), t1)"
      and "get_if X as_object (objectKey nm ref name) t1 = (Inr was, t2)"
      and n: "\<not> (case was of None \<Rightarrow> False | Some w \<Rightarrow> oUID w \<noteq> uid)"
      and "whenT (uid \<noteq> []) (claim_uid X nm ref name uid) t2 = (Inr (), t3)"
      and "put_value X (objectKey nm ref name) (VObject (?ob was) []) t3 = (Inr (), t4)"
      and "touch X nm ref t4 = (Inr (), t')" and "ob = ?ob was"
      by (auto simp: PutObject_def Let_def bindT_returns split: if_split_asm)
    moreover from n have "\<And>w. was = Some w \<Longrightarrow> oUID w = uid" by auto
    ultimately show ?thesis using that by blast
  qed
  from writable_returns [OF assms(1) w naming] have t1: "inv t1" "view t1 = view t" "may_write nm (view t) ref by1 now" by auto
  from get_if_returns [OF t1(1) plain_keys(2) [OF naming] g] t1 have t2: "inv t2" "view t2 = view t"
    and was: "case was of None \<Rightarrow> view t (objectKey nm ref name) = None
      | Some x \<Rightarrow> \<exists>v. view t (objectKey nm ref name) = Some (VObject x v)" by (auto simp: as_Inr split: option.splits)
  have t3: "inv t3 \<and> view t3 = indexed nm ref name uid (view t) \<and> (uid \<noteq> [] \<longrightarrow> uid_free nm (view t) ref name uid)"
    using claim_uid_returns [OF t2(1) _ naming] cl t2 by (cases "uid = []") (auto simp: whenT_def indexed_def)
  from put_value_returns [OF _ plain_keys(2) [OF naming] p] t3 have t4: "inv t4"
    "view t4 = (indexed nm ref name uid (view t))(objectKey nm ref name := Some (Keep (view t3 (objectKey nm ref name)) (VObject ob [])))"
    using ob by auto
  have k3: "view t3 (objectKey nm ref name) = view t (objectKey nm ref name)"
    using t3 by (simp add: indexed_def key_simps)
  have col: "view t4 (collectionKey nm ref) = view t (collectionKey nm ref)" "view t4 ctagKey = view t ctagKey"
    using t4(2) by (simp_all add: indexed_def key_simps)
  have obv: "ob = object_put nm etag (view t) ref name uid data by1 now"
    using was ob by (cases was) (auto simp: object_put_def)
  from touch_returns [OF t4(1) tc naming] ob(2) obtain c v f where
    fin: "inv t'" "view t4 (collectionKey nm ref) = Some (VCollection c v f)" "view t' = touched nm ref c (view t4)"
      "last_ctag (view t4) = Inr (next_ctag (view t4) - 1)" by auto
  have l: "last_ctag (view t4) = last_ctag (view t)" using col(2) by (simp add: last_ctag_def)
  then have "next_ctag (view t4) = next_ctag (view t)" by (simp add: next_ctag_def)
  with l fin(4) have "last_ctag (view t) = Inr (next_ctag (view t) - 1)" by simp
  moreover have "\<forall>w u. view t (objectKey nm ref name) = Some (VObject w u) \<longrightarrow> oUID w = uid"
    using was same by (cases was) auto
  moreover have "view t' = touched nm ref c ((indexed nm ref name uid (view t))(objectKey nm ref name :=
      Some (Keep (view t (objectKey nm ref name)) (VObject ob []))))"
    using fin(3) t4(2) k3 by simp
  ultimately show ?thesis using fin(1,2) col(1) t3 t1(3) obv by metis
qed

lemma RemoveObject_returns:
  assumes "inv t" and "RemoveObject X nm ref name unless by1 now t = (Inr u, t')" and naming: "naming_ok nm"
  shows "inv t' \<and> may_write nm (view t) ref by1 now \<and>
    (\<exists>w v c x f. view t (objectKey nm ref name) = Some (VObject w v) \<and>
       view t (collectionKey nm ref) = Some (VCollection c x f) \<and>
       view t' = touched nm ref c ((if oUID w = [] then view t else (view t)(uidKey nm ref (oUID w) := None))(objectKey nm ref name := None)))"
proof -
  from assms(2) obtain t1 was t2 t3 t4 where w: "writable X nm ref by1 now t = (Inr (), t1)"
    and g: "get_as X as_object (objectKey nm ref name) t1 = (Inr was, t2)"
    and d: "whenT (oUID was \<noteq> []) (Delete X (uidKey nm ref (oUID was))) t2 = (Inr (), t3)"
    and e: "Delete X (objectKey nm ref name) t3 = (Inr (), t4)" and tc: "touch X nm ref t4 = (Inr u, t')"
    by (auto simp: RemoveObject_def bindT_returns)
  from writable_returns [OF assms(1) w naming] have t1: "inv t1" "view t1 = view t" "may_write nm (view t) ref by1 now" by auto
  from get_as_returns [OF t1(1) plain_keys(2) [OF naming] g] t1 have t2: "inv t2" "view t2 = view t"
    and was: "\<exists>v. view t (objectKey nm ref name) = Some (VObject was v)" by (auto simp: as_Inr)
  have t3: "inv t3 \<and> view t3 = (if oUID was = [] then view t else (view t)(uidKey nm ref (oUID was) := None))"
    using del_law [OF t2(1) plain_keys(4) [OF naming]] d t2 by (cases "oUID was = []") (auto simp: whenT_def)
  from del_law [OF _ plain_keys(2) [OF naming] e] t3 have t4: "inv t4" "view t4 = (view t3)(objectKey nm ref name := None)" by auto
  have col: "view t4 (collectionKey nm ref) = view t (collectionKey nm ref)"
    using t4(2) t3 by (simp add: key_simps)
  from touch_returns [OF t4(1) tc naming] col t4 t3 was t1(3) show ?thesis by auto
qed

lemma change_returns:
  assumes "inv t" and "change X nm ref write t = (Inr (a, seen), t')"
  obtains t1 t2 where "inv t1" and "view t1 = view t" and "write t1 = (Inr a, t2)"
    and "inv t2 \<Longrightarrow> inv t' \<and> view t' = view t2"
proof -
  from assms(2) obtain b t1 t2 c where s1: "sharees X nm ref t = (Inr b, t1)" and w: "write t1 = (Inr a, t2)"
    and s2: "sharees X nm ref t2 = (Inr c, t')"
    by (auto simp: change_def bindT_returns)
  note e = each_returns [OF _ apart_prefixes(3), where nm1 = nm]
  have "inv t1 \<and> view t1 = view t" by (rule e [OF assms(1) s1 [unfolded sharees_def]])
  moreover have "inv t' \<and> view t' = view t2" if "inv t2" by (rule e [OF that s2 [unfolded sharees_def]])
  ultimately show ?thesis using that w by blast
qed

lemma keys_under_returns:
  assumes "inv t" and "apart p" and "keys_under X p gone t = (Inr ks, t')"
  shows "inv t' \<and> view t' = view t \<and> set ks = set gone \<union> {k. prefix p k \<and> view t k \<noteq> None}"
proof -
  have *: "foldE (\<lambda>kv ks. Inr (ks @ [fst kv])) kvs acc = Inr (acc @ map fst kvs)" for kvs :: "(string \<times> stored) list" and acc
    by (induction kvs arbitrary: acc) auto
  from scan_with_returns [OF assms(1,2) assms(3) [unfolded keys_under_def]] show ?thesis
    by (auto simp: * image_iff) force+
qed

lemma shares_gone:
  assumes "inv t" and "each X (sharesOf nm ref) as_share
        (\<lambda>sh ks. Inr (ks @ [shareKey nm ref (sTo sh), receivedKey nm (sTo sh) ref])) g t = (Inr ks, t')"
  shows "inv t' \<and> view t' = view t \<and> set ks = set g \<union>
    {k. \<exists>j sh u. prefix (sharesOf nm ref) j \<and> view t j = Some (VShare sh u) \<and> (k = shareKey nm ref (sTo sh) \<or> k = receivedKey nm (sTo sh) ref)}"
proof -
  have *: "foldE (\<lambda>kv a. bindE (as_share (snd kv)) (\<lambda>sh. Inr (a @ [shareKey nm ref (sTo sh), receivedKey nm (sTo sh) ref]))) kvs acc = Inr ks \<Longrightarrow>
      set ks = set acc \<union> {k. \<exists>j sh u. (j, VShare sh u) \<in> set kvs \<and> (k = shareKey nm ref (sTo sh) \<or> k = receivedKey nm (sTo sh) ref)}"
    for kvs :: "(string \<times> stored) list" and acc
  proof (induction kvs arbitrary: acc)
    case (Cons kv kvs)
    then obtain j sh u where kv: "kv = (j, VShare sh u)"
      and rest: "foldE (\<lambda>kv a. bindE (as_share (snd kv)) (\<lambda>sh. Inr (a @ [shareKey nm ref (sTo sh), receivedKey nm (sTo sh) ref]))) kvs
        (acc @ [shareKey nm ref (sTo sh), receivedKey nm (sTo sh) ref]) = Inr ks"
      by (cases kv) (auto simp: bindE_returns as_Inr)
    from Cons.IH [OF rest] kv show ?case by auto
  qed simp
  from scan_with_returns [OF assms(1) apart_prefixes(3) assms(2) [unfolded each_def]] * show ?thesis by blast
qed

lemma delete_all_returns:
  "inv t \<Longrightarrow> (\<And>k. k \<in> set ks \<Longrightarrow> plain_key k) \<Longrightarrow> forT (Delete X) ks t = (Inr u, t') \<Longrightarrow>
     inv t' \<and> view t' = (\<lambda>k. if k \<in> set ks then None else view t k)"
proof (induction ks arbitrary: t)
  case (Cons k ks)
  from Cons.prems(3) obtain t1 where d: "Delete X k t = (Inr (), t1)" and rest: "forT (Delete X) ks t1 = (Inr u, t')"
    by (auto simp: bindT_returns)
  from del_law [OF Cons.prems(1) _ d] Cons.prems(2) have t1: "inv t1" "view t1 = (view t)(k := None)" by auto
  from Cons.IH [OF t1(1) _ rest] Cons.prems(2) t1(2) show ?case by auto
qed simp

lemma Delete_returns:
  assumes "inv t" and "Delete_in X nm ref now t = (Inr u, t')" and shs: "shares_named nm (view t) ref" and naming: "naming_ok nm"
  shows "inv t' \<and>
    (\<forall>k. prefix (objectsOf nm ref) k \<or> prefix (uidsOf nm ref) k \<or> prefix (sharesOf nm ref) k \<or> k = collectionKey nm ref \<longrightarrow> view t' k = None) \<and>
    (\<forall>k sh v. view t k = Some (VShare sh v) \<longrightarrow> prefix (sharesOf nm ref) k \<longrightarrow> view t' (receivedKey nm (sTo sh) ref) = None) \<and>
    (\<exists>c v f. view t (collectionKey nm ref) = Some (VCollection c v f) \<and>
       (cPublic c \<noteq> [] \<longrightarrow> view t' (publicKey nm (cPublic c)) = None) \<and>
       (\<forall>fd. cFeed c = Some fd \<longrightarrow> (\<exists>d w. view t' (droppedKey nm ref) = Some (VDropped d w) \<and> dpURL d = fURL fd)))"
proof -
  from assms(2) obtain c t1 t2 t3 g1 t4 g2 t5 gone t6 t7 where
    g: "get_as X as_collection (collectionKey nm ref) t = (Inr c, t1)"
    and p: "publish X nm (cPublic c) zero_Collection t1 = (Inr (), t2)"
    and d: "(case cFeed c of None \<Rightarrow> returnT ()
        | Some fd \<Rightarrow> put_value X (droppedKey nm ref) (VDropped \<lparr>dpID = refID ref, dpURL = fURL fd, dpAt = now\<rparr> [])) t2 = (Inr (), t3)"
    and k1: "keys_under X (objectsOf nm ref) [] t3 = (Inr g1, t4)" and k2: "keys_under X (uidsOf nm ref) g1 t4 = (Inr g2, t5)"
    and k3: "each X (sharesOf nm ref) as_share
        (\<lambda>sh ks. Inr (ks @ [shareKey nm ref (sTo sh), receivedKey nm (sTo sh) ref])) g2 t5 = (Inr gone, t6)"
    and del: "forT (Delete X) (gone @ [collectionKey nm ref]) t6 = (Inr (), t7)" and drop: "DropKey X (k_ref nm ref) t7 = (Inr u, t')"
    by (auto simp: Delete_in_def bindT_returns)
  from get_as_returns [OF assms(1) plain_keys(1) [OF naming] g] have t1: "inv t1" "view t1 = view t"
    and c: "\<exists>v f. view t (collectionKey nm ref) = Some (VCollection c v f)" by (auto simp: as_Inr)
  have t2: "inv t2 \<and> view t2 = (if cPublic c = [] then view t else (view t)(publicKey nm (cPublic c) := None))"
    using p t1 del_law [OF t1(1) plain_keys(5) [OF naming]]
    by (cases "cPublic c = []") (auto simp: publish_def zero_Collection_def whenT_def bindT_returns)
  have t3: "inv t3 \<and> (\<forall>k. k \<noteq> droppedKey nm ref \<longrightarrow> view t3 k = view t2 k) \<and>
      (\<forall>fd. cFeed c = Some fd \<longrightarrow> (\<exists>d w. view t3 (droppedKey nm ref) = Some (VDropped d w) \<and> dpURL d = fURL fd))"
  proof (cases "cFeed c")
    case None
    then show ?thesis using d t2 by simp
  next
    case (Some fd)
    let ?d = "\<lparr>dpID = refID ref, dpURL = fURL fd, dpAt = now\<rparr>"
    have pv: "put_value X (droppedKey nm ref) (VDropped ?d []) t2 = (Inr (), t3)" using d Some by simp
    obtain w where "Keep (view t2 (droppedKey nm ref)) (VDropped ?d []) = VDropped ?d w"
      using as_Keep(5) [of "view t2 (droppedKey nm ref)" ?d "[]"] unfolding as_Inr by blast
    with put_value_returns [OF _ plain_keys(7) [OF naming] pv] t2 Some show ?thesis by auto
  qed
  from keys_under_returns [OF _ apart_prefixes(2) k1] t3
  have t4: "inv t4" "view t4 = view t3" "set g1 = {k. prefix (objectsOf nm ref) k \<and> view t3 k \<noteq> None}" by auto
  from keys_under_returns [OF t4(1) apart_prefixes(4) k2] t4
  have t5: "inv t5" "view t5 = view t3" "set g2 = set g1 \<union> {k. prefix (uidsOf nm ref) k \<and> view t3 k \<noteq> None}" by auto
  from shares_gone [OF t5(1) k3] t5 have t6: "inv t6" "view t6 = view t3" "set gone = set g2 \<union>
    {k. \<exists>j sh u. prefix (sharesOf nm ref) j \<and> view t3 j = Some (VShare sh u) \<and> (k = shareKey nm ref (sTo sh) \<or> k = receivedKey nm (sTo sh) ref)}"
    by auto
  have pl: "plain_key k" if "k \<in> set (gone @ [collectionKey nm ref])" for k
    using that t6(3) t5(3) t4(3) view_plain plain_keys [OF naming] by auto
  from delete_all_returns [OF t6(1) pl del] t6(2)
  have t7: "inv t7" "view t7 = (\<lambda>k. if k \<in> set (gone @ [collectionKey nm ref]) then None else view t3 k)" by auto
  from drop_law [OF t7(1) drop] have t': "inv t'" "\<And>k. scopeOf k \<noteq> k_ref nm ref \<Longrightarrow> view t' k = view t7 k"
    "\<And>k. view t7 k = None \<Longrightarrow> view t' k = None" by auto
  have same: "view t3 k = view t k" if "prefix (sharesOf nm ref) k" for k
    using t3 t2 share_sorts [OF that] by auto
  have shares: "k \<in> set gone" if k: "prefix (sharesOf nm ref) k" "view t k = Some v" for k v
  proof -
    from shs k obtain sh w where "v = VShare sh w" "k = shareKey nm ref (sTo sh)" unfolding shares_named_def by blast
    with k same [OF k(1)] show ?thesis unfolding t6(3) by auto
  qed
  have gone: "view t' k = None"
    if "prefix (objectsOf nm ref) k \<or> prefix (uidsOf nm ref) k \<or> prefix (sharesOf nm ref) k \<or> k = collectionKey nm ref" for k
  proof (rule t'(3))
    from that show "view t7 k = None"
    proof (elim disjE)
      assume k: "prefix (sharesOf nm ref) k"
      then show ?thesis using shares [OF k] same [OF k] t7(2) by (cases "view t k") auto
    qed (use t7(2) t4(3) t5(3) t6(3) in auto)
  qed
  have recv: "view t' (receivedKey nm (sTo sh) ref) = None" if "view t k = Some (VShare sh v)" "prefix (sharesOf nm ref) k" for k sh v
  proof (rule t'(3))
    from that same have "receivedKey nm (sTo sh) ref \<in> set gone" unfolding t6(3) by auto
    then show "view t7 (receivedKey nm (sTo sh) ref) = None" using t7(2) by simp
  qed
  have outside: "view t' k = view t3 k" if "scopeOf k = []" "\<And>to. k \<noteq> receivedKey nm to ref" for k
  proof -
    have n: "k \<noteq> shareKey nm ref to" "\<not> prefix (objectsOf nm ref) k" "\<not> prefix (uidsOf nm ref) k" "k \<noteq> collectionKey nm ref" for to
      using that(1) scopeOf_under [OF naming, of ref] length_k_ref [OF naming, of ref] scopeOf_keys [OF naming]
      by (auto simp: scopeLen_def)
    have "k_ref nm ref \<noteq> []" using length_k_ref [OF naming, of ref] by (auto simp: scopeLen_def)
    then have "view t' k = view t7 k" using t'(2) [of k] that(1) by simp
    also have "\<dots> = view t3 k" using t7(2) n that(2) t6(3) t5(3) t4(3) by auto
    finally show ?thesis .
  qed
  have pub: "view t' (publicKey nm (cPublic c)) = None" if "cPublic c \<noteq> []"
    using outside [of "publicKey nm (cPublic c)"] that t2 t3 by (simp add: key_simps)
  have drp: "view t' (droppedKey nm ref) = view t3 (droppedKey nm ref)"
    using outside [of "droppedKey nm ref"] by (simp add: key_simps)
  show ?thesis using t'(1) gone recv c pub drp t3 by auto
qed

end

text \<open>The sealed file keeps the contract, and a transaction that touches no key leaves the view to the next.\<close>

lemma sealed_ops_simps [simp]:
  "Get (sealed_ops C now) = tx_Get C now" "Put (sealed_ops C now) = tx_Put C now" "Delete (sealed_ops C now) = tx_Delete"
  "Scan (sealed_ops C now) = tx_Scan C now" "WrapTo (sealed_ops C now) = wrapTo C now"
  "UnwrapFrom (sealed_ops C now) = unwrapFrom C now" "PublicWrap (sealed_ops C now) = publicWrap C now"
  "Encrypt (sealed_ops C now) = encrypt C now" "DropKey (sealed_ops C now) = dropKey" "RingOn (sealed_ops C now) = ring_on now"
  by (simp_all add: sealed_ops_def)

definition steady :: "crypto \<Rightarrow> time \<Rightarrow> Key \<Rightarrow> sealedTx \<Rightarrow> bool" where
  "steady C now K t \<longleftrightarrow> tx_inv C t \<and> synced C now t \<and> skey t = K"

lemma quiet_steady: "steady C now K t \<Longrightarrow> quiet C now t t' \<Longrightarrow> steady C now K t'"
  by (auto simp: steady_def quiet_inv synced_quiet) (simp add: quiet_def)

lemma tx_Put_skey: "tx_inv C t \<Longrightarrow> tx_Put C now k v t = (Inr u, t') \<Longrightarrow> skey t' = skey t"
  using sealer_spec [of C t now k] by (fastforce simp: tx_Put_def bindT_returns raw_put_returns quiet_def)

lemma tx_Delete_skey: "tx_Delete k t = (Inr u, t') \<Longrightarrow> skey t' = skey t"
  by (auto simp: tx_Delete_def split: sum.splits)

interpretation sealed: store_tx "sealed_ops C now" "view C now" "steady C now K" for C now K
proof
  fix t k r t' assume a: "steady C now K t" "plain_key k" "Get (sealed_ops C now) k t = (r, t')"
  then have "r = view C now t k \<and> quiet C now t t'"
    using tx_Get_spec [of C t k now r t'] by (simp add: steady_def)
  with a show "steady C now K t' \<and> view C now t' = view C now t \<and> view C now t k = r"
    by (auto simp: quiet_view quiet_steady)
next
  fix t k v u t' assume "steady C now K t" "plain_key k" "Put (sealed_ops C now) k v t = (Inr u, t')"
  then show "steady C now K t' \<and> view C now t' = (view C now t)(k \<mapsto> v)"
    using tx_Put_spec [of C t k now v u t'] tx_Put_synced [of C t k now v u t'] tx_Put_skey [of C t now k v u t']
    by (simp add: steady_def)
next
  fix t k u t' assume "steady C now K t" "plain_key k" "Delete (sealed_ops C now) k t = (Inr u, t')"
  then show "steady C now K t' \<and> view C now t' = (view C now t)(k := None)"
    using tx_Delete_spec [of C t k u t' now] tx_Delete_synced [of C t k u t' now] tx_Delete_skey [of k t u t']
    by (simp add: steady_def)
next
  fix t p kvs t' assume a: "steady C now K t" "apart p" "Scan (sealed_ops C now) p t = ((kvs, None), t')"
  from a have "quiet C now t t' \<and> serr t' = serr t \<and> distinct (map fst kvs) \<and>
    (\<forall>k v. (k, v) \<in> set kvs \<longleftrightarrow> prefix p k \<and> view C now t k = Some v)"
    by (intro tx_Scan_spec) (auto simp: apart_def steady_def)
  with a show "steady C now K t' \<and> view C now t' = view C now t \<and> distinct (map fst kvs) \<and>
      (\<forall>k v. ((k, v) \<in> set kvs) = (prefix p k \<and> view C now t k = Some v))"
    by (auto simp: quiet_view quiet_steady)
next
  fix t x u t' assume "steady C now K t" "DropKey (sealed_ops C now) x t = (Inr u, t')"
  then show "steady C now K t' \<and> (\<forall>k. scopeOf k \<noteq> x \<longrightarrow> view C now t' k = view C now t k) \<and>
      (\<forall>k. view C now t k = None \<longrightarrow> view C now t' k = None)"
    using dropKey_spec [of C t x u t' now] dropKey_synced [of C t x u t' now] dropKey_gone [of C t x u t' now]
    by (auto simp: steady_def)
next
  fix t k v assume "view C now t k = Some v"
  then show "plain_key k" by (auto simp: view_def split: if_splits)
qed

text \<open>A committed transaction, and what the next one sees.\<close>

lemma committed:
  assumes "db_ok C s" and "db_Update fn s = (Inr a, s')"
  obtains t where "fn (begin_tx True s) = (Inr a, t)" and "steady C now (pkey s) (begin_tx True s)"
    and "view C now (begin_tx True s) = seen_in C now s"
    and "steady C now (pkey s) t \<Longrightarrow> seen_in C now s' = view C now t \<and> db_ok C s'"
proof -
  from assms(2) obtain t where t: "fn (begin_tx True s) = (Inr a, t)" and s': "s' = s\<lparr>pdb := raw t, pring := sring t\<rparr>"
    by (auto simp: db_Update_def run_tx_def split: prod.splits sum.splits option.splits)
  have st: "steady C now (pkey s) (begin_tx True s)"
    using assms(1) synced_begin [of C now True s] by (simp add: steady_def db_ok_def) (simp add: begin_tx_def)
  have "db_ok C s'" if "steady C now (pkey s) t"
    using that s' by (auto simp: steady_def db_ok_def tx_inv_def begin_tx_def)
  then show ?thesis
    using that [OF t st] seen_synced [of C t now s] s' by (simp add: view_begin steady_def)
qed

end
