(* ===== verification/Collections_Live.thy ===== *)
theory Collections_Live
  imports Collections
begin

text \<open>
  When the store's operations succeed. The contract \<open>live_tx\<close> extends \<open>store_tx\<close>: in a live
  transaction every record can be opened, no collection is locked and the file refuses no
  write, so reading and writing return and leave it live. \<open>succeeds m t Q\<close> says that the
  program returns from \<open>t\<close> with a result and a transaction that satisfy \<open>Q\<close>; it runs through a
  program step by step.
\<close>

definition succeeds :: "('e, 't, 'a) prog \<Rightarrow> 't \<Rightarrow> ('a \<Rightarrow> 't \<Rightarrow> bool) \<Rightarrow> bool" where
  "succeeds m t Q \<longleftrightarrow> (\<exists>a t'. m t = (Inr a, t') \<and> Q a t')"

named_theorems wp \<open>one step of a program that returns\<close>

lemma succeeds_bind [wp]: "succeeds m t (\<lambda>a t1. succeeds (f a) t1 Q) \<Longrightarrow> succeeds (bindT m f) t Q"
  by (auto simp: succeeds_def bindT_returns)

lemma succeeds_return [wp]: "Q a t \<Longrightarrow> succeeds (returnT a) t Q"
  by (simp add: succeeds_def returnT_def)

lemma succeeds_lift [wp]: "r = Inr a \<Longrightarrow> Q a t \<Longrightarrow> succeeds (liftT r) t Q"
  by (simp add: succeeds_def liftT_def)

lemma succeeds_when [wp]: "(b \<Longrightarrow> succeeds m t Q) \<Longrightarrow> (\<not> b \<Longrightarrow> Q () t) \<Longrightarrow> succeeds (whenT b m) t Q"
  by (simp add: whenT_def succeeds_def returnT_def)

lemma succeeds_post: "succeeds m t Q \<Longrightarrow> (\<And>a t'. Q a t' \<Longrightarrow> R a t') \<Longrightarrow> succeeds m t R"
  by (auto simp: succeeds_def)

definition in_collection :: "naming \<Rightarrow> Ref \<Rightarrow> string \<Rightarrow> bool" where
  "in_collection nm ref k \<longleftrightarrow> k = collectionKey nm ref \<or> prefix (objectsOf nm ref) k \<or> prefix (uidsOf nm ref) k \<or> prefix (sharesOf nm ref) k"

locale live_tx = store_tx X view inv
  for X :: "'t txops" and view :: "'t \<Rightarrow> string \<Rightarrow> stored option" and inv :: "'t \<Rightarrow> bool" +
  fixes live :: "'t \<Rightarrow> bool"
  assumes live_inv: "live t \<Longrightarrow> inv t"
    and live_get: "live t \<Longrightarrow> plain_key k \<Longrightarrow> live (snd (Get X k t))"
    and live_put: "live t \<Longrightarrow> plain_key k \<Longrightarrow> \<exists>t'. Put X k v t = (Inr (), t') \<and> live t'"
    and live_del: "live t \<Longrightarrow> plain_key k \<Longrightarrow> \<exists>t'. Delete X k t = (Inr (), t') \<and> live t'"
    and live_scan: "live t \<Longrightarrow> apart p \<Longrightarrow> \<exists>kvs t'. Scan X p t = ((kvs, None), t') \<and> live t'"
    and live_drop: "live t \<Longrightarrow> (\<And>k. scopeOf k = s \<Longrightarrow> view t k = None) \<Longrightarrow> \<exists>t'. DropKey X s t = (Inr (), t') \<and> live t'"
begin

definition at :: "(string \<Rightarrow> stored option) \<Rightarrow> 't \<Rightarrow> bool" where
  "at V t \<longleftrightarrow> live t \<and> view t = V"

lemma wp_get:
  assumes "at V t" and "plain_key k" and "\<And>t1. at V t1 \<Longrightarrow> Q (V k) t1"
  shows "succeeds (getT X k) t Q"
proof -
  obtain r t1 where g: "Get X k t = (r, t1)" by force
  with get_law [OF live_inv assms(2) g] live_get [of t k] assms(1,2) have "at V t1" "r = V k"
    by (auto simp: at_def)
  with g assms(3) show ?thesis by (auto simp: succeeds_def getT_def)
qed

lemma wp_put:
  assumes "at V t" and "plain_key k" and "\<And>t1. at (V(k := Some v)) t1 \<Longrightarrow> Q () t1"
  shows "succeeds (Put X k v) t Q"
proof -
  from live_put [of t k v] assms(1,2) obtain t1 where p: "Put X k v t = (Inr (), t1)" "live t1" by (auto simp: at_def)
  with put_law [OF live_inv assms(2) p(1)] assms(1) have "at (V(k := Some v)) t1" by (auto simp: at_def)
  with p(1) assms(3) show ?thesis by (auto simp: succeeds_def)
qed

lemma wp_del:
  assumes "at V t" and "plain_key k" and "\<And>t1. at (V(k := None)) t1 \<Longrightarrow> Q () t1"
  shows "succeeds (Delete X k) t Q"
proof -
  from live_del [of t k] assms(1,2) obtain t1 where p: "Delete X k t = (Inr (), t1)" "live t1" by (auto simp: at_def)
  with del_law [OF live_inv assms(2) p(1)] assms(1) have "at (V(k := None)) t1" by (auto simp: at_def)
  with p(1) assms(3) show ?thesis by (auto simp: succeeds_def)
qed

lemma wp_get_as:
  assumes "at V t" and "plain_key k" and "V k = Some v" and "dec v = Inr a" and "\<And>t1. at V t1 \<Longrightarrow> Q a t1"
  shows "succeeds (get_as X dec k) t Q"
  unfolding get_as_def using assms by (intro wp wp_get [OF assms(1,2)]) (auto intro: wp)

lemma wp_get_if:
  assumes "at V t" and "plain_key k" and "V k = None \<Longrightarrow> a = None"
    and "\<And>v. V k = Some v \<Longrightarrow> \<exists>x. dec v = Inr x \<and> a = Some x" and "\<And>t1. at V t1 \<Longrightarrow> Q a t1"
  shows "succeeds (get_if X dec k) t Q"
  unfolding get_if_def using assms
  by (intro wp wp_get [OF assms(1,2)], cases "V k") (auto intro!: succeeds_return succeeds_lift)

lemma wp_put_value:
  assumes "at V t" and "plain_key k" and "\<And>t1. at (V(k := Some (Keep (V k) v))) t1 \<Longrightarrow> Q () t1"
  shows "succeeds (put_value X k v) t Q"
  unfolding put_value_def using assms by (intro wp wp_get [OF assms(1,2)] wp_put)

lemma wp_stamp:
  assumes "at V t" and "\<not> isl (last_ctag V)" and "\<And>t1. at (stamped V) t1 \<Longrightarrow> Q (c\<lparr>CTag := next_ctag V\<rparr>) t1"
  shows "succeeds (stamp X c) t Q"
proof -
  obtain l where l: "last_ctag V = Inr l" using assms(2) by (cases "last_ctag V") auto
  then have n: "next_ctag V = l + 1" by (simp add: next_ctag_def)
  have parsed: "succeeds (case V ctagKey of None \<Rightarrow> returnT 0 | Some v \<Rightarrow> liftT (ParseUint (text_of v))) t1 R" if "R l t1" for t1 R
    using l that by (cases "V ctagKey") (auto simp: last_ctag_def intro!: wp)
  show ?thesis
    unfolding stamp_def
  proof (intro succeeds_bind wp_get [OF assms(1) plain_ctagKey])
    fix t1 assume t1: "at V t1"
    show "succeeds (case V ctagKey of None \<Rightarrow> returnT 0 | Some v \<Rightarrow> liftT (ParseUint (text_of v))) t1
      (\<lambda>a t1. succeeds (bindT (Put X ctagKey (VText (FormatUint (unat (a + 1))))) (\<lambda>_. returnT (c\<lparr>CTag := a + 1\<rparr>))) t1 Q)"
      by (rule parsed, intro wp wp_put [OF t1 plain_ctagKey]) (use assms(3) in \<open>simp add: stamped_def n\<close>)
  qed
qed

lemma wp_touch:
  assumes "at V t" and "naming_ok nm" and "V (collectionKey nm ref) = Some (VCollection c u f)" and "\<not> isl (last_ctag V)"
    and "\<And>t1. at (touched nm ref c V) t1 \<Longrightarrow> Q () t1"
  shows "succeeds (touch X nm ref) t Q"
proof -
  have k: "stamped V (collectionKey nm ref) = V (collectionKey nm ref)" by (simp add: stamped_def key_simps)
  show ?thesis
    unfolding touch_def
  proof (intro succeeds_bind wp_get_as [OF assms(1) plain_keys(1) [OF assms(2)] assms(3), where a = c])
    fix t1 assume t1: "at V t1"
    show "succeeds (stamp X c) t1 (\<lambda>a t1. succeeds (put_value X (collectionKey nm ref) (new_collection a)) t1 Q)"
    proof (rule wp_stamp [OF t1 assms(4)])
      fix t2 assume t2: "at (stamped V) t2"
      show "succeeds (put_value X (collectionKey nm ref) (new_collection (c\<lparr>CTag := next_ctag V\<rparr>))) t2 Q"
        by (rule wp_put_value [OF t2 plain_keys(1) [OF assms(2)]]) (simp add: assms(5) touched_def k)
    qed
  qed simp
qed

lemma wp_writable:
  assumes "at V t" and "naming_ok nm" and may: "may_write nm V ref by1 now" and "\<And>t1. at V t1 \<Longrightarrow> Q () t1"
  shows "succeeds (writable X nm ref by1 now) t Q"
proof -
  from may obtain c u f where c: "V (collectionKey nm ref) = Some (VCollection c u f)" "cFeed c = None"
    and who: "cOwner c = ToLower by1 \<or> (\<exists>sh u. V (shareKey nm ref (ToLower by1)) = Some (VShare sh u) \<and> Live sh now \<and> sWrite sh)"
    unfolding may_write_def by blast
  have "succeeds (allowed X nm ref (ToLower by1) now) t (\<lambda>r t1. at V t1 \<and> (\<exists>m. r = (c, m) \<and> rank_of write_access \<le> rank_of m))"
  proof (cases "cOwner c = ToLower by1")
    case True
    then show ?thesis
      unfolding allowed_def
      by (intro wp wp_get_as [OF assms(1) plain_keys(1) [OF assms(2)] c(1)])
         (auto intro!: wp simp: rank_of_def)
  next
    case False
    with who obtain sh x where sh: "V (shareKey nm ref (ToLower by1)) = Some (VShare sh x)" "Live sh now" "sWrite sh" by blast
    show ?thesis
      unfolding allowed_def using False sh
      by (intro wp wp_get_as [OF assms(1) plain_keys(1) [OF assms(2)] c(1)])
         (auto intro!: wp wp_get_as [where V = V and v = "VShare sh x"] plain_keys [OF assms(2)]
            simp: rank_of_def accessOf_def)
  qed
  then show ?thesis
    unfolding writable_def
    by (intro wp, elim succeeds_post) (auto intro!: wp assms(4) simp: c(2))
qed

lemma wp_claim_uid:
  assumes "at V t" and "naming_ok nm" and free: "uid_free nm V ref name uid"
    and objects: "\<And>n v. V (objectKey nm ref n) = Some v \<Longrightarrow> \<exists>ob u. v = VObject ob u"
    and "\<And>t1. at (V(uidKey nm ref uid := Some (VText name))) t1 \<Longrightarrow> Q () t1"
  shows "succeeds (claim_uid X nm ref name uid) t Q"
proof -
  note pk = plain_keys [OF assms(2)]
  have held: "succeeds (case V (uidKey nm ref uid) of None \<Rightarrow> returnT ()
        | Some h \<Rightarrow> if text_of h = name then returnT ()
            else bindT (get_if X as_object (objectKey nm ref (text_of h))) (\<lambda>other. case other of
                None \<Rightarrow> returnT ()
              | Some ob \<Rightarrow> if oUID ob = uid then failT ErrUIDConflict else returnT ())) t1 (\<lambda>_. at V)" if t1: "at V t1" for t1
  proof (cases "\<exists>h. V (uidKey nm ref uid) = Some h \<and> text_of h \<noteq> name")
    case False
    then show ?thesis using t1 by (cases "V (uidKey nm ref uid)") (auto intro!: wp)
  next
    case True
    then obtain h where h: "V (uidKey nm ref uid) = Some h" "text_of h \<noteq> name" by blast
    let ?a = "case V (objectKey nm ref (text_of h)) of Some (VObject ob u) \<Rightarrow> Some ob | _ \<Rightarrow> None"
    have n: "oUID ob \<noteq> uid" if "?a = Some ob" for ob
      using that h free unfolding uid_free_def by (auto split: option.splits stored.splits)
    have "succeeds (get_if X as_object (objectKey nm ref (text_of h))) t1 (\<lambda>a t2. at V t2 \<and> a = ?a)"
      by (rule wp_get_if [OF t1 pk(2)]) (auto dest!: objects)
    then show ?thesis
      using h n by (auto intro!: wp elim!: succeeds_post split: option.split)
  qed
  show ?thesis
    unfolding claim_uid_def
    by (intro succeeds_bind wp_get [OF assms(1) pk(4)], rule succeeds_post [OF held], assumption,
        rule wp_put [OF _ pk(4)], assumption, rule assms(5))
qed

lemma PutObject_succeeds:
  assumes "at V t" and nok: "naming_ok nm" and may: "may_write nm V ref by1 now"
    and objects: "\<And>n v. V (objectKey nm ref n) = Some v \<Longrightarrow> \<exists>ob u. v = VObject ob u"
    and same: "\<And>w u. V (objectKey nm ref name) = Some (VObject w u) \<Longrightarrow> oUID w = uid"
    and free: "uid \<noteq> [] \<Longrightarrow> uid_free nm V ref name uid" and ctag: "\<not> isl (last_ctag V)"
    and pre: "\<And>f. unless = Some f \<Longrightarrow>
      f (case V (objectKey nm ref name) of Some (VObject w u) \<Rightarrow> oETag w | _ \<Rightarrow> []) = None"
  shows "succeeds (PutObject X nm etag ref name uid data unless by1 now) t (\<lambda>_. live)"
proof -
  note pk = plain_keys [OF nok]
  let ?was = "case V (objectKey nm ref name) of Some (VObject w u) \<Rightarrow> Some w | _ \<Rightarrow> None"
  obtain c u f where c: "V (collectionKey nm ref) = Some (VCollection c u f)" using may unfolding may_write_def by blast
  have was: "succeeds (get_if X as_object (objectKey nm ref name)) t1 (\<lambda>a t2. at V t2 \<and> a = ?was)" if "at V t1" for t1
    by (rule wp_get_if [OF that pk(2)]) (auto dest!: objects)
  have unl: "succeeds (check_unless unless (case ?was of None \<Rightarrow> [] | Some w \<Rightarrow> oETag w)) t1 (\<lambda>_. at V)" if "at V t1" for t1
    using that pre
    by (cases unless; cases "V (objectKey nm ref name)") (auto simp: check_unless_def dest!: objects intro!: wp)
  have nuid: "\<not> (case ?was of None \<Rightarrow> False | Some w \<Rightarrow> oUID w \<noteq> uid)"
    using same by (auto split: option.splits stored.splits)
  have claim: "succeeds (whenT (uid \<noteq> []) (claim_uid X nm ref name uid)) t1 (\<lambda>_. at (indexed nm ref name uid V))" if "at V t1" for t1
    using that by (intro succeeds_when wp_claim_uid [OF that nok free objects]) (auto simp: indexed_def)
  have put: "succeeds (put_value X (objectKey nm ref name) (VObject ob [])) t1
      (\<lambda>_. at ((indexed nm ref name uid V)(objectKey nm ref name := Some (Keep (V (objectKey nm ref name)) (VObject ob [])))))"
    if "at (indexed nm ref name uid V) t1" for t1 ob
  proof (rule wp_put_value [OF that pk(2)])
    have e: "indexed nm ref name uid V (objectKey nm ref name) = V (objectKey nm ref name)" by (simp add: indexed_def key_simps)
    show "at ((indexed nm ref name uid V)(objectKey nm ref name := Some (Keep (V (objectKey nm ref name)) (VObject ob [])))) t2"
      if "at ((indexed nm ref name uid V)(objectKey nm ref name \<mapsto> Keep (indexed nm ref name uid V (objectKey nm ref name)) (VObject ob []))) t2" for t2
      using that unfolding e .
  qed
  have touch: "succeeds (touch X nm ref) t1 (\<lambda>_. live)"
    if t1: "at ((indexed nm ref name uid V)(objectKey nm ref name := Some x)) t1" for t1 x
  proof (rule wp_touch [OF t1 nok])
    show "((indexed nm ref name uid V)(objectKey nm ref name := Some x)) (collectionKey nm ref) = Some (VCollection c u f)"
      using c by (simp add: indexed_def key_simps)
    show "\<not> isl (last_ctag ((indexed nm ref name uid V)(objectKey nm ref name := Some x)))"
      using ctag by (simp add: last_ctag_def indexed_def key_simps)
  qed (simp add: at_def)
  show ?thesis
    unfolding PutObject_def Let_def
    by (rule succeeds_bind, rule wp_writable [OF assms(1) nok may], rule succeeds_bind, rule succeeds_post [OF was],
        assumption, elim conjE, hypsubst, rule succeeds_bind, rule succeeds_post [OF unl], assumption,
        subst if_not_P [OF nuid], rule succeeds_bind, rule succeeds_post [OF claim], assumption,
        rule succeeds_bind, rule succeeds_post [OF put], assumption,
        rule succeeds_bind, rule succeeds_post [OF touch], assumption, rule succeeds_return)
qed

lemma wp_scan_with:
  assumes "at V t" and "apart p" and body: "\<And>kvs. (\<And>k v. (k, v) \<in> set kvs \<Longrightarrow> prefix p k \<and> V k = Some v) \<Longrightarrow> \<exists>a. foldE f kvs acc = Inr a"
    and "\<And>a t1. at V t1 \<Longrightarrow> Q a t1"
  shows "succeeds (scan_with X p f acc) t Q"
proof -
  from live_scan [of t p] assms(1,2) obtain kvs t1 where s: "Scan X p t = ((kvs, None), t1)" "live t1" by (auto simp: at_def)
  from scan_law [OF live_inv assms(2) s(1)] assms(1) have v: "view t1 = V" "\<forall>k v. (k, v) \<in> set kvs \<longleftrightarrow> prefix p k \<and> V k = Some v"
    by (auto simp: at_def)
  then obtain a where "foldE f kvs acc = Inr a" using body by blast
  with s v assms(4) [of t1 a] show ?thesis by (auto simp: succeeds_def scan_with_def at_def)
qed

lemma foldE_returns: "(\<And>x a. x \<in> set xs \<Longrightarrow> \<not> isl (f x a)) \<Longrightarrow> \<exists>a'. foldE f xs a = Inr a'"
proof (induction xs arbitrary: a)
  case (Cons x xs)
  obtain b where "f x a = Inr b" using Cons.prems [of x a] by (cases "f x a") auto
  with Cons.IH [of b] Cons.prems show ?case by auto
qed simp

lemma wp_sharees:
  assumes "at V t" and "shares_named nm V ref" and "\<And>a t1. at V t1 \<Longrightarrow> Q a t1"
  shows "succeeds (sharees X nm ref) t Q"
  unfolding sharees_def each_def using assms(2)
  by (intro wp_scan_with [OF assms(1) apart_prefixes(3)] foldE_returns assms(3))
     (fastforce simp: shares_named_def)+

lemma Answer_succeeds:
  assumes "at V t" and nok: "naming_ok nm" and shs: "shares_named nm V ref" and sh: "V (shareKey nm ref to) = Some (VShare sh u)"
    and addressed: "sTo sh = to"
  shows "succeeds (Answer X nm ref to yes now) t (\<lambda>_. live)"
proof -
  note pk = plain_keys [OF nok]
  let ?V = "V(shareKey nm ref to := Some (Keep (V (shareKey nm ref to)) (VShare (answered sh yes now) [])))"
  have "sTo (answered sh yes now) = to" using addressed by (simp add: answered_def Let_def)
  then have shs': "shares_named nm ?V ref"
    using shs sh by (auto simp: shares_named_def)
  have body: "succeeds (bindT (get_as X as_share (shareKey nm ref to)) (\<lambda>sh. put_value X (shareKey nm ref to) (VShare (answered sh yes now) []))) t1
      (\<lambda>_. at ?V)" if "at V t1" for t1
    by (intro succeeds_bind wp_get_as [OF that pk(3) sh, where a = sh]) (auto intro: wp_put_value [OF _ pk(3)])
  have "succeeds (sharees X nm ref) t (\<lambda>_. at V)" by (rule wp_sharees [OF assms(1) shs])
  then show ?thesis
    unfolding Answer_def change_def
    by (intro succeeds_bind, elim succeeds_post, intro succeeds_bind [where m = "bindT _ _"])
       (rule succeeds_post [OF body], assumption, intro succeeds_bind wp_sharees [OF _ shs'], assumption,
        rule succeeds_return, simp add: at_def)
qed

lemma RemoveObject_succeeds:
  assumes "at V t" and nok: "naming_ok nm" and may: "may_write nm V ref by1 now"
    and ob: "V (objectKey nm ref name) = Some (VObject w u)" and ctag: "\<not> isl (last_ctag V)"
    and pre: "\<And>f. unless = Some f \<Longrightarrow> f (oETag w) = None"
  shows "succeeds (RemoveObject X nm ref name unless by1 now) t (\<lambda>_. live)"
proof -
  note pk = plain_keys [OF nok]
  obtain c x f where c: "V (collectionKey nm ref) = Some (VCollection c x f)" using may unfolding may_write_def by blast
  let ?V = "if oUID w = [] then V else V(uidKey nm ref (oUID w) := None)"
  have unl: "succeeds (check_unless unless (oETag w)) t1 (\<lambda>_. at V)" if "at V t1" for t1
    using that pre by (cases unless) (auto simp: check_unless_def intro!: wp)
  have uid: "succeeds (whenT (oUID w \<noteq> []) (Delete X (uidKey nm ref (oUID w)))) t1 (\<lambda>_. at ?V)" if "at V t1" for t1
    using that by (intro succeeds_when wp_del [OF that pk(4)]) auto
  have touch: "succeeds (touch X nm ref) t1 (\<lambda>_. live)" if t1: "at (?V(objectKey nm ref name := None)) t1" for t1
    by (rule wp_touch [OF t1 nok]) (use c ctag in \<open>auto simp: key_simps last_ctag_def at_def\<close>)
  show ?thesis
    unfolding RemoveObject_def
    by (rule succeeds_bind, rule wp_writable [OF assms(1) nok may], rule succeeds_bind,
        rule wp_get_as [where V = V and k = "objectKey nm ref name" and a = w, OF _ pk(2) ob], assumption, simp, rule succeeds_bind, rule succeeds_post [OF unl], assumption,
        rule succeeds_bind, rule succeeds_post [OF uid], assumption,
        rule succeeds_bind, rule wp_del [OF _ pk(2)], assumption, rule touch)
qed

lemma wp_delete_all:
  "at V t \<Longrightarrow> (\<And>k. k \<in> set ks \<Longrightarrow> plain_key k) \<Longrightarrow> (\<And>t1. at (\<lambda>k. if k \<in> set ks then None else V k) t1 \<Longrightarrow> Q () t1) \<Longrightarrow>
     succeeds (forT (Delete X) ks) t Q"
proof (induction ks arbitrary: V t)
  case Nil
  then show ?case by (simp add: wp)
next
  case (Cons k ks)
  have e: "(\<lambda>j. if j \<in> set ks then None else (V(k := None)) j) = (\<lambda>j. if j \<in> set (k # ks) then None else V j)"
    by (auto simp: fun_eq_iff)
  show ?case
    by (simp, rule succeeds_bind, rule wp_del [OF Cons.prems(1)], simp add: Cons.prems(2),
        rule Cons.IH, assumption, simp add: Cons.prems(2), rule Cons.prems(3), unfold e, assumption)
qed

lemma succeeds_and:
  "succeeds m t Q \<Longrightarrow> (\<And>a t'. m t = (Inr a, t') \<Longrightarrow> R a t') \<Longrightarrow> succeeds m t (\<lambda>a t'. Q a t' \<and> R a t')"
  by (auto simp: succeeds_def)

lemma wp_keys_under:
  assumes "at V t" and "apart p"
  shows "succeeds (keys_under X p gone) t (\<lambda>ks t1. at V t1 \<and> set ks = set gone \<union> {k. prefix p k \<and> V k \<noteq> None})"
proof -
  have "succeeds (keys_under X p gone) t (\<lambda>_. at V)"
    unfolding keys_under_def by (rule wp_scan_with [OF assms]) (auto intro: foldE_returns)
  from succeeds_and [OF this, where R = "\<lambda>ks _. set ks = set gone \<union> {k. prefix p k \<and> V k \<noteq> None}"]
  show ?thesis using keys_under_returns [OF live_inv assms(2)] assms(1) by (auto simp: at_def)
qed

lemma wp_shares_gone:
  assumes "at V t" and "shares_named nm V ref"
  shows "succeeds (each X (sharesOf nm ref) as_share
        (\<lambda>sh ks. Inr (ks @ [shareKey nm ref (sTo sh), receivedKey nm (sTo sh) ref])) g) t
      (\<lambda>ks t1. at V t1 \<and> set ks = set g \<union> {k. \<exists>j sh u. prefix (sharesOf nm ref) j \<and> V j = Some (VShare sh u) \<and>
          (k = shareKey nm ref (sTo sh) \<or> k = receivedKey nm (sTo sh) ref)})"
    (is "succeeds ?m t (\<lambda>ks t1. _ \<and> set ks = ?G)")
proof -
  have "succeeds ?m t (\<lambda>_. at V)"
    unfolding each_def using assms(2)
    by (intro wp_scan_with [OF assms(1) apart_prefixes(3)] foldE_returns) (fastforce simp: shares_named_def)+
  from succeeds_and [OF this, where R = "\<lambda>ks _. set ks = ?G"]
  show ?thesis using shares_gone [OF live_inv] assms(1) by (auto simp: at_def)
qed

text \<open>Every record of the collection is one the store makes.\<close>

lemma Delete_in_succeeds:
  assumes "at V t" and nok: "naming_ok nm" and c: "V (collectionKey nm ref) = Some (VCollection c u f)"
    and shs: "shares_named nm V ref" and scope: "\<And>k v. scopeOf k = k_ref nm ref \<Longrightarrow> V k = Some v \<Longrightarrow> in_collection nm ref k"
    and nofeed: "cFeed c = None" and pub: "cPublic c \<noteq> []"
  shows "succeeds (Delete_in X nm ref now) t (\<lambda>_. live)"
proof -
  note pk = plain_keys [OF nok]
  define W where "W = V(publicKey nm (cPublic c) := None)"
  have W: "W k = V k" if "scopeOf k \<noteq> []" for k using that by (auto simp: W_def key_simps)
  have shs': "shares_named nm W ref" using shs by (auto simp: shares_named_def W_def)
  have publish: "succeeds (publish X nm (cPublic c) zero_Collection) t1 (\<lambda>_. at W)" if "at V t1" for t1
    using pub by (auto simp: W_def publish_def zero_Collection_def intro!: wp wp_del [OF that pk(5)])
  have drop: "succeeds (bindT (forT (Delete X) (gone @ [collectionKey nm ref])) (\<lambda>_. DropKey X (k_ref nm ref))) t1 (\<lambda>_. live)"
    if t1: "at W t1" and g: "set gone = ({} \<union> {k. prefix (objectsOf nm ref) k \<and> W k \<noteq> None} \<union> {k. prefix (uidsOf nm ref) k \<and> W k \<noteq> None}) \<union>
      {k. \<exists>j sh u. prefix (sharesOf nm ref) j \<and> W j = Some (VShare sh u) \<and> (k = shareKey nm ref (sTo sh) \<or> k = receivedKey nm (sTo sh) ref)}"
    for t1 gone
  proof -
    have pl: "plain_key k" if "k \<in> set (gone @ [collectionKey nm ref])" for k
      using that g t1 view_plain [of t1] pk by (auto simp: at_def)
    have none: "(\<lambda>k. if k \<in> set (gone @ [collectionKey nm ref]) then None else W k) k = None" if k: "scopeOf k = k_ref nm ref" for k
    proof (cases "W k")
      case (Some v)
      have "scopeOf k \<noteq> []" using k length_k_ref [OF nok, of ref] by (auto simp: scopeLen_def)
      with Some W have "V k = Some v" by metis
      from scope [OF k this] have "k \<in> set (gone @ [collectionKey nm ref])"
        unfolding in_collection_def
      proof (elim disjE)
        assume p: "prefix (sharesOf nm ref) k"
        with shs' Some obtain sh x where "v = VShare sh x" "k = shareKey nm ref (sTo sh)" unfolding shares_named_def by blast
        with p Some have "k \<in> set gone" unfolding g by blast
        then show ?thesis by simp
      qed (use Some g in auto)
      then show ?thesis by simp
    qed simp
    show ?thesis
    proof (rule succeeds_bind, rule wp_delete_all [OF t1 pl])
      fix t2 assume t2: "at (\<lambda>k. if k \<in> set (gone @ [collectionKey nm ref]) then None else W k) t2"
      have "\<exists>t'. DropKey X (k_ref nm ref) t2 = (Inr (), t') \<and> live t'"
        by (rule live_drop) (use t2 none in \<open>auto simp: at_def\<close>)
      then show "succeeds (DropKey X (k_ref nm ref)) t2 (\<lambda>_. live)" by (auto simp: succeeds_def)
    qed
  qed
  show ?thesis
    unfolding Delete_in_def
    by (rule succeeds_bind, rule wp_get_as [OF assms(1) pk(1) c, where a = c], simp, rule succeeds_bind,
        rule succeeds_post [OF publish], assumption, simp only: nofeed option.case, rule succeeds_bind, rule succeeds_return,
        rule succeeds_bind, rule succeeds_post [OF wp_keys_under [OF _ apart_prefixes(2)]], assumption,
        rule succeeds_bind, rule succeeds_post [OF wp_keys_under [OF _ apart_prefixes(4)]], erule conjunct1,
        rule succeeds_bind, rule succeeds_post [OF wp_shares_gone [OF _ shs']], erule conjunct1,
        rule drop, erule conjunct1, simp)
qed

lemma Delete_succeeds:
  assumes "at V t" and nok: "naming_ok nm" and c: "V (collectionKey nm ref) = Some (VCollection c u f)"
    and shs: "shares_named nm V ref" and scope: "\<And>k v. scopeOf k = k_ref nm ref \<Longrightarrow> V k = Some v \<Longrightarrow> in_collection nm ref k"
    and nofeed: "cFeed c = None" and pub: "cPublic c \<noteq> []"
  shows "succeeds (Delete_collection X nm ref now) t (\<lambda>_. live)"
proof -
  have del: "succeeds (Delete_in X nm ref now) t1 (\<lambda>_ t2. live t2 \<and> shares_named nm (view t2) ref)" if t1: "at V t1" for t1
    by (rule succeeds_and [OF Delete_in_succeeds [OF t1 nok c shs scope nofeed pub]], assumption, assumption)
       (use t1 shs Delete_returns [OF live_inv _ _ nok, of t1 ref now] in \<open>auto simp: at_def shares_named_def\<close>)
  show ?thesis
    unfolding Delete_collection_def change_def
    by (rule succeeds_bind, rule wp_sharees [OF assms(1) shs], rule succeeds_bind, rule succeeds_post [OF del], assumption,
        rule succeeds_bind, erule conjE, rule wp_sharees, simp add: at_def, assumption, rule succeeds_return, simp add: at_def)
qed

end

subsection \<open>The sealed file, when every key is at hand\<close>

definition all_open :: "crypto \<Rightarrow> time \<Rightarrow> sealedTx \<Rightarrow> bool" where
  "all_open C now t \<longleftrightarrow> (\<forall>s. \<exists>c. known C now t s = Inr c \<and> \<not> ck_locked c) \<and>
     (\<forall>k. plain_key k \<longrightarrow> kv_get k (raw t) \<noteq> None \<longrightarrow> view C now t k \<noteq> None)"

definition tx_live :: "crypto \<Rightarrow> time \<Rightarrow> Key \<Rightarrow> sealedTx \<Rightarrow> bool" where
  "tx_live C now K t \<longleftrightarrow> steady C now K t \<and> serr t = None \<and> all_open C now t \<and>
     put_refused (raw t) = (\<lambda>_ _. None) \<and> delete_refused (raw t) = (\<lambda>_. None)"

lemma tx_liveD:
  assumes "tx_live C now K t"
  shows "tx_inv C t" "steady C now K t" "serr t = None" "\<exists>c. known C now t s = Inr c \<and> \<not> ck_locked c"
    "plain_key k \<Longrightarrow> kv_get k (raw t) = Some v \<Longrightarrow> \<exists>p. opens C now t k v = Inr p"
  using assms by (auto simp: tx_live_def steady_def all_open_def view_def split: bind_splits)

lemma tx_live_quiet: "tx_live C now K t \<Longrightarrow> quiet C now t t' \<Longrightarrow> serr t' = serr t \<Longrightarrow> tx_live C now K t'"
  using quiet_steady [of C now K t t']
  by (simp add: tx_live_def all_open_def quiet_known quiet_view) (simp add: quiet_def)

lemma tx_live_Get:
  assumes live: "tx_live C now K t" and "plain_key k"
  shows "tx_live C now K (snd (tx_Get C now k t))"
proof (cases "kv_get k (raw t)")
  case None
  then show ?thesis using live by (simp add: tx_Get_def)
next
  case (Some v)
  obtain res t1 where o: "open_value C now k v t = (res, t1)" by force
  from open_value_spec [OF tx_liveD(1) [OF live] o] tx_liveD(5) [OF live assms(2) Some]
  show ?thesis using Some o tx_live_quiet [OF live] by (auto simp: tx_Get_def)
qed

lemma tx_live_put_raw:
  assumes live: "tx_live C now K t" and "steady C now K t'" and "serr t' = None"
    and "\<And>s. known C now t' s = known C now t s"
    and "\<And>k. plain_key k \<Longrightarrow> kv_get k (raw t') \<noteq> None \<Longrightarrow> view C now t' k \<noteq> None"
    and "put_refused (raw t') = put_refused (raw t)" "delete_refused (raw t') = delete_refused (raw t)"
  shows "tx_live C now K t'"
  using assms by (simp add: tx_live_def all_open_def)

lemma kv_put_free: "put_refused r = (\<lambda>_ _. None) \<Longrightarrow> kv_put k v r = Inr (r\<lparr>entries := put_entry k v (entries r)\<rparr>)"
  by (simp add: kv_put_def)

lemma tx_live_Put:
  assumes live: "tx_live C now K t" and plain: "plain_key k"
  shows "\<exists>t'. tx_Put C now k v t = (Inr (), t') \<and> tx_live C now K t'"
proof -
  note inv = tx_liveD(1) [OF live]
  obtain key t1 where s: "sealer C now k t = (Inr key, t1)"
  proof (cases "scopeOf k = []")
    case True
    then show ?thesis using that by (simp add: sealer_def)
  next
    case False
    obtain rc t2 where c: "collection C now (scopeOf k) t = (rc, t2)" by force
    from collection_spec [OF inv c] tx_liveD(4) [OF live, of "scopeOf k"] obtain ck where "rc = Inr ck" "\<not> ck_locked ck" by auto
    then show ?thesis using that False c by (cases "ckey ck") (auto simp: sealer_def)
  qed
  have q: "quiet C now t t1" "serr t1 = serr t" using sealer_spec [OF inv s] by auto
  note live1 = tx_live_quiet [OF live q]
  let ?f = "(raw t1)\<lparr>entries := put_entry k (Seal key v) (entries (raw t1))\<rparr>"
  have f: "kv_put k (Seal key v) (raw t1) = Inr ?f" using live1 by (intro kv_put_free) (simp add: tx_live_def)
  then have run: "tx_Put C now k v t = (Inr (), t1\<lparr>raw := ?f\<rparr>)" using s by (simp add: tx_Put_def bindT_def raw_put_def)
  note spec = tx_Put_spec [OF inv plain run]
  have "tx_live C now K (t1\<lparr>raw := ?f\<rparr>)"
  proof (rule tx_live_put_raw [OF live1])
    show "steady C now K (t1\<lparr>raw := ?f\<rparr>)"
      using spec tx_Put_synced [OF inv plain run] tx_liveD(2) [OF live] tx_Put_skey [OF inv run] by (simp add: steady_def)
    show "known C now (t1\<lparr>raw := ?f\<rparr>) s = known C now t1 s" for s
      by (rule plain_put_known [OF tx_liveD(1) [OF live1] plain f])
    show "view C now (t1\<lparr>raw := ?f\<rparr>) j \<noteq> None" if "plain_key j" "kv_get j (raw (t1\<lparr>raw := ?f\<rparr>)) \<noteq> None" for j
      using that spec live bolt.put_get [OF _ f, of j] tx_liveD(1) [OF live1] q(1)
      by (auto simp: tx_live_def all_open_def tx_inv_def quiet_def split: if_splits)
  qed (use live1 in \<open>simp_all add: tx_live_def\<close>)
  with run show ?thesis by blast
qed

lemma tx_live_Delete:
  assumes live: "tx_live C now K t" and plain: "plain_key k"
  shows "\<exists>t'. tx_Delete k t = (Inr (), t') \<and> tx_live C now K t'"
proof -
  note inv = tx_liveD(1) [OF live]
  let ?f = "(raw t)\<lparr>entries := delete_entry k (entries (raw t))\<rparr>"
  have f: "kv_delete k (raw t) = Inr ?f" using live by (simp add: kv_delete_def tx_live_def)
  then have run: "tx_Delete k t = (Inr (), t\<lparr>raw := ?f\<rparr>)" by (simp add: tx_Delete_def)
  note spec = tx_Delete_spec [OF inv plain run, of now]
  have g: "kv_get j ?f = (if j = k then None else kv_get j (raw t))" for j
    using bolt.del_get [OF _ f] inv by (simp add: tx_inv_def)
  have "tx_live C now K (t\<lparr>raw := ?f\<rparr>)"
  proof (rule tx_live_put_raw [OF live])
    show "steady C now K (t\<lparr>raw := ?f\<rparr>)"
      using spec tx_Delete_synced [OF inv plain run] tx_liveD(2) [OF live] by (simp add: steady_def)
    show "known C now (t\<lparr>raw := ?f\<rparr>) s = known C now t s" for s
      by (rule known_raw_cong) (use g keyKey_not_plain [OF plain] in auto)
    show "view C now (t\<lparr>raw := ?f\<rparr>) j \<noteq> None" if "plain_key j" "kv_get j (raw (t\<lparr>raw := ?f\<rparr>)) \<noteq> None" for j
      using that spec live g [of j] by (auto simp: tx_live_def all_open_def split: if_splits)
  qed (use live in \<open>simp_all add: tx_live_def\<close>)
  with run show ?thesis by blast
qed

lemma scan_values_live:
  "tx_live C now K t \<Longrightarrow> (\<And>k v. (k, v) \<in> set es \<Longrightarrow> plain_key k \<and> kv_get k (raw t) = Some v) \<Longrightarrow>
     \<exists>kvs t'. scan_values C now es t = ((kvs, None), t') \<and> tx_live C now K t'"
proof (induction es arbitrary: t)
  case (Cons kv es)
  obtain k v where kv: "kv = (k, v)" by force
  obtain res t1 where o: "open_value C now k v t = (res, t1)" by force
  from open_value_spec [OF tx_liveD(1) [OF Cons.prems(1)] o] tx_liveD(5) [OF Cons.prems(1), of k v] Cons.prems(2) kv
  obtain p where p: "res = Inr p" "quiet C now t t1" "serr t1 = serr t" by auto
  have "raw t1 = raw t" using p(2) by (simp add: quiet_def)
  with Cons.IH [OF tx_live_quiet [OF Cons.prems(1) p(2,3)]] Cons.prems(2)
  obtain kvs t2 where "scan_values C now es t1 = ((kvs, None), t2)" "tx_live C now K t2" by auto
  with kv o p(1) show ?case by auto
qed simp

lemma tx_live_Scan:
  assumes live: "tx_live C now K t" and "apart p"
  shows "\<exists>kvs t'. tx_Scan C now p t = ((kvs, None), t') \<and> tx_live C now K t'"
  unfolding tx_Scan_def
proof (rule scan_values_live [OF live])
  fix k v assume "(k, v) \<in> set (kv_scan p (raw t))"
  then show "plain_key k \<and> kv_get k (raw t) = Some v"
    using tx_liveD(1) [OF live] assms(2) bolt.scan_iff [of "raw t" k v p]
    by (auto simp: tx_inv_def apart_def)
qed

lemma tx_live_drop:
  assumes live: "tx_live C now K t" and gone: "\<And>k. scopeOf k = s \<Longrightarrow> view C now t k = None"
  shows "\<exists>t'. dropKey s t = (Inr (), t') \<and> tx_live C now K t'"
proof -
  note inv = tx_liveD(1) [OF live]
  let ?f = "(raw t)\<lparr>entries := delete_entry (keyKey s) (entries (raw t))\<rparr>"
  let ?t = "t\<lparr>sheld := (sheld t)(s := None), raw := ?f\<rparr>"
  have f: "kv_delete (keyKey s) (raw t) = Inr ?f" using live by (simp add: kv_delete_def tx_live_def)
  then have run: "dropKey s t = (Inr (), ?t)" by (simp add: dropKey_def tx_Delete_def)
  note spec = dropKey_spec [OF inv run, of now]
  have g: "kv_get j ?f = (if j = keyKey s then None else kv_get j (raw t))" for j
    using bolt.del_get [OF _ f] inv by (simp add: tx_inv_def)
  have "\<exists>c. known C now ?t x = Inr c \<and> \<not> ck_locked c" for x
  proof (cases "x = s")
    case True
    then show ?thesis using g by (simp add: known_def key_on_file_def no_key_def ck_locked_def)
  next
    case False
    then have "known C now ?t x = known C now t x"
      using g by (simp add: known_def key_on_file_def split: option.split)
    then show ?thesis using tx_liveD(4) [OF live, of x] by simp
  qed
  moreover have "view C now ?t k \<noteq> None" if "plain_key k" "kv_get k (raw ?t) \<noteq> None" for k
  proof -
    have "kv_get k (raw t) \<noteq> None" using that spec by simp
    then have "view C now t k \<noteq> None" using live that(1) by (simp add: tx_live_def all_open_def)
    with gone spec show ?thesis by metis
  qed
  moreover have "steady C now K ?t"
    using spec dropKey_synced [OF inv run] tx_liveD(2) [OF live] by (simp add: steady_def)
  ultimately show ?thesis using run live by (simp add: tx_live_def all_open_def)
qed

interpretation sealed_live: live_tx "sealed_ops C now" "view C now" "steady C now K" "tx_live C now K" for C now K
  by unfold_locales (simp_all add: tx_liveD tx_live_Get tx_live_Put tx_live_Delete tx_live_Scan tx_live_drop)

subsection \<open>A file under the instance's key\<close>

text \<open>The store of an instance where nobody's encryption is on: it shows exactly the records put into it.\<close>

definition plain_store :: "Key \<Rightarrow> ring \<Rightarrow> (string \<times> stored) list \<Rightarrow> pimDB" where
  "plain_store K r kvs = \<lparr>pdb = \<lparr>entries = foldr (\<lambda>kv. put_entry (fst kv) (Seal K (snd kv))) kvs [],
     put_refused = (\<lambda>_ _. None), delete_refused = (\<lambda>_. None)\<rparr>, pkey = K, pring = r\<rparr>"

lemma foldr_put_entry:
  "ordered (foldr (\<lambda>kv. put_entry (fst kv) (g (snd kv))) kvs [])"
  "map_of (foldr (\<lambda>kv. put_entry (fst kv) (g (snd kv))) kvs []) k = map_option g (map_of kvs k)"
  by (induction kvs) (auto simp: ordered_put_entry map_of_put_entry)

lemma plain_store_live:
  assumes "ring_ok C r" and "key_format K = ByInstance" and "list_all (\<lambda>kv. plain_key (fst kv)) kvs"
  shows "db_ok C (plain_store K r kvs)" "seen_in C now (plain_store K r kvs) = map_of kvs"
    "tx_live C now K (begin_tx True (plain_store K r kvs))"
proof -
  let ?s = "plain_store K r kvs" let ?t = "begin_tx True ?s"
  have get: "kv_get k (raw ?t) = map_option (Seal K) (map_of kvs k)" for k
    using foldr_put_entry(2) [of "Seal K" kvs k] by (simp add: kv_get_def begin_tx_def plain_store_def)
  have pl: "plain_key k" if "map_of kvs k = Some v" for k v
    using map_of_SomeD [OF that] assms(3) by (force simp: list_all_iff)
  have inv: "tx_inv C ?t"
    using assms(1,2) foldr_put_entry(1) [of "Seal K" kvs] get pl
    by (auto simp: tx_inv_def ordered_tx_def begin_tx_def plain_store_def)
  then show ok: "db_ok C ?s" by (simp add: db_ok_def)
  have "view C now ?t k = map_of kvs k" for k
    using get [of k] pl assms(2)
    by (cases "map_of kvs k") (auto simp: view_def opens_def Open_Seal begin_tx_def plain_store_def)
  then have v: "view C now ?t = map_of kvs" by (rule ext)
  then show "seen_in C now ?s = map_of kvs" by (simp add: seen_in_def)
  have "kv_get (keyKey x) (raw ?t) = None" for x
    using get [of "keyKey x"] pl keyKey_not_plain by (cases "map_of kvs (keyKey x)") auto
  then have "known C now ?t x = Inr no_key" for x
    by (simp add: known_def key_on_file_def begin_tx_def)
  then have "\<exists>c. known C now ?t x = Inr c \<and> \<not> ck_locked c" for x by (simp add: no_key_def ck_locked_def)
  with inv v get show "tx_live C now K ?t"
    using synced_begin [of C now True ?s]
    by (simp add: tx_live_def all_open_def steady_def) (simp add: begin_tx_def plain_store_def)
qed

text \<open>A program that returns from a live transaction commits.\<close>

lemma succeeds_commits:
  assumes "succeeds fn (begin_tx True s) (\<lambda>_. tx_live C now K)"
  shows "\<exists>a s'. db_Update fn s = (Inr a, s')"
  using assms by (auto simp: succeeds_def db_Update_def run_tx_def tx_live_def)

end
