(* ===== verification/Collection_Props.thy ===== *)
theory Collection_Props
  imports Collections_Live
begin

text \<open>
  What the store of collections promises across transactions: who may write, what a write
  leaves for the next transaction to read, that ctags are never reused and UIDs never shared,
  that a deleted collection is gone and an invitee's answer decides a share. Every property is
  about the sealed file, through the contracts \<open>store_tx\<close> and \<open>live_tx\<close>.
\<close>

lemma PutObject_committed:
  assumes "db_ok C s" and "named C"
    and "db_Update (PutObject (sealed_ops C now) (Names_Of C n) etag ref name uid data unless by1 now) s = (Inr ob, s')"
  obtains c v f where "db_ok C s'" and "may_write (Names_Of C n) (seen_in C now s) ref by1 now"
    and "ob = object_put (Names_Of C n) etag (seen_in C now s) ref name uid data by1 now"
    and "\<And>w u. seen_in C now s (objectKey (Names_Of C n) ref name) = Some (VObject w u) \<Longrightarrow> oUID w = uid"
    and "uid \<noteq> [] \<Longrightarrow> uid_free (Names_Of C n) (seen_in C now s) ref name uid"
    and "seen_in C now s (collectionKey (Names_Of C n) ref) = Some (VCollection c v f)"
    and "seen_in C now s' = touched (Names_Of C n) ref c ((indexed (Names_Of C n) ref name uid (seen_in C now s))
      (objectKey (Names_Of C n) ref name := Some (Keep (seen_in C now s (objectKey (Names_Of C n) ref name)) (VObject ob []))))"
    and "last_ctag (seen_in C now s) = Inr (next_ctag (seen_in C now s) - 1)"
proof -
  let ?nm = "Names_Of C n"
  from committed [OF assms(1,3)] obtain t where
    t: "PutObject (sealed_ops C now) ?nm etag ref name uid data unless by1 now (begin_tx True s) = (Inr ob, t)"
      "steady C now (pkey s) (begin_tx True s)" "view C now (begin_tx True s) = seen_in C now s"
      "steady C now (pkey s) t \<Longrightarrow> seen_in C now s' = view C now t \<and> db_ok C s'" by blast
  note P = sealed.PutObject_returns [OF t(2,1) naming_ok_Names_Of [OF assms(2)]]
  then have "seen_in C now s' = view C now t" "db_ok C s'" using t(4) by blast+
  with P t(3) that show ?thesis by fastforce
qed

lemma touched_object [key_simps]: "touched nm ref c V (objectKey nm r k) = V (objectKey nm r k)"
  by (simp add: touched_def stamped_def key_simps)

lemma touched_uid [key_simps]: "touched nm ref c V (uidKey nm r k) = V (uidKey nm r k)"
  by (simp add: touched_def stamped_def key_simps)

lemma Keep_object: "\<exists>u. Keep was (VObject ob []) = VObject ob u"
  by (cases was; cases "the was"; simp)

lemma Keep_collection: "\<exists>u f. Keep was (new_collection c) = VCollection c u f"
  by (cases was; cases "the was"; simp add: new_collection_def)

text \<open>
  C16: a successful \<^verbatim>\<open>PutObject\<close> was allowed: the writer owns the collection or holds a live share
  with write access, and nobody writes to a calendar filled from a feed. The next transaction
  reads the object back with the bytes written and the tag of those bytes, the writer as its
  editor, and the creator it had if it was there before; every record but the object, its UID's
  index entry, the collection and the counter is as it was.
\<close>

theorem PutObject_stores:
  assumes "db_ok C s" and "named C"
    and "db_Update (PutObject (sealed_ops C now) (Names_Of C n) etag ref name uid data unless by1 now) s = (Inr ob, s')"
  shows "may_write (Names_Of C n) (seen_in C now s) ref by1 now \<and>
    (\<exists>u. seen_in C now s' (objectKey (Names_Of C n) ref name) = Some (VObject ob u)) \<and>
    oName ob = name \<and> oUID ob = uid \<and> oData ob = data \<and> oETag ob = etag data \<and> oEditor ob = by1 \<and>
    (\<forall>w u. seen_in C now s (objectKey (Names_Of C n) ref name) = Some (VObject w u) \<longrightarrow>
       oCreator ob = oCreator w \<and> oCreated ob = oCreated w) \<and>
    (\<forall>k. k \<notin> {objectKey (Names_Of C n) ref name, uidKey (Names_Of C n) ref uid, collectionKey (Names_Of C n) ref, ctagKey} \<longrightarrow>
       seen_in C now s' k = seen_in C now s k)"
proof -
  let ?nm = "Names_Of C n"
  from PutObject_committed [OF assms] obtain c v f where
    w: "may_write ?nm (seen_in C now s) ref by1 now"
    and ob: "ob = object_put ?nm etag (seen_in C now s) ref name uid data by1 now"
    and s': "seen_in C now s' = touched ?nm ref c ((indexed ?nm ref name uid (seen_in C now s))
      (objectKey ?nm ref name := Some (Keep (seen_in C now s (objectKey ?nm ref name)) (VObject ob []))))" by metis
  have "\<exists>u. seen_in C now s' (objectKey ?nm ref name) = Some (VObject ob u)"
    using Keep_object by (simp add: s' key_simps)
  moreover have "seen_in C now s' k = seen_in C now s k"
    if "k \<notin> {objectKey ?nm ref name, uidKey ?nm ref uid, collectionKey ?nm ref, ctagKey}" for k
    using that by (simp add: s' touched_def stamped_def indexed_def)
  moreover have "oName ob = name \<and> oUID ob = uid \<and> oData ob = data \<and> oETag ob = etag data \<and> oEditor ob = by1"
    by (simp add: ob object_put_def split: option.split stored.split)
  moreover have "oCreator ob = oCreator x \<and> oCreated ob = oCreated x"
    if "seen_in C now s (objectKey ?nm ref name) = Some (VObject x u)" for x u
    using that by (simp add: ob object_put_def)
  ultimately show ?thesis using w by blast
qed

definition ctags_bounded :: "(string \<Rightarrow> stored option) \<Rightarrow> bool" where
  "ctags_bounded V \<longleftrightarrow> (\<forall>k c u f. V k = Some (VCollection c u f) \<longrightarrow> CTag c \<le> projr (last_ctag V))"

lemma last_ctag_touched: "last_ctag (touched nm ref c V) = Inr (next_ctag V)"
  by (simp add: last_ctag_def touched_def stamped_def key_simps)

lemma word_less_Suc: "w + 1 \<noteq> (0 :: 64 word) \<Longrightarrow> w < w + 1"
proof -
  assume "w + 1 \<noteq> 0"
  then have "unat (w + 1) = Suc (unat w)" using unatSuc [of w] by (simp add: add.commute)
  then show ?thesis by (simp add: word_less_nat_alt)
qed

lemma touched_ctag: "\<exists>c' u f. touched nm ref c V (collectionKey nm ref) = Some (VCollection c' u f) \<and> CTag c' = next_ctag V"
  using Keep_collection [of "V (collectionKey nm ref)" "c\<lparr>CTag := next_ctag V\<rparr>"] by (auto simp: touched_def)

lemma ctags_bounded_touched:
  assumes "ctags_bounded V" and "next_ctag V \<noteq> 0" and "\<And>k c u f. V' k = Some (VCollection c u f) \<Longrightarrow> V k = Some (VCollection c u f)"
    and "last_ctag V' = last_ctag V"
  shows "ctags_bounded (touched nm ref c V')" and "V k = Some (VCollection d u f) \<Longrightarrow> CTag d < next_ctag V"
proof -
  have less: "projr (last_ctag V) < next_ctag V"
    using word_less_Suc assms(2) by (simp add: next_ctag_def)
  show old: "CTag d < next_ctag V" if "V k = Some (VCollection d u f)" for k d u f
    using assms(1) that less unfolding ctags_bounded_def by fastforce
  have n: "next_ctag V' = next_ctag V" using assms(4) by (simp add: next_ctag_def)
  have "CTag d \<le> next_ctag V" if "touched nm ref c V' k = Some (VCollection d u f)" for k d u f
  proof (cases "k = collectionKey nm ref")
    case True
    then show ?thesis using that touched_ctag [of nm ref c V'] n by auto
  next
    case False
    with that have "V' k = Some (VCollection d u f)"
      by (auto simp: touched_def stamped_def split: if_splits)
    then show ?thesis using old [OF assms(3)] by (simp add: less_imp_le)
  qed
  then show "ctags_bounded (touched nm ref c V')"
    by (simp add: ctags_bounded_def last_ctag_touched n)
qed

text \<open>
  No write ever reuses a ctag. While every collection's ctag is at most the counter on file
  and the counter is not at its end, a successful \<^verbatim>\<open>PutObject\<close> gives its collection a ctag
  greater than every ctag any collection had before, and keeps the bound for the next write.
\<close>

lemma PutObject_moves_ctag:
  assumes "db_ok C s" and "named C"
    and "db_Update (PutObject (sealed_ops C now) (Names_Of C n) etag ref name uid data unless by1 now) s = (Inr ob, s')"
    and "ctags_bounded (seen_in C now s)" and "next_ctag (seen_in C now s) \<noteq> 0"
  shows "ctags_bounded (seen_in C now s') \<and>
    (\<exists>c u f. seen_in C now s' (collectionKey (Names_Of C n) ref) = Some (VCollection c u f) \<and>
       (\<forall>k d u f. seen_in C now s k = Some (VCollection d u f) \<longrightarrow> CTag d < CTag c))"
proof -
  let ?nm = "Names_Of C n"
  from PutObject_committed [OF assms(1-3)] obtain c where
    s': "seen_in C now s' = touched ?nm ref c ((indexed ?nm ref name uid (seen_in C now s))
      (objectKey ?nm ref name := Some (Keep (seen_in C now s (objectKey ?nm ref name)) (VObject ob []))))" by metis
  let ?V = "(indexed ?nm ref name uid (seen_in C now s))
      (objectKey ?nm ref name := Some (Keep (seen_in C now s (objectKey ?nm ref name)) (VObject ob [])))"
  have no: "?V k = Some (VCollection d u f) \<Longrightarrow> seen_in C now s k = Some (VCollection d u f)" for k d u f
    using Keep_object [of "seen_in C now s (objectKey ?nm ref name)" ob] by (auto simp: indexed_def split: if_splits)
  have l: "last_ctag ?V = last_ctag (seen_in C now s)" by (simp add: last_ctag_def indexed_def key_simps)
  note B = ctags_bounded_touched [where V' = ?V, OF assms(4,5) no l]
  have "next_ctag ?V = next_ctag (seen_in C now s)" using l by (simp add: next_ctag_def)
  with touched_ctag [of ?nm ref c ?V] B show ?thesis unfolding s' by metis
qed

subsection \<open>The index of UIDs\<close>

text \<open>
  \<open>uid_index\<close>: every object of the collection is kept under its own name, and the entry of its
  UID names it. Then no two objects share a UID (\<open>uid_index_unique\<close>). \<open>uids_apart\<close> is the
  hypothesis on the keyed naming: no other UID in the collection has the keyed name of \<open>uid\<close>.
\<close>

definition uid_index :: "naming \<Rightarrow> (string \<Rightarrow> stored option) \<Rightarrow> Ref \<Rightarrow> bool" where
  "uid_index nm V ref \<longleftrightarrow> (\<forall>k ob u. prefix (objectsOf nm ref) k \<longrightarrow> V k = Some (VObject ob u) \<longrightarrow>
     k = objectKey nm ref (oName ob) \<and> (oUID ob \<noteq> [] \<longrightarrow> V (uidKey nm ref (oUID ob)) = Some (VText (oName ob))))"

definition uids_apart :: "naming \<Rightarrow> (string \<Rightarrow> stored option) \<Rightarrow> Ref \<Rightarrow> string \<Rightarrow> bool" where
  "uids_apart nm V ref uid \<longleftrightarrow> (\<forall>k ob u. prefix (objectsOf nm ref) k \<longrightarrow> V k = Some (VObject ob u) \<longrightarrow>
     nm (oUID ob) = nm uid \<longrightarrow> oUID ob = uid)"

definition uids_unique :: "naming \<Rightarrow> (string \<Rightarrow> stored option) \<Rightarrow> Ref \<Rightarrow> bool" where
  "uids_unique nm V ref \<longleftrightarrow> (\<forall>k k' ob ob' u u'. prefix (objectsOf nm ref) k \<longrightarrow> prefix (objectsOf nm ref) k' \<longrightarrow>
     V k = Some (VObject ob u) \<longrightarrow> V k' = Some (VObject ob' u') \<longrightarrow> oUID ob = oUID ob' \<longrightarrow> oUID ob \<noteq> [] \<longrightarrow> k = k')"

lemma uid_index_unique: "uid_index nm V ref \<Longrightarrow> uids_unique nm V ref"
  unfolding uid_index_def uids_unique_def by (metis option.inject stored.inject(1))

lemma uidKey_eq [simp]: "uidKey nm ref u = uidKey nm ref v \<longleftrightarrow> nm u = nm v"
  by (simp add: uidKey_def)

lemma objectKey_under [simp]: "prefix (objectsOf nm ref) (objectKey nm ref name)"
  by (simp add: objectKey_def)

lemma touched_under_objects:
  "prefix (objectsOf nm ref) k \<Longrightarrow> touched nm r c V k = V k"
  by (auto simp: touched_def stamped_def key_defs elim!: prefixE)

lemma under_not_uid: "prefix (objectsOf nm ref) k \<Longrightarrow> k \<noteq> uidKey nm r u"
  by (auto simp: key_defs elim!: prefixE)

lemma uid_index_put:
  assumes I: "uid_index nm V ref" and A: "uids_apart nm V ref uid" and F: "uid \<noteq> [] \<Longrightarrow> uid_free nm V ref name uid"
    and ob: "oName ob = name" "oUID ob = uid"
    and V': "V' = touched nm ref c ((indexed nm ref name uid V)(objectKey nm ref name := Some (VObject ob x)))"
  shows "uid_index nm V' ref"
  unfolding uid_index_def
proof (intro allI impI)
  fix k q u
  assume k: "prefix (objectsOf nm ref) k" and q: "V' k = Some (VObject q u)"
  have look: "V' (uidKey nm ref w) = (if uid \<noteq> [] \<and> nm w = nm uid then Some (VText name) else V (uidKey nm ref w))" for w
    by (simp add: V' key_simps indexed_def)
  show "k = objectKey nm ref (oName q) \<and> (oUID q \<noteq> [] \<longrightarrow> V' (uidKey nm ref (oUID q)) = Some (VText (oName q)))"
  proof (cases "k = objectKey nm ref name")
    case True
    then have "q = ob" using q by (simp add: V' key_simps)
    then show ?thesis using True ob look by simp
  next
    case False
    then have Vk: "V k = Some (VObject q u)"
      using q k by (simp add: V' touched_under_objects indexed_def under_not_uid split: if_splits)
    with I k have own: "k = objectKey nm ref (oName q)" "oUID q \<noteq> [] \<Longrightarrow> V (uidKey nm ref (oUID q)) = Some (VText (oName q))"
      unfolding uid_index_def by blast+
    have "\<not> (uid \<noteq> [] \<and> nm (oUID q) = nm uid)" if "oUID q \<noteq> []"
    proof
      assume u: "uid \<noteq> [] \<and> nm (oUID q) = nm uid"
      then have "oUID q = uid" using A k Vk unfolding uids_apart_def by blast
      with own that have "V (uidKey nm ref uid) = Some (VText (oName q))" by simp
      then show False using F u own(1) Vk False \<open>oUID q = uid\<close> unfolding uid_free_def by auto
    qed
    then show ?thesis using own look by auto
  qed
qed

lemma uid_index_remove:
  assumes I: "uid_index nm V ref" and w: "V (objectKey nm ref name) = Some (VObject w x)" and A: "uids_apart nm V ref (oUID w)"
    and V': "V' = touched nm ref c ((if oUID w = [] then V else V(uidKey nm ref (oUID w) := None))(objectKey nm ref name := None))"
  shows "uid_index nm V' ref"
  unfolding uid_index_def
proof (intro allI impI)
  fix k q u
  assume k: "prefix (objectsOf nm ref) k" and q: "V' k = Some (VObject q u)"
  have look: "V' (uidKey nm ref y) = (if oUID w \<noteq> [] \<and> nm y = nm (oUID w) then None else V (uidKey nm ref y))" for y
    by (simp add: V' key_simps)
  have n: "k \<noteq> objectKey nm ref name" using q by (auto simp: V' key_simps)
  then have Vk: "V k = Some (VObject q u)"
    using q k by (simp add: V' touched_under_objects under_not_uid split: if_splits)
  with I k have own: "k = objectKey nm ref (oName q)" "oUID q \<noteq> [] \<Longrightarrow> V (uidKey nm ref (oUID q)) = Some (VText (oName q))"
    unfolding uid_index_def by blast+
  have "\<not> (oUID w \<noteq> [] \<and> nm (oUID q) = nm (oUID w))" if "oUID q \<noteq> []"
  proof
    assume u: "oUID w \<noteq> [] \<and> nm (oUID q) = nm (oUID w)"
    then have "oUID q = oUID w" using A k Vk unfolding uids_apart_def by blast
    then have "k = objectKey nm ref name"
      using uid_index_unique [OF I] k Vk w u objectKey_under unfolding uids_unique_def by metis
    with n show False ..
  qed
  then show "k = objectKey nm ref (oName q) \<and> (oUID q \<noteq> [] \<longrightarrow> V' (uidKey nm ref (oUID q)) = Some (VText (oName q)))"
    using own look by auto
qed

text \<open>
  C8: no two objects of a collection share a UID, whatever is put: while the index of UIDs is
  right, a successful \<^verbatim>\<open>PutObject\<close> (new or replacing, by any writer) leaves it right.
\<close>

theorem PutObject_keeps_uids_unique:
  assumes "db_ok C s" and "named C"
    and "db_Update (PutObject (sealed_ops C now) (Names_Of C n) etag ref name uid data unless by1 now) s = (Inr ob, s')"
    and "uid_index (Names_Of C n) (seen_in C now s) ref" and "uids_apart (Names_Of C n) (seen_in C now s) ref uid"
  shows "uid_index (Names_Of C n) (seen_in C now s') ref \<and> uids_unique (Names_Of C n) (seen_in C now s') ref"
proof -
  let ?nm = "Names_Of C n"
  from PutObject_committed [OF assms(1-3)] obtain c where
    s': "seen_in C now s' = touched ?nm ref c ((indexed ?nm ref name uid (seen_in C now s))
      (objectKey ?nm ref name := Some (Keep (seen_in C now s (objectKey ?nm ref name)) (VObject ob []))))"
    and ob: "ob = object_put ?nm etag (seen_in C now s) ref name uid data by1 now"
    and F: "uid \<noteq> [] \<Longrightarrow> uid_free ?nm (seen_in C now s) ref name uid" by metis
  obtain x where x: "Keep (seen_in C now s (objectKey ?nm ref name)) (VObject ob []) = VObject ob x"
    using Keep_object by blast
  have o: "oName ob = name" "oUID ob = uid" by (simp_all add: ob object_put_def split: option.split stored.split)
  have "uid_index ?nm (seen_in C now s') ref"
    by (rule uid_index_put [OF assms(4,5) F o s' [unfolded x]])
  then show ?thesis using uid_index_unique by blast
qed

text \<open>
  \<^verbatim>\<open>RemoveObject\<close> is allowed as a write is, removes the object and its UID's index entry, and
  leaves the index of UIDs right: the UID can be used again, and no other object loses its entry.
\<close>

lemma RemoveObject_removes:
  assumes "db_ok C s" and "named C"
    and "db_Update (RemoveObject (sealed_ops C now) (Names_Of C n) ref name unless by1 now) s = (Inr u, s')"
    and "uid_index (Names_Of C n) (seen_in C now s) ref"
    and "\<And>w x. seen_in C now s (objectKey (Names_Of C n) ref name) = Some (VObject w x) \<Longrightarrow>
       uids_apart (Names_Of C n) (seen_in C now s) ref (oUID w)"
  shows "may_write (Names_Of C n) (seen_in C now s) ref by1 now \<and>
    seen_in C now s' (objectKey (Names_Of C n) ref name) = None \<and>
    (\<exists>w x. seen_in C now s (objectKey (Names_Of C n) ref name) = Some (VObject w x) \<and>
       (oUID w \<noteq> [] \<longrightarrow> seen_in C now s' (uidKey (Names_Of C n) ref (oUID w)) = None)) \<and>
    uid_index (Names_Of C n) (seen_in C now s') ref"
proof -
  let ?nm = "Names_Of C n"
  from committed [OF assms(1,3)] obtain t where
    t: "RemoveObject (sealed_ops C now) ?nm ref name unless by1 now (begin_tx True s) = (Inr u, t)"
      "steady C now (pkey s) (begin_tx True s)" "view C now (begin_tx True s) = seen_in C now s"
      "steady C now (pkey s) t \<Longrightarrow> seen_in C now s' = view C now t \<and> db_ok C s'" by blast
  note P = sealed.RemoveObject_returns [OF t(2,1) naming_ok_Names_Of [OF assms(2)], unfolded t(3)]
  then obtain w x c where w: "seen_in C now s (objectKey ?nm ref name) = Some (VObject w x)"
    and s': "seen_in C now s' = touched ?nm ref c ((if oUID w = [] then seen_in C now s
       else (seen_in C now s)(uidKey ?nm ref (oUID w) := None))(objectKey ?nm ref name := None))"
    using t(4) by metis
  have "uid_index ?nm (seen_in C now s') ref" by (rule uid_index_remove [OF assms(4) w assms(5) [OF w] s'])
  moreover have "oUID w \<noteq> [] \<longrightarrow> seen_in C now s' (uidKey ?nm ref (oUID w)) = None"
    "seen_in C now s' (objectKey ?nm ref name) = None" by (simp_all add: s' key_simps)
  ultimately show ?thesis using P w by blast
qed

subsection \<open>Deleting and sharing\<close>

text \<open>
  C29: after a successful \<^verbatim>\<open>Delete\<close> nothing of the collection is left for the next transaction:
  no record, object, index entry or share of it, no entry at an account it was shared with, and
  no publication; a calendar filled from a feed leaves the note of its address behind.
\<close>

theorem Delete_leaves_nothing:
  assumes "db_ok C s" and "named C"
    and "db_Update (Delete_collection (sealed_ops C now) (Names_Of C n) ref at) s = (Inr r, s')"
    and "shares_named (Names_Of C n) (seen_in C now s) ref"
  shows "(\<forall>k. prefix (objectsOf (Names_Of C n) ref) k \<or> prefix (uidsOf (Names_Of C n) ref) k \<or>
       prefix (sharesOf (Names_Of C n) ref) k \<or> k = collectionKey (Names_Of C n) ref \<longrightarrow> seen_in C now s' k = None) \<and>
    (\<forall>k sh u. seen_in C now s k = Some (VShare sh u) \<longrightarrow> prefix (sharesOf (Names_Of C n) ref) k \<longrightarrow>
       seen_in C now s' (receivedKey (Names_Of C n) (sTo sh) ref) = None) \<and>
    (\<exists>c u f. seen_in C now s (collectionKey (Names_Of C n) ref) = Some (VCollection c u f) \<and>
       (cPublic c \<noteq> [] \<longrightarrow> seen_in C now s' (publicKey (Names_Of C n) (cPublic c)) = None) \<and>
       (\<forall>fd. cFeed c = Some fd \<longrightarrow>
          (\<exists>d w. seen_in C now s' (droppedKey (Names_Of C n) ref) = Some (VDropped d w) \<and> dpURL d = fURL fd)))"
proof -
  let ?nm = "Names_Of C n"
  obtain a seen where r: "r = (a, seen)" by (cases r)
  from committed [OF assms(1,3)] obtain t where
    t: "Delete_collection (sealed_ops C now) ?nm ref at (begin_tx True s) = (Inr r, t)"
      "steady C now (pkey s) (begin_tx True s)" "view C now (begin_tx True s) = seen_in C now s"
      "steady C now (pkey s) t \<Longrightarrow> seen_in C now s' = view C now t \<and> db_ok C s'" by blast
  from sealed.change_returns [OF t(2) t(1) [unfolded Delete_collection_def r]] obtain t1 t2 where
    c: "steady C now (pkey s) t1" "view C now t1 = view C now (begin_tx True s)"
      "Delete_in (sealed_ops C now) ?nm ref at t1 = (Inr a, t2)"
      "steady C now (pkey s) t2 \<Longrightarrow> steady C now (pkey s) t \<and> view C now t = view C now t2" by metis
  have v1: "view C now t1 = seen_in C now s" using c(2) t(3) by simp
  note D = sealed.Delete_returns [OF c(1,3) _ naming_ok_Names_Of [OF assms(2)], unfolded v1, OF assms(4)]
  then have "seen_in C now s' = view C now t2" using c(4) t(4) by metis
  with D show ?thesis by simp
qed

text \<open>
  An invitee's answer decides the share and nothing else. After yes the share is live exactly
  until its last moment; after no it is not live at any time, and reads as declined if it had
  not been accepted and as left if it had. Answers never leave a share both accepted and refused.
\<close>

lemma Answer_decides:
  assumes "db_ok C s" and "named C"
    and "db_Update (Answer (sealed_ops C now) (Names_Of C n) ref to yes at) s = (Inr r, s')"
  shows "\<exists>sh u sh' u'. seen_in C now s (shareKey (Names_Of C n) ref to) = Some (VShare sh u) \<and>
    seen_in C now s' (shareKey (Names_Of C n) ref to) = Some (VShare sh' u') \<and>
    (\<forall>moment. Live sh' moment \<longleftrightarrow> yes \<and> (sExpires sh = 0 \<or> moment < sExpires sh)) \<and>
    (\<not> yes \<longrightarrow> (if sAccepted sh then sLeft sh' else sDeclined sh')) \<and>
    (\<not> (sAccepted sh \<and> (sDeclined sh \<or> sLeft sh)) \<longrightarrow> \<not> (sAccepted sh' \<and> (sDeclined sh' \<or> sLeft sh'))) \<and>
    sWrite sh' = sWrite sh \<and> sTo sh' = sTo sh \<and> sExpires sh' = sExpires sh \<and>
    (\<forall>k. k \<noteq> shareKey (Names_Of C n) ref to \<longrightarrow> seen_in C now s' k = seen_in C now s k)"
proof -
  let ?nm = "Names_Of C n"
  note nok = naming_ok_Names_Of [OF assms(2), of n]
  let ?k = "shareKey ?nm ref to"
  obtain a seen where r: "r = (a, seen)" by (cases r)
  from committed [OF assms(1,3)] obtain t where
    t: "Answer (sealed_ops C now) ?nm ref to yes at (begin_tx True s) = (Inr r, t)"
      "steady C now (pkey s) (begin_tx True s)" "view C now (begin_tx True s) = seen_in C now s"
      "steady C now (pkey s) t \<Longrightarrow> seen_in C now s' = view C now t \<and> db_ok C s'" by blast
  from sealed.change_returns [OF t(2) t(1) [unfolded Answer_def r]] obtain t1 t2 where
    c: "steady C now (pkey s) t1" "view C now t1 = view C now (begin_tx True s)"
      "bindT (get_as (sealed_ops C now) as_share ?k) (\<lambda>sh.
         put_value (sealed_ops C now) ?k (VShare (answered sh yes at) [])) t1 = (Inr a, t2)"
      "steady C now (pkey s) t2 \<Longrightarrow> steady C now (pkey s) t \<and> view C now t = view C now t2" by metis
  from c(3) obtain sh t3 where g: "get_as (sealed_ops C now) as_share ?k t1 = (Inr sh, t3)"
    and p: "put_value (sealed_ops C now) ?k (VShare (answered sh yes at) []) t3 = (Inr a, t2)"
    by (auto simp: bindT_returns)
  from sealed.get_as_returns [OF c(1) plain_keys(3) [OF nok] g] have g3: "steady C now (pkey s) t3"
    "view C now t3 = seen_in C now s" "\<exists>u. seen_in C now s ?k = Some (VShare sh u)"
    using c(2) t(3) by (auto simp: as_Inr)
  from sealed.put_value_returns [OF g3(1) plain_keys(3) [OF nok] p] g3(2)
  have p2: "steady C now (pkey s) t2"
    "view C now t2 = (seen_in C now s)(?k := Some (Keep (seen_in C now s ?k) (VShare (answered sh yes at) [])))" by auto
  have s': "seen_in C now s' = view C now t2" using c(4) [OF p2(1)] t(4) by simp
  obtain u' where "Keep (seen_in C now s ?k) (VShare (answered sh yes at) []) = VShare (answered sh yes at) u'"
    using as_Keep(3) [of "seen_in C now s ?k" "answered sh yes at" "[]"] unfolding as_Inr by blast
  then have "seen_in C now s' ?k = Some (VShare (answered sh yes at) u')"
    "\<forall>k. k \<noteq> ?k \<longrightarrow> seen_in C now s' k = seen_in C now s k" unfolding s' p2(2) by simp_all
  with g3(3) show ?thesis
    by (intro exI [of _ sh] exI [of _ "answered sh yes at"]) (auto simp: answered_def Live_def Let_def)
qed

subsection \<open>When a write succeeds\<close>

definition objects_typed :: "naming \<Rightarrow> (string \<Rightarrow> stored option) \<Rightarrow> Ref \<Rightarrow> bool" where
  "objects_typed nm V ref \<longleftrightarrow> (\<forall>n v. V (objectKey nm ref n) = Some v \<longrightarrow> (\<exists>ob u. v = VObject ob u))"

text \<open>
  C28: an allowed write without a conflict goes through: while every key is at hand and the file
  takes writes, \<^verbatim>\<open>PutObject\<close> by an account that may write commits when its condition holds on
  the tag held, the object keeps its UID, and no other object of the collection has that UID.
\<close>

theorem PutObject_succeeds_if_allowed:
  assumes "tx_live C now K (begin_tx True s)" and "named C"
    and "may_write (Names_Of C n) (seen_in C now s) ref by1 now" and "objects_typed (Names_Of C n) (seen_in C now s) ref"
    and "\<not> isl (last_ctag (seen_in C now s))"
    and "\<And>w u. seen_in C now s (objectKey (Names_Of C n) ref name) = Some (VObject w u) \<Longrightarrow> oUID w = uid"
    and "uid \<noteq> [] \<Longrightarrow> uid_free (Names_Of C n) (seen_in C now s) ref name uid"
    and "\<And>f. unless = Some f \<Longrightarrow>
      f (case seen_in C now s (objectKey (Names_Of C n) ref name) of Some (VObject w u) \<Rightarrow> oETag w | _ \<Rightarrow> []) = None"
  shows "\<exists>ob s'. db_Update (PutObject (sealed_ops C now) (Names_Of C n) etag ref name uid data unless by1 now) s = (Inr ob, s')"
proof (rule succeeds_commits)
  have at: "sealed_live.at C now K (seen_in C now s) (begin_tx True s)"
    using assms(1) by (simp add: sealed_live.at_def view_begin)
  have ob: "\<exists>ob u. v = VObject ob u" if "seen_in C now s (objectKey (Names_Of C n) ref m) = Some v" for m v
    using that assms(4) unfolding objects_typed_def by blast
  show "succeeds (PutObject (sealed_ops C now) (Names_Of C n) etag ref name uid data unless by1 now) (begin_tx True s) (\<lambda>_. tx_live C now K)"
    by (rule sealed_live.PutObject_succeeds [where V = "seen_in C now s"], rule at, rule naming_ok_Names_Of [OF assms(2)],
        rule assms(3), erule ob, erule assms(6), erule assms(7), rule assms(5), erule assms(8))
qed

subsection \<open>A store for witnesses\<close>

definition sample_nm :: naming where
  "sample_nm = Names_Of sample_crypto ''n''"

definition sample_key :: Key where
  "sample_key = Root_Key sample_crypto sample_root Pim_Name"

definition sample_ref :: Ref where
  "sample_ref = \<lparr>refOwner = ''ann'', refID = ''cal''\<rparr>"

definition sample_collection :: Collection where
  "sample_collection = zero_Collection\<lparr>cID := ''cal'', cOwner := ''ann'', cKind := Calendar, cName := ''Calendar'', CTag := 4,
     cPublic := ''secret''\<rparr>"

definition sample_object :: Object where
  "sample_object = \<lparr>oName = ''a.ics'', oUID = ''u1'', oData = ''old'', oETag = ''old'', oModified = 1,
     oCreator = ''ann'', oCreated = 1, oEditor = ''ann''\<rparr>"

definition sample_share :: Share where
  "sample_share = \<lparr>sOwner = ''ann'', sCollection = ''cal'', sTo = ''bob'', sWrite = True, sExpires = 0, sAccepted = True,
     sCreated = 1, sDeclined = False, sLeft = False, sAnswered = 1\<rparr>"

definition sample_records :: "(string \<times> stored) list" where
  "sample_records =
     [(collectionKey sample_nm sample_ref, VCollection sample_collection [] []),
      (objectKey sample_nm sample_ref ''a.ics'', VObject sample_object []),
      (uidKey sample_nm sample_ref ''u1'', VText ''a.ics''),
      (shareKey sample_nm sample_ref ''bob'', VShare sample_share []),
      (receivedKey sample_nm ''bob'' sample_ref, VRef sample_ref []),
      (publicKey sample_nm ''secret'', VText (collectionKey sample_nm sample_ref)),
      (ctagKey, VText (FormatUint (unat (7 :: 64 word))))]"

definition sample_pim :: pimDB where
  "sample_pim = plain_store sample_key sample_ring sample_records"

abbreviation sample_view :: "string \<Rightarrow> stored option" where
  "sample_view \<equiv> seen_in sample_crypto 100 sample_pim"

lemma naming_sample: "naming_ok sample_nm"
  by (simp add: sample_nm_def naming_ok_Names_Of named_sample_crypto)

lemma sample_live:
  "db_ok sample_crypto sample_pim" "sample_view = map_of sample_records"
  "tx_live sample_crypto 100 sample_key (begin_tx True sample_pim)"
proof -
  have k: "key_format sample_key = ByInstance" by (simp add: sample_key_def sample_root_def)
  have p: "list_all (\<lambda>kv. plain_key (fst kv)) sample_records"
    by (simp add: sample_records_def plain_keys [OF naming_sample] plain_ctagKey)
  note L = plain_store_live [OF ring_ok_sample(1) k p, folded sample_pim_def]
  show "db_ok sample_crypto sample_pim" "sample_view = map_of sample_records"
    "tx_live sample_crypto 100 sample_key (begin_tx True sample_pim)" using L by auto
qed

lemma sample_names: "sample_nm ''u1'' \<noteq> sample_nm ''u2''" "sample_nm ''a.ics'' \<noteq> sample_nm ''b.ics''"
  "sample_nm ''ann'' \<noteq> sample_nm ''bob''"
  by code_simp+

lemmas sample_defs = sample_records_def sample_collection_def sample_object_def sample_share_def zero_Collection_def

lemma objectKey_eq [simp]: "objectKey nm r a = objectKey nm r b \<longleftrightarrow> nm a = nm b"
  by (simp add: objectKey_def)

lemma shareKey_eq [simp]: "shareKey nm r a = shareKey nm r b \<longleftrightarrow> nm (ToLower a) = nm (ToLower b)"
  by (simp add: shareKey_def)

lemma sample_look:
  "sample_view (collectionKey sample_nm sample_ref) = Some (VCollection sample_collection [] [])"
  "sample_view (objectKey sample_nm sample_ref ''a.ics'') = Some (VObject sample_object [])"
  "sample_view (objectKey sample_nm sample_ref ''b.ics'') = None"
  "sample_view (uidKey sample_nm sample_ref ''u1'') = Some (VText ''a.ics'')"
  "sample_view (uidKey sample_nm sample_ref ''u2'') = None"
  "sample_view (shareKey sample_nm sample_ref ''bob'') = Some (VShare sample_share [])"
  "sample_view ctagKey = Some (VText (FormatUint (unat (7 :: 64 word))))"
  using sample_names by (auto simp: sample_live(2) sample_records_def key_simps)

lemma sample_seen:
  "sample_view k = Some (VCollection c u f) \<Longrightarrow> c = sample_collection"
  "sample_view k = Some (VObject ob u) \<Longrightarrow> k = objectKey sample_nm sample_ref ''a.ics'' \<and> ob = sample_object"
  "sample_view k = Some v \<Longrightarrow> prefix (sharesOf sample_nm sample_ref) k \<Longrightarrow> k = shareKey sample_nm sample_ref ''bob'' \<and> v = VShare sample_share []"
  "sample_view (objectKey sample_nm sample_ref n) = Some v \<Longrightarrow> v = VObject sample_object []"
  by (auto simp: sample_live(2) sample_records_def key_simps split: if_splits)
     (auto simp: key_defs elim!: prefixE)

lemma sample_last: "last_ctag sample_view = Inr 7"
  using ParseUint_FormatUint [of 7] by (simp add: last_ctag_def sample_look)

lemma sample_next: "next_ctag sample_view = 8"
  by (simp add: next_ctag_def sample_last)

lemma ToLower_bob: "ToLower ''bob'' = ''bob''" "ToLower ''Ann'' = ''ann''"
  by code_simp+

lemma sample_may: "may_write sample_nm sample_view sample_ref ''bob'' 100"
  unfolding may_write_def ToLower_bob using sample_look(1,6)
  by (simp add: sample_collection_def zero_Collection_def Live_def sample_share_def)

abbreviation sample_put :: "(err, sealedTx, Object) prog" where
  "sample_put \<equiv> PutObject (sealed_ops sample_crypto 100) (Names_Of sample_crypto ''n'') (\<lambda>d. d) sample_ref ''b.ics'' ''u2'' ''new''
     (Some (\<lambda>held. if held = [] then None else Some ErrPrecondition)) ''bob'' 100"

lemma share_to: "sTo sample_share = ''bob''" "sAccepted sample_share"
  by (simp_all add: sample_share_def)

lemma sample_put_hyps:
  "objects_typed sample_nm sample_view sample_ref" "uid_free sample_nm sample_view sample_ref ''b.ics'' ''u2''"
  "uid_index sample_nm sample_view sample_ref" "uids_apart sample_nm sample_view sample_ref ''u2''"
  "uids_apart sample_nm sample_view sample_ref ''u1''" "shares_named sample_nm sample_view sample_ref"
  "ctags_bounded sample_view"
proof -
  show "objects_typed sample_nm sample_view sample_ref" using sample_seen(4) by (auto simp: objects_typed_def)
  show "uid_free sample_nm sample_view sample_ref ''b.ics'' ''u2''" by (simp add: uid_free_def sample_look)
  show "uid_index sample_nm sample_view sample_ref"
    by (auto simp: uid_index_def dest!: sample_seen(2)) (simp_all add: sample_object_def sample_look)
  show "uids_apart sample_nm sample_view sample_ref ''u2''" "uids_apart sample_nm sample_view sample_ref ''u1''"
    using sample_names(1) by (auto simp: uids_apart_def dest!: sample_seen(2)) (simp_all add: sample_object_def)
  show "shares_named sample_nm sample_view sample_ref"
    unfolding shares_named_def using sample_seen(3) share_to by metis
  show "ctags_bounded sample_view"
  proof -
    have "CTag sample_collection \<le> 7" by (simp add: sample_collection_def)
    then show ?thesis unfolding ctags_bounded_def sample_last using sample_seen(1) by auto
  qed
qed

theorem PutObject_succeeds_if_allowed_witness:
  "\<exists>ob s'. db_Update sample_put sample_pim = (Inr ob, s')"
  by (rule PutObject_succeeds_if_allowed [OF sample_live(3) named_sample_crypto])
     (use sample_may sample_put_hyps(1,2) sample_look(3) sample_last in \<open>auto simp: sample_nm_def\<close>)

lemma sample_put_ran: "db_Update sample_put sample_pim = (Inr (projr (fst (db_Update sample_put sample_pim))), snd (db_Update sample_put sample_pim))"
proof -
  have "\<exists>ob s'. db_Update sample_put sample_pim = (Inr ob, s')"
  proof (rule succeeds_commits)
    have at: "sealed_live.at sample_crypto 100 sample_key sample_view (begin_tx True sample_pim)"
      using sample_live(3) by (simp add: sealed_live.at_def view_begin)
    show "succeeds sample_put (begin_tx True sample_pim) (\<lambda>_. tx_live sample_crypto 100 sample_key)"
      by (rule sealed_live.PutObject_succeeds [OF at])
         (use sample_may sample_put_hyps(1,2) sample_look(3) sample_last naming_sample
          in \<open>auto simp: sample_nm_def objects_typed_def\<close>)
  qed
  then show ?thesis by auto
qed

theorem PutObject_stores_witness:
  "oData (projr (fst (db_Update sample_put sample_pim))) = ''new'' \<and>
   (\<exists>u. seen_in sample_crypto 100 (snd (db_Update sample_put sample_pim)) (objectKey sample_nm sample_ref ''b.ics'') =
      Some (VObject (projr (fst (db_Update sample_put sample_pim))) u))"
  using PutObject_stores [OF sample_live(1) named_sample_crypto sample_put_ran] unfolding sample_nm_def by blast

lemma PutObject_moves_ctag_witness:
  "\<exists>c u f. seen_in sample_crypto 100 (snd (db_Update sample_put sample_pim)) (collectionKey sample_nm sample_ref) = Some (VCollection c u f) \<and>
     4 < CTag c"
proof -
  have "next_ctag sample_view \<noteq> 0" by (simp add: sample_next)
  from PutObject_moves_ctag [OF sample_live(1) named_sample_crypto sample_put_ran sample_put_hyps(7) this] sample_look(1)
  have "\<exists>c u f. seen_in sample_crypto 100 (snd (db_Update sample_put sample_pim)) (collectionKey sample_nm sample_ref) = Some (VCollection c u f) \<and>
     CTag sample_collection < CTag c" unfolding sample_nm_def by metis
  then show ?thesis by (simp add: sample_collection_def)
qed

theorem PutObject_keeps_uids_unique_witness:
  "uids_unique sample_nm (seen_in sample_crypto 100 (snd (db_Update sample_put sample_pim))) sample_ref"
  using PutObject_keeps_uids_unique [OF sample_live(1) named_sample_crypto sample_put_ran
      sample_put_hyps(3) [unfolded sample_nm_def] sample_put_hyps(4) [unfolded sample_nm_def]]
  unfolding sample_nm_def by blast

lemma sample_at: "sealed_live.at sample_crypto 100 sample_key sample_view (begin_tx True sample_pim)"
  using sample_live(3) by (simp add: sealed_live.at_def view_begin)

lemma sample_ran:
  assumes "succeeds fn (begin_tx True sample_pim) (\<lambda>_. tx_live sample_crypto 100 sample_key)"
  shows "db_Update fn sample_pim = (Inr (projr (fst (db_Update fn sample_pim))), snd (db_Update fn sample_pim))"
  using succeeds_commits [OF assms] by auto

lemma sample_owner_may: "may_write sample_nm sample_view sample_ref ''Ann'' 100"
  unfolding may_write_def ToLower_bob using sample_look(1)
  by (simp add: sample_collection_def zero_Collection_def)

lemma RemoveObject_removes_witness:
  "seen_in sample_crypto 100 (snd (db_Update (RemoveObject (sealed_ops sample_crypto 100) sample_nm sample_ref ''a.ics'' None ''Ann'' 100) sample_pim))
     (objectKey sample_nm sample_ref ''a.ics'') = None"
proof -
  have "succeeds (RemoveObject (sealed_ops sample_crypto 100) sample_nm sample_ref ''a.ics'' None ''Ann'' 100) (begin_tx True sample_pim)
      (\<lambda>_. tx_live sample_crypto 100 sample_key)"
    by (rule sealed_live.RemoveObject_succeeds [OF sample_at naming_sample sample_owner_may sample_look(2)]) (simp_all add: sample_last)
  note ran = sample_ran [OF this, unfolded sample_nm_def]
  have a: "uids_apart (Names_Of sample_crypto ''n'') sample_view sample_ref (oUID w)"
    if "sample_view (objectKey (Names_Of sample_crypto ''n'') sample_ref ''a.ics'') = Some (VObject w x)" for w x
  proof -
    have "oUID w = ''u1''" using that sample_look(2) by (simp add: sample_nm_def sample_object_def)
    then show ?thesis using sample_put_hyps(5) by (simp add: sample_nm_def)
  qed
  show ?thesis
    unfolding sample_nm_def
    by (rule RemoveObject_removes [OF sample_live(1) named_sample_crypto ran sample_put_hyps(3) [unfolded sample_nm_def], THEN conjunct2, THEN conjunct1])
       (erule a)
qed

lemma Answer_decides_witness:
  "\<exists>sh u. seen_in sample_crypto 100 (snd (db_Update (Answer (sealed_ops sample_crypto 100) sample_nm sample_ref ''bob'' False 100) sample_pim))
     (shareKey sample_nm sample_ref ''bob'') = Some (VShare sh u) \<and> \<not> Live sh 101 \<and> sLeft sh"
proof -
  have "succeeds (Answer (sealed_ops sample_crypto 100) sample_nm sample_ref ''bob'' False 100) (begin_tx True sample_pim)
      (\<lambda>_. tx_live sample_crypto 100 sample_key)"
    by (rule sealed_live.Answer_succeeds [OF sample_at naming_sample sample_put_hyps(6) sample_look(6) share_to(1)])
  from Answer_decides [OF sample_live(1) named_sample_crypto sample_ran [OF this, unfolded sample_nm_def]]
    sample_look(6) [unfolded sample_nm_def] share_to(2)
  show ?thesis unfolding sample_nm_def by auto
qed

lemma sample_scope:
  assumes "scopeOf k = k_ref sample_nm sample_ref" and "sample_view k = Some v"
  shows "in_collection sample_nm sample_ref k"
proof -
  have "k_ref sample_nm sample_ref \<noteq> []" using length_k_ref [OF naming_sample, of sample_ref] by (auto simp: scopeLen_def)
  with assms show ?thesis
    by (auto simp: sample_live(2) sample_records_def in_collection_def key_simps shareKey_def uidKey_def split: if_splits)
qed

theorem Delete_leaves_nothing_witness:
  "seen_in sample_crypto 100 (snd (db_Update (Delete_collection (sealed_ops sample_crypto 100) sample_nm sample_ref 100) sample_pim))
     (receivedKey sample_nm ''bob'' sample_ref) = None"
proof -
  have "succeeds (Delete_collection (sealed_ops sample_crypto 100) sample_nm sample_ref 100) (begin_tx True sample_pim)
      (\<lambda>_. tx_live sample_crypto 100 sample_key)"
  proof (rule sealed_live.Delete_succeeds [where V = sample_view, OF sample_at naming_sample sample_look(1) sample_put_hyps(6)])
  qed (use sample_scope in \<open>simp_all add: sample_collection_def zero_Collection_def\<close>)
  note D = Delete_leaves_nothing [OF sample_live(1) named_sample_crypto sample_ran [OF this, unfolded sample_nm_def]
      sample_put_hyps(6) [unfolded sample_nm_def]]
  have "prefix (sharesOf sample_nm sample_ref) (shareKey sample_nm sample_ref ''bob'')" by (simp add: shareKey_def)
  with D sample_look(6) share_to(1) show ?thesis unfolding sample_nm_def by metis
qed

end
