(* ===== verification/Reseal.thy ===== *)
theory Reseal
  imports Collections
begin

text \<open>
  Moving an account's collections between keys (the last part of \<^verbatim>\<open>pim/store/sealed.go\<close>):
  \<^verbatim>\<open>Reseal\<close> after a sign-in or a change of encryption, \<^verbatim>\<open>Drop\<close> after a key was lost. Both run
  one transaction per collection over the sealed transactions of the theory Sealed\_Tx, on scopes
  read from the file's keys alone. \<open>fresh\<close> gives what \<^verbatim>\<open>rand.Read\<close> fills a collection's new
  key with; the result names the accounts the watchers are told of.
\<close>

subsection \<open>Operations\<close>

definition scopes :: "string \<Rightarrow> pimDB \<Rightarrow> string list" where
  "scopes p s = map (\<lambda>e. TrimPrefix p (fst e)) (kv_scan p (pdb s))"

definition ownedBy :: "string \<Rightarrow> string" where
  "ownedBy name = Pim_Name @ ''/collections/'' @ name @ ''/''"

definition reseal_holders :: "crypto \<Rightarrow> time \<Rightarrow> naming \<Rightarrow> string \<Rightarrow> string \<Rightarrow> (err, sealedTx, string list) prog" where
  "reseal_holders C now rnm name scope = each (sealed_ops C now) (Pim_Name @ ''/shares/'' @ scope @ NUL) as_share
     (\<lambda>sh holders. Inr (holders @ [rnm (sTo sh)])) [name]"

definition reseal_key :: "crypto \<Rightarrow> time \<Rightarrow> string \<Rightarrow> string \<Rightarrow> string \<Rightarrow> string list \<Rightarrow> (err, sealedTx, unit) prog" where
  "reseal_key C now fresh name scope holders = bindT (collection C now scope) (\<lambda>c.
     case (ckey c, crec c) of
       (Some _, Some rec) \<Rightarrow> bindT (ring_id now name) (\<lambda>i.
         if wrapped_to rec name \<noteq> i then rekey C now fresh scope holders else encrypt C now fresh scope holders)
     | _ \<Rightarrow> encrypt C now fresh scope holders)"

definition reseal_own :: "crypto \<Rightarrow> time \<Rightarrow> string \<Rightarrow> naming \<Rightarrow> string \<Rightarrow> string \<Rightarrow> (err, sealedTx, unit) prog" where
  "reseal_own C now fresh rnm name scope = bindT (ring_on now name) (\<lambda>on.
     if \<not> on then decrypt C now scope
     else bindT (reseal_holders C now rnm name scope) (\<lambda>holders.
          bindT (reseal_key C now fresh name scope holders) (\<lambda>_.
          forT (wrapTo C now scope) (tl holders))))"

text \<open>One transaction per element, the errors collected.\<close>

fun update_each :: "('x \<Rightarrow> (err, sealedTx, unit) prog) \<Rightarrow> 'x list \<Rightarrow> pimDB \<Rightarrow> err list \<times> pimDB" where
  "update_each f [] s = ([], s)"
| "update_each f (x # xs) s = (case db_Update (f x) s of (r, s1) \<Rightarrow>
     (case update_each f xs s1 of (es, s2) \<Rightarrow> (case r of Inl e \<Rightarrow> e # es | Inr _ \<Rightarrow> es, s2)))"

definition Reseal :: "crypto \<Rightarrow> time \<Rightarrow> (string \<Rightarrow> string) \<Rightarrow> naming \<Rightarrow> string \<Rightarrow> pimDB \<Rightarrow> (err list \<times> string list) \<times> pimDB" where
  "Reseal C now fresh nm address s =
     (let owner = ToLower address;
          rnm = Ring_Name C (pring s);
          name = rnm owner;
          mine = scopes (ownedBy name) s;
          received = scopes (receivedBy nm owner) s;
          (errs, s1) = update_each (\<lambda>coll. let scope = name @ ''/'' @ coll in reseal_own C now (fresh scope) rnm name scope) mine s;
          (errs', s2) = update_each (\<lambda>scope. wrapTo C now scope name) received s1
      in ((errs @ errs', [owner]), s2))"

definition delete_under :: "string \<Rightarrow> (err, sealedTx, unit) prog" where
  "delete_under p t = (case DeleteUnder kv_scan kv_delete (raw t) p None of
     Inl e \<Rightarrow> (Inl e, t) | Inr f \<Rightarrow> (Inr (), t\<lparr>raw := f\<rparr>))"

text \<open>The entries of received shares and of publications that name the collection.\<close>

definition names_received :: "string \<Rightarrow> string \<times> stored sealed \<Rightarrow> bool" where
  "names_received scope e \<longleftrightarrow> suffix (NUL @ scope) (fst e)"

definition names_public :: "Key \<Rightarrow> string \<Rightarrow> string \<times> stored sealed \<Rightarrow> bool" where
  "names_public key scope e \<longleftrightarrow> (case Open key (snd e) of
     Inl _ \<Rightarrow> False | Inr at \<Rightarrow> text_of at = Pim_Name @ ''/collections/'' @ scope)"

definition drop_locked :: "crypto \<Rightarrow> time \<Rightarrow> string \<Rightarrow> (err, sealedTx, unit) prog" where
  "drop_locked C now scope = bindT (collection C now scope) (\<lambda>c.
     if \<not> ck_locked c then returnT ()
     else bindT (forT delete_under (prefixesOf scope)) (\<lambda>_.
          bindT (raw_scan (Pim_Name @ ''/received/'')) (\<lambda>received.
          bindT (raw_scan (Pim_Name @ ''/public/'')) (\<lambda>public.
          bindT (\<lambda>t. (Inr (skey t), t)) (\<lambda>key.
          bindT (forT tx_Delete (map fst (filter (names_received scope) received) @
                                 map fst (filter (names_public key scope) public))) (\<lambda>_.
          dropKey scope))))))"

fun update_all :: "('x \<Rightarrow> (err, sealedTx, unit) prog) \<Rightarrow> 'x list \<Rightarrow> pimDB \<Rightarrow> (err + unit) \<times> pimDB" where
  "update_all f [] s = (Inr (), s)"
| "update_all f (x # xs) s = (case db_Update (f x) s of
     (Inl e, s1) \<Rightarrow> (Inl e, s1) | (Inr _, s1) \<Rightarrow> update_all f xs s1)"

definition Drop :: "crypto \<Rightarrow> time \<Rightarrow> string \<Rightarrow> pimDB \<Rightarrow> (err + string list) \<times> pimDB" where
  "Drop C now address s =
     (let name = Ring_Name C (pring s) address
      in (case update_all (\<lambda>coll. drop_locked C now (name @ ''/'' @ coll)) (scopes (ownedBy name) s) s of
            (Inl e, s1) \<Rightarrow> (Inl e, s1)
          | (Inr _, s1) \<Rightarrow> (Inr [ToLower address], s1)))"

subsection \<open>Dropping what nothing opens\<close>

text \<open>\<open>erased t t' D\<close>: the file lost the entries of \<open>D\<close>, and nothing else changed.\<close>

definition erased :: "sealedTx \<Rightarrow> sealedTx \<Rightarrow> (string \<Rightarrow> bool) \<Rightarrow> bool" where
  "erased t t' D \<longleftrightarrow> (\<exists>f. t' = t\<lparr>raw := f\<rparr> \<and> ordered_tx f \<and>
     (\<forall>k. kv_get k f = (if D k then None else kv_get k (raw t))))"

lemma erased_refl: "ordered_tx (raw t) \<Longrightarrow> erased t t (\<lambda>_. False)"
  unfolding erased_def by (rule exI [of _ "raw t"]) simp

lemma erased_trans: "erased t t' D \<Longrightarrow> erased t' t'' E \<Longrightarrow> erased t t'' (\<lambda>k. D k \<or> E k)"
  by (force simp: erased_def)

lemma erased_ordered: "erased t t' D \<Longrightarrow> ordered_tx (raw t')"
  by (auto simp: erased_def)

lemma erased_get: "erased t t' D \<Longrightarrow> kv_get k (raw t') = (if D k then None else kv_get k (raw t))"
  by (auto simp: erased_def)

lemma delete_under_erased:
  assumes "ordered_tx (raw t)" and "delete_under p t = (Inr u, t')"
  shows "erased t t' (prefix p)"
proof -
  from assms(2) obtain f where f: "DeleteUnder kv_scan kv_delete (raw t) p None = Inr f" and t': "t' = t\<lparr>raw := f\<rparr>"
    by (auto simp: delete_under_def split: sum.splits)
  have "kv_get k f = (if prefix p k then None else kv_get k (raw t))" for k
    using bolt.delete_under_get [OF f assms(1), of k] by (auto simp: accepts_def split: if_splits)
  then show ?thesis using t' bolt.delete_under_inv [OF f assms(1)] by (auto simp: erased_def)
qed

lemma tx_Delete_erased:
  assumes "ordered_tx (raw t)" and "tx_Delete k t = (Inr u, t')"
  shows "erased t t' (\<lambda>j. j = k)"
  using assms(2) bolt.del_get [OF assms(1)] bolt.del_inv [OF assms(1)]
  by (auto simp: tx_Delete_def erased_def split: sum.splits)

lemma forT_erased:
  assumes "\<And>x t u t'. ordered_tx (raw t) \<Longrightarrow> m x t = (Inr u, t') \<Longrightarrow> erased t t' (D x)"
  shows "ordered_tx (raw t) \<Longrightarrow> forT m xs t = (Inr u, t') \<Longrightarrow> erased t t' (\<lambda>k. \<exists>x \<in> set xs. D x k)"
proof (induction xs arbitrary: t)
  case Nil
  then show ?case using erased_refl [of t] by (simp add: returnT_returns)
next
  case (Cons x xs)
  from Cons.prems(2) obtain v t1 where a: "m x t = (Inr v, t1)" "forT m xs t1 = (Inr u, t')"
    by (auto simp: bindT_returns)
  note e = assms [OF Cons.prems(1) a(1)]
  have "(\<lambda>k. D x k \<or> (\<exists>y \<in> set xs. D y k)) = (\<lambda>k. \<exists>y \<in> set (x # xs). D y k)" by auto
  then show ?case using erased_trans [OF e Cons.IH [OF erased_ordered [OF e] a(2)]] by simp
qed

definition lost :: "crypto \<Rightarrow> time \<Rightarrow> sealedTx \<Rightarrow> string \<Rightarrow> bool" where
  "lost C now t scope \<longleftrightarrow> (case known C now t scope of Inl _ \<Rightarrow> False | Inr c \<Rightarrow> ck_locked c)"

text \<open>What goes besides the records of the scope: the entries of received shares and publications.\<close>

definition mentions :: "string \<Rightarrow> bool" where
  "mentions k \<longleftrightarrow> prefix (Pim_Name @ ''/received/'') k \<or> prefix (Pim_Name @ ''/public/'') k"

lemma mentions_plain: "mentions k \<Longrightarrow> scopeOf k = [] \<and> plain_key k"
proof -
  assume "mentions k"
  then obtain r where k: "k = Pim_Name @ ''/received/'' @ r \<or> k = Pim_Name @ ''/public/'' @ r"
    by (auto simp: mentions_def elim!: prefixE)
  have "scopeOf (Pim_Name @ ''/received/'' @ r) = []" "scopeOf (Pim_Name @ ''/public/'' @ r) = []"
    "\<not> prefix (Pim_Name @ ''/keys/'') (Pim_Name @ ''/received/'' @ r)" "\<not> prefix (Pim_Name @ ''/keys/'') (Pim_Name @ ''/public/'' @ r)"
    by (simp_all add: scopeOf_def scoped_def key_defs CutPrefix_def)
  with k have "scopeOf k = [] \<and> \<not> prefix (Pim_Name @ ''/keys/'') k" by blast
  then show ?thesis by (simp add: plain_key_def)
qed

lemma under_prefixesOf:
  "length scope = scopeLen \<Longrightarrow> p \<in> set (prefixesOf scope) \<Longrightarrow> prefix p k \<Longrightarrow> plain_key k \<and> scopeOf k = scope"
  using under_scope [of scope p k] by (auto simp: plain_key_def list_ex_iff)

lemma plain_under: "plain_key k \<Longrightarrow> scopeOf k = scope \<Longrightarrow> scope \<noteq> [] \<Longrightarrow> \<exists>p \<in> set (prefixesOf scope). prefix p k"
  by (auto simp: plain_key_def list_ex_iff)

lemma erased_steady:
  assumes e: "erased t t' D" and plain: "\<And>k. D k \<Longrightarrow> plain_key k" and st: "steady C now K t"
  shows "steady C now K t'" and "known C now t' x = known C now t x"
proof -
  from e obtain f where f: "t' = t\<lparr>raw := f\<rparr>" "ordered_tx f" "\<And>k. kv_get k f = (if D k then None else kv_get k (raw t))"
    by (auto simp: erased_def)
  have kk: "kv_get (keyKey y) f = kv_get (keyKey y) (raw t)" for y
    using f(3) plain keyKey_not_plain by fastforce
  have inv: "tx_inv C t'"
    using st f by (auto simp: steady_def tx_inv_def split: if_splits)
  show "steady C now K t'"
    using st inv synced_file [of C now t f] kk f(1) by (auto simp: steady_def)
  show "known C now t' x = known C now t x"
    using kk f(1) by (simp add: known_def key_on_file_def split: option.split)
qed

lemma drop_locked_run:
  assumes st: "steady C now K t" and len: "length scope = scopeLen" and l: "lost C now t scope"
    and run: "drop_locked C now scope t = (Inr u, t')"
  obtains t1 t2 M where "quiet C now t t1" and "serr t1 = serr t" and "\<And>k. M k \<Longrightarrow> mentions k"
    and "erased t1 t2 (\<lambda>k. (\<exists>p \<in> set (prefixesOf scope). prefix p k) \<or> M k)" and "dropKey scope t2 = (Inr u, t')"
proof -
  have inv: "tx_inv C t" using st by (simp add: steady_def)
  from run obtain c t1 where c: "collection C now scope t = (Inr c, t1)"
    and rest: "(if \<not> ck_locked c then returnT () else bindT (forT delete_under (prefixesOf scope)) (\<lambda>_.
          bindT (raw_scan (Pim_Name @ ''/received/'')) (\<lambda>received.
          bindT (raw_scan (Pim_Name @ ''/public/'')) (\<lambda>public.
          bindT (\<lambda>t. (Inr (skey t), t)) (\<lambda>key.
          bindT (forT tx_Delete (map fst (filter (names_received scope) received) @
                                 map fst (filter (names_public key scope) public))) (\<lambda>_.
          dropKey scope)))))) t1 = (Inr u, t')"
    unfolding drop_locked_def bindT_returns [of "collection C now scope"] by blast
  from collection_spec [OF inv c] have q: "known C now t scope = Inr c" "quiet C now t t1" "serr t1 = serr t" by auto
  with l have "ck_locked c" by (simp add: lost_def)
  with rest obtain v t2 w t3 ks where d1: "forT delete_under (prefixesOf scope) t1 = (Inr v, t2)"
    and ks: "ks = map fst (filter (names_received scope) (kv_scan (Pim_Name @ ''/received/'') (raw t2))) @
                  map fst (filter (names_public (skey t2) scope) (kv_scan (Pim_Name @ ''/public/'') (raw t2)))"
    and d2: "forT tx_Delete ks t2 = (Inr w, t3)" and d3: "dropKey scope t3 = (Inr u, t')"
    by (auto simp: bindT_returns raw_scan_def)
  have o1: "ordered_tx (raw t1)" using inv q(2) by (simp add: quiet_def tx_inv_def)
  note e1 = forT_erased [OF delete_under_erased o1 d1]
  note e2 = forT_erased [OF tx_Delete_erased erased_ordered [OF e1] d2]
  have "mentions k" if "k \<in> set ks" for k
    using that ks kv_scan_iff [OF erased_ordered [OF e1]] by (fastforce simp: mentions_def)
  then show ?thesis
    by (intro that [OF q(2,3) _ erased_trans [OF e1 e2] d3]) auto
qed

lemma drop_locked_spec:
  assumes st: "steady C now K t" and len: "length scope = scopeLen" and run: "drop_locked C now scope t = (Inr u, t')"
  shows "steady C now K t' \<and> serr t' = serr t \<and> (\<forall>x. x \<noteq> scope \<longrightarrow> known C now t' x = known C now t x) \<and>
    (\<forall>k. plain_key k \<longrightarrow> scopeOf k \<noteq> [] \<longrightarrow>
       kv_get k (raw t') = (if scopeOf k = scope \<and> lost C now t scope then None else kv_get k (raw t))) \<and>
    (if lost C now t scope then known C now t' scope = Inr no_key else quiet C now t t')"
proof (cases "lost C now t scope")
  case False
  have inv: "tx_inv C t" using st by (simp add: steady_def)
  from run obtain c t1 where c: "collection C now scope t = (Inr c, t1)" and r: "\<not> ck_locked c \<Longrightarrow> t' = t1"
    unfolding drop_locked_def bindT_returns [of "collection C now scope"] by (auto simp: returnT_def split: if_splits)
  from collection_spec [OF inv c] have kn: "known C now t scope = Inr c" and q: "quiet C now t t1" "serr t1 = serr t" by auto
  have "t' = t1" using False r kn by (simp add: lost_def)
  with q have "quiet C now t t'" "serr t' = serr t" by auto
  then show ?thesis using False quiet_steady [OF st] quiet_known by (auto simp: quiet_def)
next
  case True
  obtain t1 t2 M where q: "quiet C now t t1" "serr t1 = serr t"
    and M: "\<And>k. M k \<Longrightarrow> mentions k"
    and e: "erased t1 t2 (\<lambda>k. (\<exists>p \<in> set (prefixesOf scope). prefix p k) \<or> M k)" and d: "dropKey scope t2 = (Inr u, t')"
    by (rule drop_locked_run [OF st len True run]) (rule that)
  have s1: "steady C now K t1" by (rule quiet_steady [OF st q(1)])
  have plain: "plain_key k" if "(\<exists>p \<in> set (prefixesOf scope). prefix p k) \<or> M k" for k
    using that under_prefixesOf [OF len] mentions_plain M by blast
  note s2 = erased_steady [OF e plain s1]
  have i2: "tx_inv C t2" "synced C now t2" using s2(1) by (auto simp: steady_def)
  note D = dropKey_spec [OF i2(1) d, of now] and y = dropKey_synced [OF i2(1) d i2(2)]
  have o: "ordered_tx (raw t2)" using i2 by (simp add: tx_inv_def)
  from d obtain f where f: "kv_delete (keyKey scope) (raw t2) = Inr f" "t' = t2\<lparr>sheld := (sheld t2)(scope := None), raw := f\<rparr>"
    by (auto simp: dropKey_def tx_Delete_def split: sum.splits)
  have "known C now t' scope = Inr no_key"
    using bolt.del_get [OF o f(1)] f(2) by (simp add: known_def key_on_file_def)
  moreover have "known C now t' x = known C now t x" if "x \<noteq> scope" for x
  proof -
    have "known C now t' x = known C now t2 x"
      using that bolt.del_get [OF o f(1)] f(2) by (simp add: known_def key_on_file_def split: option.split)
    then show ?thesis using s2(2) quiet_known [OF q(1)] by simp
  qed
  moreover have "kv_get k (raw t') = (if scopeOf k = scope then None else kv_get k (raw t))"
    if "plain_key k" "scopeOf k \<noteq> []" for k
  proof -
    have "\<not> M k" using M mentions_plain that(2) by blast
    then have "(\<exists>p \<in> set (prefixesOf scope). prefix p k) \<or> M k \<longleftrightarrow> scopeOf k = scope"
      using under_prefixesOf [OF len] plain_under [OF that(1) _ that(2)] by blast
    then show ?thesis using D that(1) erased_get [OF e, of k] q(1) by (auto simp: quiet_def)
  qed
  moreover have "steady C now K t'" "serr t' = serr t"
    using D y s2(1) q(2) e by (auto simp: steady_def erased_def)
  ultimately show ?thesis using True by simp
qed

text \<open>The keys a committed transaction leaves on file.\<close>

lemma committed_known:
  assumes "steady C now (pkey s) t" and "db_Update fn s = (Inr a, s')" and "fn (begin_tx True s) = (Inr a, t)"
  shows "known C now (begin_tx True s') x = known C now t x" and "pdb s' = raw t" and "pkey s' = pkey s" and "pring s' = sring t"
proof -
  have s': "s' = s\<lparr>pdb := raw t, pring := sring t\<rparr>"
    using assms(2,3) by (auto simp: db_Update_def run_tx_def split: prod.splits sum.splits option.splits)
  have "synced C now t" "skey t = pkey s" using assms(1) by (auto simp: steady_def)
  then show "known C now (begin_tx True s') x = known C now t x"
    using known_synced [of C now t x] s' by (simp add: known_def begin_tx_def)
qed (use assms(2,3) in \<open>auto simp: db_Update_def run_tx_def split: prod.splits sum.splits option.splits\<close>)

lemma drop_locked_committed:
  assumes ok: "db_ok C s" and len: "length scope = scopeLen" and run: "db_Update (drop_locked C now scope) s = (Inr u, s')"
  shows "db_ok C s' \<and> (\<forall>x. x \<noteq> scope \<longrightarrow> known C now (begin_tx True s') x = known C now (begin_tx True s) x) \<and>
    known C now (begin_tx True s') scope =
      (if lost C now (begin_tx True s) scope then Inr no_key else known C now (begin_tx True s) scope) \<and>
    (\<forall>k. plain_key k \<longrightarrow> scopeOf k \<noteq> [] \<longrightarrow> kv_get k (pdb s') =
       (if scopeOf k = scope \<and> lost C now (begin_tx True s) scope then None else kv_get k (pdb s)))"
proof -
  from committed [OF ok run] obtain t where t: "drop_locked C now scope (begin_tx True s) = (Inr u, t)"
    and st: "steady C now (pkey s) (begin_tx True s)" and after: "steady C now (pkey s) t \<Longrightarrow> db_ok C s'"
    by metis
  note d = drop_locked_spec [OF st len t]
  have st': "steady C now (pkey s) t" using d by simp
  have raw: "raw (begin_tx True s) = pdb s" by (simp add: begin_tx_def)
  show ?thesis
    using d after [OF st'] committed_known [OF st' run t] quiet_known [of C now "begin_tx True s" t] raw by auto
qed

lemma drop_each_spec:
  assumes "db_ok C s" and "\<And>coll. coll \<in> set colls \<Longrightarrow> length (name @ ''/'' @ coll) = scopeLen"
    and "update_all (\<lambda>coll. drop_locked C now (name @ ''/'' @ coll)) colls s = (Inr u, s')"
  shows "db_ok C s' \<and>
    (\<forall>x. \<not> (lost C now (begin_tx True s) x \<and> x \<in> (\<lambda>coll. name @ ''/'' @ coll) ` set colls) \<longrightarrow>
       known C now (begin_tx True s') x = known C now (begin_tx True s) x) \<and>
    (\<forall>k. plain_key k \<longrightarrow> scopeOf k \<noteq> [] \<longrightarrow> kv_get k (pdb s') =
       (if scopeOf k \<in> (\<lambda>coll. name @ ''/'' @ coll) ` set colls \<and> lost C now (begin_tx True s) (scopeOf k) then None
        else kv_get k (pdb s)))"
  using assms
proof (induction colls arbitrary: s)
  case Nil
  then show ?case by simp
next
  case (Cons coll colls)
  let ?x = "name @ ''/'' @ coll"
  from Cons.prems(3) obtain s1 where r1: "db_Update (drop_locked C now ?x) s = (Inr (), s1)"
    and r2: "update_all (\<lambda>coll. drop_locked C now (name @ ''/'' @ coll)) colls s1 = (Inr u, s')"
    by (auto split: prod.splits sum.splits)
  have len: "length ?x = scopeLen" by (rule Cons.prems(2)) simp
  note d = drop_locked_committed [OF Cons.prems(1) len r1]
  have lost1: "lost C now (begin_tx True s1) x = lost C now (begin_tx True s) x" if "x \<noteq> ?x \<or> \<not> lost C now (begin_tx True s) x" for x
    using d that by (cases "x = ?x") (simp_all add: lost_def)
  note ih = Cons.IH [OF conjunct1 [OF d] Cons.prems(2) r2, simplified]
  have "kv_get k (pdb s') = (if scopeOf k \<in> (\<lambda>coll. name @ ''/'' @ coll) ` set (coll # colls) \<and> lost C now (begin_tx True s) (scopeOf k)
      then None else kv_get k (pdb s))" if k: "plain_key k" "scopeOf k \<noteq> []" for k
  proof (cases "scopeOf k = ?x \<and> lost C now (begin_tx True s) (scopeOf k)")
    case True
    then have "kv_get k (pdb s1) = None" using d k by metis
    then have "kv_get k (pdb s') = None" using ih k by simp
    then show ?thesis using True by auto
  next
    case False
    then have "kv_get k (pdb s1) = kv_get k (pdb s)" "lost C now (begin_tx True s1) (scopeOf k) = lost C now (begin_tx True s) (scopeOf k)"
      using d k lost1 [of "scopeOf k"] by auto
    then show ?thesis using ih k False by auto
  qed
  moreover have "known C now (begin_tx True s') x = known C now (begin_tx True s) x"
    if "\<not> (lost C now (begin_tx True s) x \<and> x \<in> (\<lambda>coll. name @ ''/'' @ coll) ` set (coll # colls))" for x
    using that ih d lost1 [of x] by (cases "x = ?x") auto
  ultimately show ?case using ih by blast
qed

text \<open>Where the file refuses no delete, the transaction that drops a collection returns.\<close>

definition deletes_free :: "(stored sealed, err) tx \<Rightarrow> bool" where
  "deletes_free f \<longleftrightarrow> (\<forall>k. delete_refused f k = None)"

lemma kv_delete_free: "deletes_free f \<Longrightarrow> \<exists>f'. kv_delete k f = Inr f' \<and> deletes_free f'"
  by (auto simp: deletes_free_def kv_delete_def)

lemma foldE_delete_free: "deletes_free f \<Longrightarrow> \<exists>f'. foldE kv_delete ks f = Inr f' \<and> deletes_free f'"
proof (induction ks arbitrary: f)
  case (Cons k ks)
  then show ?case using kv_delete_free [OF Cons.prems, of k] by auto
qed simp

lemma delete_under_free: "deletes_free (raw t) \<Longrightarrow> \<exists>t'. delete_under p t = (Inr (), t') \<and> deletes_free (raw t')"
proof -
  assume "deletes_free (raw t)"
  from foldE_delete_free [OF this] obtain f where
    "DeleteUnder kv_scan kv_delete (raw t) p None = Inr f" "deletes_free f"
    unfolding DeleteUnder_def Let_def by blast
  then show ?thesis by (simp add: delete_under_def)
qed

lemma tx_Delete_free: "deletes_free (raw t) \<Longrightarrow> \<exists>t'. tx_Delete k t = (Inr (), t') \<and> deletes_free (raw t')"
  using kv_delete_free [of "raw t" k] by (auto simp: tx_Delete_def)

lemma forT_free:
  assumes "\<And>x t. deletes_free (raw t) \<Longrightarrow> \<exists>t'. m x t = (Inr (), t') \<and> deletes_free (raw t')"
  shows "deletes_free (raw t) \<Longrightarrow> \<exists>t'. forT m xs t = (Inr (), t') \<and> deletes_free (raw t')"
proof (induction xs arbitrary: t)
  case (Cons x xs)
  from assms [OF Cons.prems] obtain t1 where "m x t = (Inr (), t1)" "deletes_free (raw t1)" by blast
  then show ?case using Cons.IH [of t1] by (auto simp: bindT_def)
qed (simp add: returnT_def)

lemma drop_locked_returns:
  assumes st: "steady C now K t" and free: "deletes_free (raw t)" and kn: "known C now t scope = Inr c"
  shows "\<exists>t'. drop_locked C now scope t = (Inr (), t') \<and> deletes_free (raw t')"
proof -
  have inv: "tx_inv C t" using st by (simp add: steady_def)
  obtain r t1 where c: "collection C now scope t = (r, t1)" by force
  from collection_spec [OF inv c] kn have r: "r = Inr c" and f1: "deletes_free (raw t1)"
    using free by (auto simp: quiet_def)
  show ?thesis
  proof (cases "ck_locked c")
    case False
    then show ?thesis using c r f1 by (simp add: drop_locked_def bindT_def returnT_def)
  next
    case True
    from forT_free [where m = delete_under, OF delete_under_free f1] obtain t2 where
      d1: "forT delete_under (prefixesOf scope) t1 = (Inr (), t2)" and f2: "deletes_free (raw t2)" by blast
    let ?ks = "map fst (filter (names_received scope) (kv_scan (Pim_Name @ ''/received/'') (raw t2))) @
               map fst (filter (names_public (skey t2) scope) (kv_scan (Pim_Name @ ''/public/'') (raw t2)))"
    from forT_free [where m = tx_Delete, OF tx_Delete_free f2] obtain t3 where d2: "forT tx_Delete ?ks t2 = (Inr (), t3)" and f3: "deletes_free (raw t3)"
      by blast
    from tx_Delete_free [of "t3\<lparr>sheld := (sheld t3)(scope := None)\<rparr>"] f3
    obtain t4 where "dropKey scope t3 = (Inr (), t4)" "deletes_free (raw t4)" by (auto simp: dropKey_def)
    then show ?thesis using c r True d1 d2 by (simp add: drop_locked_def bindT_def raw_scan_def)
  qed
qed

lemma drop_locked_commits:
  assumes ok: "db_ok C s" and len: "length scope = scopeLen" and free: "deletes_free (pdb s)"
    and kn: "known C now (begin_tx True s) scope = Inr c"
  shows "\<exists>s'. db_Update (drop_locked C now scope) s = (Inr (), s') \<and> deletes_free (pdb s') \<and> pkey s' = pkey s"
proof -
  have st: "steady C now (pkey s) (begin_tx True s)"
    using ok synced_begin [of C now True s] by (simp add: steady_def db_ok_def) (simp add: begin_tx_def)
  have "raw (begin_tx True s) = pdb s" "serr (begin_tx True s) = None" by (simp_all add: begin_tx_def)
  with drop_locked_returns [OF st _ kn] free obtain t where
    t: "drop_locked C now scope (begin_tx True s) = (Inr (), t)" "deletes_free (raw t)" by auto
  with drop_locked_spec [OF st len t(1)] have "serr t = None" by (simp add: begin_tx_def)
  with t show ?thesis by (simp add: db_Update_def run_tx_def)
qed

lemma drop_each_returns:
  assumes "db_ok C s" and "\<And>coll. coll \<in> set colls \<Longrightarrow> length (name @ ''/'' @ coll) = scopeLen"
    and "deletes_free (pdb s)" and "\<And>coll. coll \<in> set colls \<Longrightarrow> \<not> isl (known C now (begin_tx True s) (name @ ''/'' @ coll))"
  shows "\<exists>s'. update_all (\<lambda>coll. drop_locked C now (name @ ''/'' @ coll)) colls s = (Inr (), s') \<and> pkey s' = pkey s"
  using assms
proof (induction colls arbitrary: s)
  case (Cons coll colls)
  let ?x = "name @ ''/'' @ coll"
  have len: "length ?x = scopeLen" by (rule Cons.prems(2)) simp
  obtain c where kn: "known C now (begin_tx True s) ?x = Inr c"
    using Cons.prems(4) [of coll] by (cases "known C now (begin_tx True s) ?x") auto
  from drop_locked_commits [OF Cons.prems(1) len Cons.prems(3) kn] obtain s1 where
    s1: "db_Update (drop_locked C now ?x) s = (Inr (), s1)" "deletes_free (pdb s1)" "pkey s1 = pkey s" by blast
  note d = drop_locked_committed [OF Cons.prems(1) len s1(1)]
  have "\<not> isl (known C now (begin_tx True s1) (name @ ''/'' @ coll'))" if "coll' \<in> set colls" for coll'
    using d kn Cons.prems(4) [of coll'] that by (cases "coll' = coll") auto
  from Cons.IH [OF conjunct1 [OF d] Cons.prems(2) s1(2) this] show ?case using s1 by auto
qed simp

lemma seen_if_known:
  assumes "known C now (begin_tx True s') (scopeOf k) = known C now (begin_tx True s) (scopeOf k)"
    and "plain_key k \<Longrightarrow> kv_get k (pdb s') = kv_get k (pdb s)" and "pkey s' = pkey s"
  shows "seen_in C now s' k = seen_in C now s k"
proof -
  have "opens C now (begin_tx True s') k v = opens C now (begin_tx True s) k v" for v
    unfolding opens_def assms(1) using assms(3) by (simp add: begin_tx_def)
  then show ?thesis using assms(2) by (simp add: seen_in_def view_def) (simp add: begin_tx_def)
qed

text \<open>
  \<^verbatim>\<open>Drop\<close> deletes what nothing at hand opens and nothing else. While the file takes deletes and
  the key records of the account can be read, it returns, and every record of every collection
  on file is gone exactly when its collection is one of the account's own whose key cannot be
  opened; every record of any other collection still reads as it did.
\<close>

lemma Drop_only_lost:
  assumes "db_ok C s" and "deletes_free (pdb s)" and name: "name = Ring_Name C (pring s) address"
    and mine: "mine = (\<lambda>coll. name @ ''/'' @ coll) ` set (scopes (ownedBy name) s)"
    and "\<forall>scope \<in> mine. length scope = scopeLen \<and> \<not> isl (known C now (begin_tx True s) scope)"
  shows "\<exists>s'. Drop C now address s = (Inr [ToLower address], s') \<and>
    (\<forall>k. plain_key k \<longrightarrow> scopeOf k \<noteq> [] \<longrightarrow> kv_get k (pdb s') =
       (if scopeOf k \<in> mine \<and> lost C now (begin_tx True s) (scopeOf k) then None else kv_get k (pdb s))) \<and>
    (\<forall>k. scopeOf k \<noteq> [] \<longrightarrow> \<not> (scopeOf k \<in> mine \<and> lost C now (begin_tx True s) (scopeOf k)) \<longrightarrow>
       seen_in C now s' k = seen_in C now s k)"
proof -
  let ?colls = "scopes (ownedBy name) s"
  have len: "length (name @ ''/'' @ coll) = scopeLen" "\<not> isl (known C now (begin_tx True s) (name @ ''/'' @ coll))"
    if "coll \<in> set ?colls" for coll
    using assms(5) that unfolding mine by auto
  from drop_each_returns [OF assms(1) len(1) assms(2) len(2)] obtain s' where
    run: "update_all (\<lambda>coll. drop_locked C now (name @ ''/'' @ coll)) ?colls s = (Inr (), s')" and pk: "pkey s' = pkey s"
    by blast
  note d = drop_each_spec [OF assms(1) len(1) run]
  have "Drop C now address s = (Inr [ToLower address], s')"
    using run unfolding Drop_def Let_def name [symmetric] by simp
  moreover have "seen_in C now s' k = seen_in C now s k"
    if "scopeOf k \<noteq> []" "\<not> (scopeOf k \<in> mine \<and> lost C now (begin_tx True s) (scopeOf k))" for k
    using that d unfolding mine by (intro seen_if_known pk) (auto simp: image_iff)
  ultimately show ?thesis using d unfolding mine by blast
qed

text \<open>A store with one collection of ann's, its key wrapped to nobody.\<close>

definition lost_name :: string where
  "lost_name = Ring_Name sample_crypto sample_ring ''Ann''"

definition lost_scope :: string where
  "lost_scope = lost_name @ ''/'' @ replicate 32 (CHR ''c'')"

definition lost_record :: string where
  "lost_record = Pim_Name @ ''/collections/'' @ lost_scope"

definition lost_pim :: pimDB where
  "lost_pim = \<lparr>pdb = \<lparr>entries = put_entry lost_record (Seal (NewAccountKey ''k'') (VText ''x''))
        [(keyKey lost_scope, Seal (Root_Key sample_crypto sample_root Pim_Name) (VKeyRecord \<lparr>Wraps = [], kPublic = None\<rparr>))],
       put_refused = (\<lambda>_ _. None), delete_refused = (\<lambda>_. None)\<rparr>,
     pkey = Root_Key sample_crypto sample_root Pim_Name, pring = sample_ring\<rparr>"

lemma lost_pim_facts:
  "length lost_scope = scopeLen" "scopeOf lost_record = lost_scope" "plain_key lost_record"
  "lost_scope = lost_name @ ''/'' @ replicate 32 (CHR ''c'')"
  "kv_get k (pdb lost_pim) = (if k = lost_record then Some (Seal (NewAccountKey ''k'') (VText ''x''))
     else if k = keyKey lost_scope then Some (Seal (pkey lost_pim) (VKeyRecord \<lparr>Wraps = [], kPublic = None\<rparr>)) else None)"
proof -
  have "length lost_name = 32" by (simp add: lost_name_def Ring_Name_def length_Names_Of named_sample_crypto)
  then show len: "length lost_scope = scopeLen" by (simp add: lost_scope_def scopeLen_def)
  from under_prefixesOf [OF len, of lost_record lost_record]
  show "scopeOf lost_record = lost_scope" "plain_key lost_record" by (simp_all add: prefixesOf_def lost_record_def)
qed (simp_all add: kv_get_def lost_pim_def map_of_put_entry lost_scope_def)

lemma lost_pim_ok:
  "db_ok sample_crypto lost_pim" "known sample_crypto 100 (begin_tx True lost_pim) lost_scope = Inr (opened_key \<lparr>Wraps = [], kPublic = None\<rparr> None)"
  "scopes (ownedBy lost_name) lost_pim = [replicate 32 (CHR ''c'')]"
proof -
  have less: "lost_record < keyKey lost_scope"
    by (simp add: lost_record_def keyKey_def Pim_Name_def)
  have ord: "ordered_tx (pdb lost_pim)" using less by (simp add: ordered_tx_def lost_pim_def ordered_Cons)
  have fmt: "key_format (pkey lost_pim) = ByInstance" by (simp add: lost_pim_def sample_root_def)
  show "db_ok sample_crypto lost_pim"
    using ord fmt lost_pim_facts(3,5) ring_ok_sample(1)
    by (auto simp: db_ok_def tx_inv_def begin_tx_def keyKey_def) (simp_all add: lost_pim_def keyKey_def)
  have "keyKey lost_scope \<noteq> lost_record" using keyKey_not_plain [OF lost_pim_facts(3), of lost_scope] by auto
  then show "known sample_crypto 100 (begin_tx True lost_pim) lost_scope = Inr (opened_key \<lparr>Wraps = [], kPublic = None\<rparr> None)"
    using fmt lost_pim_facts(5) [of "keyKey lost_scope"] by (simp add: known_def key_on_file_def begin_tx_def Open_Seal)
  have rec: "lost_record = ownedBy lost_name @ replicate 32 (CHR ''c'')"
    by (simp add: lost_record_def lost_scope_def ownedBy_def)
  have "kv_scan (ownedBy lost_name) (pdb lost_pim) = [(lost_record, Seal (NewAccountKey ''k'') (VText ''x''))]"
    unfolding kv_scan_filter [OF ord] using less by (auto simp: lost_pim_def ownedBy_def lost_record_def lost_scope_def keyKey_def)
  then show "scopes (ownedBy lost_name) lost_pim = [replicate 32 (CHR ''c'')]"
    using TrimPrefix_append [of "ownedBy lost_name"] by (simp add: scopes_def rec)
qed

lemma Drop_only_lost_witness:
  "\<exists>s'. Drop sample_crypto 100 ''Ann'' lost_pim = (Inr [''ann''], s') \<and> kv_get lost_record (pdb s') = None"
proof -
  have low: "ToLower ''Ann'' = ''ann''" by code_simp
  have "lost_name = Ring_Name sample_crypto (pring lost_pim) ''Ann''" by (simp add: lost_name_def lost_pim_def)
  moreover have "{lost_scope} = (\<lambda>coll. lost_name @ ''/'' @ coll) ` set (scopes (ownedBy lost_name) lost_pim)"
    unfolding lost_pim_ok(3) by (simp add: lost_scope_def)
  moreover have "deletes_free (pdb lost_pim)" by (simp add: deletes_free_def lost_pim_def)
  moreover have "\<forall>scope \<in> {lost_scope}. length scope = scopeLen \<and> \<not> isl (known sample_crypto 100 (begin_tx True lost_pim) scope)"
    using lost_pim_ok(2) lost_pim_facts(1) by simp
  ultimately obtain s' where s': "Drop sample_crypto 100 ''Ann'' lost_pim = (Inr [ToLower ''Ann''], s')"
    and gone: "\<forall>k. plain_key k \<longrightarrow> scopeOf k \<noteq> [] \<longrightarrow> kv_get k (pdb s') =
       (if scopeOf k \<in> {lost_scope} \<and> lost sample_crypto 100 (begin_tx True lost_pim) (scopeOf k) then None else kv_get k (pdb lost_pim))"
    using Drop_only_lost [OF lost_pim_ok(1)] by metis
  have "lost sample_crypto 100 (begin_tx True lost_pim) lost_scope"
    by (simp add: lost_def lost_pim_ok(2) ck_locked_def opened_key_def)
  moreover have "lost_scope \<noteq> []" by (simp add: lost_scope_def)
  ultimately have "kv_get lost_record (pdb s') = None" using gone lost_pim_facts(2,3) by simp
  with s' low show ?thesis by simp
qed

subsection \<open>Resealing\<close>

text \<open>
  \<open>uniform\<close>: a collection's records on file are all under its own key when it has one, and all
  under the instance's when it has none. \<open>fits\<close>: the keys a transaction holds say which.
\<close>

definition uniform :: "(stored sealed, err) tx \<Rightarrow> bool" where
  "uniform f \<longleftrightarrow> (\<forall>k v. plain_key k \<longrightarrow> scopeOf k \<noteq> [] \<longrightarrow> kv_get k f = Some v \<longrightarrow>
     Format v = (if kv_get (keyKey (scopeOf k)) f = None then ByInstance else ByAccount))"

definition fits :: "sealedTx \<Rightarrow> bool" where
  "fits t \<longleftrightarrow> (\<forall>x c. sheld t x = Some c \<longrightarrow> (crec c = None \<longleftrightarrow> kv_get (keyKey x) (raw t) = None))"

lemma uniform_same:
  assumes "uniform f" and "\<And>k. plain_key k \<Longrightarrow> kv_get k f' = kv_get k f"
    and "\<And>x. kv_get (keyKey x) f' = None \<longleftrightarrow> kv_get (keyKey x) f = None"
  shows "uniform f'"
  using assms by (simp add: uniform_def)

lemma fits_known: "fits t \<Longrightarrow> known C now t x = Inr c \<Longrightarrow> crec c = None \<longleftrightarrow> kv_get (keyKey x) (raw t) = None"
  by (auto simp: fits_def known_def key_on_file_def no_key_def opened_key_def split: option.splits sum.splits)

lemma fits_quiet: "quiet C now t t' \<Longrightarrow> fits t \<Longrightarrow> fits t'"
  unfolding fits_def [of t']
proof (intro allI impI)
  fix x c assume q: "quiet C now t t'" and f: "fits t" and c: "sheld t' x = Some c"
  then have "known C now t x = Inr c" "raw t' = raw t" by (auto simp: quiet_def)
  then show "crec c = None \<longleftrightarrow> kv_get (keyKey x) (raw t') = None" using fits_known [OF f] by simp
qed

definition settled :: "crypto \<Rightarrow> sealedTx \<Rightarrow> bool" where
  "settled C t \<longleftrightarrow> tx_inv C t \<and> fits t \<and> uniform (raw t)"

lemma settled_quiet: "settled C t \<Longrightarrow> quiet C now t t' \<Longrightarrow> settled C t'"
proof -
  assume s: "settled C t" and q: "quiet C now t t'"
  have "raw t' = raw t" using q by (simp add: quiet_def)
  then show ?thesis using s fits_quiet [OF q] quiet_inv [OF q] by (simp add: settled_def)
qed

lemma settled_begin: "settled C (begin_tx w s) \<longleftrightarrow> db_ok C s \<and> uniform (pdb s)"
  using tx_inv_begin [of C w s] by (simp add: settled_def fits_def begin_tx_def)

lemma rekey_settled:
  assumes "settled C t" and "length scope = scopeLen" and "rekey C now fresh scope holders t = (Inr u, t')"
  shows "settled C t' \<and> kv_get (keyKey scope) (raw t') \<noteq> None"
proof -
  have inv: "tx_inv C t" and fit: "fits t" and un: "uniform (raw t)" using assms(1) by (auto simp: settled_def)
  note r = rekey_spec [OF inv assms(2,3)]
  have "crec c = None \<longleftrightarrow> kv_get (keyKey x) (raw t') = None" if "sheld t' x = Some c" for x c
    using r that fits_known [OF fit, of C now x c] by (cases "x = scope") auto
  then have "fits t'" by (simp add: fits_def)
  moreover have "uniform (raw t')" unfolding uniform_def
  proof (intro allI impI)
    fix k v assume k: "plain_key k" "scopeOf k \<noteq> []" "kv_get k (raw t') = Some v"
    show "Format v = (if kv_get (keyKey (scopeOf k)) (raw t') = None then ByInstance else ByAccount)"
    proof (cases "scopeOf k = scope")
      case True
      then obtain p where "v = Seal (NewAccountKey fresh) p" using r k by blast
      then show ?thesis using r True by simp
    next
      case False
      then show ?thesis using r k un by (simp add: uniform_def)
    qed
  qed
  ultimately show ?thesis using r by (auto simp: settled_def kept_def)
qed

lemma decrypt_settled:
  assumes "settled C t" and "length scope = scopeLen" and "decrypt C now scope t = (Inr u, t')"
  shows "settled C t' \<and> kv_get (keyKey scope) (raw t') = None"
proof -
  have inv: "tx_inv C t" and fit: "fits t" and un: "uniform (raw t)" using assms(1) by (auto simp: settled_def)
  note r = decrypt_spec [OF inv assms(2,3)]
  then obtain c where c: "known C now t scope = Inr c" by blast
  show ?thesis
  proof (cases "crec c = None")
    case True
    then have "quiet C now t t'" using r c by simp
    then show ?thesis using settled_quiet [OF assms(1)] fits_known [OF fit c] True by (auto simp: quiet_def)
  next
    case False
    then have d: "\<forall>k v. plain_key k \<longrightarrow> scopeOf k = scope \<longrightarrow> kv_get k (raw t') = Some v \<longrightarrow> (\<exists>p. v = Seal (skey t) p)"
      "\<forall>k. plain_key k \<longrightarrow> scopeOf k \<noteq> scope \<longrightarrow> kv_get k (raw t') = kv_get k (raw t)"
      "\<forall>x. kv_get (keyKey x) (raw t') = (if x = scope then None else kv_get (keyKey x) (raw t))"
      "sheld t' scope = None" "\<forall>x c. sheld t' x = Some c \<longrightarrow> known C now t x = Inr c"
      using r c by auto
    have "crec c = None \<longleftrightarrow> kv_get (keyKey x) (raw t') = None" if "sheld t' x = Some c" for x c
      using d(3,4,5) that fits_known [OF fit, of C now x c] by (cases "x = scope") auto
    then have "fits t'" by (simp add: fits_def)
    moreover have "uniform (raw t')" unfolding uniform_def
    proof (intro allI impI)
      fix k v assume k: "plain_key k" "scopeOf k \<noteq> []" "kv_get k (raw t') = Some v"
      show "Format v = (if kv_get (keyKey (scopeOf k)) (raw t') = None then ByInstance else ByAccount)"
      proof (cases "scopeOf k = scope")
        case True
        then obtain p where "v = Seal (skey t) p" using d(1) k by blast
        then show ?thesis using d(3) True inv by (simp add: tx_inv_def)
      next
        case False
        then show ?thesis using d(2,3) k un by (simp add: uniform_def)
      qed
    qed
    ultimately show ?thesis using r d(3) by (auto simp: settled_def kept_def)
  qed
qed

text \<open>Rewriting the record of a key that is there changes no other record.\<close>

definition same_keys :: "sealedTx \<Rightarrow> sealedTx \<Rightarrow> bool" where
  "same_keys t t' \<longleftrightarrow> (\<forall>x. kv_get (keyKey x) (raw t') = None \<longleftrightarrow> kv_get (keyKey x) (raw t) = None)"

lemma same_keys_quiet: "quiet C now t t' \<Longrightarrow> same_keys t t'"
  by (simp add: quiet_def same_keys_def)

lemma save_settled:
  assumes "settled C t" and "known C now t scope = Inr c" and "crec c = Some rec" and "ckey c' = ckey c"
    and "crec c' = Some rec'" and "bindT (hold_key scope c') (\<lambda>_. saveKey scope c') t = (Inr u, t')"
  shows "settled C t' \<and> same_keys t t'"
proof -
  have inv: "tx_inv C t" and fit: "fits t" and un: "uniform (raw t)" using assms(1) by (auto simp: settled_def)
  from assms(5,6) obtain v f where f: "kv_put (keyKey scope) v (raw t) = Inr f"
    and t': "t' = t\<lparr>sheld := (sheld t)(scope := Some c'), raw := f\<rparr>"
    by (auto simp: bindT_def hold_key_def saveKey_def raw_put_returns)
  have "ordered_tx (raw t)" using inv by (simp add: tx_inv_def)
  note g = bolt.put_get [OF this f]
  have held: "kv_get (keyKey scope) (raw t) \<noteq> None" using fits_known [OF fit assms(2)] assms(3) by simp
  have "key_ok c'" using known_ok [OF inv assms(2)] assms(4,5) by (simp add: key_ok_def)
  then have "tx_inv C t'" using saved_key [OF inv assms(2,4) _ assms(6)] by (simp add: kept_def)
  moreover have "fits t'" using fit t' g assms(5) by (auto simp: fits_def)
  moreover have "uniform (raw t')"
    using un by (rule uniform_same) (use t' g held keyKey_not_plain in auto)
  ultimately show ?thesis using t' g held by (simp add: settled_def same_keys_def)
qed

definition settles_at :: "crypto \<Rightarrow> time \<Rightarrow> string \<Rightarrow> collKey \<Rightarrow> (err, sealedTx, 'a) prog \<Rightarrow> bool" where
  "settles_at C now scope c m \<longleftrightarrow> (\<forall>t u t'. settled C t \<longrightarrow> known C now t scope = Inr c \<longrightarrow> m t = (Inr u, t') \<longrightarrow>
     settled C t' \<and> same_keys t t')"

lemma settles_return: "settles_at C now scope c (returnT a)"
  by (simp add: settles_at_def returnT_def same_keys_def)

lemma settles_bind:
  assumes q: "quiets C now m" and f: "\<And>a. settles_at C now scope c (f a)"
  shows "settles_at C now scope c (bindT m f)"
  unfolding settles_at_def
proof (intro allI impI)
  fix t u t' assume s: "settled C t" and k: "known C now t scope = Inr c" and run: "bindT m f t = (Inr u, t')"
  from run obtain a t1 where m: "m t = (Inr a, t1)" and r: "f a t1 = (Inr u, t')" by (auto simp: bindT_returns)
  have t1: "quiet C now t t1" using quietsD [OF q _ m] s by (simp add: settled_def)
  have "settled C t' \<and> same_keys t1 t'"
    using f [of a] settled_quiet [OF s t1] quiet_known [OF t1] k r unfolding settles_at_def by metis
  then show "settled C t' \<and> same_keys t t'" using same_keys_quiet [OF t1] by (simp add: same_keys_def)
qed

lemma settles_save:
  "crec c = Some rec \<Longrightarrow> settles_at C now scope c
     (bindT (hold_key scope (c\<lparr>crec := Some rec'\<rparr>)) (\<lambda>_. saveKey scope (c\<lparr>crec := Some rec'\<rparr>)))"
  unfolding settles_at_def using save_settled [where c' = "c\<lparr>crec := Some rec'\<rparr>"] by simp

lemma settles_collection:
  assumes "\<And>c. settles_at C now scope c (f c)" and s: "settled C t" and run: "bindT (collection C now scope) f t = (Inr u, t')"
  shows "settled C t' \<and> same_keys t t'"
proof -
  from run obtain c t1 where c: "collection C now scope t = (Inr c, t1)" and r: "f c t1 = (Inr u, t')" by (auto simp: bindT_returns)
  have "tx_inv C t" using s by (simp add: settled_def)
  from collection_spec [OF this c] have kn: "known C now t scope = Inr c" and q: "quiet C now t t1" by auto
  have "settled C t' \<and> same_keys t1 t'"
    using assms(1) [of c] settled_quiet [OF s q] quiet_known [OF q] kn r unfolding settles_at_def by metis
  then show ?thesis using same_keys_quiet [OF q] by (simp add: same_keys_def)
qed

lemma wrapTo_settled: "settled C t \<Longrightarrow> wrapTo C now scope name t = (Inr u, t') \<Longrightarrow> settled C t' \<and> same_keys t t'"
  unfolding wrapTo_def
  by (rule settles_collection)
     (auto simp: Let_def intro!: settles_return settles_bind ring_quiets settles_save split: option.split)

lemma forT_settled:
  assumes "\<And>x t t'. settled C t \<Longrightarrow> m x t = (Inr (), t') \<Longrightarrow> settled C t' \<and> P t t'"
    and "\<And>t. P t t" and "\<And>t t' t''. P t t' \<Longrightarrow> P t' t'' \<Longrightarrow> P t t''"
  shows "settled C t \<Longrightarrow> forT m xs t = (Inr u, t') \<Longrightarrow> settled C t' \<and> P t t'"
proof (induction xs arbitrary: t)
  case Nil
  then show ?case using assms(2) by (simp add: returnT_returns)
next
  case (Cons x xs)
  from Cons.prems(2) obtain t1 where "m x t = (Inr (), t1)" "forT m xs t1 = (Inr u, t')"
    by (auto simp: bindT_returns)
  then show ?case using Cons.IH assms(1) Cons.prems(1) assms(3) by blast
qed

lemma encrypt_settled:
  assumes s: "settled C t" and "length scope = scopeLen" and run: "encrypt C now fresh scope holders t = (Inr u, t')"
  shows "settled C t' \<and> kv_get (keyKey scope) (raw t') \<noteq> None"
proof -
  from run obtain c t1 where c: "collection C now scope t = (Inr c, t1)"
    and r: "(if crec c \<noteq> None then returnT () else rekey C now fresh scope holders) t1 = (Inr u, t')"
    unfolding encrypt_def bindT_returns by blast
  have "tx_inv C t" and fit: "fits t" using s by (auto simp: settled_def)
  from collection_spec [OF this(1) c] have kn: "known C now t scope = Inr c" and q: "quiet C now t t1" by auto
  note s1 = settled_quiet [OF s q]
  show ?thesis
  proof (cases "crec c = None")
    case True
    then show ?thesis using r rekey_settled [OF s1 assms(2)] by simp
  next
    case False
    then show ?thesis using r s1 fits_known [OF fit kn] q by (auto simp: returnT_def quiet_def)
  qed
qed

lemma rekey_or_encrypt:
  assumes s: "settled C t" and len: "length scope = scopeLen"
    and run: "rekey C now fresh scope holders t = (Inr u, t') \<or> encrypt C now fresh scope holders t = (Inr u, t')"
  shows "settled C t' \<and> kv_get (keyKey scope) (raw t') \<noteq> None \<and> view C now t' = view C now t"
proof -
  have inv: "tx_inv C t" using s by (simp add: settled_def)
  then show ?thesis
    using run rekey_settled [OF s len] encrypt_settled [OF s len] rekey_spec [OF inv len] encrypt_kept [OF inv len]
    unfolding kept_def by blast
qed

lemma reseal_key_settled:
  assumes s: "settled C t" and len: "length scope = scopeLen"
    and run: "reseal_key C now fresh name scope holders t = (Inr u, t')"
  shows "settled C t' \<and> kv_get (keyKey scope) (raw t') \<noteq> None \<and> view C now t' = view C now t"
proof -
  from run obtain c t1 where c: "collection C now scope t = (Inr c, t1)" and rest:
    "(case (ckey c, crec c) of
       (Some _, Some rec) \<Rightarrow> bindT (ring_id now name) (\<lambda>i.
         if wrapped_to rec name \<noteq> i then rekey C now fresh scope holders else encrypt C now fresh scope holders)
     | _ \<Rightarrow> encrypt C now fresh scope holders) t1 = (Inr u, t')"
    unfolding reseal_key_def bindT_returns [of "collection C now scope"] by blast
  have inv: "tx_inv C t" using s by (simp add: settled_def)
  have q: "quiet C now t t1" using collection_spec [OF inv c] by auto
  obtain t2 where q2: "quiet C now t t2" and
    r: "rekey C now fresh scope holders t2 = (Inr u, t') \<or> encrypt C now fresh scope holders t2 = (Inr u, t')"
  proof (cases "ckey c = None \<or> crec c = None")
    case True
    then have "encrypt C now fresh scope holders t1 = (Inr u, t')" using rest by (auto split: option.splits)
    then show ?thesis using that q by blast
  next
    case False
    with rest obtain i t2 where i: "ring_id now name t1 = (Inr i, t2)" and
      r: "rekey C now fresh scope holders t2 = (Inr u, t') \<or> encrypt C now fresh scope holders t2 = (Inr u, t')"
      by (auto simp: bindT_returns [of "ring_id now name"] split: if_splits)
    show ?thesis using that [OF quiet_trans [OF q] r] ring_id_quiet [OF quiet_inv [OF q inv] i] by blast
  qed
  show ?thesis using rekey_or_encrypt [OF settled_quiet [OF s q2] len r] quiet_view [OF q2] by simp
qed

lemma holders_quiet:
  assumes "tx_inv C t" and "reseal_holders C now rnm name scope t = (Inr hs, t')"
  shows "quiet C now t t'"
proof -
  let ?p = "Pim_Name @ ''/shares/'' @ scope @ NUL"
  obtain kvs e where "tx_Scan C now ?p t = ((kvs, e), t')"
    using assms(2) by (auto simp: reseal_holders_def each_def scan_with_def split: prod.splits sum.splits option.splits)
  then show ?thesis using scan_values_spec [OF assms(1)] by (simp add: tx_Scan_def)
qed

lemma wraps_settled:
  assumes "settled C t" and "forT (wrapTo C now scope) hs t = (Inr u, t')"
  shows "settled C t' \<and> same_keys t t' \<and> view C now t' = view C now t"
proof (rule forT_settled [where P = "\<lambda>t t'. same_keys t t' \<and> view C now t' = view C now t", OF _ _ _ assms])
  fix x t t' assume a: "settled C t" "wrapTo C now scope x t = (Inr (), t')"
  then have "tx_inv C t" by (simp add: settled_def)
  then have "kept C now t t'" using wrapTo_keeps [of C now scope x] a(2) unfolding keeps_def by blast
  then show "settled C t' \<and> same_keys t t' \<and> view C now t' = view C now t"
    using wrapTo_settled [OF a] by (simp add: kept_def)
qed (auto simp: same_keys_def)

lemma reseal_own_settled:
  assumes s: "settled C t" and len: "length scope = scopeLen"
    and run: "reseal_own C now fresh rnm name scope t = (Inr u, t')"
  shows "settled C t' \<and> view C now t' = view C now t \<and>
    (kv_get (keyKey scope) (raw t') \<noteq> None \<longleftrightarrow> on (held_account name now (sring t)))"
proof -
  have inv: "tx_inv C t" using s by (simp add: settled_def)
  from run obtain b t1 where b: "ring_on now name t = (Inr b, t1)" and
    rest: "(if \<not> b then decrypt C now scope
     else bindT (reseal_holders C now rnm name scope) (\<lambda>holders.
          bindT (reseal_key C now fresh name scope holders) (\<lambda>_.
          forT (wrapTo C now scope) (tl holders)))) t1 = (Inr u, t')"
    unfolding reseal_own_def bindT_returns [of "ring_on now name"] by blast
  have ok: "ring_ok C (sring t)" using inv by (simp add: tx_inv_def)
  from b have bt: "b = on (held_account name now (sring t))" and "alike C now (sring t) (sring t1)" "t1 = t\<lparr>sring := sring t1\<rparr>"
    using On_alike [OF ok] by (auto simp: ring_on_def On_def ring_get_eq)
  then have q: "quiet C now t t1" using ring_alike_quiet [OF inv] by metis
  note s1 = settled_quiet [OF s q]
  have inv1: "tx_inv C t1" using s1 by (simp add: settled_def)
  show ?thesis
  proof (cases b)
    case False
    then have d: "decrypt C now scope t1 = (Inr u, t')" using rest by simp
    show ?thesis using decrypt_settled [OF s1 len d] decrypt_spec [OF inv1 len d] quiet_view [OF q] bt False
      by (auto simp: kept_def)
  next
    case True
    with rest obtain hs t2 t3 where h: "reseal_holders C now rnm name scope t1 = (Inr hs, t2)"
      and k: "reseal_key C now fresh name scope hs t2 = (Inr (), t3)" and w: "forT (wrapTo C now scope) (tl hs) t3 = (Inr u, t')"
      by (auto simp: bindT_returns)
    note q2 = holders_quiet [OF inv1 h]
    note k3 = reseal_key_settled [OF settled_quiet [OF s1 q2] len k]
    have "settled C t3" using k3 by blast
    from wraps_settled [OF this w] show ?thesis
      using k3 quiet_view [OF q] quiet_view [OF q2] bt True by (auto simp: same_keys_def)
  qed
qed



text \<open>A store with one record under the instance's key.\<close>

definition one_pim :: pimDB where
  "one_pim = \<lparr>pdb = \<lparr>entries = [(lost_record, Seal (Root_Key sample_crypto sample_root Pim_Name) (VText ''x''))],
       put_refused = (\<lambda>_ _. None), delete_refused = (\<lambda>_. None)\<rparr>,
     pkey = Root_Key sample_crypto sample_root Pim_Name, pring = sample_ring\<rparr>"

lemma one_pim_ok: "db_ok sample_crypto one_pim" "uniform (pdb one_pim)" "known sample_crypto 100 (begin_tx True one_pim) lost_scope = Inr no_key"
proof -
  have fmt: "key_format (pkey one_pim) = ByInstance" by (simp add: one_pim_def sample_root_def)
  have ord: "ordered_tx (pdb one_pim)" by (simp add: ordered_tx_def one_pim_def ordered_Cons)
  have get: "kv_get k (pdb one_pim) = (if k = lost_record then Some (Seal (pkey one_pim) (VText ''x'')) else None)" for k
    by (simp add: kv_get_def one_pim_def)
  show "db_ok sample_crypto one_pim"
    using ord fmt get lost_pim_facts(3) ring_ok_sample(1)
    by (auto simp: db_ok_def tx_inv_def begin_tx_def split: if_splits) (simp add: one_pim_def)
  have nk: "kv_get (keyKey x) (pdb one_pim) = None" for x
    using get keyKey_not_plain [OF lost_pim_facts(3), of x] by auto
  show "uniform (pdb one_pim)" using get nk fmt by (auto simp: uniform_def split: if_splits)
  show "known sample_crypto 100 (begin_tx True one_pim) lost_scope = Inr no_key"
    using nk by (simp add: known_def key_on_file_def begin_tx_def)
qed


lemma one_pim_scans:
  "map (\<lambda>p. kv_scan p (pdb one_pim)) (prefixesOf lost_scope) = [entries (pdb one_pim), [], [], []]"
proof -
  have "ordered_tx (pdb one_pim)" by (simp add: ordered_tx_def one_pim_def ordered_Cons)
  then show ?thesis by (simp add: kv_scan_filter prefixesOf_def one_pim_def lost_record_def)
qed

lemma one_pim_rekey:
  "\<exists>t'. rekey sample_crypto 100 ''f'' lost_scope [] (begin_tx True one_pim) = (Inr (), t') \<and> kv_get lost_record (raw t') \<noteq> None"
proof -
  let ?t = "begin_tx True one_pim"
  have nk: "kv_get (keyKey lost_scope) (pdb one_pim) = None"
    using keyKey_not_plain [OF lost_pim_facts(3), of lost_scope] by (auto simp: kv_get_def one_pim_def)
  have fmt: "key_format (pkey one_pim) = ByInstance" by (simp add: one_pim_def sample_root_def)
  have e: "entries (pdb one_pim) = [(lost_record, Seal (pkey one_pim) (VText ''x''))]" by (simp add: one_pim_def)
  obtain t1 where c: "collection sample_crypto 100 lost_scope ?t = (Inr no_key, t1)"
    and t1: "raw t1 = pdb one_pim" "skey t1 = pkey one_pim"
    using nk by (simp add: collection_def begin_tx_def)
  have v: "tx_values sample_crypto 100 lost_scope t1 = (Inr [(lost_record, VText ''x'')], t1)"
    using one_pim_scans t1 e fmt
    by (simp add: tx_values_def prefixesOf_def bindT_def raw_scan_def returnT_def open_value_def Open_Seal)
  have "put_refused (pdb one_pim) k x = None" for k x by (simp add: one_pim_def)
  then show ?thesis
    using c v t1
    by (auto simp: rekey_def bindT_def no_key_def ck_locked_def seal_anew_def instance_seal_def returnT_def hold_key_def
        saveKey_def raw_put_def kv_put_def kv_get_def map_of_put_entry Let_def)
qed


end
