(* ===== verification/Dav_Paths.thy ===== *)
theory Dav_Paths
  imports Collections
begin

text \<open>
  The addresses of the store's DAV server (the first half of \<^verbatim>\<open>pim/store/paths.go\<close>): how a
  collection is named for the account that looks at it, and how a request's path is read back.
  \<^verbatim>\<open>url.PathEscape\<close> and \<^verbatim>\<open>url.PathUnescape\<close> are written out over bytes. A request's path
  reaches \<open>parsePath\<close> unescaped.
\<close>

subsection \<open>Escaping a path segment\<close>

definition upper_hex :: "nat \<Rightarrow> char" where
  "upper_hex d = char_of (if d < 10 then 48 + d else 55 + d)"

definition is_alnum :: "char \<Rightarrow> bool" where
  "is_alnum c \<longleftrightarrow> (let n = (of_char c :: nat) in
     48 \<le> n \<and> n \<le> 57 \<or> 65 \<le> n \<and> n \<le> 90 \<or> 97 \<le> n \<and> n \<le> 122)"

definition shouldEscape :: "char \<Rightarrow> bool" where
  "shouldEscape c \<longleftrightarrow> \<not> (is_alnum c \<or> c \<in> set ''-_.~'' \<or> c \<in> set ''$&+=:@'')"

definition escape_char :: "char \<Rightarrow> string" where
  "escape_char c = (if shouldEscape c then [CHR ''%'', upper_hex (of_char c div 16), upper_hex (of_char c mod 16)] else [c])"

definition PathEscape :: "string \<Rightarrow> string" where
  "PathEscape s = concat (map escape_char s)"

definition unhex :: "char \<Rightarrow> nat option" where
  "unhex c = (let n = (of_char c :: nat) in
     if 48 \<le> n \<and> n \<le> 57 then Some (n - 48)
     else if 97 \<le> n \<and> n \<le> 102 then Some (n - 87)
     else if 65 \<le> n \<and> n \<le> 70 then Some (n - 55) else None)"

fun PathUnescape :: "string \<Rightarrow> string option" where
  "PathUnescape [] = Some []"
| "PathUnescape (c # cs) =
     (if c = CHR ''%'' then (case cs of
          a # b # rest \<Rightarrow> (case (unhex a, unhex b) of
              (Some i, Some j) \<Rightarrow> map_option (\<lambda>s. char_of (16 * i + j) # s) (PathUnescape rest)
            | _ \<Rightarrow> None)
        | _ \<Rightarrow> None)
      else map_option (\<lambda>s. c # s) (PathUnescape cs))"

subsection \<open>Paths\<close>

definition Prefix :: string where
  "Prefix = ''/alborz/dav''"

definition homes :: "Kind \<Rightarrow> string" where
  "homes kind = (if kind = Calendar then ''calendars'' else if kind = AddressBook then ''addressbooks'' else [])"

definition aliasSep :: char where
  "aliasSep = CHR ''~''"

definition nameRule :: "string \<Rightarrow> bool" where
  "nameRule s \<longleftrightarrow> 1 \<le> length s \<and> length s \<le> 120 \<and> list_all (\<lambda>c. is_alnum c \<or> c \<in> set ''._@-'') s"

definition ValidName :: "string \<Rightarrow> bool" where
  "ValidName s \<longleftrightarrow> nameRule s \<and> s \<noteq> ''.'' \<and> s \<noteq> ''..''"

definition principalPath :: "string \<Rightarrow> string" where
  "principalPath address = Prefix @ ''/principals/'' @ PathEscape address @ ''/''"

definition HomePath :: "Kind \<Rightarrow> string \<Rightarrow> string" where
  "HomePath kind address = Prefix @ ''/'' @ homes kind @ ''/'' @ PathEscape address @ ''/''"

definition PathOf :: "string \<Rightarrow> Collection \<Rightarrow> string" where
  "PathOf viewer c =
     (let name = cID c @ (if EqualFold viewer (cOwner c) then [] else [aliasSep] @ cOwner c)
      in HomePath (cKind c) (ToLower viewer) @ PathEscape name @ ''/'')"

record place =
  pKind :: Kind
  pHome :: string
  pRef :: Ref
  pObject :: string

definition no_place :: place where
  "no_place = \<lparr>pKind = [], pHome = [], pRef = \<lparr>refOwner = [], refID = []\<rparr>, pObject = []\<rparr>"

definition errNoSuchPath :: err where
  "errNoSuchPath = ErrHTTP 404 (ErrOther ''no such path'')"

definition errBadName :: err where
  "errBadName = ErrHTTP 400 (ErrOther ''names are letters, digits, and . _ @ -'')"

definition kind_of :: "string \<Rightarrow> Kind" where
  "kind_of segment = (if segment = homes Calendar then Calendar
     else if segment = homes AddressBook then AddressBook else [])"

definition place_in :: "place \<Rightarrow> string \<Rightarrow> string \<Rightarrow> err + place" where
  "place_in at segment object = (case Cut aliasSep segment of (name, owner, shared) \<Rightarrow>
     let at1 = at\<lparr>pRef := \<lparr>refOwner = (if shared then ToLower owner else pHome at), refID = name\<rparr>, pObject := object\<rparr>
     in if \<not> ValidName name \<or> object \<noteq> [] \<and> \<not> ValidName object then Inl errBadName else Inr at1)"

definition parsePath :: "string \<Rightarrow> err + place" where
  "parsePath p = (case CutPrefix (Prefix @ ''/'') p of
       None \<Rightarrow> Inl errNoSuchPath
     | Some rest \<Rightarrow>
         let parts = Split (CHR ''/'') (TrimSuffix ''/'' rest);
             kind = kind_of (hd parts)
         in if kind = [] \<or> length parts < 2 \<or> 4 < length parts then Inl errNoSuchPath
            else let at = no_place\<lparr>pKind := kind, pHome := ToLower (parts ! 1)\<rparr>
                 in if length parts = 2 then Inr at
                    else place_in at (parts ! 2) (if length parts = 4 then parts ! 3 else []))"

definition Held :: "string \<Rightarrow> Ref \<times> string \<times> bool" where
  "Held p = (case parsePath p of
       Inl _ \<Rightarrow> (pRef no_place, [], False)
     | Inr at \<Rightarrow> (pRef at, pHome at, refID (pRef at) \<noteq> []))"

definition HeldObject :: "string \<Rightarrow> Ref \<times> string \<times> bool" where
  "HeldObject p = (case parsePath p of
       Inl _ \<Rightarrow> (pRef no_place, [], False)
     | Inr at \<Rightarrow> (pRef at, pObject at, pObject at \<noteq> []))"

subsection \<open>Reading back what was written\<close>

lemma unhex_upper_hex: "d < 16 \<Longrightarrow> unhex (upper_hex d) = Some d"
  by (simp add: unhex_def upper_hex_def Let_def)

lemma not_escaped: "\<not> shouldEscape c \<Longrightarrow> c \<noteq> CHR ''%'' \<and> c \<noteq> CHR ''/''"
  by (auto simp: shouldEscape_def is_alnum_def Let_def)

lemma PathUnescape_char: "PathUnescape (escape_char c @ s) = map_option ((#) c) (PathUnescape s)"
proof (cases "shouldEscape c")
  case True
  have "(of_char c :: nat) < 256" by simp
  then have "(of_char c :: nat) div 16 < 16" by (simp only: div_less_iff_less_mult)
  then have "unhex (upper_hex (of_char c div 16)) = Some (of_char c div 16)"
    and "unhex (upper_hex (of_char c mod 16)) = Some (of_char c mod 16)"
    by (simp_all add: unhex_upper_hex)
  then show ?thesis using True by (simp add: escape_char_def)
next
  case False
  then show ?thesis using not_escaped [OF False] by (simp add: escape_char_def)
qed

lemma PathUnescape_Escape: "PathUnescape (PathEscape a @ s) = map_option ((@) a) (PathUnescape s)"
  by (induction a; cases "PathUnescape s") (simp_all add: PathEscape_def PathUnescape_char)

lemma PathUnescape_plain: "CHR ''%'' \<notin> set a \<Longrightarrow> PathUnescape (a @ s) = map_option ((@) a) (PathUnescape s)"
  by (induction a; cases "PathUnescape s") auto

lemma ValidName_chars:
  assumes "ValidName s"
  shows "CHR ''/'' \<notin> set s" "CHR ''%'' \<notin> set s" "aliasSep \<notin> set s" "s \<noteq> []"
proof -
  have ok: "is_alnum c \<or> c \<in> set ''._@-''" if "c \<in> set s" for c
    using assms that by (simp add: ValidName_def nameRule_def list_all_iff)
  have "\<not> (is_alnum c \<or> c \<in> set ''._@-'')" if "c \<in> {CHR ''/'', CHR ''%'', aliasSep}" for c
    using that by (auto simp: is_alnum_def Let_def aliasSep_def)
  with ok show "CHR ''/'' \<notin> set s" "CHR ''%'' \<notin> set s" "aliasSep \<notin> set s" by blast+
  show "s \<noteq> []" using assms by (auto simp: ValidName_def nameRule_def)
qed

lemma homes_plain: "CHR ''%'' \<notin> set (homes kind)" "CHR ''/'' \<notin> set (homes kind)"
  by (simp_all add: homes_def)

lemma kind_of_homes: "kind \<in> {Calendar, AddressBook} \<Longrightarrow> kind_of (homes kind) = kind \<and> kind \<noteq> []"
  by (auto simp: kind_of_def homes_def Calendar_def AddressBook_def)

lemma ToLower_slash: "CHR ''/'' \<notin> set s \<Longrightarrow> CHR ''/'' \<notin> set (ToLower s)"
  by (auto simp: ToLower_def lower_char_def image_iff split: if_splits dest!: arg_cong [of _ _ "of_char :: char \<Rightarrow> nat"])

definition shown_as :: "string \<Rightarrow> Collection \<Rightarrow> string" where
  "shown_as viewer c = cID c @ (if EqualFold viewer (cOwner c) then [] else [aliasSep] @ cOwner c)"

lemma PathOf_decoded:
  assumes "CHR ''%'' \<notin> set obj"
  shows "PathUnescape (PathOf viewer c @ obj) =
    Some (Prefix @ ''/'' @ homes (cKind c) @ ''/'' @ ToLower viewer @ ''/'' @ shown_as viewer c @ ''/'' @ obj)"
proof -
  have o: "PathUnescape obj = Some obj" using PathUnescape_plain [OF assms, of "[]"] by simp
  have p: "CHR ''%'' \<notin> set (Prefix @ ''/'')" by (simp add: Prefix_def)
  have e: "PathOf viewer c @ obj = (Prefix @ ''/'') @ homes (cKind c) @ ''/'' @ PathEscape (ToLower viewer) @ ''/'' @
      PathEscape (shown_as viewer c) @ ''/'' @ obj"
    by (simp add: PathOf_def HomePath_def shown_as_def Let_def)
  show ?thesis
    unfolding e PathUnescape_plain [OF p] PathUnescape_plain [OF homes_plain(1)] PathUnescape_Escape
    by (simp add: PathUnescape_Escape o)
qed

lemma TrimSuffix_slash: "CHR ''/'' \<notin> set obj \<Longrightarrow> obj \<noteq> [] \<Longrightarrow> TrimSuffix ''/'' (s @ obj) = s @ obj"
  by (cases obj rule: rev_cases) (auto simp: TrimSuffix_def suffix_def)

lemma Split_place:
  assumes "CHR ''/'' \<notin> set h" and "CHR ''/'' \<notin> set u" and "CHR ''/'' \<notin> set n" and "CHR ''/'' \<notin> set obj"
  shows "Split (CHR ''/'') (TrimSuffix ''/'' (h @ ''/'' @ u @ ''/'' @ n @ ''/'' @ obj)) =
    (if obj = [] then [h, u, n] else [h, u, n, obj])"
proof (cases "obj = []")
  case True
  then have "TrimSuffix ''/'' (h @ ''/'' @ u @ ''/'' @ n @ ''/'' @ obj) = h @ ''/'' @ u @ ''/'' @ n"
    using TrimSuffix_append [of "''/''" "h @ ''/'' @ u @ ''/'' @ n"] by simp
  then show ?thesis using True assms by simp
next
  case False
  then have "TrimSuffix ''/'' (h @ ''/'' @ u @ ''/'' @ n @ ''/'' @ obj) = h @ ''/'' @ u @ ''/'' @ n @ ''/'' @ obj"
    using TrimSuffix_slash [OF assms(4), of "h @ ''/'' @ u @ ''/'' @ n @ ''/''"] by simp
  then show ?thesis using False assms by simp
qed

text \<open>
  C31: the address of a collection, or of an object in it, leads back to it: what the server gives
  a viewer for a collection with a valid name, unescaped as a request's path is, is read as the
  viewer's home and exactly that collection of that owner, whether it is the viewer's own or
  shared with it.
\<close>

theorem parsePath_PathOf:
  assumes "cKind c \<in> {Calendar, AddressBook}" and "ValidName (cID c)" and "obj = [] \<or> ValidName obj"
    and "CHR ''/'' \<notin> set viewer" and "CHR ''/'' \<notin> set (cOwner c)"
  shows "map_option parsePath (PathUnescape (PathOf viewer c @ obj)) =
    Some (Inr \<lparr>pKind = cKind c, pHome = ToLower viewer, pRef = \<lparr>refOwner = ToLower (cOwner c), refID = cID c\<rparr>, pObject = obj\<rparr>)"
proof -
  let ?h = "homes (cKind c)" let ?u = "ToLower viewer" let ?n = "shown_as viewer c"
  have obj: "CHR ''%'' \<notin> set obj" "CHR ''/'' \<notin> set obj" using assms(3) ValidName_chars by auto
  have n: "CHR ''/'' \<notin> set ?n" using ValidName_chars(1) [OF assms(2)] assms(5) by (auto simp: shown_as_def aliasSep_def)
  have split: "Split (CHR ''/'') (TrimSuffix ''/'' (?h @ ''/'' @ ?u @ ''/'' @ ?n @ ''/'' @ obj)) =
      (if obj = [] then [?h, ?u, ?n] else [?h, ?u, ?n, obj])"
    by (rule Split_place) (use homes_plain(2) ToLower_slash [OF assms(4)] n obj(2) in auto)
  have cut: "Cut aliasSep ?n = (cID c, if EqualFold viewer (cOwner c) then [] else cOwner c, \<not> EqualFold viewer (cOwner c))"
    using ValidName_chars(3) [OF assms(2)] by (simp add: shown_as_def)
  have "CutPrefix (Prefix @ ''/'') (Prefix @ ''/'' @ ?h @ ''/'' @ ?u @ ''/'' @ ?n @ ''/'' @ obj) =
      Some (?h @ ''/'' @ ?u @ ''/'' @ ?n @ ''/'' @ obj)"
    using CutPrefix_append [of "Prefix @ ''/''"] by simp
  then have "parsePath (Prefix @ ''/'' @ ?h @ ''/'' @ ?u @ ''/'' @ ?n @ ''/'' @ obj) =
      place_in (no_place\<lparr>pKind := cKind c, pHome := ?u\<rparr>) ?n obj"
    using split kind_of_homes [OF assms(1)] by (simp add: parsePath_def Let_def)
  also have "\<dots> = Inr \<lparr>pKind = cKind c, pHome = ?u, pRef = \<lparr>refOwner = ToLower (cOwner c), refID = cID c\<rparr>, pObject = obj\<rparr>"
    using assms(2,3) cut by (auto simp: place_in_def Let_def no_place_def EqualFold_def)
  finally show ?thesis by (simp add: PathOf_decoded [OF obj(1)])
qed

text \<open>
  C32: whatever path a request names, a place read from it is well formed: one of the two kinds, a
  home and an owner in lower case, a collection name and an object name the rule for names
  accepts, and an object only inside a collection.
\<close>

theorem parsePath_well_formed:
  assumes "parsePath p = Inr at"
  shows "pKind at \<in> {Calendar, AddressBook} \<and> ToLower (pHome at) = pHome at \<and>
    ToLower (refOwner (pRef at)) = refOwner (pRef at) \<and>
    (refID (pRef at) \<noteq> [] \<longrightarrow> ValidName (refID (pRef at))) \<and>
    (pObject at \<noteq> [] \<longrightarrow> ValidName (pObject at) \<and> ValidName (refID (pRef at)))"
  using assms
  by (auto simp: parsePath_def place_in_def Let_def no_place_def kind_of_def ToLower_def [of "[]"]
      split: option.splits if_splits prod.splits)

lemma sample_names_valid: "ValidName ''work''" "ValidName ''a.ics''"
  by code_simp+

theorem parsePath_PathOf_witness:
  "map_option parsePath (PathUnescape (PathOf ''Bob@a.org''
      (zero_Collection\<lparr>cID := ''work'', cOwner := ''ann+x#y@a.org'', cKind := Calendar\<rparr>) @ ''a.ics'')) =
    Some (Inr \<lparr>pKind = Calendar, pHome = ''bob@a.org'', pRef = \<lparr>refOwner = ''ann+x#y@a.org'', refID = ''work''\<rparr>, pObject = ''a.ics''\<rparr>)"
proof -
  have "ToLower ''Bob@a.org'' = ''bob@a.org''" "ToLower ''ann+x#y@a.org'' = ''ann+x#y@a.org''" by code_simp+
  then show ?thesis
    using parsePath_PathOf [of "zero_Collection\<lparr>cID := ''work'', cOwner := ''ann+x#y@a.org'', cKind := Calendar\<rparr>" "''a.ics''" "''Bob@a.org''"]
      sample_names_valid by simp
qed

theorem parsePath_well_formed_witness:
  "\<exists>at. parsePath ''/alborz/dav/calendars/Bob/work~Ann/a.ics'' = Inr at \<and> ToLower (refOwner (pRef at)) = refOwner (pRef at)"
proof -
  have "parsePath ''/alborz/dav/calendars/Bob/work~Ann/a.ics'' =
      Inr \<lparr>pKind = ''calendar'', pHome = ''bob'', pRef = \<lparr>refOwner = ''ann'', refID = ''work''\<rparr>, pObject = ''a.ics''\<rparr>" by code_simp
  with parsePath_well_formed [OF this] show ?thesis by simp
qed

text \<open>
  The pages read the same address without unescaping it (\<^verbatim>\<open>Held\<close> of \<^verbatim>\<open>PathOf\<close>), which
  names another owner as soon as an address holds a character that is escaped.
\<close>

lemma Held_misses_escaped_owner:
  "Held (PathOf ''bob@a.org'' (zero_Collection\<lparr>cID := ''work'', cOwner := ''o!ann@a.org'', cKind := Calendar\<rparr>)) =
    (\<lparr>refOwner = ''o%21ann@a.org'', refID = ''work''\<rparr>, ''bob@a.org'', True)"
  by code_simp

end
