(* ===== verification/Dav_Backend.thy ===== *)
theory Dav_Backend
  imports Dav_Paths Collection_Props
begin

text \<open>
  The DAV backends over the store (the second half of \<^verbatim>\<open>pim/store/paths.go\<close>, and
  \<^verbatim>\<open>pim/store/caldav.go\<close> and \<^verbatim>\<open>pim/store/carddav.go\<close>).

  An operation is a program over the store \<open>pimDB\<close>; each call of a \<^verbatim>\<open>Store\<close> method is its own
  transaction, run with the clock it reads: \<open>t0\<close> where the request is let in, \<open>t1\<close> where it
  writes. \<open>D\<close> holds what a request carries or the store was made with: the cryptography, the
  keyed naming, the tag of bytes and the account of the context. The conditions of a request
  (\<^verbatim>\<open>webdav.ConditionalMatch\<close>), the iCalendar and vCard codecs and the query filters are
  third-party code and arguments of the definitions; \<open>unset\<close> is the condition a request
  does not have.
\<close>

record dav =
  dCrypto :: crypto
  dNames :: naming
  dETagOf :: "string \<Rightarrow> string"
  dUser :: string

definition As :: "dav \<Rightarrow> string \<Rightarrow> dav" where
  "As D address = D\<lparr>dUser := ToLower address\<rparr>"

type_synonym 'a request = "(err, pimDB, 'a) prog"

subsection \<open>Errors\<close>

fun err_is :: "err \<Rightarrow> err \<Rightarrow> bool" where
  "err_is (ErrHTTP code cause) target = (ErrHTTP code cause = target \<or> err_is cause target)"
| "err_is e target = (e = target)"

definition httpError :: "nat \<Rightarrow> err \<Rightarrow> err" where
  "httpError code cause = ErrHTTP code cause"

definition errForbidden :: err where
  "errForbidden = httpError 403 (ErrOther ''not yours to change'')"

definition errNotFound :: err where
  "errNotFound = httpError 404 ErrNotFound"

definition storeError :: "err \<Rightarrow> err" where
  "storeError e =
     (if err_is e ErrNotFound then errNotFound
      else if err_is e ErrForbidden then errForbidden
      else if err_is e ErrExists then httpError 405 e
      else if err_is e ErrPrecondition then httpError 412 e
      else e)"

definition stored_as :: "'a request \<Rightarrow> 'a request" where
  "stored_as m s = (case m s of (Inl e, s') \<Rightarrow> (Inl (storeError e), s') | (Inr a, s') \<Rightarrow> (Inr a, s'))"

subsection \<open>Reaching a collection\<close>

definition may :: "dav \<Rightarrow> Ref \<Rightarrow> string \<Rightarrow> time \<Rightarrow> (Collection \<times> access) request" where
  "may D ref address now = db_View (allowed (sealed_ops (dCrypto D) now) (dNames D) ref address now)"

definition reachAt :: "dav \<Rightarrow> place \<Rightarrow> Kind \<Rightarrow> time \<Rightarrow> (place \<times> Collection \<times> access) request" where
  "reachAt D at kind now =
     (if pKind at \<noteq> kind \<or> pHome at \<noteq> dUser D then failT errNotFound
      else (\<lambda>s. case may D (pRef at) (dUser D) now s of
          (Inl e, s') \<Rightarrow> (Inl (if err_is e ErrNotFound then errNotFound else e), s')
        | (Inr (c, m), s') \<Rightarrow> (if cKind c \<noteq> kind then Inl errNotFound else Inr (at, c, m), s')))"

definition reach :: "dav \<Rightarrow> string \<Rightarrow> Kind \<Rightarrow> time \<Rightarrow> (place \<times> Collection \<times> access) request" where
  "reach D p kind now = bindT (liftT (parsePath p)) (\<lambda>at. reachAt D at kind now)"

definition dav_object :: "dav \<Rightarrow> string \<Rightarrow> Kind \<Rightarrow> time \<Rightarrow> time \<Rightarrow> Object request" where
  "dav_object D p kind t0 t1 = bindT (reach D p kind t0) (\<lambda>(at, _, _).
     stored_as (db_View (Object_get (sealed_ops (dCrypto D) t1) (dNames D) (pRef at) (pObject at))))"

definition dav_objects :: "dav \<Rightarrow> string \<Rightarrow> Kind \<Rightarrow> time \<Rightarrow> time \<Rightarrow> Object list request" where
  "dav_objects D p kind t0 t1 = bindT (reach D p kind t0) (\<lambda>(at, _, _).
     db_View (Objects (sealed_ops (dCrypto D) t1) (dNames D) (pRef at)))"

definition objectAs :: "dav \<Rightarrow> string \<Rightarrow> Kind \<Rightarrow> (string \<Rightarrow> Object \<Rightarrow> 'a) \<Rightarrow> time \<Rightarrow> time \<Rightarrow> 'a request" where
  "objectAs D p kind convert t0 t1 = bindT (dav_object D p kind t0 t1) (\<lambda>ob. returnT (convert p ob))"

definition objectsAs :: "dav \<Rightarrow> string \<Rightarrow> Kind \<Rightarrow> (string \<Rightarrow> Object \<Rightarrow> 'a) \<Rightarrow> time \<Rightarrow> time \<Rightarrow> 'a list request" where
  "objectsAs D p kind convert t0 t1 = bindT (dav_objects D p kind t0 t1) (\<lambda>obs.
     returnT (map (\<lambda>ob. convert (path_Join p (oName ob)) ob) obs))"

definition queryObjects :: "Object list \<Rightarrow> string \<Rightarrow> (string \<Rightarrow> Object \<Rightarrow> 'a) \<Rightarrow> ('a \<Rightarrow> string \<Rightarrow> 'a) \<Rightarrow> 'a list" where
  "queryObjects obs coll build prepare = map (\<lambda>ob. prepare (build (path_Join coll (oName ob)) ob) (oData ob)) obs"

definition visibleOne :: "dav \<Rightarrow> string \<Rightarrow> Kind \<Rightarrow> (string \<Rightarrow> Collection \<Rightarrow> access \<Rightarrow> err + 'a) \<Rightarrow> time \<Rightarrow> 'a request" where
  "visibleOne D p kind convert now = bindT (reach D p kind now) (\<lambda>(_, c, m). liftT (convert (dUser D) c m))"

fun convert_all :: "('x \<Rightarrow> err + 'a) \<Rightarrow> 'x list \<Rightarrow> err + 'a list" where
  "convert_all f [] = Inr []"
| "convert_all f (x # xs) = bindE (f x) (\<lambda>y. bindE (convert_all f xs) (\<lambda>ys. Inr (y # ys)))"

definition visible :: "dav \<Rightarrow> Kind \<Rightarrow> (string \<Rightarrow> Collection \<Rightarrow> access \<Rightarrow> err + 'a) \<Rightarrow> time \<Rightarrow> 'a list request" where
  "visible D kind convert now = bindT (db_View (Visible (sealed_ops (dCrypto D) now) (dNames D) (dUser D) kind now)) (\<lambda>seen.
     liftT (convert_all (\<lambda>(c, m). convert (dUser D) c m) seen))"

subsection \<open>Changing one\<close>

type_synonym condition = "string \<Rightarrow> err + bool \<times> bool"

definition conditions :: "condition \<Rightarrow> condition \<Rightarrow> Unless" where
  "conditions ifMatch ifNoneMatch = Some (\<lambda>held. case ifMatch held of
       Inl e \<Rightarrow> Some (httpError 400 e)
     | Inr (must, matched) \<Rightarrow>
         if must \<and> \<not> matched then Some ErrPrecondition
         else (case ifNoneMatch held of
             Inl e \<Rightarrow> Some (httpError 400 e)
           | Inr (mustNot, clashed) \<Rightarrow> if mustNot \<and> clashed then Some ErrPrecondition else None))"

definition dav_write :: "dav \<Rightarrow> string \<Rightarrow> Kind \<Rightarrow> string \<Rightarrow> string \<Rightarrow> condition \<Rightarrow> condition \<Rightarrow> (Collection \<Rightarrow> err option) \<Rightarrow>
    time \<Rightarrow> time \<Rightarrow> Object request" where
  "dav_write D p kind uid data ifMatch ifNoneMatch takes t0 t1 = bindT (reach D p kind t0) (\<lambda>(at, c, m).
     if rank_of m < rank_of write_access \<or> pObject at = [] then failT errForbidden
     else (case takes c of
         Some e \<Rightarrow> failT e
       | None \<Rightarrow> stored_as (db_Update (PutObject (sealed_ops (dCrypto D) t1) (dNames D) (dETagOf D) (pRef at) (pObject at)
           uid data (conditions ifMatch ifNoneMatch) (dUser D) t1))))"

definition dav_create :: "dav \<Rightarrow> string \<Rightarrow> string \<Rightarrow> Collection \<Rightarrow> time \<Rightarrow> unit request" where
  "dav_create D fresh p c now = bindT (liftT (parsePath p)) (\<lambda>at.
     if pKind at \<noteq> cKind c \<or> pHome at \<noteq> dUser D \<or> refOwner (pRef at) \<noteq> pHome at \<or> refID (pRef at) = [] \<or> pObject at \<noteq> []
     then failT errForbidden
     else (let c1 = c\<lparr>cID := refID (pRef at), cOwner := pHome at\<rparr>;
               c2 = (if cName c1 = [] then c1\<lparr>cName := cID c1\<rparr> else c1)
           in (\<lambda>s. bindT (stored_as (db_Update (Create (sealed_ops (dCrypto D) now) (dNames D) (Ring_Name (dCrypto D) (pring s)) fresh [] c2)))
                     (\<lambda>_. returnT ()) s)))"

type_synonym xml_name = "string \<times> string"

definition deadOf :: "Collection \<Rightarrow> (xml_name \<times> string) list" where
  "deadOf c = map (\<lambda>d. ((dSpace d, dLocal d), dXML d)) (cDead c)"

definition keepDead :: "xml_name list \<Rightarrow> (xml_name \<times> string) list \<Rightarrow> Collection \<Rightarrow> Collection" where
  "keepDead removed given c =
     (let gone = removed @ map fst given
      in c\<lparr>cDead := filter (\<lambda>d. (dSpace d, dLocal d) \<notin> set gone) (cDead c) @
                    map (\<lambda>(n, x). \<lparr>dSpace = fst n, dLocal = snd n, dXML = x\<rparr>) given\<rparr>)"

definition set_to :: "string \<Rightarrow> string option \<Rightarrow> string" where
  "set_to to from = (case from of None \<Rightarrow> to | Some x \<Rightarrow> x)"

definition dav_update :: "dav \<Rightarrow> string \<Rightarrow> Kind \<Rightarrow> (Collection \<Rightarrow> Collection) \<Rightarrow> time \<Rightarrow> time \<Rightarrow> unit request" where
  "dav_update D p kind ch t0 t1 = bindT (reach D p kind t0) (\<lambda>(at, _, m).
     if m \<noteq> own_access \<or> pObject at \<noteq> [] then failT errForbidden
     else bindT (stored_as (db_Update (Update_collection (sealed_ops (dCrypto D) t1) (dNames D) (pRef at) ch t1))) (\<lambda>_. returnT ()))"

definition removeWithOptions :: "dav \<Rightarrow> condition \<Rightarrow> string \<Rightarrow> Kind \<Rightarrow> (condition \<times> condition) option \<Rightarrow> time \<Rightarrow> time \<Rightarrow> unit request" where
  "removeWithOptions D unset p kind opts t0 t1 =
     (let (ifMatch, ifNoneMatch) = (case opts of None \<Rightarrow> (unset, unset) | Some o1 \<Rightarrow> o1); X = sealed_ops (dCrypto D) t1
      in bindT (reach D p kind t0) (\<lambda>(at, _, m).
        if pObject at = [] \<and> m = own_access
          then bindT (stored_as (db_Update (Delete_collection X (dNames D) (pRef at) t1))) (\<lambda>_. returnT ())
        else if pObject at = []
          then bindT (stored_as (db_Update (Answer X (dNames D) (pRef at) (dUser D) False t1))) (\<lambda>_. returnT ())
        else if rank_of m < rank_of write_access then failT errForbidden
        else stored_as (db_Update (RemoveObject X (dNames D) (pRef at) (pObject at) (conditions ifMatch ifNoneMatch) (dUser D) t1))))"

definition dav_remove :: "dav \<Rightarrow> condition \<Rightarrow> string \<Rightarrow> Kind \<Rightarrow> condition \<Rightarrow> time \<Rightarrow> time \<Rightarrow> unit request" where
  "dav_remove D unset p kind ifMatch t0 t1 = removeWithOptions D unset p kind (Some (ifMatch, unset)) t0 t1"

subsection \<open>The calendar backend\<close>

record 'cal davCalendar =
  dcPath :: string
  dcName :: string
  dcDescription :: string
  dcColor :: string
  dcComponents :: "string list"
  dcRScales :: "string list"
  dcReadOnly :: bool
  dcCTag :: string
  dcDead :: "(xml_name \<times> string) list"
  dcTimezone :: "'cal option"

definition calendarOf :: "string list \<Rightarrow> (string \<Rightarrow> err + 'cal) \<Rightarrow> string \<Rightarrow> Collection \<Rightarrow> access \<Rightarrow> err + 'cal davCalendar" where
  "calendarOf rscales decode viewer c m =
     (let cal = \<lparr>dcPath = PathOf viewer c, dcName = cName c, dcDescription = cDescription c, dcColor = cColor c,
                 dcComponents = cComponents c, dcRScales = rscales,
                 dcReadOnly = (rank_of m < rank_of write_access \<or> cFeed c \<noteq> None),
                 dcCTag = FormatUint (unat (CTag c)), dcDead = deadOf c, dcTimezone = None\<rparr>
      in if cTimezone c = [] then Inr cal
         else bindE (decode (cTimezone c)) (\<lambda>z. Inr (cal\<lparr>dcTimezone := Some z\<rparr>)))"

definition ListCalendars :: "dav \<Rightarrow> string list \<Rightarrow> (string \<Rightarrow> err + 'cal) \<Rightarrow> time \<Rightarrow> 'cal davCalendar list request" where
  "ListCalendars D rscales decode now = visible D Calendar (calendarOf rscales decode) now"

definition GetCalendar :: "dav \<Rightarrow> string list \<Rightarrow> (string \<Rightarrow> err + 'cal) \<Rightarrow> string \<Rightarrow> time \<Rightarrow> 'cal davCalendar request" where
  "GetCalendar D rscales decode p now = visibleOne D p Calendar (calendarOf rscales decode) now"

definition zoneOf :: "('cal \<Rightarrow> nat) \<Rightarrow> ('cal \<Rightarrow> err + string) \<Rightarrow> 'cal option \<Rightarrow> err + string" where
  "zoneOf children encode zone = (case zone of
       None \<Rightarrow> Inr []
     | Some z \<Rightarrow> if children z = 0 then Inr [] else encode z)"

definition defaultComponents :: "string list" where
  "defaultComponents = [''VEVENT'', ''VTODO'']"

definition storedComponents :: "string list" where
  "storedComponents = [''VEVENT'', ''VTODO'', ''VJOURNAL'']"

definition CreateCalendar :: "dav \<Rightarrow> ('cal \<Rightarrow> nat) \<Rightarrow> ('cal \<Rightarrow> err + string) \<Rightarrow> string \<Rightarrow> 'cal davCalendar \<Rightarrow> time \<Rightarrow> unit request" where
  "CreateCalendar D children encode fresh cal now =
     (let components = (if dcComponents cal = [] then defaultComponents else dcComponents cal)
      in case find (\<lambda>part. part \<notin> set storedComponents) components of
           Some part \<Rightarrow> failT (httpError 403 (ErrOther (''a calendar holds '' @ Join '', '' storedComponents @ '', not '' @ part)))
         | None \<Rightarrow> (case zoneOf children encode (dcTimezone cal) of
               Inl e \<Rightarrow> failT (httpError 400 e)
             | Inr zone \<Rightarrow>
                 let c = zero_Collection\<lparr>cKind := Calendar, cComponents := components, cName := dcName cal,
                           cColor := dcColor cal, cDescription := dcDescription cal, cTimezone := zone\<rparr>
                 in dav_create D fresh (dcPath cal) (keepDead [] (dcDead cal) c) now))"

record 'cal calendarUpdate =
  cuName :: "string option"
  cuColor :: "string option"
  cuDescription :: "string option"
  cuTimezone :: "'cal option"
  cuRemoved :: "xml_name list"
  cuDead :: "(xml_name \<times> string) list"

definition calendar_change :: "'cal calendarUpdate \<Rightarrow> string \<Rightarrow> Collection \<Rightarrow> Collection" where
  "calendar_change up zone c = keepDead (cuRemoved up) (cuDead up)
     (c\<lparr>cName := set_to (cName c) (cuName up), cColor := set_to (cColor c) (cuColor up),
        cDescription := set_to (cDescription c) (cuDescription up),
        cTimezone := (if cuTimezone up \<noteq> None then zone else cTimezone c)\<rparr>)"

definition UpdateCalendar :: "dav \<Rightarrow> ('cal \<Rightarrow> nat) \<Rightarrow> ('cal \<Rightarrow> err + string) \<Rightarrow> string \<Rightarrow> 'cal calendarUpdate \<Rightarrow> time \<Rightarrow> time \<Rightarrow> unit request" where
  "UpdateCalendar D children encode p up t0 t1 = (case zoneOf children encode (cuTimezone up) of
       Inl e \<Rightarrow> failT (httpError 400 e)
     | Inr zone \<Rightarrow> dav_update D p Calendar (calendar_change up zone) t0 t1)"

record 'cal davObject =
  doPath :: string
  doModTime :: time
  doLength :: nat
  doETag :: string
  doRaw :: "string option"
  doData :: "'cal option"

definition calendarObject :: "bool \<Rightarrow> string \<Rightarrow> Object \<Rightarrow> 'cal davObject" where
  "calendarObject bare p ob = \<lparr>doPath = p, doModTime = oModified ob, doLength = length (oData ob), doETag = oETag ob,
     doRaw = (if bare then None else Some (oData ob)), doData = None\<rparr>"

definition GetCalendarObject :: "dav \<Rightarrow> string \<Rightarrow> bool \<Rightarrow> time \<Rightarrow> time \<Rightarrow> 'cal davObject request" where
  "GetCalendarObject D p bare t0 t1 = objectAs D p Calendar (calendarObject bare) t0 t1"

definition ListCalendarObjects :: "dav \<Rightarrow> string \<Rightarrow> bool \<Rightarrow> time \<Rightarrow> time \<Rightarrow> 'cal davObject list request" where
  "ListCalendarObjects D p bare t0 t1 = objectsAs D p Calendar (calendarObject bare) t0 t1"

definition parsed :: "(string \<Rightarrow> err + 'cal) \<Rightarrow> 'cal davObject \<Rightarrow> string \<Rightarrow> 'cal davObject" where
  "parsed decode ob octets = (case decode octets of
       Inr d \<Rightarrow> ob\<lparr>doData := Some d\<rparr> | Inl _ \<Rightarrow> ob\<lparr>doData := None, doRaw := Some octets\<rparr>)"

definition sendable :: "('cal \<Rightarrow> err + string) \<Rightarrow> 'cal davObject \<Rightarrow> 'cal davObject" where
  "sendable encode ob = (case doData ob of
       Some d \<Rightarrow> if doRaw ob \<noteq> None \<and> isl (encode d) then ob\<lparr>doData := None\<rparr> else ob
     | None \<Rightarrow> ob)"

definition QueryCalendarObjects :: "dav \<Rightarrow> (string \<Rightarrow> err + 'cal) \<Rightarrow> ('cal \<Rightarrow> err + string) \<Rightarrow>
    ('cal davObject list \<Rightarrow> err + 'cal davObject list) \<Rightarrow> bool \<Rightarrow> string \<Rightarrow> time \<Rightarrow> time \<Rightarrow> 'cal davObject list request" where
  "QueryCalendarObjects D decode encode flt bare p t0 t1 = bindT (dav_objects D p Calendar t0 t1) (\<lambda>obs.
     liftT (bindE (flt (queryObjects obs p (calendarObject bare) (parsed decode))) (\<lambda>found.
       Inr (map (sendable encode) found))))"

definition put_answer :: "string \<Rightarrow> Object \<Rightarrow> 'cal davObject" where
  "put_answer p ob = \<lparr>doPath = p, doModTime = oModified ob, doLength = length (oData ob), doETag = oETag ob, doRaw = None, doData = None\<rparr>"

definition no_conflict :: "string \<Rightarrow> 'a request \<Rightarrow> 'a request" where
  "no_conflict precondition m s = (case m s of
       (Inl e, s') \<Rightarrow> (Inl (if err_is e ErrUIDConflict then ErrDav precondition else e), s')
     | (Inr a, s') \<Rightarrow> (Inr a, s'))"

definition PutCalendarObject :: "dav \<Rightarrow> ('cal \<Rightarrow> err + string \<times> string) \<Rightarrow> string \<Rightarrow> 'cal \<Rightarrow> string \<Rightarrow> condition \<Rightarrow> condition \<Rightarrow>
    time \<Rightarrow> time \<Rightarrow> 'cal davObject request" where
  "PutCalendarObject D validate p cal octets ifMatch ifNoneMatch t0 t1 = (case validate cal of
       Inl _ \<Rightarrow> failT (ErrDav ''valid-calendar-object-resource'')
     | Inr (component, uid) \<Rightarrow>
         bindT (no_conflict ''no-uid-conflict'' (dav_write D p Calendar uid octets ifMatch ifNoneMatch
             (\<lambda>c. if component \<notin> set (cComponents c) then Some (ErrDav ''supported-calendar-component'') else None) t0 t1))
           (\<lambda>ob. returnT (put_answer p ob)))"

definition DeleteCalendarObject :: "dav \<Rightarrow> condition \<Rightarrow> string \<Rightarrow> time \<Rightarrow> time \<Rightarrow> unit request" where
  "DeleteCalendarObject D unset p t0 t1 = dav_remove D unset p Calendar unset t0 t1"

definition DeleteCalendarObjectIfMatch :: "dav \<Rightarrow> condition \<Rightarrow> string \<Rightarrow> condition \<Rightarrow> time \<Rightarrow> time \<Rightarrow> unit request" where
  "DeleteCalendarObjectIfMatch D unset p ifMatch t0 t1 = dav_remove D unset p Calendar ifMatch t0 t1"

definition DeleteCalendarObjectWithOptions :: "dav \<Rightarrow> condition \<Rightarrow> string \<Rightarrow> (condition \<times> condition) option \<Rightarrow> time \<Rightarrow> time \<Rightarrow> unit request" where
  "DeleteCalendarObjectWithOptions D unset p opts t0 t1 = removeWithOptions D unset p Calendar opts t0 t1"

subsection \<open>The address book backend\<close>

record davBook =
  dbPath :: string
  dbName :: string
  dbDescription :: string
  dbReadOnly :: bool
  dbCTag :: string
  dbDead :: "(xml_name \<times> string) list"

definition bookOf :: "string \<Rightarrow> Collection \<Rightarrow> access \<Rightarrow> err + davBook" where
  "bookOf viewer c m = Inr \<lparr>dbPath = PathOf viewer c, dbName = cName c, dbDescription = cDescription c,
     dbReadOnly = (rank_of m < rank_of write_access), dbCTag = FormatUint (unat (CTag c)), dbDead = deadOf c\<rparr>"

definition ListAddressBooks :: "dav \<Rightarrow> time \<Rightarrow> davBook list request" where
  "ListAddressBooks D now = visible D AddressBook bookOf now"

definition GetAddressBook :: "dav \<Rightarrow> string \<Rightarrow> time \<Rightarrow> davBook request" where
  "GetAddressBook D p now = visibleOne D p AddressBook bookOf now"

definition CreateAddressBook :: "dav \<Rightarrow> string \<Rightarrow> davBook \<Rightarrow> time \<Rightarrow> unit request" where
  "CreateAddressBook D fresh book now = dav_create D fresh (dbPath book)
     (keepDead [] (dbDead book) (zero_Collection\<lparr>cKind := AddressBook, cName := dbName book, cDescription := dbDescription book\<rparr>)) now"

record bookUpdate =
  buName :: "string option"
  buDescription :: "string option"
  buRemoved :: "xml_name list"
  buDead :: "(xml_name \<times> string) list"

definition UpdateAddressBook :: "dav \<Rightarrow> string \<Rightarrow> bookUpdate \<Rightarrow> time \<Rightarrow> time \<Rightarrow> unit request" where
  "UpdateAddressBook D p up t0 t1 = dav_update D p AddressBook (\<lambda>c. keepDead (buRemoved up) (buDead up)
     (c\<lparr>cName := set_to (cName c) (buName up), cDescription := set_to (cDescription c) (buDescription up)\<rparr>)) t0 t1"

definition DeleteAddressBook :: "dav \<Rightarrow> condition \<Rightarrow> string \<Rightarrow> time \<Rightarrow> time \<Rightarrow> unit request" where
  "DeleteAddressBook D unset p t0 t1 = dav_remove D unset p AddressBook unset t0 t1"

definition addressObject :: "bool \<Rightarrow> string \<Rightarrow> Object \<Rightarrow> 'card davObject" where
  "addressObject bare p ob = \<lparr>doPath = p, doModTime = oModified ob, doLength = length (oData ob), doETag = oETag ob,
     doRaw = (if bare then None else Some (oData ob)), doData = None\<rparr>"

definition GetAddressObject :: "dav \<Rightarrow> string \<Rightarrow> bool \<Rightarrow> time \<Rightarrow> time \<Rightarrow> 'card davObject request" where
  "GetAddressObject D p bare t0 t1 = objectAs D p AddressBook (addressObject bare) t0 t1"

definition ListAddressObjects :: "dav \<Rightarrow> string \<Rightarrow> bool \<Rightarrow> time \<Rightarrow> time \<Rightarrow> 'card davObject list request" where
  "ListAddressObjects D p bare t0 t1 = objectsAs D p AddressBook (addressObject bare) t0 t1"

definition QueryAddressObjects :: "dav \<Rightarrow> (string \<Rightarrow> err + 'card) \<Rightarrow> ('card davObject list \<Rightarrow> err + 'card davObject list) \<Rightarrow>
    nat \<Rightarrow> bool \<Rightarrow> string \<Rightarrow> time \<Rightarrow> time \<Rightarrow> 'card davObject list request" where
  "QueryAddressObjects D decode flt propFilters bare p t0 t1 = bindT (dav_objects D p AddressBook t0 t1) (\<lambda>obs.
     liftT (flt (queryObjects obs p (addressObject bare) (if propFilters = 0 then (\<lambda>ob _. ob) else parsed decode))))"

definition PutAddressObject :: "dav \<Rightarrow> ('card \<Rightarrow> string) \<Rightarrow> string \<Rightarrow> 'card \<Rightarrow> string \<Rightarrow> condition \<Rightarrow> condition \<Rightarrow>
    time \<Rightarrow> time \<Rightarrow> 'card davObject request" where
  "PutAddressObject D uidOf p vc octets ifMatch ifNoneMatch t0 t1 =
     bindT (no_conflict ''no-uid-conflict'' (dav_write D p AddressBook (uidOf vc) octets ifMatch ifNoneMatch (\<lambda>_. None) t0 t1))
       (\<lambda>ob. returnT (put_answer p ob))"

definition DeleteAddressObject :: "dav \<Rightarrow> condition \<Rightarrow> string \<Rightarrow> time \<Rightarrow> time \<Rightarrow> unit request" where
  "DeleteAddressObject D unset p t0 t1 = dav_remove D unset p AddressBook unset t0 t1"

definition DeleteAddressObjectIfMatch :: "dav \<Rightarrow> condition \<Rightarrow> string \<Rightarrow> condition \<Rightarrow> time \<Rightarrow> time \<Rightarrow> unit request" where
  "DeleteAddressObjectIfMatch D unset p ifMatch t0 t1 = dav_remove D unset p AddressBook ifMatch t0 t1"

definition DeleteAddressObjectWithOptions :: "dav \<Rightarrow> condition \<Rightarrow> string \<Rightarrow> (condition \<times> condition) option \<Rightarrow> time \<Rightarrow> time \<Rightarrow> unit request" where
  "DeleteAddressObjectWithOptions D unset p opts t0 t1 = removeWithOptions D unset p AddressBook opts t0 t1"

subsection \<open>Who gets in\<close>

text \<open>The abstract check on what the store shows: no transaction, no keys.\<close>

definition allowed_spec :: "naming \<Rightarrow> (string \<Rightarrow> stored option) \<Rightarrow> Ref \<Rightarrow> string \<Rightarrow> time \<Rightarrow> err + Collection \<times> access" where
  "allowed_spec nm V ref address now = (case V (collectionKey nm ref) of
       None \<Rightarrow> Inl ErrNotFound
     | Some v \<Rightarrow> bindE (as_collection v) (\<lambda>c.
         if cOwner c = address then Inr (c, own_access)
         else (case V (shareKey nm ref address) of
             None \<Rightarrow> Inl ErrNotFound
           | Some v \<Rightarrow> bindE (as_share v) (\<lambda>sh. if Live sh now then Inr (c, accessOf sh) else Inl ErrNotFound))))"

definition reach_spec :: "naming \<Rightarrow> (string \<Rightarrow> stored option) \<Rightarrow> string \<Rightarrow> string \<Rightarrow> Kind \<Rightarrow> time \<Rightarrow> err + place \<times> Collection \<times> access" where
  "reach_spec nm V user p kind now = bindE (parsePath p) (\<lambda>at.
     if pKind at \<noteq> kind \<or> pHome at \<noteq> user then Inl errNotFound
     else (case allowed_spec nm V (pRef at) user now of
         Inl e \<Rightarrow> Inl (if e = ErrNotFound then errNotFound else e)
       | Inr (c, m) \<Rightarrow> if cKind c \<noteq> kind then Inl errNotFound else Inr (at, c, m)))"

context live_tx
begin

lemma run_get: "at V t \<Longrightarrow> plain_key k \<Longrightarrow> \<exists>t1. getT X k t = (Inr (V k), t1) \<and> at V t1"
  using wp_get [of V t k "\<lambda>r t1. r = V k \<and> at V t1"] by (auto simp: succeeds_def)

lemma run_get_as:
  assumes "at V t" and "plain_key k"
  shows "\<exists>t1. get_as X dec k t = ((case V k of None \<Rightarrow> Inl ErrNotFound | Some v \<Rightarrow> dec v), t1) \<and> at V t1"
  using run_get [OF assms]
  by (auto simp: get_as_def bindT_def failT_def liftT_def split: option.splits)

lemma run_allowed:
  assumes "at V t" and nok: "naming_ok nm"
  shows "\<exists>t1. allowed X nm ref address now t = (allowed_spec nm V ref address now, t1) \<and> at V t1"
proof -
  obtain t1 where t1: "get_as X as_collection (collectionKey nm ref) t =
      ((case V (collectionKey nm ref) of None \<Rightarrow> Inl ErrNotFound | Some v \<Rightarrow> as_collection v), t1)" "at V t1"
    using run_get_as [OF assms(1) plain_keys(1) [OF nok]] by blast
  obtain t2 where t2: "get_as X as_share (shareKey nm ref address) t1 =
      ((case V (shareKey nm ref address) of None \<Rightarrow> Inl ErrNotFound | Some v \<Rightarrow> as_share v), t2)" "at V t2"
    using run_get_as [OF t1(2) plain_keys(3) [OF nok]] by blast
  show ?thesis
    using t1 t2
    by (auto simp: allowed_def allowed_spec_def bindT_def bindE_def failT_def returnT_def split: option.split sum.split)
qed

end

lemma tx_live_begin: "tx_live C now K (begin_tx w s) \<longleftrightarrow> tx_live C now K (begin_tx True s)"
  using view_begin [of C now w s] view_begin [of C now True s] tx_inv_begin [of C w s] tx_inv_begin [of C True s]
    synced_begin [of C now w s] synced_begin [of C now True s]
  by (simp add: tx_live_def steady_def all_open_def) (simp add: known_def begin_tx_def)

lemma quiet_pring: "alike C now (pring s) r \<Longrightarrow> quiet C now (begin_tx w s) (begin_tx w (s\<lparr>pring := r\<rparr>))"
  by (simp add: quiet_def begin_tx_def)

lemma get_as_quiet:
  assumes "tx_inv C t" and "plain_key k" and "get_as (sealed_ops C now) dec k t = (res, t')"
  shows "quiet C now t t'"
proof -
  obtain r t1 where g: "tx_Get C now k t = (r, t1)" by force
  then have "t' = t1"
    using assms(3) by (auto simp: get_as_def bindT_def getT_def failT_def liftT_def split: option.splits)
  then show ?thesis using tx_Get_spec [OF assms(1,2) g] by simp
qed

lemma allowed_quiet:
  assumes inv: "tx_inv C t" and nok: "naming_ok nm" and run: "allowed (sealed_ops C now) nm ref address now' t = (res, t')"
  shows "quiet C now t t'"
proof -
  obtain r1 t1 where g1: "get_as (sealed_ops C now) as_collection (collectionKey nm ref) t = (r1, t1)" by force
  obtain r2 t2 where g2: "get_as (sealed_ops C now) as_share (shareKey nm ref address) t1 = (r2, t2)" by force
  note q1 = get_as_quiet [OF inv plain_keys(1) [OF nok] g1]
  note q2 = get_as_quiet [OF quiet_inv [OF q1 inv] plain_keys(3) [OF nok] g2]
  have "t' = t1 \<or> t' = t2"
    using run g1 g2 by (auto simp: allowed_def bindT_def failT_def returnT_def split: sum.splits if_splits)
  then show ?thesis using q1 quiet_trans [OF q1 q2] by auto
qed

lemma may_live:
  assumes live: "tx_live (dCrypto D) now K (begin_tx True s)" and nok: "naming_ok (dNames D)"
  shows "\<exists>r. may D ref address now s = (allowed_spec (dNames D) (seen_in (dCrypto D) now s) ref address now, s\<lparr>pring := r\<rparr>) \<and>
    tx_live (dCrypto D) now K (begin_tx True (s\<lparr>pring := r\<rparr>)) \<and> alike (dCrypto D) now (pring s) r"
proof -
  let ?C = "dCrypto D"
  have l: "tx_live ?C now K (begin_tx False s)" using live tx_live_begin [of ?C now K False s] by simp
  then have "sealed_live.at ?C now K (seen_in ?C now s) (begin_tx False s)"
    by (simp add: sealed_live.at_def view_begin)
  from sealed_live.run_allowed [OF this nok] obtain t where
    t: "allowed (sealed_ops ?C now) (dNames D) ref address now (begin_tx False s) = (allowed_spec (dNames D) (seen_in ?C now s) ref address now, t)"
    and at: "sealed_live.at ?C now K (seen_in ?C now s) t" by blast
  have inv: "tx_inv ?C (begin_tx False s)" using l by (simp add: tx_live_def steady_def)
  have al: "alike ?C now (pring s) (sring t)" using allowed_quiet [OF inv nok t] by (simp add: quiet_def begin_tx_def)
  have "serr t = None" using at by (simp add: sealed_live.at_def tx_live_def)
  then have "may D ref address now s = (allowed_spec (dNames D) (seen_in ?C now s) ref address now, s\<lparr>pring := sring t\<rparr>)"
    using t by (simp add: may_def db_View_def run_tx_def)
  moreover have "tx_live ?C now K (begin_tx True (s\<lparr>pring := sring t\<rparr>))"
    by (rule tx_live_quiet [OF live quiet_pring [OF al]]) (simp add: begin_tx_def)
  ultimately show ?thesis using al by blast
qed

lemma allowed_spec_error: "allowed_spec nm V ref address now = Inl e \<Longrightarrow> e = ErrNotFound \<or> e = ErrJSON"
  by (auto simp: allowed_spec_def bindE_def split: option.splits sum.splits if_splits elim!: as_collection.elims as_share.elims)

lemma reach_live:
  assumes live: "tx_live (dCrypto D) now K (begin_tx True s)" and nok: "naming_ok (dNames D)"
  shows "\<exists>r. reach D p kind now s = (reach_spec (dNames D) (seen_in (dCrypto D) now s) (dUser D) p kind now, s\<lparr>pring := r\<rparr>) \<and>
    tx_live (dCrypto D) now K (begin_tx True (s\<lparr>pring := r\<rparr>)) \<and> alike (dCrypto D) now (pring s) r"
proof (cases "\<exists>at. parsePath p = Inr at \<and> pKind at = kind \<and> pHome at = dUser D")
  case False
  have "ring_ok (dCrypto D) (pring s)" using live by (simp add: tx_live_def steady_def tx_inv_def begin_tx_def)
  then have "alike (dCrypto D) now (pring s) (pring s)" by (rule alike_refl)
  then show ?thesis
    using False live
    by (intro exI [of _ "pring s"]) (auto simp: reach_def reach_spec_def reachAt_def bindT_def bindE_def liftT_def failT_def split: sum.split)
next
  case True
  then obtain at where at: "parsePath p = Inr at" "pKind at = kind" "pHome at = dUser D" by blast
  from may_live [OF live nok] obtain r where
    m: "may D (pRef at) (dUser D) now s = (allowed_spec (dNames D) (seen_in (dCrypto D) now s) (pRef at) (dUser D) now, s\<lparr>pring := r\<rparr>)"
    and r: "tx_live (dCrypto D) now K (begin_tx True (s\<lparr>pring := r\<rparr>)) \<and> alike (dCrypto D) now (pring s) r" by blast
  have "reach D p kind now s = (reach_spec (dNames D) (seen_in (dCrypto D) now s) (dUser D) p kind now, s\<lparr>pring := r\<rparr>)"
    using at m
    by (auto simp: reach_def reach_spec_def reachAt_def bindT_def bindE_def liftT_def split: sum.split dest!: allowed_spec_error)
  with r show ?thesis by blast
qed


definition shut_out :: "naming \<Rightarrow> (string \<Rightarrow> stored option) \<Rightarrow> Ref \<Rightarrow> string \<Rightarrow> time \<Rightarrow> bool" where
  "shut_out nm V ref address now \<longleftrightarrow>
     (\<forall>v. V (collectionKey nm ref) = Some v \<longrightarrow> (\<exists>c u f. v = VCollection c u f \<and> cOwner c \<noteq> address)) \<and>
     (\<forall>v. V (shareKey nm ref address) = Some v \<longrightarrow> (\<exists>sh u. v = VShare sh u \<and> \<not> Live sh now))"

lemma shut_out_reach:
  assumes "tx_live (dCrypto D) now K (begin_tx True s)" and "naming_ok (dNames D)" and "parsePath p = Inr at"
    and "shut_out (dNames D) (seen_in (dCrypto D) now s) (pRef at) (dUser D) now"
  shows "\<exists>r. reach D p kind now s = (Inl errNotFound, s\<lparr>pring := r\<rparr>)"
proof -
  have "allowed_spec (dNames D) (seen_in (dCrypto D) now s) (pRef at) (dUser D) now = Inl ErrNotFound"
    using assms(4) by (auto simp: shut_out_def allowed_spec_def bindE_def split: option.split)
  then have "reach_spec (dNames D) (seen_in (dCrypto D) now s) (dUser D) p kind now = Inl errNotFound"
    using assms(3) by (simp add: reach_spec_def bindE_def)
  then show ?thesis using reach_live [OF assms(1,2)] by metis
qed


lemma reach_returns:
  assumes "db_ok (dCrypto D) s" and nok: "naming_ok (dNames D)" and run: "reach D p kind now s = (Inr (at, c, m), s1)"
  shows "parsePath p = Inr at \<and> pKind at = kind \<and> pHome at = dUser D \<and> cKind c = kind \<and> db_ok (dCrypto D) s1 \<and> pdb s1 = pdb s \<and>
    (\<exists>u f. seen_in (dCrypto D) now s (collectionKey (dNames D) (pRef at)) = Some (VCollection c u f)) \<and>
    (if m = own_access then cOwner c = dUser D
     else \<exists>sh u. seen_in (dCrypto D) now s (shareKey (dNames D) (pRef at) (dUser D)) = Some (VShare sh u) \<and> Live sh now \<and> m = accessOf sh)"
proof -
  let ?C = "dCrypto D" let ?t = "begin_tx False s"
  from run have at: "parsePath p = Inr at" "pKind at = kind" "pHome at = dUser D" "cKind c = kind"
    and m: "may D (pRef at) (dUser D) now s = (Inr (c, m), s1)"
    by (auto simp: reach_def reachAt_def bindT_returns liftT_returns failT_returns split: if_splits prod.splits sum.splits)
  from m obtain t where t: "allowed (sealed_ops ?C now) (dNames D) (pRef at) (dUser D) now ?t = (Inr (c, m), t)"
    and s1: "s1 = s\<lparr>pring := sring t\<rparr>"
    by (auto simp: may_def db_View_def run_tx_def split: prod.splits sum.splits option.splits)
  have st: "steady ?C now (pkey s) ?t"
    using assms(1) tx_inv_begin [of ?C False s] synced_begin [of ?C now False s] by (simp add: steady_def) (simp add: begin_tx_def)
  then have inv: "tx_inv ?C ?t" by (simp add: steady_def)
  have q: "quiet ?C now ?t t" by (rule allowed_quiet [OF inv nok t])
  have "db_ok ?C s1"
    using quiet_inv [OF q inv] q s1 tx_inv_begin [of ?C True s1] by (simp add: tx_inv_def quiet_def begin_tx_def)
  moreover note sealed.allowed_returns [OF st t nok]
  moreover have "accessOf sh \<noteq> own_access" for sh by (simp add: accessOf_def)
  ultimately show ?thesis using at s1 by (auto simp: view_begin)
qed

lemma stored_as_returns: "stored_as m s = (Inr a, s') \<longleftrightarrow> m s = (Inr a, s')"
  by (auto simp: stored_as_def split: prod.splits sum.splits)

text \<open>
  C4: a \<^verbatim>\<open>PUT\<close> that is answered with success was made through the writer's own home to a collection
  of the right kind that took the object, by its owner or an account whose live share allows
  writing; the next transaction reads the object back with the bytes sent.
\<close>

theorem dav_write_authorised:
  assumes "db_ok (dCrypto D) s" and "named (dCrypto D)" and "dNames D = Names_Of (dCrypto D) n"
    and "dav_write D p kind uid data ifMatch ifNoneMatch takes t0 t1 s = (Inr ob, s')"
  shows "\<exists>at c u f. parsePath p = Inr at \<and> pKind at = kind \<and> pHome at = dUser D \<and> pObject at \<noteq> [] \<and>
    seen_in (dCrypto D) t0 s (collectionKey (dNames D) (pRef at)) = Some (VCollection c u f) \<and> cKind c = kind \<and> takes c = None \<and>
    (cOwner c = dUser D \<or>
     (\<exists>sh u. seen_in (dCrypto D) t0 s (shareKey (dNames D) (pRef at) (dUser D)) = Some (VShare sh u) \<and> Live sh t0 \<and> sWrite sh)) \<and>
    (\<exists>u. seen_in (dCrypto D) t1 s' (objectKey (dNames D) (pRef at) (pObject at)) = Some (VObject ob u)) \<and>
    oData ob = data \<and> oETag ob = dETagOf D data"
proof -
  have nok: "naming_ok (dNames D)" using assms(2,3) naming_ok_Names_Of by simp
  from assms(4) obtain at c m s1 where r: "reach D p kind t0 s = (Inr (at, c, m), s1)"
    and g: "rank_of write_access \<le> rank_of m" "pObject at \<noteq> []" "takes c = None"
    and put: "db_Update (PutObject (sealed_ops (dCrypto D) t1) (dNames D) (dETagOf D) (pRef at) (pObject at)
           uid data (conditions ifMatch ifNoneMatch) (dUser D) t1) s1 = (Inr ob, s')"
    by (auto simp: dav_write_def bindT_returns stored_as_returns failT_returns split: if_splits option.splits)
  note R = reach_returns [OF assms(1) nok r]
  have "db_ok (dCrypto D) s1" using R by blast
  from PutObject_committed [OF this assms(2) put [unfolded assms(3)]] obtain c' v f where
    ob: "ob = object_put (dNames D) (dETagOf D) (seen_in (dCrypto D) t1 s1) (pRef at) (pObject at) uid data (dUser D) t1"
    and s': "seen_in (dCrypto D) t1 s' = touched (dNames D) (pRef at) c' ((indexed (dNames D) (pRef at) (pObject at) uid (seen_in (dCrypto D) t1 s1))
      (objectKey (dNames D) (pRef at) (pObject at) := Some (Keep (seen_in (dCrypto D) t1 s1 (objectKey (dNames D) (pRef at) (pObject at))) (VObject ob []))))"
    unfolding assms(3) by metis
  have "\<exists>u. seen_in (dCrypto D) t1 s' (objectKey (dNames D) (pRef at) (pObject at)) = Some (VObject ob u)"
    using Keep_object by (simp add: s' key_simps)
  moreover have "oData ob = data \<and> oETag ob = dETagOf D data"
    by (simp add: ob object_put_def split: option.split stored.split)
  moreover have "cOwner c = dUser D \<or>
     (\<exists>sh u. seen_in (dCrypto D) t0 s (shareKey (dNames D) (pRef at) (dUser D)) = Some (VShare sh u) \<and> Live sh t0 \<and> sWrite sh)"
    using R g(1) by (auto simp: rank_of_def accessOf_def split: if_splits)
  ultimately show ?thesis using R g(2,3) by blast
qed

subsection \<open>Properties clients keep on a collection\<close>

text \<open>
  The unread properties of a collection are kept by name. After a change every property the
  client sent is there as sent, every property it removed and did not send is gone, and every
  other one is as it was.
\<close>

lemma keepDead_by_name:
  "filter (\<lambda>d. fst d = name) (deadOf (keepDead removed given c)) =
     (if name \<in> fst ` set given then filter (\<lambda>d. fst d = name) given
      else if name \<in> set removed then []
      else filter (\<lambda>d. fst d = name) (deadOf c))"
proof -
  have new: "map (\<lambda>d. ((dSpace d, dLocal d), dXML d)) (map (\<lambda>(n, x). \<lparr>dSpace = fst n, dLocal = snd n, dXML = x\<rparr>) given) = given"
    by (induction given) auto
  have old: "filter (\<lambda>d. fst d = name) (map (\<lambda>d. ((dSpace d, dLocal d), dXML d)) (filter (\<lambda>d. (dSpace d, dLocal d) \<notin> G) ds)) =
      (if name \<in> G then [] else filter (\<lambda>d. fst d = name) (map (\<lambda>d. ((dSpace d, dLocal d), dXML d)) ds))" for G ds
    by (induction ds) auto
  have "name \<notin> fst ` set given \<Longrightarrow> filter (\<lambda>d. fst d = name) given = []"
    by (auto simp: filter_empty_conv)
  then show ?thesis
    by (simp add: deadOf_def keepDead_def Let_def new old del: map_map filter_map set_append list.set_map) auto
qed

subsection \<open>Witnesses\<close>

definition sample_dav :: "string \<Rightarrow> dav" where
  "sample_dav user = \<lparr>dCrypto = sample_crypto, dNames = sample_nm, dETagOf = (\<lambda>d. d), dUser = user\<rparr>"

lemma sample_path: "parsePath ''/alborz/dav/calendars/bob/cal~ann/b.ics'' =
    Inr \<lparr>pKind = Calendar, pHome = ''bob'', pRef = sample_ref, pObject = ''b.ics''\<rparr>"
  "parsePath ''/alborz/dav/calendars/eve/cal~ann'' =
    Inr \<lparr>pKind = Calendar, pHome = ''eve'', pRef = sample_ref, pObject = []\<rparr>"
  by code_simp+


lemma sample_eve: "shut_out sample_nm sample_view sample_ref ''eve'' 100"
proof -
  have "sample_nm ''eve'' \<noteq> sample_nm ''bob''" "ToLower ''eve'' = ''eve''" by code_simp+
  then have "sample_view (shareKey sample_nm sample_ref ''eve'') = None"
    using ToLower_bob(1) by (simp add: sample_live(2) sample_records_def key_simps)
  then show ?thesis using sample_look(1) by (simp add: shut_out_def) (simp add: sample_collection_def zero_Collection_def)
qed


abbreviation sample_put_request :: "Object request" where
  "sample_put_request \<equiv> dav_write (sample_dav ''bob'') ''/alborz/dav/calendars/bob/cal~ann/b.ics'' Calendar ''u2'' ''new''
     (\<lambda>_. Inr (False, False)) (\<lambda>held. Inr (True, held \<noteq> [])) (\<lambda>_. None) 100 100"

lemma sample_put_request_ran: "\<exists>ob s'. sample_put_request sample_pim = (Inr ob, s')"
proof -
  let ?D = "sample_dav ''bob''" let ?p = "''/alborz/dav/calendars/bob/cal~ann/b.ics''"
  have D: "dCrypto ?D = sample_crypto" "dNames ?D = sample_nm" "dUser ?D = ''bob''" "dETagOf ?D = (\<lambda>d. d)" by (simp_all add: sample_dav_def)
  obtain r where r: "reach ?D ?p Calendar 100 sample_pim = (reach_spec sample_nm sample_view ''bob'' ?p Calendar 100, sample_pim\<lparr>pring := r\<rparr>)"
    and live: "tx_live sample_crypto 100 sample_key (begin_tx True (sample_pim\<lparr>pring := r\<rparr>))" and al: "alike sample_crypto 100 (pring sample_pim) r"
    using reach_live [of ?D 100 sample_key sample_pim ?p Calendar] sample_live(3) naming_sample unfolding D by blast
  have spec: "reach_spec sample_nm sample_view ''bob'' ?p Calendar 100 =
      Inr (\<lparr>pKind = Calendar, pHome = ''bob'', pRef = sample_ref, pObject = ''b.ics''\<rparr>, sample_collection, write_access)"
    using sample_look(1,6)
    by (simp add: reach_spec_def sample_path(1) allowed_spec_def)
       (simp add: sample_collection_def zero_Collection_def sample_share_def Live_def accessOf_def)
  have seen: "seen_in sample_crypto 100 (sample_pim\<lparr>pring := r\<rparr>) = sample_view"
    using quiet_view [OF quiet_pring [OF al, of True]] by (simp add: seen_in_def)
  have at: "sealed_live.at sample_crypto 100 sample_key sample_view (begin_tx True (sample_pim\<lparr>pring := r\<rparr>))"
    using live seen by (simp add: sealed_live.at_def view_begin)
  have "succeeds (PutObject (sealed_ops sample_crypto 100) sample_nm (\<lambda>d. d) sample_ref ''b.ics'' ''u2'' ''new''
      (conditions (\<lambda>_. Inr (False, False)) (\<lambda>held. Inr (True, held \<noteq> []))) ''bob'' 100)
      (begin_tx True (sample_pim\<lparr>pring := r\<rparr>)) (\<lambda>_. tx_live sample_crypto 100 sample_key)"
    by (rule sealed_live.PutObject_succeeds [OF at])
       (use sample_may sample_put_hyps(1,2) sample_look(3) sample_last naming_sample
        in \<open>auto simp: objects_typed_def conditions_def\<close>)
  from succeeds_commits [OF this] obtain ob s' where
    "db_Update (PutObject (sealed_ops sample_crypto 100) sample_nm (\<lambda>d. d) sample_ref ''b.ics'' ''u2'' ''new''
      (conditions (\<lambda>_. Inr (False, False)) (\<lambda>held. Inr (True, held \<noteq> []))) ''bob'' 100) (sample_pim\<lparr>pring := r\<rparr>) = (Inr ob, s')"
    by blast
  then show ?thesis
    using r spec by (simp add: dav_write_def bindT_def rank_of_def D stored_as_def)
qed

theorem dav_write_authorised_witness:
  "\<exists>ob s' u. sample_put_request sample_pim = (Inr ob, s') \<and>
     seen_in sample_crypto 100 s' (objectKey sample_nm sample_ref ''b.ics'') = Some (VObject ob u) \<and> oData ob = ''new''"
proof -
  obtain ob s' where run: "sample_put_request sample_pim = (Inr ob, s')" using sample_put_request_ran by blast
  have "dNames (sample_dav ''bob'') = Names_Of (dCrypto (sample_dav ''bob'')) ''n''" by (simp add: sample_dav_def sample_nm_def)
  from dav_write_authorised [OF _ _ this run] sample_live(1) named_sample_crypto
  obtain at u where "parsePath ''/alborz/dav/calendars/bob/cal~ann/b.ics'' = Inr at"
    "seen_in sample_crypto 100 s' (objectKey sample_nm (pRef at) (pObject at)) = Some (VObject ob u)" "oData ob = ''new''"
    by (auto simp: sample_dav_def)
  with run show ?thesis by (auto simp: sample_path(1))
qed

end
