(* ===== verification/Search_Query.thy ===== *)
theory Search_Query
  imports Prelude
begin

text \<open>
  The search box (\<^verbatim>\<open>search/query.go\<close>): a query as typed is cut into tokens and read as terms.

  \<open>splitSearchTokens\<close> is the split function handed to \<^verbatim>\<open>bufio.Scanner\<close>: given what is buffered
  and whether the input has ended it says how far to advance and the token it found, \<open>None\<close>
  for Go's nil slice. \<open>scan_chunks\<close> is the scanner's loop over the reads of its input,
  \<open>tokens\<close> the same loop over an input read whole. The scanner's limit of 64 KiB for one token
  is not modelled.
\<close>

subsection \<open>Bytes\<close>

definition IndexByte :: "char \<Rightarrow> string \<Rightarrow> nat option" where
  "IndexByte c b = (if c \<in> set b then Some (length (takeWhile (\<lambda>x. x \<noteq> c) b)) else None)"

definition spaces :: "string \<Rightarrow> nat" where
  "spaces b = length (takeWhile (\<lambda>c. c = CHR '' '') b)"

definition TrimLeft :: "string \<Rightarrow> string" where
  "TrimLeft b = dropWhile (\<lambda>c. c = CHR '' '') b"

definition TrimRight :: "string \<Rightarrow> string" where
  "TrimRight b = rev (dropWhile (\<lambda>c. c = CHR '' '') (rev b))"

definition quote_char :: char where
  "quote_char = char_of (34 :: nat)"

lemma quote_char_other [simp]:
  "quote_char \<noteq> CHR ''-''" "CHR ''-'' \<noteq> quote_char" "quote_char \<noteq> CHR '' ''" "quote_char \<noteq> CHR '':''"
  by (simp_all add: quote_char_def char_of_def char.inject)

subsection \<open>Tokens\<close>

definition wordLen :: "string \<Rightarrow> nat" where
  "wordLen b = (case IndexByte (CHR '' '') b of Some i \<Rightarrow> i | None \<Rightarrow> length b)"

definition phrased :: "string \<Rightarrow> bool" where
  "phrased b \<longleftrightarrow> prefix [quote_char] b \<or> prefix [CHR ''-'', quote_char] b"

definition bareLen :: "string \<Rightarrow> nat" where
  "bareLen b =
     (if \<not> phrased b then wordLen b
      else case IndexByte quote_char b of
          None \<Rightarrow> length b
        | Some op \<Rightarrow> (case IndexByte quote_char (drop (op + 1) b) of
              None \<Rightarrow> length b
            | Some closing \<Rightarrow> let e = op + closing + 2 in e + wordLen (drop e b)))"

lemma wordLen_pos: "b \<noteq> [] \<Longrightarrow> hd b \<noteq> CHR '' '' \<Longrightarrow> 0 < wordLen b"
  by (cases b) (auto simp: wordLen_def IndexByte_def)

lemma bareLen_pos: "b \<noteq> [] \<Longrightarrow> hd b \<noteq> CHR '' '' \<Longrightarrow> 0 < bareLen b"
  by (auto simp: bareLen_def Let_def wordLen_pos split: option.split)

text \<open>The loop that looks for the first word with a colon; \<open>i\<close> counts the bytes before it.\<close>

function find_term :: "string \<Rightarrow> nat \<Rightarrow> nat option" where
  "find_term rest i =
     (if rest = [] then None
      else let word = bareLen rest
           in if \<not> phrased rest \<and> CHR '':'' \<in> set (take word rest) then Some i
              else let after = drop word rest in find_term (drop (spaces after) after) (i + word + spaces after))"
  by pat_completeness auto

termination
proof (relation "measure (\<lambda>(rest, i). length rest)")
  fix rest :: string and i word after
  assume "rest \<noteq> []" "word = bareLen rest" "after = drop word rest"
  moreover have "0 < bareLen rest \<or> 0 < spaces rest"
    using bareLen_pos [of rest] \<open>rest \<noteq> []\<close> by (cases rest) (auto simp: spaces_def)
  moreover have "bareLen rest = 0 \<Longrightarrow> after = rest" using calculation by simp
  ultimately show "((drop (spaces after) after, i + word + spaces after), (rest, i)) \<in> measure (\<lambda>(rest, i). length rest)"
    by (cases "bareLen rest = 0") auto
qed simp

declare find_term.simps [simp del]

text \<open>The token that begins with a key: its value runs to the closing quote, or to the next space.\<close>

definition keyed_token :: "string \<Rightarrow> bool \<Rightarrow> (nat \<times> string) option" where
  "keyed_token rest atEOF =
     (let colon = the (IndexByte (CHR '':'') rest);
          val = drop (colon + 1) rest
      in if val \<noteq> [] \<and> hd val = quote_char
         then (case IndexByte quote_char (tl val) of
             None \<Rightarrow> if \<not> atEOF then None else Some (length rest, take (colon + 1) rest @ tl val)
           | Some closing \<Rightarrow> Some (colon + closing + 3, take (colon + 1) rest @ take closing (tl val)))
         else let word = colon + 1 + wordLen val
              in if word = length rest \<and> \<not> atEOF then None else Some (word, take word rest))"

definition splitSearchTokens :: "string \<Rightarrow> bool \<Rightarrow> nat \<times> string option" where
  "splitSearchTokens buf atEOF =
     (let start = spaces buf; rest = drop start buf
      in if rest = [] then (start, None)
         else case find_term rest 0 of
             None \<Rightarrow> if \<not> atEOF then (start, None) else (length buf, Some (TrimRight rest))
           | Some term \<Rightarrow>
               if 0 < term then (start + term, Some (TrimRight (take term rest)))
               else (case keyed_token rest atEOF of
                   None \<Rightarrow> (start, None)
                 | Some (n, tok) \<Rightarrow> (start + n, Some tok)))"

lemma keyed_token_pos: "keyed_token rest atEOF = Some (n, tok) \<Longrightarrow> rest \<noteq> [] \<Longrightarrow> 0 < n"
  by (auto simp: keyed_token_def Let_def split: if_splits option.splits)

lemma split_advances: "splitSearchTokens buf atEOF = (adv, Some tok) \<Longrightarrow> 0 < adv"
proof -
  assume run: "splitSearchTokens buf atEOF = (adv, Some tok)"
  have "buf \<noteq> []" using run by (auto simp: splitSearchTokens_def spaces_def)
  with run show ?thesis
    by (auto simp: splitSearchTokens_def Let_def dest: keyed_token_pos split: if_splits option.splits)
qed

function tokens :: "string \<Rightarrow> string list" where
  "tokens buf = (case splitSearchTokens buf True of
     (adv, None) \<Rightarrow> [] | (adv, Some tok) \<Rightarrow> if buf = [] then [] else tok # tokens (drop adv buf))"
  by pat_completeness auto

termination
  by (relation "measure length") (auto dest!: split_advances [OF sym])

declare tokens.simps [simp del]

function scan_chunks :: "string \<Rightarrow> string list \<Rightarrow> string list" where
  "scan_chunks buf chunks = (case splitSearchTokens buf (chunks = []) of
       (adv, Some tok) \<Rightarrow> if buf = [] then [] else tok # scan_chunks (drop adv buf) chunks
     | (adv, None) \<Rightarrow> (case chunks of [] \<Rightarrow> [] | c # cs \<Rightarrow> scan_chunks (drop adv buf @ c) cs))"
  by pat_completeness auto

termination
  by (relation "measures [\<lambda>(buf, chunks). length chunks, \<lambda>(buf, chunks). length buf]")
     (auto dest!: split_advances [OF sym])

declare scan_chunks.simps [simp del]

lemma splitSearchTokens_Nil [simp]: "splitSearchTokens [] atEOF = (0, None)"
  by (simp add: splitSearchTokens_def spaces_def)

lemma tokens_step: "tokens buf = (case splitSearchTokens buf True of (adv, None) \<Rightarrow> [] | (adv, Some tok) \<Rightarrow> tok # tokens (drop adv buf))"
  by (subst tokens.simps) (auto split: prod.split option.split)

subsection \<open>Queries\<close>

record Term =
  tKey :: string
  tValue :: string
  tNot :: bool
  tQuoted :: bool

type_synonym Query = "Term list"

definition word_term :: "string \<Rightarrow> Term" where
  "word_term v = \<lparr>tKey = [], tValue = v, tNot = False, tQuoted = False\<rparr>"

definition flush :: "string list \<Rightarrow> Query" where
  "flush words = (if words = [] then [] else [word_term (Join '' '' words)])"

lemma TrimLeft_hd: "TrimLeft b \<noteq> [] \<Longrightarrow> hd (TrimLeft b) \<noteq> CHR '' ''"
  unfolding TrimLeft_def by (metis (mono_tags) hd_dropWhile)

lemma bare_loop_shorter:
  assumes "TrimLeft b \<noteq> []"
  shows "length (drop (bareLen (TrimLeft b)) (TrimLeft b)) < length b"
proof -
  have "length (TrimLeft b) \<le> length b" by (simp add: TrimLeft_def length_dropWhile_le)
  moreover have "0 < bareLen (TrimLeft b)" by (rule bareLen_pos [OF assms TrimLeft_hd [OF assms]])
  moreover have "0 < length (TrimLeft b)" using assms by simp
  ultimately show ?thesis unfolding length_drop by linarith
qed

function bare_loop :: "string \<Rightarrow> string list \<Rightarrow> Query" where
  "bare_loop run0 words =
     (let run = TrimLeft run0
      in if run = [] then flush words
         else let word = take (bareLen run) run;
                  run1 = drop (bareLen run) run;
                  neg = prefix ''-'' word;
                  val = TrimPrefix ''-'' word;
                  quoted = prefix [quote_char] val;
                  val1 = filter (\<lambda>c. c \<noteq> quote_char) val
              in if val1 = [] \<or> \<not> neg \<and> \<not> quoted then bare_loop run1 (words @ [word])
                 else flush words @ \<lparr>tKey = [], tValue = val1, tNot = neg, tQuoted = quoted\<rparr> # bare_loop run1 [])"
  by pat_completeness auto

termination
  by (relation "measure (\<lambda>(run, words). length run)") (use bare_loop_shorter in auto)

declare bare_loop.simps [simp del]

definition bareTerms :: "string \<Rightarrow> Query" where
  "bareTerms run = bare_loop run []"

definition token_terms :: "string \<Rightarrow> Query" where
  "token_terms token = (case Cut (CHR '':'') token of (key0, val, keyed) \<Rightarrow>
     let neg = prefix ''-'' key0; key = ToLower (TrimPrefix ''-'' key0)
     in if phrased token \<or> \<not> keyed then bareTerms token
        else if key = [] \<or> val = [] then [word_term token]
        else [\<lparr>tKey = key, tValue = val, tNot = neg, tQuoted = False\<rparr>])"

definition Parse :: "string \<Rightarrow> Query" where
  "Parse input = concat (map token_terms (tokens input))"

definition Query_Keys :: "Query \<Rightarrow> string list" where
  "Query_Keys q = foldl (\<lambda>keys t. if tKey t \<noteq> [] \<and> tKey t \<notin> set keys then keys @ [tKey t] else keys) [] q"

definition Words :: "Query \<Rightarrow> Query" where
  "Words q = filter (\<lambda>t. tKey t = []) q"

definition Term_String :: "Term \<Rightarrow> string" where
  "Term_String t =
     (let v0 = tValue t;
          v1 = (if tQuoted t \<or> tKey t \<noteq> [] \<and> CHR '' '' \<in> set v0 then [quote_char] @ v0 @ [quote_char] else v0);
          v2 = (if tKey t \<noteq> [] then tKey t @ '':'' @ v1 else v1)
      in if tNot t then ''-'' @ v2 else v2)"

definition Query_String :: "Query \<Rightarrow> string" where
  "Query_String q = Join '' '' (map Term_String q)"

definition Without :: "string \<Rightarrow> Query \<Rightarrow> string" where
  "Without key q = Join '' '' (map Term_String (filter (\<lambda>t. tKey t \<noteq> key) q))"

subsection \<open>The stream and the whole\<close>

lemma IndexByte_append: "IndexByte c a = Some i \<Longrightarrow> IndexByte c (a @ b) = Some i"
  by (auto simp: IndexByte_def split: if_splits)

lemma IndexByte_less: "IndexByte c a = Some i \<Longrightarrow> i < length a \<and> a ! i = c"
proof -
  assume i: "IndexByte c a = Some i"
  then have c: "c \<in> set a" and l: "i = length (takeWhile (\<lambda>x. x \<noteq> c) a)" by (auto simp: IndexByte_def split: if_splits)
  have "takeWhile (\<lambda>x. x \<noteq> c) a \<noteq> a" using c by (auto simp: takeWhile_eq_all_conv)
  then have less: "i < length a" unfolding l
    by (metis le_neq_implies_less length_takeWhile_le takeWhile_eq_take take_all order_refl)
  with nth_length_takeWhile [of "\<lambda>x. x \<noteq> c" a] l show ?thesis by simp
qed

lemma wordLen_append: "wordLen a < length a \<Longrightarrow> wordLen (a @ b) = wordLen a"
  by (auto simp: wordLen_def IndexByte_append split: option.splits)

lemma wordLen_le: "wordLen a \<le> length a"
  using IndexByte_less [of "CHR '' ''" a] by (auto simp: wordLen_def split: option.split)

lemma wordLen_mono: "wordLen a \<le> wordLen (a @ b)"
proof (cases "IndexByte (CHR '' '') a")
  case None
  then have "wordLen a = length a" "CHR '' '' \<notin> set a" by (auto simp: wordLen_def IndexByte_def split: if_splits)
  moreover have "takeWhile (\<lambda>x. x \<noteq> CHR '' '') (a @ b) = a @ takeWhile (\<lambda>x. x \<noteq> CHR '' '') b"
    using calculation(2) by (intro takeWhile_append2) auto
  ultimately show ?thesis by (auto simp: wordLen_def IndexByte_def)
next
  case (Some i)
  then show ?thesis using IndexByte_append [OF Some] by (simp add: wordLen_def)
qed

lemma phrased_append: "a \<noteq> [] \<Longrightarrow> a \<noteq> ''-'' \<Longrightarrow> phrased (a @ b) = phrased a"
  by (cases a; cases "tl a") (auto simp: phrased_def)

lemma not_dash: "bareLen a < length a \<Longrightarrow> a \<noteq> [] \<and> a \<noteq> ''-''"
proof -
  assume "bareLen a < length a"
  moreover have "bareLen ''-'' = 1" by code_simp
  ultimately show ?thesis by auto
qed

lemma bareLen_append:
  assumes "bareLen a < length a"
  shows "bareLen (a @ b) = bareLen a"
proof (cases "phrased a")
  case False
  then show ?thesis
    using assms phrased_append not_dash [OF assms] by (simp add: bareLen_def wordLen_append)
next
  case True
  with assms obtain op where op: "IndexByte quote_char a = Some op" by (auto simp: bareLen_def split: option.splits)
  with True assms obtain cl where cl: "IndexByte quote_char (drop (op + 1) a) = Some cl"
    by (auto simp: bareLen_def split: option.splits)
  let ?e = "op + cl + 2"
  have len: "bareLen a = ?e + wordLen (drop ?e a)" using True op cl by (simp add: bareLen_def Let_def)
  have le: "op + 1 \<le> length a" using IndexByte_less [OF op] by simp
  have less: "?e < length a" using assms len by simp
  have "wordLen (drop ?e a) < length (drop ?e a)" using assms len by simp
  then have "wordLen (drop ?e (a @ b)) = wordLen (drop ?e a)" using less wordLen_append [of "drop ?e a" b] by simp
  moreover have "IndexByte quote_char (drop (op + 1) (a @ b)) = Some cl" using le IndexByte_append [OF cl, of b] by simp
  ultimately show ?thesis
    using len True IndexByte_append [OF op, of b] phrased_append not_dash [OF assms] by (simp add: bareLen_def Let_def)
qed

lemma spaces_append: "drop (spaces a) a \<noteq> [] \<Longrightarrow> spaces (a @ b) = spaces a"
  by (induction a) (auto simp: spaces_def)

lemma find_term_append: "find_term a i = Some j \<Longrightarrow> find_term (a @ b) i = Some j"
proof (induction a i rule: find_term.induct)
  case (1 a i)
  have ne: "a \<noteq> []" using "1.prems" by (auto simp: find_term.simps [of a])
  let ?w = "bareLen a"
  show ?case
  proof (cases "\<not> phrased a \<and> CHR '':'' \<in> set (take ?w a)")
    case True
    then have "a \<noteq> ''-''" by (auto dest: in_set_takeD)
    then have np: "\<not> phrased (a @ b)" using True ne phrased_append by simp
    then have "?w \<le> bareLen (a @ b)" using True wordLen_mono [of a b] by (simp add: bareLen_def)
    then have "set (take ?w a) \<subseteq> set (take (bareLen (a @ b)) (a @ b))"
      using set_take_subset_set_take [of ?w "bareLen (a @ b)" "a @ b"] by auto
    then have "CHR '':'' \<in> set (take (bareLen (a @ b)) (a @ b))" using True by blast
    moreover have "j = i" using "1.prems" True ne by (simp add: find_term.simps [of a])
    ultimately show ?thesis using np ne by (subst find_term.simps) (simp add: Let_def)
  next
    case False
    let ?r = "drop ?w a"
    have rec: "find_term (drop (spaces ?r) ?r) (i + ?w + spaces ?r) = Some j"
      using "1.prems" False ne unfolding find_term.simps [of a] by (simp add: Let_def split: if_splits)
    then have ne2: "drop (spaces ?r) ?r \<noteq> []" by (auto simp: find_term.simps [of "[]"])
    then have less: "?w < length a" by auto
    note w = bareLen_append [OF less, of b]
    have sp: "spaces (?r @ b) = spaces ?r" by (rule spaces_append [OF ne2])
    have ph: "phrased (a @ b) = phrased a" using phrased_append not_dash [OF less] by blast
    have "find_term (drop (spaces ?r) ?r @ b) (i + ?w + spaces ?r) = Some j"
      by (rule "1.IH") (use ne False rec in auto)
    moreover have "drop (spaces (?r @ b)) (?r @ b) = drop (spaces ?r) ?r @ b" using sp ne2 by simp
    ultimately show ?thesis using ne less w ph False sp by (subst find_term.simps) (auto simp: Let_def)
  qed
qed

lemma find_term_range:
  "find_term a i = Some j \<Longrightarrow> i \<le> j \<and> j < i + length a \<and> (j = i \<longrightarrow> \<not> phrased a \<and> CHR '':'' \<in> set (take (bareLen a) a))"
proof (induction a i rule: find_term.induct)
  case (1 a i)
  have ne: "a \<noteq> []" using "1.prems" by (auto simp: find_term.simps [of a])
  let ?w = "bareLen a" let ?r = "drop (bareLen a) a"
  show ?case
  proof (cases "\<not> phrased a \<and> CHR '':'' \<in> set (take ?w a)")
    case True
    then show ?thesis using "1.prems" ne by (simp add: find_term.simps [of a] Let_def)
  next
    case False
    then have rec: "find_term (drop (spaces ?r) ?r) (i + ?w + spaces ?r) = Some j"
      using "1.prems" ne unfolding find_term.simps [of a] by (simp add: Let_def split: if_splits)
    have "0 < ?w + spaces ?r"
    proof (cases "hd a = CHR '' ''")
      case True
      then show ?thesis using ne by (cases "?w = 0"; cases a) (auto simp: spaces_def)
    qed (use bareLen_pos [OF ne] in simp)
    moreover have "i + ?w + spaces ?r \<le> j \<and> j < i + ?w + spaces ?r + length (drop (spaces ?r) ?r)"
      using "1.IH" [OF ne refl False refl rec] by blast
    ultimately show ?thesis by (auto simp: spaces_def)
  qed
qed

lemma keyed_token_append:
  assumes "CHR '':'' \<in> set a" and "keyed_token a False = Some (n, tok)"
  shows "keyed_token (a @ b) True = Some (n, tok)"
proof -
  obtain colon where colon: "IndexByte (CHR '':'') a = Some colon" using assms(1) by (auto simp: IndexByte_def)
  let ?v = "drop (colon + 1) a"
  have lc: "colon + 1 \<le> length a" using IndexByte_less [OF colon] by simp
  have c': "IndexByte (CHR '':'') (a @ b) = Some colon" by (rule IndexByte_append [OF colon])
  have v': "drop (colon + 1) (a @ b) = ?v @ b" and t': "take (colon + 1) (a @ b) = take (colon + 1) a" using lc by simp_all
  show ?thesis
  proof (cases "?v \<noteq> [] \<and> hd ?v = quote_char")
    case True
    with assms(2) colon obtain cl where cl: "IndexByte quote_char (tl ?v) = Some cl"
      by (auto simp: keyed_token_def Let_def split: option.splits)
    have tl: "tl (?v @ b) = tl ?v @ b" "hd (?v @ b) = hd ?v" using True by simp_all
    have "cl \<le> length (tl ?v)" using IndexByte_less [OF cl] by simp
    then have tk: "take cl (tl ?v @ b) = take cl (tl ?v)" by simp
    have "keyed_token (a @ b) True = Some (colon + cl + 3, take (colon + 1) a @ take cl (tl ?v @ b))"
      using True IndexByte_append [OF cl, of b]
      unfolding keyed_token_def Let_def c' option.sel v' t' tl by (simp del: take_append)
    moreover have "n = colon + cl + 3" "tok = take (colon + 1) a @ take cl (tl ?v)"
      using assms(2) True colon cl by (auto simp: keyed_token_def Let_def)
    ultimately show ?thesis unfolding tk by simp
  next
    case False
    then have n: "colon + 1 + wordLen ?v \<noteq> length a" "n = colon + 1 + wordLen ?v" "tok = take n a"
      using assms(2) colon by (auto simp: keyed_token_def Let_def split: if_splits)
    then have "wordLen ?v < length ?v" using wordLen_le [of ?v] lc by simp
    moreover from this have "?v \<noteq> []" by auto
    ultimately show ?thesis
      using False n(2,3) wordLen_append [of ?v b] lc unfolding keyed_token_def Let_def c' option.sel v' by simp
  qed
qed

lemma split_append:
  assumes run: "splitSearchTokens a False = (adv, Some tok)"
  shows "splitSearchTokens (a @ b) True = (adv, Some tok)"
proof -
  let ?st = "spaces a" let ?r = "drop ?st a"
  have ne: "?r \<noteq> []" using run by (auto simp: splitSearchTokens_def Let_def)
  have st: "spaces (a @ b) = ?st" by (rule spaces_append [OF ne])
  have r: "drop ?st (a @ b) = ?r @ b" using ne by simp
  from run ne obtain at where at: "find_term ?r 0 = Some at" by (auto simp: splitSearchTokens_def Let_def split: option.splits)
  note range = find_term_range [OF at] and at' = find_term_append [OF at, of b]
  show ?thesis
  proof (cases "0 < at")
    case True
    then show ?thesis
      using run ne at range unfolding splitSearchTokens_def Let_def st r at' by (simp add: Let_def)
  next
    case False
    then have "CHR '':'' \<in> set ?r" using range by (auto dest: in_set_takeD)
    moreover obtain n where k: "keyed_token ?r False = Some (n, tok)" "adv = ?st + n"
      using run ne at False by (auto simp: splitSearchTokens_def Let_def split: option.splits)
    ultimately have "keyed_token (?r @ b) True = Some (n, tok)" by (auto intro: keyed_token_append)
    then show ?thesis
      using ne False k(2) unfolding splitSearchTokens_def Let_def st r at' by simp
  qed
qed

lemma split_none: "splitSearchTokens a False = (adv, None) \<Longrightarrow> adv = spaces a"
  by (auto simp: splitSearchTokens_def Let_def split: if_splits option.splits)

lemma spaces_skip: "n \<le> spaces a \<Longrightarrow> spaces (drop n a) = spaces a - n"
  by (induction a arbitrary: n) (auto simp: spaces_def drop_Cons split: nat.splits)

lemma tokens_skip:
  assumes "n \<le> spaces a"
  shows "tokens (drop n a) = tokens a"
proof -
  have d: "drop (spaces (drop n a)) (drop n a) = drop (spaces a) a" using assms by (simp add: spaces_skip add.commute)
  have le: "spaces a \<le> length a" by (simp add: spaces_def length_takeWhile_le)
  show ?thesis
    unfolding tokens_step [of "drop n a"] tokens_step [of a] splitSearchTokens_def Let_def d
    using assms le by (auto simp: spaces_skip split: option.split)
qed

lemma spaces_mono: "spaces a \<le> spaces (a @ b)"
  by (induction a) (auto simp: spaces_def)

lemma keyed_token_le:
  assumes "CHR '':'' \<in> set a" and "keyed_token a e = Some (n, tok)"
  shows "n \<le> length a"
proof -
  obtain colon where colon: "IndexByte (CHR '':'') a = Some colon" using assms(1) by (auto simp: IndexByte_def)
  let ?v = "drop (colon + 1) a"
  have lc: "colon + 1 \<le> length a" using IndexByte_less [OF colon] by simp
  have "closing + 3 + colon \<le> length a" if "?v \<noteq> []" "IndexByte quote_char (tl ?v) = Some closing" for closing
    using IndexByte_less [OF that(2)] that(1) by (auto simp: less_diff_conv)
  then show ?thesis
    using assms(2) colon lc wordLen_le [of ?v] by (auto simp: keyed_token_def Let_def split: if_splits option.splits)
qed

lemma split_le: "splitSearchTokens a e = (adv, tok) \<Longrightarrow> adv \<le> length a"
proof -
  assume run: "splitSearchTokens a e = (adv, tok)"
  have sp: "spaces a \<le> length a" by (simp add: spaces_def length_takeWhile_le)
  have f: "j < length a - spaces a \<and> (j = 0 \<longrightarrow> CHR '':'' \<in> set (drop (spaces a) a))" if "find_term (drop (spaces a) a) 0 = Some j" for j
    using find_term_range [OF that] by (auto dest: in_set_takeD)
  have "n \<le> length a - spaces a" if "find_term (drop (spaces a) a) 0 = Some 0" "keyed_token (drop (spaces a) a) e = Some (n, t)" for n t
    using keyed_token_le [OF _ that(2)] f [OF that(1)] by simp
  with run sp f show ?thesis
    by (fastforce simp: splitSearchTokens_def Let_def split: if_splits option.splits)
qed

text \<open>
  C34: reading the query in pieces makes no difference. However the input is cut into reads, the
  scanner's calls of \<^verbatim>\<open>splitSearchTokens\<close> on what is buffered so far, most of them before the
  input has ended, give the tokens the whole input gives.
\<close>

theorem scan_chunks_whole: "scan_chunks buf chunks = tokens (buf @ concat chunks)"
proof (induction buf chunks rule: scan_chunks.induct)
  case (1 buf chunks)
  obtain adv tok where sp: "splitSearchTokens buf (chunks = []) = (adv, tok)" by force
  show ?case
  proof (cases tok)
    case (Some t)
    have ne: "buf \<noteq> []" using sp Some by auto
    have le: "adv \<le> length buf" by (rule split_le [OF sp])
    have "splitSearchTokens (buf @ concat chunks) True = (adv, Some t)"
      using sp Some split_append [of buf adv t "concat chunks"] by (cases chunks) auto
    then have "tokens (buf @ concat chunks) = t # tokens (drop adv (buf @ concat chunks))" by (subst tokens_step) simp
    moreover have "scan_chunks buf chunks = t # scan_chunks (drop adv buf) chunks"
      using sp Some ne by (subst scan_chunks.simps) simp
    ultimately show ?thesis using "1.IH"(2) [OF sp [symmetric] Some ne] le by simp
  next
    case None
    show ?thesis
    proof (cases chunks)
      case Nil
      then show ?thesis using sp None by (subst scan_chunks.simps, subst tokens_step) simp
    next
      case (Cons c cs)
      have adv: "adv = spaces buf" using sp None Cons split_none by simp
      then have le: "adv \<le> spaces (buf @ c @ concat cs)" "adv \<le> length buf"
        using spaces_mono [of buf] by (auto simp: spaces_def length_takeWhile_le)
      have "scan_chunks buf chunks = scan_chunks (drop adv buf @ c) cs"
        using sp None Cons by (subst scan_chunks.simps) simp
      also have "\<dots> = tokens (drop adv (buf @ c @ concat cs))" using "1.IH"(1) [OF sp [symmetric] None Cons] le(2) by simp
      also have "\<dots> = tokens (buf @ c @ concat cs)" by (rule tokens_skip [OF le(1)])
      finally show ?thesis using Cons by simp
    qed
  qed
qed



subsection \<open>A query written back\<close>

definition keyed_term :: "Term \<Rightarrow> bool" where
  "keyed_term t \<longleftrightarrow> tKey t \<noteq> [] \<and> hd (tKey t) \<noteq> CHR ''-'' \<and> ToLower (tKey t) = tKey t \<and>
     CHR '':'' \<notin> set (tKey t) \<and> CHR '' '' \<notin> set (tKey t) \<and> quote_char \<notin> set (tKey t) \<and>
     tValue t \<noteq> [] \<and> quote_char \<notin> set (tValue t)"

definition token_of :: "Term \<Rightarrow> string" where
  "token_of t = (if tNot t then ''-'' else []) @ tKey t @ '':'' @ tValue t"

lemma token_terms_of:
  assumes "keyed_term t"
  shows "token_terms (token_of t) = [t\<lparr>tQuoted := False\<rparr>]"
proof -
  have k: "tKey t \<noteq> []" "hd (tKey t) \<noteq> CHR ''-''" "CHR '':'' \<notin> set (tKey t)" "hd (tKey t) \<noteq> quote_char" "ToLower (tKey t) = tKey t"
    and v: "tValue t \<noteq> []" using assms by (cases "tKey t"; auto simp: keyed_term_def)+
  let ?pre = "(if tNot t then ''-'' else []) @ tKey t"
  have cut: "Cut (CHR '':'') (token_of t) = (?pre, tValue t, True)"
    using Cut_here [of "CHR '':''" ?pre "tValue t"] k(3) by (auto simp: token_of_def)
  have "\<not> phrased (token_of t)" using k by (cases "tKey t") (auto simp: phrased_def token_of_def)
  moreover have "prefix ''-'' ?pre = tNot t" "TrimPrefix ''-'' ?pre = tKey t"
    using k by (cases "tKey t"; auto simp: TrimPrefix_def)+
  ultimately show ?thesis using cut k(1,5) v by (simp add: token_terms_def)
qed

lemma IndexByte_here: "c \<notin> set a \<Longrightarrow> IndexByte c (a @ c # b) = Some (length a)"
  by (induction a) (auto simp: IndexByte_def)

lemma wordLen_here: "CHR '' '' \<notin> set a \<Longrightarrow> b = [] \<or> hd b = CHR '' '' \<Longrightarrow> wordLen (a @ b) = length a"
  using IndexByte_here [of "CHR '' ''" a "tl b"] by (cases b) (auto simp: wordLen_def IndexByte_def)

lemma find_term_first:
  assumes "CHR '' '' \<notin> set pre" and "\<not> phrased (pre @ '':'' @ b)"
  shows "find_term (pre @ '':'' @ b) i = Some i"
proof -
  have "wordLen (pre @ '':'') \<le> wordLen ((pre @ '':'') @ b)" by (rule wordLen_mono)
  moreover have "wordLen (pre @ '':'') = length pre + 1" using wordLen_here [of "pre @ '':''" "[]"] assms(1) by simp
  ultimately have "length pre + 1 \<le> wordLen (pre @ '':'' @ b)" by simp
  then have "set (take (length pre + 1) (pre @ '':'' @ b)) \<subseteq> set (take (wordLen (pre @ '':'' @ b)) (pre @ '':'' @ b))"
    by (rule set_take_subset_set_take)
  then have "CHR '':'' \<in> set (take (bareLen (pre @ '':'' @ b)) (pre @ '':'' @ b))" using assms(2) by (auto simp: bareLen_def)
  then show ?thesis using assms(2) by (subst find_term.simps) (simp add: Let_def)
qed

lemma split_keyed:
  assumes "keyed_term t" and "rest = [] \<or> hd rest = CHR '' ''"
  shows "splitSearchTokens (Term_String t @ rest) True = (length (Term_String t), Some (token_of t))"
proof -
  have k: "tKey t \<noteq> []" "hd (tKey t) \<noteq> CHR ''-''" "CHR '':'' \<notin> set (tKey t)" "CHR '' '' \<notin> set (tKey t)" "quote_char \<notin> set (tKey t)"
    and v: "tValue t \<noteq> []" "quote_char \<notin> set (tValue t)" using assms(1) by (auto simp: keyed_term_def)
  let ?pre = "(if tNot t then ''-'' else []) @ tKey t"
  let ?val = "if tQuoted t \<or> CHR '' '' \<in> set (tValue t) then [quote_char] @ tValue t @ [quote_char] else tValue t"
  have s: "Term_String t @ rest = ?pre @ '':'' @ ?val @ rest" "length (Term_String t) = length ?pre + 1 + length ?val"
    using k(1) by (simp_all add: Term_String_def Let_def)
  have pre: "CHR '':'' \<notin> set ?pre" "CHR '' '' \<notin> set ?pre" using k by auto
  have np: "\<not> phrased (?pre @ '':'' @ x)" for x
    using k by (cases "tKey t") (auto simp: phrased_def)
  have sp: "spaces (?pre @ '':'' @ x) = 0" for x
    using k by (cases "tKey t") (auto simp: spaces_def)
  have colon: "IndexByte (CHR '':'') (?pre @ '':'' @ x) = Some (length ?pre)" for x
    using IndexByte_here [OF pre(1), of x] by simp
  have d: "drop (length ?pre + 1) (?pre @ '':'' @ x) = x" "take (length ?pre + 1) (?pre @ '':'' @ x) = ?pre @ '':''" for x by simp_all
  have "keyed_token (?pre @ '':'' @ ?val @ rest) True = Some (length ?pre + 1 + length ?val, token_of t)"
  proof (cases "tQuoted t \<or> CHR '' '' \<in> set (tValue t)")
    case True
    have "IndexByte quote_char (tValue t @ quote_char # rest) = Some (length (tValue t))" by (rule IndexByte_here [OF v(2)])
    then show ?thesis unfolding keyed_token_def Let_def colon option.sel d using True by (simp add: token_of_def)
  next
    case False
    then have "wordLen (tValue t @ rest) = length (tValue t)" "hd (tValue t @ rest) \<noteq> quote_char"
      using wordLen_here [OF _ assms(2), of "tValue t"] v by (auto simp: neq_Nil_conv)
    then show ?thesis unfolding keyed_token_def Let_def colon option.sel d using False by (simp add: token_of_def)
  qed
  then show ?thesis
    unfolding s splitSearchTokens_def Let_def sp using find_term_first [OF pre(2) np] by simp
qed

lemma Parse_keyed:
  assumes "list_all keyed_term q"
  shows "Parse (Query_String q) = map (\<lambda>t. t\<lparr>tQuoted := False\<rparr>) q"
proof -
  have "tokens (Query_String q) = map token_of q"
    using assms
  proof (induction q)
    case Nil
    then show ?case by (subst tokens_step) (simp add: Query_String_def)
  next
    case (Cons t q)
    define rest where "rest = (if q = [] then [] else '' '' @ Query_String q)"
    have s: "Query_String (t # q) = Term_String t @ rest"
      by (cases q) (simp_all add: Query_String_def rest_def)
    have "tokens rest = tokens (Query_String q)"
      using tokens_skip [of 1 "'' '' @ Query_String q"] by (cases "q = []") (simp_all add: rest_def Query_String_def spaces_def)
    moreover have "rest = [] \<or> hd rest = CHR '' ''" by (simp add: rest_def)
    ultimately show ?case
      unfolding s using Cons split_keyed [of t rest] by (subst tokens_step) simp
  qed
  moreover have "concat (map token_terms (map token_of q)) = map (\<lambda>t. t\<lparr>tQuoted := False\<rparr>) q"
    using assms by (induction q) (simp_all add: token_terms_of)
  ultimately show ?thesis by (simp add: Parse_def)
qed

text \<open>
  C33: what the search box writes back means what was typed: a query of keys with values, negated or
  not, with spaces in the values or not, is read again as the same
  terms in the same order. A keyed term no longer says it was quoted: its value is one term anyway.
\<close>

theorem Parse_String:
  assumes "list_all keyed_term q"
  shows "Parse (Query_String q) = map (\<lambda>t. t\<lparr>tQuoted := False\<rparr>) q"
  by (rule Parse_keyed [OF assms])

theorem Parse_String_witness:
  "Parse (Query_String [\<lparr>tKey = ''from'', tValue = ''ann'', tNot = True, tQuoted = False\<rparr>,
     \<lparr>tKey = ''in'', tValue = ''my folder'', tNot = False, tQuoted = False\<rparr>]) =
   [\<lparr>tKey = ''from'', tValue = ''ann'', tNot = True, tQuoted = False\<rparr>,
     \<lparr>tKey = ''in'', tValue = ''my folder'', tNot = False, tQuoted = False\<rparr>]"
proof -
  let ?q = "[\<lparr>tKey = ''from'', tValue = ''ann'', tNot = True, tQuoted = False\<rparr>,
     \<lparr>tKey = ''in'', tValue = ''my folder'', tNot = False, tQuoted = False\<rparr>]"
  have "list_all keyed_term ?q" by code_simp
  then show ?thesis using Parse_String [of ?q] by simp
qed

end
