(* ===== verification/Memo.thy ===== *)
theory Memo
  imports Prelude "HOL-Library.Word"
begin

text \<open>
  One derived value per user, loaded once for concurrent callers (\<^verbatim>\<open>internal/memo/memo.go\<close>).

  Entries are objects a running load still holds after \<^verbatim>\<open>Forget\<close> dropped them, so they live at
  addresses of a heap and the map of users holds addresses. Each critical section under an
  entry's lock is one definition; \<open>now\<close> is the clock it reads. \<^verbatim>\<open>Get\<close> is its entry half, which
  answers at once, waits for the load in flight or becomes the loader, and its leaving half; the
  goroutine of \<^verbatim>\<open>start\<close> ends with \<open>start_done\<close>. \<open>None\<close> is the zero time and the zero value. The
  step relation \<open>mstep\<close> interleaves the sections of any number of callers.
\<close>

record 'v memoEntry =
  mVal :: "'v option"
  mFetched :: "time option"
  mLoading :: bool
  mVersion :: "64 word"
  mRetryAfter :: "time option"

record 'v Memo =
  mTTL :: duration
  mBackground :: bool
  mEntries :: "string \<Rightarrow> nat option"
  mHeap :: "nat \<Rightarrow> 'v memoEntry"
  mNext :: nat

definition zero_entry :: "'v memoEntry" where
  "zero_entry = \<lparr>mVal = None, mFetched = None, mLoading = False, mVersion = 0, mRetryAfter = None\<rparr>"

definition Memo_New :: "duration \<Rightarrow> bool \<Rightarrow> 'v Memo" where
  "Memo_New ttl background = \<lparr>mTTL = ttl, mBackground = background, mEntries = (\<lambda>_. None), mHeap = (\<lambda>_. zero_entry), mNext = 0\<rparr>"

definition set_entry :: "nat \<Rightarrow> 'v memoEntry \<Rightarrow> 'v Memo \<Rightarrow> 'v Memo" where
  "set_entry a e m = m\<lparr>mHeap := (mHeap m)(a := e)\<rparr>"

definition memo_entry :: "string \<Rightarrow> 'v Memo \<Rightarrow> nat \<times> 'v Memo" where
  "memo_entry user m = (case mEntries m user of
       Some a \<Rightarrow> (a, m)
     | None \<Rightarrow> (mNext m, m\<lparr>mEntries := (mEntries m)(user := Some (mNext m)), mHeap := (mHeap m)(mNext m := zero_entry),
                          mNext := Suc (mNext m)\<rparr>))"

definition memo_held :: "string \<Rightarrow> 'v Memo \<Rightarrow> nat option" where
  "memo_held user m = mEntries m user"

definition memo_settle :: "64 word \<Rightarrow> 'e + 'v \<Rightarrow> time \<Rightarrow> 'v memoEntry \<Rightarrow> 'v memoEntry" where
  "memo_settle ver res now e =
     (case res of
        Inr v \<Rightarrow> if ver = mVersion e then e\<lparr>mVal := Some v, mFetched := Some now\<rparr> else e
      | Inl _ \<Rightarrow> e)\<lparr>mLoading := False\<rparr>"

definition memoRetryDelay :: duration where
  "memoRetryDelay = 5 * 10 ^ 9"

definition memo_start :: "nat \<Rightarrow> time \<Rightarrow> 'v Memo \<Rightarrow> (nat \<times> 64 word) option \<times> 'v Memo" where
  "memo_start a now m = (let e = mHeap m a in
     if mLoading e \<or> (case mRetryAfter e of None \<Rightarrow> False | Some r \<Rightarrow> now < r) then (None, m)
     else (Some (a, mVersion e), set_entry a (e\<lparr>mLoading := True\<rparr>) m))"

definition start_done :: "nat \<Rightarrow> 64 word \<Rightarrow> 'e + 'v \<Rightarrow> time \<Rightarrow> 'v Memo \<Rightarrow> 'v Memo" where
  "start_done a ver res now m = (let e = mHeap m a;
       e1 = (if isl res then e\<lparr>mRetryAfter := Some (now + memoRetryDelay)\<rparr> else e)
     in set_entry a (memo_settle ver res now e1) m)"

datatype 'v got = Direct | Hit "'v option" | Wait nat | Load nat "64 word"

text \<open>The load a section starts runs in the foreground (\<open>True\<close>) or in a goroutine.\<close>

type_synonym started = "(nat \<times> 64 word \<times> bool) option"

definition Get_enter :: "string \<Rightarrow> time \<Rightarrow> 'v Memo \<Rightarrow> ('v got \<times> started) \<times> 'v Memo" where
  "Get_enter user now m =
     (if mTTL m = 0 then ((Direct, None), m)
      else case memo_entry user m of (a, m1) \<Rightarrow>
        (let e = mHeap m1 a in
         case mFetched e of
           Some f \<Rightarrow>
             if mBackground m1 \<or> now - f \<le> mTTL m1 then
               (if mBackground m1 \<and> now - f > mTTL m1
                then (case memo_start a now m1 of (st, m2) \<Rightarrow> ((Hit (mVal (mHeap m2 a)), map_option (\<lambda>(a, w). (a, w, False)) st), m2))
                else ((Hit (mVal e), None), m1))
             else if mLoading e then ((Wait a, None), m1)
             else ((Load a (mVersion e), Some (a, mVersion e, True)), set_entry a (e\<lparr>mLoading := True\<rparr>) m1)
         | None \<Rightarrow>
             if mLoading e then ((Wait a, None), m1)
             else ((Load a (mVersion e), Some (a, mVersion e, True)), set_entry a (e\<lparr>mLoading := True\<rparr>) m1)))"

definition Get_leave :: "nat \<Rightarrow> 64 word \<Rightarrow> 'e + 'v \<Rightarrow> time \<Rightarrow> 'v Memo \<Rightarrow> ('e + 'v option) \<times> 'v Memo" where
  "Get_leave a ver res now m = (let e = memo_settle ver res now (mHeap m a) in
     (case res of
        Inl err \<Rightarrow> Inl err
      | Inr v \<Rightarrow> Inr (if mFetched e \<noteq> None then mVal e else Some v), set_entry a e m))"

definition Warm :: "string \<Rightarrow> time \<Rightarrow> 'v Memo \<Rightarrow> ('v option \<times> started) \<times> 'v Memo" where
  "Warm user now m =
     (if mTTL m = 0 then ((None, None), m)
      else case memo_entry user m of (a, m1) \<Rightarrow>
        (if (case mFetched (mHeap m1 a) of None \<Rightarrow> True | Some f \<Rightarrow> now - f > mTTL m1)
         then (case memo_start a now m1 of (st, m2) \<Rightarrow> ((mVal (mHeap m2 a), map_option (\<lambda>(a, w). (a, w, False)) st), m2))
         else ((mVal (mHeap m1 a), None), m1)))"

definition Memo_Put :: "string \<Rightarrow> 'v \<Rightarrow> time \<Rightarrow> 'v Memo \<Rightarrow> 'v Memo" where
  "Memo_Put user v now m =
     (if mTTL m = 0 then m
      else case memo_entry user m of (a, m1) \<Rightarrow>
        (let e = mHeap m1 a in set_entry a (e\<lparr>mVersion := mVersion e + 1, mVal := Some v, mFetched := Some now\<rparr>) m1))"

definition Memo_Update :: "string \<Rightarrow> ('v option \<Rightarrow> 'v option) \<Rightarrow> 'v Memo \<Rightarrow> 'v Memo" where
  "Memo_Update user f m = (case memo_held user m of
       None \<Rightarrow> m
     | Some a \<Rightarrow> (let e = mHeap m a in
         if mFetched e \<noteq> None then set_entry a (e\<lparr>mVersion := mVersion e + 1, mVal := f (mVal e)\<rparr>) m else m))"

definition Forget :: "string \<Rightarrow> 'v Memo \<Rightarrow> 'v Memo" where
  "Forget user m = m\<lparr>mEntries := (mEntries m)(user := None)\<rparr>"

definition Retry :: "string \<Rightarrow> time \<Rightarrow> 'v Memo \<Rightarrow> 'v Memo" where
  "Retry user now m = (case memo_held user m of
       None \<Rightarrow> m
     | Some a \<Rightarrow> (let e = mHeap m a; soon = now + (memoRetryDelay - mTTL m) in
         (case mFetched e of
            None \<Rightarrow> m
          | Some f \<Rightarrow> if soon < f then set_entry a (e\<lparr>mFetched := Some soon\<rparr>) m else m)))"

definition Memo_Stale :: "string \<Rightarrow> time \<Rightarrow> 'v Memo \<Rightarrow> 'v Memo" where
  "Memo_Stale user now m = (case memo_held user m of
       None \<Rightarrow> m
     | Some a \<Rightarrow> (let e = mHeap m a; e1 = e\<lparr>mVersion := mVersion e + 1\<rparr> in
         set_entry a (if mFetched e \<noteq> None then e1\<lparr>mFetched := Some (now - mTTL m - 1)\<rparr> else e1) m))"

subsection \<open>Callers interleaved\<close>

text \<open>A load in flight: its entry, the version it began at and whether a caller waits on it; \<open>lOver\<close> counts what overtook it.\<close>

record load =
  lAt :: nat
  lVer :: "64 word"
  lFore :: bool
  lOver :: nat

definition begun :: "started \<Rightarrow> load list \<Rightarrow> load list" where
  "begun st ls = (case st of None \<Rightarrow> ls | Some (a, w, fg) \<Rightarrow> \<lparr>lAt = a, lVer = w, lFore = fg, lOver = 0\<rparr> # ls)"

definition overtake :: "nat \<Rightarrow> load list \<Rightarrow> load list" where
  "overtake a ls = map (\<lambda>l. if lAt l = a then l\<lparr>lOver := Suc (lOver l)\<rparr> else l) ls"

inductive mstep :: "'v Memo \<times> load list \<Rightarrow> 'v Memo \<times> load list \<Rightarrow> bool" where
  get: "Get_enter user now m = ((g, st), m') \<Longrightarrow> mstep (m, ls) (m', begun st ls)"
| warm: "Warm user now m = ((v, st), m') \<Longrightarrow> mstep (m, ls) (m', begun st ls)"
| leave: "l \<in> set ls \<Longrightarrow> lFore l \<Longrightarrow> Get_leave (lAt l) (lVer l) (res :: string + 'v) now m = (r, m') \<Longrightarrow> mstep (m, ls) (m', remove1 l ls)"
| loaded: "l \<in> set ls \<Longrightarrow> \<not> lFore l \<Longrightarrow> mstep (m, ls) (start_done (lAt l) (lVer l) (res :: string + 'v) now m, remove1 l ls)"
| put: "mTTL m \<noteq> 0 \<Longrightarrow> mstep (m, ls) (Memo_Put user v now m, overtake (fst (memo_entry user m)) ls)"
| update: "memo_held user m = Some a \<Longrightarrow> mFetched (mHeap m a) \<noteq> None \<Longrightarrow> mstep (m, ls) (Memo_Update user f m, overtake a ls)"
| stale: "memo_held user m = Some a \<Longrightarrow> mstep (m, ls) (Memo_Stale user now m, overtake a ls)"
| forget: "mstep (m, ls) (Forget user m, ls)"
| retry: "mstep (m, ls) (Retry user now m, ls)"

inductive mreach :: "duration \<Rightarrow> bool \<Rightarrow> 'v Memo \<times> load list \<Rightarrow> bool" where
  init: "mreach ttl background (Memo_New ttl background, [])"
| step: "mreach ttl background x \<Longrightarrow> mstep x y \<Longrightarrow> mreach ttl background y"

definition memo_inv :: "'v Memo \<times> load list \<Rightarrow> bool" where
  "memo_inv x \<longleftrightarrow> (case x of (m, ls) \<Rightarrow>
     distinct (map lAt ls) \<and>
     (\<forall>l \<in> set ls. lAt l < mNext m \<and> mLoading (mHeap m (lAt l)) \<and> mVersion (mHeap m (lAt l)) = lVer l + of_nat (lOver l)) \<and>
     (\<forall>a. mLoading (mHeap m a) \<longrightarrow> a \<in> lAt ` set ls) \<and>
     (\<forall>user a. mEntries m user = Some a \<longrightarrow> a < mNext m))"

lemma memo_inv_New: "memo_inv (Memo_New ttl background, [])"
  by (simp add: memo_inv_def Memo_New_def zero_entry_def)

lemma memo_inv_entry:
  assumes "memo_inv (m, ls)" and "memo_entry user m = (a, m1)"
  shows "memo_inv (m1, ls)" and "a < mNext m1"
proof -
  have "memo_inv (m1, ls) \<and> a < mNext m1"
  proof (cases "mEntries m user")
    case None
    then have m1: "m1 = m\<lparr>mEntries := (mEntries m)(user := Some (mNext m)), mHeap := (mHeap m)(mNext m := zero_entry), mNext := Suc (mNext m)\<rparr>"
      and a: "a = mNext m" using assms(2) by (auto simp: memo_entry_def)
    have "lAt l \<noteq> mNext m" if "l \<in> set ls" for l using assms(1) that by (auto simp: memo_inv_def)
    then show ?thesis using assms(1) unfolding m1 a
      by (auto simp: memo_inv_def zero_entry_def less_SucI split: if_splits)
  next
    case (Some b)
    then show ?thesis using assms by (auto simp: memo_entry_def memo_inv_def)
  qed
  then show "memo_inv (m1, ls)" "a < mNext m1" by auto
qed

lemma memo_inv_same:
  assumes "memo_inv (m, ls)" and "mLoading e = mLoading (mHeap m a)" and "mVersion e = mVersion (mHeap m a)"
  shows "memo_inv (set_entry a e m, ls)"
  using assms by (fastforce simp: memo_inv_def set_entry_def)

lemma memo_inv_begin:
  assumes "memo_inv (m, ls)" and "\<not> mLoading (mHeap m a)" and "a < mNext m"
  shows "memo_inv (set_entry a ((mHeap m a)\<lparr>mLoading := True\<rparr>) m, begun (Some (a, mVersion (mHeap m a), fg)) ls)"
  using assms by (fastforce simp: memo_inv_def set_entry_def begun_def)

lemma memo_inv_end:
  assumes inv: "memo_inv (m, ls)" and l: "l \<in> set ls" and "\<not> mLoading e"
  shows "memo_inv (set_entry (lAt l) e m, remove1 l ls)"
proof -
  have d: "distinct (map lAt ls)" using inv by (simp add: memo_inv_def)
  then have dl: "distinct ls" by (simp add: distinct_map)
  have inj: "lAt k = lAt l \<Longrightarrow> k \<in> set ls \<Longrightarrow> k = l" for k
    using d l by (auto simp: distinct_map dest: inj_onD)
  have "set (remove1 l ls) = set ls - {l}" using dl by (rule set_remove1_eq)
  moreover have "distinct (map lAt (remove1 l ls))"
    using d dl by (auto simp: distinct_map intro: inj_on_subset)
  ultimately show ?thesis
    using inv assms(3) inj l by (fastforce simp: memo_inv_def set_entry_def)
qed

lemma memo_inv_bump:
  assumes "memo_inv (m, ls)" and "mLoading e = mLoading (mHeap m a)" and "mVersion e = mVersion (mHeap m a) + 1"
  shows "memo_inv (set_entry a e m, overtake a ls)"
proof -
  have ats: "map lAt (overtake a ls) = map lAt ls" by (induction ls) (auto simp: overtake_def)
  have "lAt ` set (overtake a ls) = lAt ` set ls" by (simp only: set_map [symmetric] ats)
  moreover have "lAt k < mNext m \<and> mLoading (mHeap (set_entry a e m) (lAt k)) \<and>
      mVersion (mHeap (set_entry a e m) (lAt k)) = lVer k + of_nat (lOver k)" if k: "k \<in> set (overtake a ls)" for k
  proof -
    obtain l where l: "l \<in> set ls" and kl: "k = (if lAt l = a then l\<lparr>lOver := Suc (lOver l)\<rparr> else l)"
      using k unfolding overtake_def set_map by blast
    have "lAt l < mNext m \<and> mLoading (mHeap m (lAt l)) \<and> mVersion (mHeap m (lAt l)) = lVer l + of_nat (lOver l)"
      using assms(1) l by (simp add: memo_inv_def)
    then show ?thesis using kl assms(2,3) by (cases "lAt l = a") (simp_all add: set_entry_def)
  qed
  moreover have "a' \<in> lAt ` set ls" if "mLoading (mHeap (set_entry a e m) a')" for a'
    using that assms(1,2) by (cases "a' = a") (simp_all add: set_entry_def memo_inv_def)
  moreover have "distinct (map lAt ls)" "mEntries m user = Some b \<Longrightarrow> b < mNext m" for user b
    using assms(1) by (simp_all add: memo_inv_def)
  ultimately show ?thesis using ats unfolding memo_inv_def by (simp add: set_entry_def)
qed

lemma settle_loading: "\<not> mLoading (memo_settle ver res now e)"
  by (simp add: memo_settle_def)

lemma memo_inv_start:
  assumes "memo_inv (m, ls)" and "a < mNext m" and "memo_start a now m = (st, m')"
  shows "memo_inv (m', begun (map_option (\<lambda>(a, w). (a, w, False)) st) ls)"
proof (cases "mLoading (mHeap m a) \<or> (case mRetryAfter (mHeap m a) of None \<Rightarrow> False | Some r \<Rightarrow> now < r)")
  case True
  then have "st = None \<and> m' = m" using assms(3) unfolding memo_start_def Let_def by simp
  then show ?thesis using assms(1) by (simp add: begun_def)
next
  case False
  then have "st = Some (a, mVersion (mHeap m a)) \<and> m' = set_entry a ((mHeap m a)\<lparr>mLoading := True\<rparr>) m"
    using assms(3) unfolding memo_start_def Let_def by simp
  then show ?thesis using memo_inv_begin [OF assms(1) _ assms(2), of False] False by simp
qed

lemma memo_inv_get:
  assumes "memo_inv (m, ls)" and "Get_enter user now m = ((g, st), m')"
  shows "memo_inv (m', begun st ls)"
proof (cases "mTTL m = 0")
  case True
  then show ?thesis using assms by (simp add: Get_enter_def begun_def)
next
  case False
  obtain a m1 where e: "memo_entry user m = (a, m1)" by force
  note inv1 = memo_inv_entry [OF assms(1) e]
  have load: "memo_inv (set_entry a ((mHeap m1 a)\<lparr>mLoading := True\<rparr>) m1, begun (Some (a, mVersion (mHeap m1 a), True)) ls)"
    if "\<not> mLoading (mHeap m1 a)" by (rule memo_inv_begin [OF inv1(1) that inv1(2)])
  obtain st' m2 where s: "memo_start a now m1 = (st', m2)" by force
  show ?thesis
    using assms(2) False e inv1(1) load memo_inv_start [OF inv1 s] s
    by (auto simp: Get_enter_def Let_def begun_def [of None] split: option.splits if_splits)
qed

lemma memo_inv_warm:
  assumes "memo_inv (m, ls)" and "Warm user now m = ((v, st), m')"
  shows "memo_inv (m', begun st ls)"
proof (cases "mTTL m = 0")
  case True
  then show ?thesis using assms by (simp add: Warm_def begun_def)
next
  case False
  obtain a m1 where e: "memo_entry user m = (a, m1)" by force
  note inv1 = memo_inv_entry [OF assms(1) e]
  obtain st' m2 where s: "memo_start a now m1 = (st', m2)" by force
  show ?thesis
    using assms(2) False e inv1(1) memo_inv_start [OF inv1 s] s
    by (auto simp: Warm_def begun_def [of None] split: option.splits if_splits)
qed

lemma overtake_entry: "memo_inv (m, ls) \<Longrightarrow> memo_entry user m = (a, m1) \<Longrightarrow> mTTL m1 = mTTL m"
  by (auto simp: memo_entry_def split: option.splits)

lemma mstep_inv: "mstep x y \<Longrightarrow> memo_inv x \<Longrightarrow> memo_inv y"
proof (induction rule: mstep.induct)
  case (leave l ls res now m r m')
  then show ?case using memo_inv_end [OF leave.prems leave(1) settle_loading] by (auto simp: Get_leave_def Let_def)
next
  case (loaded l ls m res now)
  then show ?case by (auto simp: start_done_def Let_def intro!: memo_inv_end settle_loading)
next
  case (put m ls user v now)
  obtain a m1 where e: "memo_entry user m = (a, m1)" by force
  show ?case using put memo_inv_bump [OF memo_inv_entry(1) [OF put.prems e]] e by (simp add: Memo_Put_def Let_def)
next
  case (update user m a ls f)
  then show ?case using memo_inv_bump [OF update.prems] by (simp add: Memo_Update_def Let_def)
next
  case (stale user m a ls now)
  then show ?case using memo_inv_bump [OF stale.prems] by (simp add: Memo_Stale_def Let_def)
next
  case (forget m ls user)
  then show ?case by (auto simp: memo_inv_def Forget_def)
next
  case (retry m ls user now)
  then show ?case using memo_inv_same [OF retry.prems] by (auto simp: Retry_def Let_def split: option.split)
qed (auto intro: memo_inv_get memo_inv_warm)

lemma mreach_inv: "mreach ttl background x \<Longrightarrow> memo_inv x"
  by (induction rule: mreach.induct) (auto intro: memo_inv_New mstep_inv)

text \<open>A caller begins a load, then another puts a value of its own.\<close>

definition example_loading :: "nat Memo \<times> load list" where
  "example_loading = (let x = Get_enter ''amy'' 3 (Memo_New 10 False) in (snd x, begun (snd (fst x)) []))"

definition example_overtaken :: "nat Memo \<times> load list" where
  "example_overtaken = (case example_loading of (m, ls) \<Rightarrow> (Memo_Put ''amy'' 7 4 m, overtake (fst (memo_entry ''amy'' m)) ls))"

lemmas example_memo_simps = example_loading_def example_overtaken_def Get_enter_def Memo_New_def memo_entry_def zero_entry_def
  begun_def set_entry_def Memo_Put_def overtake_def Let_def

lemma example_loading_reach: "mreach 10 False example_loading"
proof -
  obtain g st m' where e: "Get_enter ''amy'' 3 (Memo_New 10 False :: nat Memo) = ((g, st), m')" by (metis prod.exhaust)
  show ?thesis using mreach.step [OF mreach.init mstep.get [OF e]] by (simp add: example_loading_def Let_def e)
qed

lemma example_overtaken_reach: "mreach 10 False example_overtaken"
proof -
  obtain m ls where m: "example_loading = (m, ls)" by force
  have "mTTL m \<noteq> 0" using m by (auto simp: example_memo_simps)
  then show ?thesis
    using mreach.step [OF example_loading_reach, unfolded m, OF mstep.put [of m ls "''amy''" 7 4]]
    unfolding example_overtaken_def m prod.case by simp
qed

text \<open>
  C17: a value is loaded once for all its callers. In every interleaving of lookups, loads ending and
  values put, updated, forgotten or made stale, each entry has at most one load in flight, and
  an entry marked as loading always has one: whoever waits for it is woken when it ends.
\<close>

theorem memo_single_flight:
  assumes "mreach ttl background (m, ls)"
  shows "card {l \<in> set ls. lAt l = a} = (if mLoading (mHeap m a) then 1 else 0) \<and> distinct (map lAt ls)"
proof -
  have inv: "memo_inv (m, ls)" by (rule mreach_inv [OF assms])
  then have d: "distinct (map lAt ls)" and ld: "\<And>l. l \<in> set ls \<Longrightarrow> mLoading (mHeap m (lAt l))"
    and has: "mLoading (mHeap m a) \<Longrightarrow> a \<in> lAt ` set ls" by (auto simp: memo_inv_def)
  show ?thesis
  proof (cases "mLoading (mHeap m a)")
    case True
    then obtain l where l: "l \<in> set ls" "lAt l = a" using has by blast
    then have "{l \<in> set ls. lAt l = a} = {l}" using d by (auto simp: distinct_map dest: inj_onD)
    then show ?thesis using True d by simp
  next
    case False
    then have "{l \<in> set ls. lAt l = a} = {}" using ld by auto
    then show ?thesis using False d by (simp only: card.empty) simp
  qed
qed

theorem memo_single_flight_witness:
  "mreach 10 False example_loading \<and>
   card {l \<in> set (snd example_loading). lAt l = 0} = 1 \<and> mLoading (mHeap (fst example_loading) 0)"
  using example_loading_reach memo_single_flight [of 10 False "fst example_loading" "snd example_loading" 0]
  by (simp add: example_memo_simps)

text \<open>
  C10: a load overtaken while it ran is not kept. What a caller put, changed or marked stale after
  the load began stays as it is when the load ends, whatever it read; a load nothing overtook
  is kept with the time it ended.
\<close>

theorem memo_overtaken_load_not_kept:
  assumes "mreach ttl background (m, ls)" and "l \<in> set ls" and "lOver l < 2 ^ 64"
  shows "mVal (mHeap (snd (Get_leave (lAt l) (lVer l) (Inr v :: string + 'v) now m)) (lAt l)) =
      (if lOver l = 0 then Some v else mVal (mHeap m (lAt l))) \<and>
    mFetched (mHeap (snd (Get_leave (lAt l) (lVer l) (Inr v :: string + 'v) now m)) (lAt l)) =
      (if lOver l = 0 then Some now else mFetched (mHeap m (lAt l))) \<and>
    mHeap (start_done (lAt l) (lVer l) (Inr v :: string + 'v) now m) (lAt l) =
      mHeap (snd (Get_leave (lAt l) (lVer l) (Inr v :: string + 'v) now m)) (lAt l)"
proof -
  have ver: "mVersion (mHeap m (lAt l)) = lVer l + of_nat (lOver l)" using mreach_inv [OF assms(1)] assms(2) by (auto simp: memo_inv_def)
  have "(of_nat (lOver l) :: 64 word) = 0 \<longleftrightarrow> lOver l = 0"
    using assms(3) by (auto simp: word_of_nat_eq_0_iff dest: dvd_imp_le)
  then have "lVer l = mVersion (mHeap m (lAt l)) \<longleftrightarrow> lOver l = 0" using ver by simp
  then show ?thesis by (simp add: Get_leave_def start_done_def memo_settle_def set_entry_def Let_def)
qed

theorem memo_overtaken_load_not_kept_witness:
  "mreach 10 False example_overtaken \<and> (\<exists>l \<in> set (snd example_overtaken). lOver l = 1 \<and>
     mVal (mHeap (snd (Get_leave (lAt l) (lVer l) (Inr 5 :: string + nat) 9 (fst example_overtaken))) (lAt l)) = Some 7)"
proof -
  obtain l where l: "snd example_overtaken = [l]" "lOver l = 1" "mVal (mHeap (fst example_overtaken) (lAt l)) = Some 7"
    by (simp add: example_memo_simps)
  have "mreach 10 False (fst example_overtaken, snd example_overtaken)" using example_overtaken_reach by simp
  from memo_overtaken_load_not_kept [OF this, of l 5 9] show ?thesis using example_overtaken_reach l by simp
qed

end
