(* ===== verification/Send_Claim.thy ===== *)
theory Send_Claim
  imports Seal
begin

text \<open>
  Submitting a message at most once (\<^verbatim>\<open>mail/send_claim.go\<close> and \<^verbatim>\<open>Submit\<close> of \<^verbatim>\<open>mail/send.go\<close>).

  A submission claims the sender's message id in the data file before it talks to the mail
  server; the claim's record is sealed and carries the submission's state and a time. \<open>sendState\<close>
  is what the submissions of one process share. \<open>claimSend\<close>, \<open>finishSend\<close> and \<open>endSend\<close> are each
  one critical section or one transaction, so \<open>sstep\<close>, which interleaves them, has them as steps.
  What the mail servers answer to a \<open>Submit\<close> is the record \<open>exchange\<close>. Times are marshalled in
  zones of whole minutes, \<open>None\<close> being UTC.
\<close>

subsection \<open>The marshalled time\<close>

primrec be_bytes :: "nat \<Rightarrow> nat \<Rightarrow> string" where
  "be_bytes 0 x = []"
| "be_bytes (Suc n) x = be_bytes n (x div 256) @ [char_of (x mod 256)]"

definition be_nat :: "string \<Rightarrow> nat" where
  "be_nat s = foldl (\<lambda>a c. a * 256 + of_char c) 0 s"

definition MarshalBinary :: "int option \<Rightarrow> time \<Rightarrow> err + string" where
  "MarshalBinary zone t =
     (let off = (case zone of None \<Rightarrow> - 1 | Some z \<Rightarrow> z) in
      if zone \<noteq> None \<and> (off < - 32768 \<or> off = - 1 \<or> off > 32767) then Inl (ErrOther ''unexpected zone offset'')
      else Inr (char_of (1 :: nat) # be_bytes 8 (unat (of_int (t div 10 ^ 9) :: 64 word)) @ be_bytes 4 (nat (t mod 10 ^ 9)) @
        be_bytes 2 (unat (of_int off :: 16 word))))"

definition UnmarshalBinary :: "string \<Rightarrow> err + time" where
  "UnmarshalBinary b =
     (if b = [] then Inl (ErrOther ''no data'')
      else if of_char (hd b) \<noteq> (1 :: nat) \<and> of_char (hd b) \<noteq> (2 :: nat) then Inl (ErrOther ''unsupported version'')
      else if length b \<noteq> (if of_char (hd b) = (2 :: nat) then 16 else 15) then Inl (ErrOther ''invalid length'')
      else Inr (sint (of_nat (be_nat (take 8 (drop 1 b))) :: 64 word) * 10 ^ 9 + int (be_nat (take 4 (drop 9 b)) mod 2 ^ 30)))"

subsection \<open>Claims\<close>

definition sendClaimOwner :: string where
  "sendClaimOwner = ''alborz.mail.send''"

definition sendClaiming :: byte where "sendClaiming = 1"
definition sendAccepted :: byte where "sendAccepted = 2"
definition sendComplete :: byte where "sendComplete = 3"
definition sendPartial :: byte where "sendPartial = 4"

definition sendClaimKeep :: duration where
  "sendClaimKeep = 10 * 60 * 10 ^ 9"

record sendState =
  sCrypto :: crypto
  sLoginKey :: Root
  sZone :: "int option"
  sStore :: "(string sealed, err) tx"
  sStoreErr :: "err option"
  sActive :: "string \<Rightarrow> bool"

definition claimsDB :: "sendState \<Rightarrow> err + (string sealed, err) tx" where
  "claimsDB p = (case sStoreErr p of Some e \<Rightarrow> Inl e | None \<Rightarrow> Inr (sStore p))"

definition claimAt :: "sendState \<Rightarrow> string \<Rightarrow> string \<Rightarrow> string" where
  "claimAt p account messageID = sendClaimOwner @ ''/'' @
     Names_Of (sCrypto p) (Root_Names (sCrypto p) (sLoginKey p)) (account @ [CHR 0x00] @ messageID)"

definition claimKey :: "sendState \<Rightarrow> Key" where
  "claimKey p = Root_Key (sCrypto p) (sLoginKey p) sendClaimOwner"

definition putSendClaim :: "int option \<Rightarrow> string \<Rightarrow> Key \<Rightarrow> byte \<Rightarrow> time \<Rightarrow> (string sealed, err) tx \<Rightarrow> err + (string sealed, err) tx" where
  "putSendClaim zone at key state now tx =
     bindE (MarshalBinary zone now) (\<lambda>stamp. kv_put at (Seal key (char_of (unat state) # stamp)) tx)"

definition readSendClaim :: "Key \<Rightarrow> string sealed \<Rightarrow> err + byte \<times> time" where
  "readSendClaim key v = bindE (Open key v) (\<lambda>raw.
     if length raw < 2 then Inl (ErrOther ''invalid send claim'')
     else bindE (UnmarshalBinary (drop 1 raw)) (\<lambda>at. Inr (of_nat (of_char (hd raw)), at)))"

definition claim_expires :: "Key \<Rightarrow> (string \<Rightarrow> bool) \<Rightarrow> string \<Rightarrow> string sealed \<Rightarrow> time \<times> bool" where
  "claim_expires key active k v =
     (if active k then (0, False)
      else case readSendClaim key v of Inl _ \<Rightarrow> (0 + sendClaimKeep, False) | Inr (_, at) \<Rightarrow> (at + sendClaimKeep, True))"

definition claim_tx :: "sendState \<Rightarrow> string \<Rightarrow> time \<Rightarrow> (string sealed, err) tx \<Rightarrow> err + (byte \<times> bool) \<times> (string sealed, err) tx" where
  "claim_tx p at now tx =
     bindE (DeleteExpired kv_scan kv_delete tx (sendClaimOwner @ ''/'') now (claim_expires (claimKey p) (sActive p))) (\<lambda>tx1.
       case kv_get at tx1 of
         Some v \<Rightarrow> if v \<noteq> Raw [] then bindE (readSendClaim (claimKey p) v) (\<lambda>(state, _). Inr ((state, False), tx1))
           else bindE (putSendClaim (sZone p) at (claimKey p) sendClaiming now tx1) (\<lambda>tx2. Inr ((sendClaiming, True), tx2))
       | None \<Rightarrow> bindE (putSendClaim (sZone p) at (claimKey p) sendClaiming now tx1) (\<lambda>tx2. Inr ((sendClaiming, True), tx2)))"

definition claimSend :: "string \<Rightarrow> string \<Rightarrow> time \<Rightarrow> sendState \<Rightarrow> (err + byte \<times> bool) \<times> sendState" where
  "claimSend account messageID now p = (case claimsDB p of
       Inl e \<Rightarrow> (Inl e, p)
     | Inr db \<Rightarrow> (let at = claimAt p account messageID in
         case Update (claim_tx p at now) db of
           (Inl e, db') \<Rightarrow> (Inl e, p\<lparr>sStore := db'\<rparr>)
         | (Inr (state, fresh), db') \<Rightarrow>
             (Inr (state, fresh), p\<lparr>sStore := db', sActive := if fresh then (sActive p)(at := True) else sActive p\<rparr>)))"

definition finishSend :: "string \<Rightarrow> string \<Rightarrow> byte \<Rightarrow> time \<Rightarrow> sendState \<Rightarrow> (err + unit) \<times> sendState" where
  "finishSend account messageID state now p = (case claimsDB p of
       Inl e \<Rightarrow> (Inl e, p)
     | Inr db \<Rightarrow> (let at = claimAt p account messageID in
         case Update (\<lambda>tx. bindE (if state \<noteq> 0 then putSendClaim (sZone p) at (claimKey p) state now tx else kv_delete at tx)
                        (\<lambda>tx'. Inr ((), tx'))) db of
           (r, db') \<Rightarrow> (r, p\<lparr>sStore := db'\<rparr>)))"

definition endSend :: "string \<Rightarrow> string \<Rightarrow> sendState \<Rightarrow> sendState" where
  "endSend account messageID p = p\<lparr>sActive := (sActive p)(claimAt p account messageID := False)\<rparr>"

subsection \<open>The exchange with the submission server\<close>

text \<open>
  What each call of one delivery answers, in the order the calls are made: the originals fetched,
  the connection, the login, the message written out, the sender and each recipient parsed and
  named to the server, the start of DATA, the body copied, the writer closed, QUIT.
\<close>

datatype closing = Closed | Rejected nat err | CloseFailed err

record session =
  dFetch :: "err option"
  dDial :: "err option"
  dAuth :: "err option"
  dSpool :: "err option"
  dFrom :: "err option"
  dMail :: "err option"
  dRcpts :: "(err option \<times> err option) list"
  dSeek :: "err option"
  dData :: "err option"
  dCopy :: "err option"
  dClose :: closing
  dQuit :: "err option"

definition fails_with :: "err option \<Rightarrow> err + unit" where
  "fails_with r = (case r of None \<Rightarrow> Inr () | Some e \<Rightarrow> Inl e)"

text \<open>The calls up to DATA, then the rest with whether DATA may have been accepted.\<close>

definition before_data :: "session \<Rightarrow> err + unit" where
  "before_data s = bindE (fails_with (dFrom s)) (\<lambda>_. bindE (fails_with (dMail s)) (\<lambda>_.
     bindE (foldE (\<lambda>r _. bindE (fails_with (fst r)) (\<lambda>_. fails_with (snd r))) (dRcpts s) ()) (\<lambda>_.
     bindE (fails_with (dSeek s)) (\<lambda>_. fails_with (dData s)))))"

definition sendMessage :: "session \<Rightarrow> (err + unit) \<times> bool" where
  "sendMessage s = (case before_data s of
       Inl e \<Rightarrow> (Inl e, False)
     | Inr _ \<Rightarrow> (case dCopy s of
         Some e \<Rightarrow> (Inl e, True)
       | None \<Rightarrow> (case dClose s of
           Closed \<Rightarrow> (Inr (), True)
         | Rejected code e \<Rightarrow> (Inl e, \<not> (400 \<le> code \<and> code < 600))
         | CloseFailed e \<Rightarrow> (Inl e, True))))"

definition DoSMTP :: "session \<Rightarrow> (err + unit) \<Rightarrow> (bool \<times> err) option" where
  "DoSMTP s r = (case dDial s of Some e \<Rightarrow> Some (False, e) | None \<Rightarrow>
     (case dAuth s of Some e \<Rightarrow> Some (True, e) | None \<Rightarrow>
       (case r of Inl e \<Rightarrow> Some (False, e) | Inr _ \<Rightarrow> map_option (Pair False) (dQuit s))))"

datatype delivery = Delivered | Undelivered err bool

text \<open>The callback runs once connected and logged in; the first component of \<^verbatim>\<open>DoSMTP\<close>'s error is \<^verbatim>\<open>AuthError\<close>.\<close>

definition deliverWithPhase :: "session \<Rightarrow> delivery" where
  "deliverWithPhase s = (case dFetch s of Some e \<Rightarrow> Undelivered e False | None \<Rightarrow>
     (let ran = (dDial s = None \<and> dAuth s = None);
          spoolErr = (if ran then dSpool s else None);
          (r, dataStarted) = (if ran \<and> dSpool s = None then sendMessage s else (fails_with (dSpool s), False));
          dataAccepted = (ran \<and> dSpool s = None \<and> r = Inr ())
      in case spoolErr of Some e \<Rightarrow> Undelivered e False | None \<Rightarrow>
        if dataAccepted then Delivered
        else (case DoSMTP s r of
            Some (auth, e) \<Rightarrow> if auth then Undelivered e False else Undelivered e dataStarted
          | None \<Rightarrow> Delivered)))"

subsection \<open>Submit\<close>

datatype sendErr =
    ErrSentMailboxMissing | ErrSendAlreadyAccepted | ErrSendFollowupUnknown
  | ErrSendUncertain "err option" | ErrSendAccepted "err list" | ErrUnknownState byte
  | ErrSend err | ErrJoined sendErr err

text \<open>
  What the calls of one submission answer: the recipients parsed, the lookup of the Sent mailbox,
  the delivery, the follow-ups asked for (\<open>None\<close> when the options name none) and the three
  readings of the clock.
\<close>

record ('to, 'box, 'uid) exchange =
  xTo :: "err + 'to"
  xSent :: "err + 'box option"
  xDeliver :: delivery
  xAnswered :: "(err option) option"
  xForwarded :: "(err option) option"
  xAppend :: "err + 'uid"
  xDraft :: "(err option) option"
  xClaimed :: time
  xFinished :: time
  xRecorded :: time

definition refused_claim :: "byte \<Rightarrow> bool \<Rightarrow> sendErr option" where
  "refused_claim state fresh =
     (if state = sendComplete then Some ErrSendAlreadyAccepted
      else if state = sendAccepted \<or> state = sendPartial then Some ErrSendFollowupUnknown
      else if state = sendClaiming then (if fresh then None else Some (ErrSendUncertain None))
      else Some (ErrUnknownState state))"

definition sent_found :: "err + 'box option \<Rightarrow> sendErr + 'box" where
  "sent_found r = (case r of Inl e \<Rightarrow> Inl (ErrSend e) | Inr None \<Rightarrow> Inl ErrSentMailboxMissing | Inr (Some b) \<Rightarrow> Inr b)"

definition noted :: "err option \<Rightarrow> err list" where
  "noted e = (case e of None \<Rightarrow> [] | Some x \<Rightarrow> [x])"

text \<open>The follow-ups of an accepted message; the draft goes only once the message is filed in Sent.\<close>

definition followups :: "('to, 'box, 'uid) exchange \<Rightarrow> err list" where
  "followups x = concat [
     (case xAnswered x of None \<Rightarrow> [] | Some e \<Rightarrow> noted e),
     (case xAppend x of Inl e \<Rightarrow> [e] | Inr _ \<Rightarrow> []),
     (case (xDraft x, xAppend x) of (Some e, Inr _) \<Rightarrow> noted e | _ \<Rightarrow> [])]"

definition released :: "string \<Rightarrow> string \<Rightarrow> sendErr \<Rightarrow> time \<Rightarrow> sendState \<Rightarrow> sendErr \<times> sendState" where
  "released sender messageID e now p = (case finishSend sender messageID 0 now p of
     (r, p') \<Rightarrow> (case r of Inl re \<Rightarrow> ErrJoined e re | Inr _ \<Rightarrow> e, p'))"

definition failed :: "err + unit \<Rightarrow> err list" where
  "failed r = (case r of Inl e \<Rightarrow> [e] | Inr _ \<Rightarrow> [])"

definition accepted_part :: "string \<Rightarrow> string \<Rightarrow> ('to, 'box, 'uid) exchange \<Rightarrow> sendState \<Rightarrow> err list \<times> sendState" where
  "accepted_part sender messageID x p =
     (case finishSend sender messageID sendAccepted (xFinished x) p of (r1, p1) \<Rightarrow>
      let after = failed r1 @ followups x in
      case finishSend sender messageID (if after = [] then sendComplete else sendPartial) (xRecorded x) p1 of
        (r2, p2) \<Rightarrow> (after @ failed r2, p2))"

text \<open>The result, the Sent copy's place when there is one, and the state left.\<close>

definition Submit :: "string \<Rightarrow> string \<Rightarrow> ('to, 'box, 'uid) exchange \<Rightarrow> sendState \<Rightarrow>
    ((sendErr + unit) \<times> ('box \<times> 'uid option \<times> 'to) option) \<times> sendState" where
  "Submit sender messageID x p = (case xTo x of
     Inl e \<Rightarrow> ((Inl (ErrSend e), None), p)
   | Inr to \<Rightarrow> (case claimSend sender messageID (xClaimed x) p of
       (Inl e, p1) \<Rightarrow> ((Inl (ErrSend e), None), p1)
     | (Inr (state, fresh), p1) \<Rightarrow> (case refused_claim state fresh of
         Some e \<Rightarrow> ((Inl e, None), p1)
       | None \<Rightarrow> (case sent_found (xSent x) of
           Inl e \<Rightarrow> (case released sender messageID e (xFinished x) p1 of (e', p2) \<Rightarrow> ((Inl e', None), endSend sender messageID p2))
         | Inr box \<Rightarrow> (case xDeliver x of
             Undelivered e True \<Rightarrow> ((Inl (ErrSendUncertain (Some e)), None), endSend sender messageID p1)
           | Undelivered e False \<Rightarrow>
               (case released sender messageID (ErrSend e) (xFinished x) p1 of (e', p2) \<Rightarrow> ((Inl e', None), endSend sender messageID p2))
           | Delivered \<Rightarrow> (case accepted_part sender messageID x p1 of (after, p2) \<Rightarrow>
               ((if after = [] then Inr () else Inl (ErrSendAccepted after),
                 Some (box, (case xAppend x of Inl _ \<Rightarrow> None | Inr u \<Rightarrow> Some u), to)),
                endSend sender messageID p2)))))))"

subsection \<open>What a claim reads back as\<close>

lemma length_be_bytes [simp]: "length (be_bytes n x) = n"
  by (induction n arbitrary: x) auto

lemma be_nat_snoc: "be_nat (s @ [c]) = be_nat s * 256 + of_char c"
  by (simp add: be_nat_def)

lemma be_nat_bytes: "be_nat (be_bytes n x) = x mod 256 ^ n"
proof (induction n arbitrary: x)
  case 0
  then show ?case by (simp add: be_nat_def)
next
  case (Suc n)
  have "x mod 256 ^ Suc n = 256 * (x div 256 mod 256 ^ n) + x mod 256"
    using mod_mult2_eq [of x 256 "256 ^ n"] by (simp add: mult.commute)
  then show ?case by (simp add: be_nat_snoc Suc.IH of_char_of mult.commute)
qed

text \<open>The instants a 64-bit count of seconds holds.\<close>

definition clock_ok :: "time \<Rightarrow> bool" where
  "clock_ok t \<longleftrightarrow> 0 \<le> t \<and> t < 2 ^ 63 * 10 ^ 9"

lemma UnmarshalBinary_MarshalBinary:
  assumes "MarshalBinary zone t = Inr b" and "clock_ok t"
  shows "UnmarshalBinary b = Inr t"
proof -
  define s where "s = t div 10 ^ 9"
  define n where "n = nat (t mod 10 ^ 9)"
  obtain o2 where b: "b = char_of (1 :: nat) # be_bytes 8 (unat (of_int s :: 64 word)) @ be_bytes 4 n @ o2" and o2: "length o2 = 2"
    using assms(1) by (auto simp: MarshalBinary_def Let_def s_def n_def split: if_splits)
  have s: "0 \<le> s" "s < 2 ^ 63" using assms(2) by (auto simp: s_def clock_ok_def)
  have n: "int n = t mod 10 ^ 9" "n < 2 ^ 30" by (simp_all add: n_def)
  have "sint (of_int s :: 64 word) = s" using s by (simp add: sint_sbintrunc' signed_take_bit_int_eq_self)
  moreover have "be_nat (be_bytes 8 (unat (of_int s :: 64 word))) = unat (of_int s :: 64 word)"
    unfolding be_nat_bytes by (rule mod_less) (use unsigned_less [of "of_int s :: 64 word"] in simp)
  moreover have "be_nat (be_bytes 4 n) = n" unfolding be_nat_bytes by (rule mod_less) (use n(2) in simp)
  ultimately have "UnmarshalBinary b = Inr (s * 10 ^ 9 + int n)"
    using n(2) o2 by (simp add: UnmarshalBinary_def b of_char_of)
  then show ?thesis by (simp add: s_def n(1))
qed

lemma readSendClaim_put:
  assumes "putSendClaim zone at key state now tx = Inr tx'" and "clock_ok now"
  obtains v where "tx' = tx\<lparr>entries := put_entry at v (entries tx)\<rparr>" and "v \<noteq> Raw []"
    and "\<And>s t. readSendClaim key v = Inr (s, t) \<Longrightarrow> s = state \<and> t = now"
    and "key_format key = ByInstance \<or> key_format key = ByAccount \<Longrightarrow> readSendClaim key v = Inr (state, now)"
proof -
  obtain b where b: "MarshalBinary zone now = Inr b"
    and tx': "tx' = tx\<lparr>entries := put_entry at (Seal key (char_of (unat state) # b)) (entries tx)\<rparr>"
    using assms(1) by (auto simp: putSendClaim_def result_simps)
  note u = UnmarshalBinary_MarshalBinary [OF b assms(2)]
  have "b \<noteq> []" using u by (auto simp: UnmarshalBinary_def)
  moreover have "(of_nat (of_char (char_of (unat state) :: char)) :: byte) = state"
  proof -
    have "unat state < 256" using unsigned_less [of state, where ?'a = nat] by simp
    then show ?thesis by (simp add: of_char_of)
  qed
  ultimately have r: "readSendClaim key (Seal key (char_of (unat state) # b)) =
      (if key_format key = ByInstance \<or> key_format key = ByAccount then Inr (state, now) else Inl ErrFormat)"
    using u by (cases b) (auto simp: readSendClaim_def Open_def Seal_def)
  show thesis
  proof (rule that [OF tx'])
    show "Seal key (char_of (unat state) # b) \<noteq> Raw []" by (simp add: Seal_def)
  qed (use r in \<open>auto split: if_splits\<close>)
qed

subsection \<open>Submissions interleaved\<close>

text \<open>
  A claim granted to a submission: its record's key, when it was granted, how far the submission
  is and whether it still runs. \<open>Taken\<close> is a delivery that returned without error, \<open>Unsure\<close> one
  that failed after DATA began, \<open>Failed\<close> one the server cannot have accepted.
\<close>

datatype phase = Sending | Failed | Taken | Unsure | Released

record claim =
  cAt :: string
  cTime :: time
  cPhase :: phase
  cLive :: bool

definition timely :: "bool \<Rightarrow> claim \<Rightarrow> time \<Rightarrow> bool" where
  "timely prompt c now \<longleftrightarrow> (prompt \<longrightarrow> now < cTime c + sendClaimKeep)"

inductive sstep :: "bool \<Rightarrow> sendState \<times> time \<times> claim list \<Rightarrow> sendState \<times> time \<times> claim list \<Rightarrow> bool" for prompt where
  grant: "clock \<le> now \<Longrightarrow> clock_ok now \<Longrightarrow> claimSend a mid now p = (Inr (state, True), p') \<Longrightarrow>
    sstep prompt (p, clock, cs) (p', now, cs @ [\<lparr>cAt = claimAt p a mid, cTime = now, cPhase = Sending, cLive = True\<rparr>])"
| refuse: "clock \<le> now \<Longrightarrow> clock_ok now \<Longrightarrow> claimSend a mid now p = (r, p') \<Longrightarrow> (\<And>state. r \<noteq> Inr (state, True)) \<Longrightarrow>
    sstep prompt (p, clock, cs) (p', now, cs)"
| deliver: "clock \<le> now \<Longrightarrow> i < length cs \<Longrightarrow> cLive (cs ! i) \<Longrightarrow> cPhase (cs ! i) = Sending \<Longrightarrow> timely prompt (cs ! i) now \<Longrightarrow>
    ph \<in> {Failed, Taken, Unsure} \<Longrightarrow> sstep prompt (p, clock, cs) (p, now, cs[i := (cs ! i)\<lparr>cPhase := ph\<rparr>])"
| release: "clock \<le> now \<Longrightarrow> i < length cs \<Longrightarrow> cLive (cs ! i) \<Longrightarrow> cPhase (cs ! i) = Failed \<Longrightarrow> timely prompt (cs ! i) now \<Longrightarrow>
    cAt (cs ! i) = claimAt p a mid \<Longrightarrow> finishSend a mid 0 now p = (r, p') \<Longrightarrow>
    sstep prompt (p, clock, cs) (p', now, cs[i := (cs ! i)\<lparr>cPhase := Released\<rparr>])"
| recorded: "clock \<le> now \<Longrightarrow> clock_ok now \<Longrightarrow> i < length cs \<Longrightarrow> cLive (cs ! i) \<Longrightarrow> cPhase (cs ! i) = Taken \<Longrightarrow>
    cAt (cs ! i) = claimAt p a mid \<Longrightarrow> state \<in> {sendAccepted, sendComplete, sendPartial} \<Longrightarrow>
    finishSend a mid state now p = (r, p') \<Longrightarrow> sstep prompt (p, clock, cs) (p', now, cs)"
| end_send: "clock \<le> now \<Longrightarrow> i < length cs \<Longrightarrow> cLive (cs ! i) \<Longrightarrow> cPhase (cs ! i) \<in> {Taken, Unsure, Released} \<Longrightarrow>
    cAt (cs ! i) = claimAt p a mid \<Longrightarrow> sstep prompt (p, clock, cs) (endSend a mid p, now, cs[i := (cs ! i)\<lparr>cLive := False\<rparr>])"
| restart: "sstep prompt (p, clock, cs) (p\<lparr>sActive := (\<lambda>_. False)\<rparr>, clock, map (\<lambda>c. c\<lparr>cLive := False\<rparr>) cs)"

inductive sreach :: "bool \<Rightarrow> sendState \<Rightarrow> sendState \<times> time \<times> claim list \<Rightarrow> bool" for prompt p0 where
  init: "sreach prompt p0 (p0, 0, [])"
| step: "sreach prompt p0 x \<Longrightarrow> sstep prompt x y \<Longrightarrow> sreach prompt p0 y"

definition kept :: "Key \<Rightarrow> (string sealed, err) tx \<Rightarrow> string \<Rightarrow> time \<Rightarrow> bool" where
  "kept key tx at t \<longleftrightarrow> (\<exists>v. kv_get at tx = Some v \<and> v \<noteq> Raw [] \<and> (\<forall>s t'. readSendClaim key v = Inr (s, t') \<longrightarrow> t \<le> t'))"

text \<open>An unreleased claim holds its record until the ten minutes are over.\<close>

definition held_claim :: "sendState \<Rightarrow> time \<Rightarrow> claim \<Rightarrow> bool" where
  "held_claim p clock c \<longleftrightarrow> cPhase c \<noteq> Released \<longrightarrow>
     cTime c \<le> clock \<and> (cTime c + sendClaimKeep \<le> clock \<or> kept (claimKey p) (sStore p) (cAt c) (cTime c))"

definition apart :: "claim \<Rightarrow> claim \<Rightarrow> bool" where
  "apart c d \<longleftrightarrow> cPhase c \<noteq> Released \<longrightarrow> cPhase d \<noteq> Released \<longrightarrow> cAt c = cAt d \<longrightarrow> cTime c + sendClaimKeep \<le> cTime d"

definition sinv :: "sendState \<times> time \<times> claim list \<Rightarrow> bool" where
  "sinv x \<longleftrightarrow> (case x of (p, clock, cs) \<Rightarrow> ordered_tx (sStore p) \<and> (\<forall>c \<in> set cs. held_claim p clock c) \<and> sorted_wrt apart cs)"

lemma swept_kept:
  assumes "DeleteExpired kv_scan kv_delete tx q now (claim_expires key active) = Inr tx1" and "ordered_tx tx" and "kept key tx at t"
  shows "ordered_tx tx1 \<and> (kept key tx1 at t \<or> t + sendClaimKeep \<le> now)"
proof -
  obtain v where v: "kv_get at tx = Some v" "v \<noteq> Raw []" "\<And>s t'. readSendClaim key v = Inr (s, t') \<Longrightarrow> t \<le> t'"
    using assms(3) by (auto simp: kept_def)
  have "ordered_tx tx1" using assms(1) bolt.delete_under_inv assms(2) unfolding DeleteExpired_def by blast
  moreover have "kv_get at tx1 = Some v" if "\<not> t + sendClaimKeep \<le> now"
  proof -
    have "\<not> (snd (claim_expires key active at v) \<and> fst (claim_expires key active at v) \<le> now)"
    proof (cases "readSendClaim key v")
      case (Inr st)
      then show ?thesis using v(3) [of "fst st" "snd st"] that by (auto simp: claim_expires_def split: prod.split)
    qed (simp add: claim_expires_def)
    then show ?thesis using bolt.delete_expired_get [OF assms(1,2), of at] v(1) by auto
  qed
  ultimately show ?thesis using v by (auto simp: kept_def)
qed

lemma swept_ordered:
  "DeleteExpired kv_scan kv_delete tx q now ex = Inr tx1 \<Longrightarrow> ordered_tx tx \<Longrightarrow> ordered_tx tx1"
  using bolt.delete_under_inv unfolding DeleteExpired_def by blast

lemma put_claim_kept:
  assumes "putSendClaim zone at key state now tx = Inr tx'" and "clock_ok now" and "ordered_tx tx"
  shows "ordered_tx tx'" and "t \<le> now \<Longrightarrow> kept key tx' at t" and "at' \<noteq> at \<Longrightarrow> kept key tx' at' t = kept key tx at' t"
proof -
  obtain v where tx': "tx' = tx\<lparr>entries := put_entry at v (entries tx)\<rparr>" and v: "v \<noteq> Raw []"
    "\<And>s t. readSendClaim key v = Inr (s, t) \<Longrightarrow> s = state \<and> t = now"
    using readSendClaim_put [OF assms(1,2)] by metis
  show "ordered_tx tx'" using assms(3) by (simp add: tx' ordered_tx_def ordered_put_entry)
  show "t \<le> now \<Longrightarrow> kept key tx' at t" using v by (auto simp: kept_def tx' kv_get_def map_of_put_entry)
  show "at' \<noteq> at \<Longrightarrow> kept key tx' at' t = kept key tx at' t" by (simp add: kept_def tx' kv_get_def map_of_put_entry)
qed

text \<open>The fields no operation changes.\<close>

definition same_keys :: "sendState \<Rightarrow> sendState \<Rightarrow> bool" where
  "same_keys p p' \<longleftrightarrow> sCrypto p' = sCrypto p \<and> sLoginKey p' = sLoginKey p \<and> sZone p' = sZone p \<and> sStoreErr p' = sStoreErr p"

lemma same_keys_at: "same_keys p p' \<Longrightarrow> claimAt p' = claimAt p \<and> claimKey p' = claimKey p"
  by (auto simp: same_keys_def claimAt_def claimKey_def fun_eq_iff)

lemma claimSend_keys: "claimSend a mid now p = (r, p') \<Longrightarrow> same_keys p p'"
  by (auto simp: claimSend_def same_keys_def Let_def split: sum.splits prod.splits)

lemma finishSend_keys: "finishSend a mid state now p = (r, p') \<Longrightarrow> same_keys p p'"
  by (auto simp: finishSend_def same_keys_def Let_def split: sum.splits prod.splits)

lemma claimSend_cases:
  assumes "claimSend a mid now p = (r, p')"
  obtains (fails) e where "r = Inl e" and "sStore p' = sStore p" and "sActive p' = sActive p"
  | (goes) state fresh where "r = Inr (state, fresh)" and "claim_tx p (claimAt p a mid) now (sStore p) = Inr ((state, fresh), sStore p')"
      and "sActive p' = (if fresh then (sActive p)(claimAt p a mid := True) else sActive p)"
  using assms
  by (auto simp: claimSend_def claimsDB_def Update_def Let_def split: sum.splits prod.splits option.splits)

lemma claim_tx_cases:
  assumes "claim_tx p at now tx = Inr ((state, fresh), tx')"
  obtains tx1 where "DeleteExpired kv_scan kv_delete tx (sendClaimOwner @ ''/'') now (claim_expires (claimKey p) (sActive p)) = Inr tx1"
    and "fresh \<Longrightarrow> (\<forall>t. \<not> kept (claimKey p) tx1 at t) \<and> state = sendClaiming \<and> putSendClaim (sZone p) at (claimKey p) sendClaiming now tx1 = Inr tx'"
    and "\<not> fresh \<Longrightarrow> tx' = tx1"
  using assms
  by (fastforce simp: claim_tx_def kept_def result_simps split: option.splits if_splits)

lemma held_after:
  assumes "held_claim p clock c" and "clock \<le> now" and "same_keys p p'"
    and "kept (claimKey p) (sStore p) (cAt c) (cTime c) \<Longrightarrow> cPhase c \<noteq> Released \<Longrightarrow>
           kept (claimKey p) (sStore p') (cAt c) (cTime c) \<or> cTime c + sendClaimKeep \<le> now"
  shows "held_claim p' now c"
  using assms same_keys_at [OF assms(3)] by (auto simp: held_claim_def)

lemma sorted_wrt_update:
  assumes "sorted_wrt P xs" and "i < length xs" and "\<And>d. P (xs ! i) d \<Longrightarrow> P x d" and "\<And>d. P d (xs ! i) \<Longrightarrow> P d x"
  shows "sorted_wrt P (xs[i := x])"
  using assms by (auto simp: sorted_wrt_iff_nth_less nth_list_update)

lemma sinv_update:
  assumes "sinv (p, clock, cs)" and "i < length cs" and "held_claim p' now c"
    and "ordered_tx (sStore p')"
    and "\<And>j. j < length cs \<Longrightarrow> j \<noteq> i \<Longrightarrow> held_claim p' now (cs ! j)"
    and "cAt c = cAt (cs ! i)" "cTime c = cTime (cs ! i)" "cPhase c \<noteq> Released \<Longrightarrow> cPhase (cs ! i) \<noteq> Released"
  shows "sinv (p', now, cs[i := c])"
proof -
  have "sorted_wrt apart (cs[i := c])"
    by (rule sorted_wrt_update) (use assms(1,2,6-8) in \<open>auto simp: sinv_def apart_def\<close>)
  moreover have "held_claim p' now d" if d: "d \<in> set (cs[i := c])" for d
  proof -
    obtain j where "j < length cs" "d = cs[i := c] ! j" using d by (auto simp: in_set_conv_nth)
    then show ?thesis using assms(3,5) by (cases "j = i") auto
  qed
  ultimately show ?thesis using assms(4) by (simp add: sinv_def)
qed

lemma sinv_same:
  assumes "sinv (p, clock, cs)" and "clock \<le> now" and "same_keys p p'" and "sStore p' = sStore p"
  shows "sinv (p', now, cs)"
  using assms by (auto simp: sinv_def intro: held_after)

lemma sinv_claim:
  assumes inv: "sinv (p, clock, cs)" and now: "clock \<le> now" "clock_ok now" and run: "claimSend a mid now p = (r, p')"
  shows "sinv (p', now, cs @ (case r of Inr (state, True) \<Rightarrow> [\<lparr>cAt = claimAt p a mid, cTime = now, cPhase = Sending, cLive = True\<rparr>] | _ \<Rightarrow> []))"
  using run
proof (cases rule: claimSend_cases)
  case fails
  then show ?thesis using sinv_same [OF inv now(1) claimSend_keys [OF run]] by simp
next
  case (goes state fresh)
  note keys = claimSend_keys [OF run]
  obtain tx1 where swept: "DeleteExpired kv_scan kv_delete (sStore p) (sendClaimOwner @ ''/'') now (claim_expires (claimKey p) (sActive p)) = Inr tx1"
    and f: "fresh \<Longrightarrow> (\<forall>t. \<not> kept (claimKey p) tx1 (claimAt p a mid) t) \<and> state = sendClaiming \<and>
      putSendClaim (sZone p) (claimAt p a mid) (claimKey p) sendClaiming now tx1 = Inr (sStore p')"
    and nf: "\<not> fresh \<Longrightarrow> sStore p' = tx1"
    by (rule claim_tx_cases [OF goes(2)]) (rule that)
  have ord: "ordered_tx (sStore p)" and hc: "\<And>c. c \<in> set cs \<Longrightarrow> held_claim p clock c" and ap: "sorted_wrt apart cs"
    using inv by (auto simp: sinv_def)
  note ord1 = swept_ordered [OF swept ord]
  have k1: "kept (claimKey p) tx1 (cAt c) (cTime c) \<or> cTime c + sendClaimKeep \<le> now"
    if "kept (claimKey p) (sStore p) (cAt c) (cTime c)" for c
    using swept_kept [OF swept ord that] by blast
  show ?thesis
  proof (cases fresh)
    case False
    have "held_claim p' now c" if "c \<in> set cs" for c
      by (rule held_after [OF hc [OF that] now(1) keys]) (use k1 nf False in simp)
    then show ?thesis using goes(1) False nf ord1 ap by (simp add: sinv_def)
  next
    case True
    note f = f [OF True]
    note put = put_claim_kept [OF conjunct2 [OF conjunct2 [OF f]] now(2) ord1]
    let ?n = "\<lparr>cAt = claimAt p a mid, cTime = now, cPhase = Sending, cLive = True\<rparr>"
    have held: "held_claim p' now c" if "c \<in> set cs" for c
      by (rule held_after [OF hc [OF that] now(1) keys]) (use k1 f put(3) in metis)
    have late: "cTime c + sendClaimKeep \<le> now" if "c \<in> set cs" "cPhase c \<noteq> Released" "cAt c = claimAt p a mid" for c
      using hc [OF that(1)] that(2,3) k1 [of c] f now(1) by (auto simp: held_claim_def)
    have "held_claim p' now ?n" using put(2) [of now] same_keys_at [OF keys] by (simp add: held_claim_def)
    then show ?thesis using goes(1) True put(1) held late ap by (auto simp: sinv_def sorted_wrt_append apart_def)
  qed
qed

lemma finishSend_cases:
  assumes "finishSend a mid state now p = (r, p')"
  obtains (fails) "sStore p' = sStore p"
  | (recorded) "state \<noteq> 0" "putSendClaim (sZone p) (claimAt p a mid) (claimKey p) state now (sStore p) = Inr (sStore p')"
  | (deleted) "state = 0" "kv_delete (claimAt p a mid) (sStore p) = Inr (sStore p')"
  using assms
  by (auto simp: finishSend_def claimsDB_def Update_def Let_def bindE_def split: sum.splits prod.splits option.splits if_splits)

lemma sinv_record:
  assumes inv: "sinv (p, clock, cs)" and now: "clock \<le> now" "clock_ok now" and "state \<noteq> 0" and run: "finishSend a mid state now p = (r, p')"
  shows "sinv (p', now, cs)"
  using run
proof (cases rule: finishSend_cases)
  case fails
  then show ?thesis by (rule sinv_same [OF inv now(1) finishSend_keys [OF run]])
next
  case recorded
  have ord: "ordered_tx (sStore p)" and hc: "\<And>c. c \<in> set cs \<Longrightarrow> held_claim p clock c" and ap: "sorted_wrt apart cs"
    using inv by (auto simp: sinv_def)
  note put = put_claim_kept [OF recorded(2) now(2) ord]
  have "held_claim p' now c" if "c \<in> set cs" for c
  proof (rule held_after [OF hc [OF that] now(1) finishSend_keys [OF run]])
    assume "kept (claimKey p) (sStore p) (cAt c) (cTime c)" and "cPhase c \<noteq> Released"
    then show "kept (claimKey p) (sStore p') (cAt c) (cTime c) \<or> cTime c + sendClaimKeep \<le> now"
      using hc [OF that] now(1) put(2) [of "cTime c"] put(3) [of "cAt c"]
      by (cases "cAt c = claimAt p a mid") (auto simp: held_claim_def)
  qed
  then show ?thesis using put(1) ap by (simp add: sinv_def)
qed (use assms in auto)

lemma sinv_release:
  assumes inv: "sinv (p, clock, cs)" and now: "clock \<le> now" and i: "i < length cs" "cAt (cs ! i) = claimAt p a mid" "cPhase (cs ! i) \<noteq> Released"
    and t: "now < cTime (cs ! i) + sendClaimKeep" and run: "finishSend a mid 0 now p = (r, p')"
  shows "sinv (p', now, cs[i := (cs ! i)\<lparr>cPhase := Released\<rparr>])"
proof (rule sinv_update [OF inv i(1)])
  have ord: "ordered_tx (sStore p)" and hc: "\<And>j. j < length cs \<Longrightarrow> held_claim p clock (cs ! j)"
    and ap: "\<And>j k. j < k \<Longrightarrow> k < length cs \<Longrightarrow> apart (cs ! j) (cs ! k)"
    using inv by (auto simp: sinv_def sorted_wrt_iff_nth_less)
  show "held_claim p' now ((cs ! i)\<lparr>cPhase := Released\<rparr>)" by (simp add: held_claim_def)
  show "ordered_tx (sStore p')" using run
    by (cases rule: finishSend_cases) (use ord bolt.del_inv in auto)
  fix j assume j: "j < length cs" "j \<noteq> i"
  show "held_claim p' now (cs ! j)"
  proof (rule held_after [OF hc [OF j(1)] now finishSend_keys [OF run]])
    let ?c = "cs ! j"
    assume k: "kept (claimKey p) (sStore p) (cAt ?c) (cTime ?c)" and ph: "cPhase ?c \<noteq> Released"
    have "cTime ?c + sendClaimKeep \<le> now" if "cAt ?c = cAt (cs ! i)"
    proof (cases "j < i")
      case True
      then show ?thesis using ap [OF True i(1)] that ph i(3) hc [OF i(1)] now by (auto simp: apart_def held_claim_def)
    next
      case False
      then show ?thesis using ap [of i j] j that ph i(3) hc [OF j(1)] now t by (auto simp: apart_def held_claim_def)
    qed
    moreover have "kept (claimKey p) (sStore p') (cAt ?c) (cTime ?c)" if "cAt ?c \<noteq> cAt (cs ! i)"
      using run
    proof (cases rule: finishSend_cases)
      case deleted
      then show ?thesis using bolt.del_get [OF ord deleted(2), of "cAt ?c"] that i(2) k by (simp add: kept_def)
    qed (use k in auto)
    ultimately show "kept (claimKey p) (sStore p') (cAt ?c) (cTime ?c) \<or> cTime ?c + sendClaimKeep \<le> now" by blast
  qed
qed simp_all

lemma sinv_phase:
  assumes inv: "sinv (p, clock, cs)" and "clock \<le> now" and i: "i < length cs" and "same_keys p p'" and "sStore p' = sStore p"
    and "cAt c = cAt (cs ! i)" "cTime c = cTime (cs ! i)" "cPhase c \<noteq> Released \<Longrightarrow> cPhase (cs ! i) \<noteq> Released"
  shows "sinv (p', now, cs[i := c])"
proof -
  have h: "held_claim p' now (cs ! j)" if "j < length cs" for j
    using held_after [OF _ assms(2,4), of "cs ! j"] inv that assms(5) by (auto simp: sinv_def)
  have "held_claim p' now c" using h [OF i] assms(6-8) by (auto simp: held_claim_def)
  then show ?thesis using sinv_update [OF inv i, of p' now c] h inv assms(5-8) by (auto simp: sinv_def)
qed

lemma sstep_inv: "sstep True x y \<Longrightarrow> sinv x \<Longrightarrow> sinv y"
proof (induction rule: sstep.induct)
  case (grant clock now a mid p state p' cs)
  then show ?case using sinv_claim [OF grant.prems grant(1-3)] by simp
next
  case (refuse clock now a mid p r p' cs)
  then show ?case using sinv_claim [OF refuse.prems refuse(1-3)] by (auto split: sum.splits prod.splits bool.splits)
next
  case (deliver clock now i cs ph p)
  then show ?case by (intro sinv_phase [OF deliver.prems]) (auto simp: same_keys_def)
next
  case (release clock now i cs p a mid r p')
  show ?case by (rule sinv_release [OF release.prems]) (use release in \<open>auto simp: timely_def\<close>)
next
  case (recorded clock now i cs p a mid state r p')
  have "state \<noteq> 0" using recorded(7) by (auto simp: sendAccepted_def sendComplete_def sendPartial_def)
  then show ?case by (rule sinv_record [OF recorded.prems recorded(1,2) _ recorded(8)])
next
  case (end_send clock now i cs p a mid)
  then show ?case by (intro sinv_phase [OF end_send.prems]) (auto simp: same_keys_def endSend_def)
next
  case (restart p clock cs)
  have "held_claim (p\<lparr>sActive := (\<lambda>_. False)\<rparr>) clock (c\<lparr>cLive := False\<rparr>)" if "held_claim p clock c" for c
    using that by (auto simp: held_claim_def claimKey_def)
  moreover have "sorted_wrt (\<lambda>c d. apart (c\<lparr>cLive := False\<rparr>) (d\<lparr>cLive := False\<rparr>)) cs"
    using restart by (auto simp: sinv_def apart_def elim!: sorted_wrt_mono_rel [rotated])
  ultimately show ?case using restart by (auto simp: sinv_def sorted_wrt_map)
qed

lemma sreach_inv: "sreach True p0 x \<Longrightarrow> ordered_tx (sStore p0) \<Longrightarrow> sinv x"
proof (induction rule: sreach.induct)
  case init
  then show ?case by (simp add: sinv_def)
next
  case (step x y)
  then show ?case by (blast intro: sstep_inv)
qed

subsection \<open>Where the data file takes every write\<close>

definition accepting :: "sendState \<Rightarrow> bool" where
  "accepting p \<longleftrightarrow> sStoreErr p = None \<and> ordered_tx (sStore p) \<and> (\<forall>k v. put_refused (sStore p) k v = None) \<and>
     (\<forall>k. delete_refused (sStore p) k = None) \<and> (\<forall>t. \<not> isl (MarshalBinary (sZone p) t)) \<and>
     (root_format (sLoginKey p) = ByInstance \<or> root_format (sLoginKey p) = ByAccount)"

definition shows_claim :: "sendState \<Rightarrow> string \<Rightarrow> (byte \<times> time) option \<Rightarrow> bool" where
  "shows_claim p at c \<longleftrightarrow> (case c of None \<Rightarrow> kv_get at (sStore p) = None
     | Some st \<Rightarrow> (\<exists>v. kv_get at (sStore p) = Some v \<and> v \<noteq> Raw [] \<and> readSendClaim (claimKey p) v = Inr st))"

lemma deletes_run:
  assumes "\<And>k. delete_refused tx k = None" and "ordered_tx tx"
  shows "\<exists>tx'. foldE kv_delete ks tx = Inr tx' \<and> (put_refused tx' = put_refused tx \<and> delete_refused tx' = delete_refused tx \<and> ordered_tx tx')"
  by (rule foldE_total) (use assms in \<open>auto simp: kv_delete_def ordered_tx_def delete_entry_def ordered_filter\<close>)

lemma sweep_runs:
  assumes "accepting p"
  obtains tx1 where "DeleteExpired kv_scan kv_delete (sStore p) q now ex = Inr tx1"
    and "put_refused tx1 = put_refused (sStore p)" "delete_refused tx1 = delete_refused (sStore p)" "ordered_tx tx1"
    and "\<And>k. kv_get k tx1 = (if prefix q k \<and> (\<exists>v. kv_get k (sStore p) = Some v \<and> snd (ex k v) \<and> fst (ex k v) \<le> now) then None else kv_get k (sStore p))"
proof -
  have ord: "ordered_tx (sStore p)" using assms by (simp add: accepting_def)
  obtain tx1 where run: "DeleteExpired kv_scan kv_delete (sStore p) q now ex = Inr tx1"
    and "put_refused tx1 = put_refused (sStore p) \<and> delete_refused tx1 = delete_refused (sStore p) \<and> ordered_tx tx1"
    using deletes_run [of "sStore p"] assms ord unfolding DeleteExpired_def DeleteUnder_def Let_def accepting_def by metis
  then show thesis using that [OF run] bolt.delete_expired_get [OF run ord] by blast
qed

lemma claimKey_format: "accepting p \<Longrightarrow> key_format (claimKey p) = ByInstance \<or> key_format (claimKey p) = ByAccount"
  by (simp add: accepting_def claimKey_def Root_Key_def)

lemma put_runs:
  assumes "accepting p" and "put_refused tx = put_refused (sStore p)" and "clock_ok now"
  obtains v where "putSendClaim (sZone p) at (claimKey p) state now tx = Inr (tx\<lparr>entries := put_entry at v (entries tx)\<rparr>)"
    and "v \<noteq> Raw []" and "readSendClaim (claimKey p) v = Inr (state, now)"
proof -
  obtain tx' where run: "putSendClaim (sZone p) at (claimKey p) state now tx = Inr tx'"
    using assms by (cases "MarshalBinary (sZone p) now") (auto simp: putSendClaim_def accepting_def kv_put_def split: sum.splits dest: spec [of _ now])
  show thesis by (rule readSendClaim_put [OF run assms(3)]) (use run claimKey_format [OF assms(1)] in \<open>auto intro: that\<close>)
qed

lemma accepting_store:
  assumes "accepting p" and "same_keys p p'" and "put_refused (sStore p') = put_refused (sStore p)"
    and "delete_refused (sStore p') = delete_refused (sStore p)" and "ordered_tx (sStore p')"
  shows "accepting p'"
  using assms by (auto simp: accepting_def same_keys_def)

lemma prefix_claimAt: "prefix (sendClaimOwner @ ''/'') (claimAt p a mid)"
  by (simp add: claimAt_def)

lemma claimSend_found:
  assumes "accepting p" and "shows_claim p (claimAt p a mid) (Some (s, t))" and "sActive p (claimAt p a mid) \<or> now < t + sendClaimKeep"
  shows "\<exists>p'. claimSend a mid now p = (Inr (s, False), p') \<and> accepting p' \<and> same_keys p p' \<and>
    shows_claim p' (claimAt p a mid) (Some (s, t)) \<and> sActive p' = sActive p"
proof -
  let ?at = "claimAt p a mid" and ?ex = "claim_expires (claimKey p) (sActive p)"
  obtain tx1 where swept: "DeleteExpired kv_scan kv_delete (sStore p) (sendClaimOwner @ ''/'') now ?ex = Inr tx1"
    and tx1: "put_refused tx1 = put_refused (sStore p)" "delete_refused tx1 = delete_refused (sStore p)" "ordered_tx tx1"
    and get: "\<And>k. kv_get k tx1 = (if prefix (sendClaimOwner @ ''/'') k \<and> (\<exists>v. kv_get k (sStore p) = Some v \<and> snd (?ex k v) \<and> fst (?ex k v) \<le> now)
      then None else kv_get k (sStore p))"
    by (rule sweep_runs [OF assms(1)]) (rule that)
  obtain v where v: "kv_get ?at (sStore p) = Some v" "v \<noteq> Raw []" "readSendClaim (claimKey p) v = Inr (s, t)"
    using assms(2) by (auto simp: shows_claim_def)
  have "kv_get ?at tx1 = Some v" using get [of ?at] v assms(3) by (auto simp: claim_expires_def)
  then have tx: "claim_tx p ?at now (sStore p) = Inr ((s, False), tx1)" using swept v by (simp add: claim_tx_def)
  let ?p = "p\<lparr>sStore := tx1\<rparr>"
  have "claimSend a mid now p = (Inr (s, False), ?p)"
    using assms(1) tx by (simp add: claimSend_def claimsDB_def accepting_def Update_def)
  moreover have keys: "same_keys p ?p" by (simp add: same_keys_def)
  moreover have "accepting ?p" using accepting_store [OF assms(1) keys] tx1 by simp
  moreover have "shows_claim ?p ?at (Some (s, t))"
    using v \<open>kv_get ?at tx1 = Some v\<close> same_keys_at [OF keys] by (simp add: shows_claim_def)
  ultimately show ?thesis by (intro exI [of _ ?p]) simp
qed

lemma claimSend_free:
  assumes "accepting p" and "clock_ok now"
    and "shows_claim p (claimAt p a mid) None \<or>
      shows_claim p (claimAt p a mid) (Some (s, t)) \<and> \<not> sActive p (claimAt p a mid) \<and> t + sendClaimKeep \<le> now"
  shows "\<exists>p'. claimSend a mid now p = (Inr (sendClaiming, True), p') \<and> accepting p' \<and> same_keys p p' \<and>
    shows_claim p' (claimAt p a mid) (Some (sendClaiming, now)) \<and> sActive p' = (sActive p)(claimAt p a mid := True)"
proof -
  let ?at = "claimAt p a mid" and ?ex = "claim_expires (claimKey p) (sActive p)"
  obtain tx1 where swept: "DeleteExpired kv_scan kv_delete (sStore p) (sendClaimOwner @ ''/'') now ?ex = Inr tx1"
    and tx1: "put_refused tx1 = put_refused (sStore p)" "delete_refused tx1 = delete_refused (sStore p)" "ordered_tx tx1"
    and get: "\<And>k. kv_get k tx1 = (if prefix (sendClaimOwner @ ''/'') k \<and> (\<exists>v. kv_get k (sStore p) = Some v \<and> snd (?ex k v) \<and> fst (?ex k v) \<le> now)
      then None else kv_get k (sStore p))"
    by (rule sweep_runs [OF assms(1)]) (rule that)
  have gone: "kv_get ?at tx1 = None"
    using get [of ?at] assms(3) prefix_claimAt [of p a mid] by (auto simp: shows_claim_def claim_expires_def)
  obtain v where put: "putSendClaim (sZone p) ?at (claimKey p) sendClaiming now tx1 = Inr (tx1\<lparr>entries := put_entry ?at v (entries tx1)\<rparr>)"
    and v: "v \<noteq> Raw []" "readSendClaim (claimKey p) v = Inr (sendClaiming, now)"
    by (rule put_runs [OF assms(1) tx1(1) assms(2)]) (rule that)
  let ?tx = "tx1\<lparr>entries := put_entry ?at v (entries tx1)\<rparr>"
  let ?p = "p\<lparr>sStore := ?tx, sActive := (sActive p)(?at := True)\<rparr>"
  have tx: "claim_tx p ?at now (sStore p) = Inr ((sendClaiming, True), ?tx)" using swept gone put by (simp add: claim_tx_def)
  have "claimSend a mid now p = (Inr (sendClaiming, True), ?p)"
    using assms(1) tx by (simp add: claimSend_def claimsDB_def accepting_def Update_def Let_def)
  moreover have keys: "same_keys p ?p" by (simp add: same_keys_def)
  moreover have "accepting ?p" using accepting_store [OF assms(1) keys] tx1 by (simp add: ordered_tx_def ordered_put_entry)
  moreover have "shows_claim ?p ?at (Some (sendClaiming, now))"
    using v same_keys_at [OF keys] by (simp add: shows_claim_def kv_get_def map_of_put_entry)
  ultimately show ?thesis by (intro exI [of _ ?p]) simp
qed

lemma finishSend_records:
  assumes "accepting p" and "clock_ok now" and "state \<noteq> 0"
  shows "\<exists>p'. finishSend a mid state now p = (Inr (), p') \<and> accepting p' \<and> same_keys p p' \<and>
    shows_claim p' (claimAt p a mid) (Some (state, now)) \<and> sActive p' = sActive p"
proof -
  let ?at = "claimAt p a mid"
  obtain v where put: "putSendClaim (sZone p) ?at (claimKey p) state now (sStore p) = Inr (sStore p\<lparr>entries := put_entry ?at v (entries (sStore p))\<rparr>)"
    and v: "v \<noteq> Raw []" "readSendClaim (claimKey p) v = Inr (state, now)"
    by (rule put_runs [OF assms(1) refl assms(2)]) (rule that)
  let ?p = "p\<lparr>sStore := sStore p\<lparr>entries := put_entry ?at v (entries (sStore p))\<rparr>\<rparr>"
  have "finishSend a mid state now p = (Inr (), ?p)"
    using assms(1,3) put by (simp add: finishSend_def claimsDB_def accepting_def Update_def)
  moreover have keys: "same_keys p ?p" by (simp add: same_keys_def)
  moreover have "accepting ?p" using accepting_store [OF assms(1) keys] assms(1) by (simp add: accepting_def ordered_tx_def ordered_put_entry)
  moreover have "shows_claim ?p ?at (Some (state, now))"
    using v same_keys_at [OF keys] by (simp add: shows_claim_def kv_get_def map_of_put_entry)
  ultimately show ?thesis by (intro exI [of _ ?p]) simp
qed

lemma finishSend_releases:
  assumes "accepting p"
  shows "\<exists>p'. finishSend a mid 0 now p = (Inr (), p') \<and> accepting p' \<and> same_keys p p' \<and>
    shows_claim p' (claimAt p a mid) None \<and> sActive p' = sActive p"
proof -
  let ?at = "claimAt p a mid"
  let ?p = "p\<lparr>sStore := sStore p\<lparr>entries := delete_entry ?at (entries (sStore p))\<rparr>\<rparr>"
  have "finishSend a mid 0 now p = (Inr (), ?p)"
    using assms by (simp add: finishSend_def claimsDB_def accepting_def Update_def kv_delete_def)
  moreover have keys: "same_keys p ?p" by (simp add: same_keys_def)
  moreover have "accepting ?p" using accepting_store [OF assms keys] assms by (simp add: accepting_def ordered_tx_def delete_entry_def ordered_filter)
  moreover have "shows_claim ?p ?at None" by (simp add: shows_claim_def kv_get_def map_of_delete_entry)
  ultimately show ?thesis by (intro exI [of _ ?p]) simp
qed

subsection \<open>Submit and its retries\<close>

text \<open>What a submission that holds its claim returns, and the claim it leaves behind.\<close>

definition exchange_result :: "('to, 'box, 'uid) exchange \<Rightarrow> sendErr + unit" where
  "exchange_result x = (case sent_found (xSent x) of Inl e \<Rightarrow> Inl e | Inr _ \<Rightarrow>
     (case xDeliver x of
        Delivered \<Rightarrow> if followups x = [] then Inr () else Inl (ErrSendAccepted (followups x))
      | Undelivered e uncertain \<Rightarrow> Inl (if uncertain then ErrSendUncertain (Some e) else ErrSend e)))"

definition claim_left :: "('to, 'box, 'uid) exchange \<Rightarrow> (byte \<times> time) option" where
  "claim_left x = (case sent_found (xSent x) of Inl _ \<Rightarrow> None | Inr _ \<Rightarrow>
     (case xDeliver x of
        Delivered \<Rightarrow> Some (if followups x = [] then sendComplete else sendPartial, xRecorded x)
      | Undelivered _ uncertain \<Rightarrow> if uncertain then Some (sendClaiming, xClaimed x) else None))"

definition retry_refused :: "('to, 'box, 'uid) exchange \<Rightarrow> sendErr option" where
  "retry_refused x = (case sent_found (xSent x) of Inl _ \<Rightarrow> None | Inr _ \<Rightarrow>
     (case xDeliver x of
        Delivered \<Rightarrow> Some (if followups x = [] then ErrSendAlreadyAccepted else ErrSendFollowupUnknown)
      | Undelivered _ uncertain \<Rightarrow> if uncertain then Some (ErrSendUncertain None) else None))"

definition clocked :: "('to, 'box, 'uid) exchange \<Rightarrow> bool" where
  "clocked x \<longleftrightarrow> clock_ok (xClaimed x) \<and> clock_ok (xFinished x) \<and> clock_ok (xRecorded x) \<and>
     xClaimed x \<le> xFinished x \<and> xFinished x \<le> xRecorded x"

lemma send_states [simp]: "sendAccepted \<noteq> 0" "sendComplete \<noteq> 0" "sendPartial \<noteq> 0"
  "sendClaiming \<noteq> sendComplete" "sendClaiming \<noteq> sendAccepted" "sendClaiming \<noteq> sendPartial" "sendPartial \<noteq> sendComplete"
  by (simp_all add: sendClaiming_def sendAccepted_def sendComplete_def sendPartial_def)

lemma accepted_part_runs:
  assumes "accepting p" and "clocked x"
  shows "\<exists>p'. accepted_part a mid x p = (followups x, p') \<and> accepting p' \<and> same_keys p p' \<and>
    shows_claim p' (claimAt p a mid) (Some (if followups x = [] then sendComplete else sendPartial, xRecorded x))"
proof -
  have "clock_ok (xFinished x)" and rec: "clock_ok (xRecorded x)" using assms(2) by (simp_all add: clocked_def)
  then obtain p1 where p1: "finishSend a mid sendAccepted (xFinished x) p = (Inr (), p1)" "accepting p1" "same_keys p p1"
    using finishSend_records [OF assms(1), of "xFinished x" sendAccepted a mid] by auto
  define s where "s = (if followups x = [] then sendComplete else sendPartial)"
  have "s \<noteq> 0" by (simp add: s_def)
  then obtain p2 where p2: "finishSend a mid s (xRecorded x) p1 = (Inr (), p2)" "accepting p2" "same_keys p1 p2"
    "shows_claim p2 (claimAt p1 a mid) (Some (s, xRecorded x))"
    using finishSend_records [OF p1(2) rec, of s a mid] by auto
  have "accepted_part a mid x p = (followups x, p2)" using p1(1) p2(1) by (simp add: accepted_part_def failed_def Let_def s_def)
  moreover have "same_keys p p2" using p1(3) p2(3) by (simp add: same_keys_def)
  ultimately show ?thesis using p2(2,4) same_keys_at [OF p1(3)] by (intro exI [of _ p2]) (simp add: s_def)
qed

lemma endSend_kept:
  "accepting p \<Longrightarrow> accepting (endSend a mid p)" "same_keys q p \<Longrightarrow> same_keys q (endSend a mid p)"
  "shows_claim (endSend a mid p) at c = shows_claim p at c"
  by (auto simp: endSend_def accepting_def same_keys_def shows_claim_def claimKey_def split: option.split)

lemma Submit_first:
  assumes "accepting p" and "shows_claim p (claimAt p a mid) None" and "clocked x" and "xTo x = Inr to"
  shows "\<exists>p' at. Submit a mid x p = ((exchange_result x, at), p') \<and> accepting p' \<and> same_keys p p' \<and>
    shows_claim p' (claimAt p a mid) (claim_left x)"
proof -
  have "clock_ok (xClaimed x)" using assms(3) by (simp add: clocked_def)
  then obtain p1 where c: "claimSend a mid (xClaimed x) p = (Inr (sendClaiming, True), p1)" "accepting p1" "same_keys p p1"
    "shows_claim p1 (claimAt p a mid) (Some (sendClaiming, xClaimed x))"
    using claimSend_free [OF assms(1)] assms(2) by blast
  note at1 = same_keys_at [OF c(3)]
  have ok: "refused_claim sendClaiming True = None" by (simp add: refused_claim_def)
  obtain p2 where rel: "finishSend a mid 0 (xFinished x) p1 = (Inr (), p2)" "accepting p2" "same_keys p p2" "shows_claim p2 (claimAt p a mid) None"
    using finishSend_releases [OF c(2), of a mid "xFinished x"] at1 c(3) by (auto simp: same_keys_def)
  obtain p3 where acc: "accepted_part a mid x p1 = (followups x, p3)" "accepting p3" "same_keys p p3"
    "shows_claim p3 (claimAt p a mid) (Some (if followups x = [] then sendComplete else sendPartial, xRecorded x))"
    using accepted_part_runs [OF c(2) assms(3), of a mid] at1 c(3) by (auto simp: same_keys_def)
  show ?thesis
  proof (cases "sent_found (xSent x)")
    case (Inl e)
    then show ?thesis using assms(4) c(1) ok rel by (simp add: Submit_def released_def exchange_result_def claim_left_def endSend_kept)
  next
    case (Inr box)
    show ?thesis
    proof (cases "xDeliver x")
      case Delivered
      then show ?thesis using Inr assms(4) c(1) ok acc by (simp add: Submit_def exchange_result_def claim_left_def endSend_kept)
    next
      case (Undelivered e uncertain)
      then show ?thesis using Inr assms(4) c ok rel
        by (cases uncertain) (simp_all add: Submit_def released_def exchange_result_def claim_left_def endSend_kept)
    qed
  qed
qed

lemma Submit_again:
  assumes "accepting p" and "shows_claim p (claimAt p a mid) (Some (s, t))" and "xClaimed x < t + sendClaimKeep" and "xTo x = Inr to"
    and "refused_claim s False = Some e"
  shows "fst (Submit a mid x p) = (Inl e, None)"
  using claimSend_found [OF assms(1,2), of "xClaimed x"] assms(3-5) by (auto simp: Submit_def)

definition sample_send :: sendState where
  "sample_send = \<lparr>sCrypto = sample_crypto, sLoginKey = sample_root, sZone = None,
     sStore = \<lparr>entries = [], put_refused = (\<lambda>_ _. None), delete_refused = (\<lambda>_. None)\<rparr>, sStoreErr = None, sActive = (\<lambda>_. False)\<rparr>"

lemma sample_send_ok: "accepting sample_send" "shows_claim sample_send at None" "ordered_tx (sStore sample_send)"
  by (simp_all add: accepting_def sample_send_def sample_root_def MarshalBinary_def ordered_tx_def shows_claim_def kv_get_def)

definition sample_exchange :: "delivery \<Rightarrow> time \<Rightarrow> (nat, nat, nat) exchange" where
  "sample_exchange d t = \<lparr>xTo = Inr 0, xSent = Inr (Some 0), xDeliver = d, xAnswered = None, xForwarded = None, xAppend = Inr 9,
     xDraft = None, xClaimed = t, xFinished = t + 1, xRecorded = t + 2\<rparr>"

text \<open>
  The server was given the end of the message and did not refuse it: DATA began, and the dot that
  ends it, sent by \<^verbatim>\<open>Close\<close> in line or by the deferred one after a copy that failed, was not
  answered with a refusal.
\<close>

definition may_have_taken :: "session \<Rightarrow> bool" where
  "may_have_taken s \<longleftrightarrow> dFetch s = None \<and> dDial s = None \<and> dAuth s = None \<and> dSpool s = None \<and> before_data s = Inr () \<and>
     (dCopy s = None \<longrightarrow> (case dClose s of Rejected code _ \<Rightarrow> \<not> (400 \<le> code \<and> code < 600) | _ \<Rightarrow> True))"

text \<open>
  A delivery reported as certainly failed was not taken, and only those are: \<^verbatim>\<open>deliverWithPhase\<close>
  says it succeeded exactly when the server confirmed the whole message, says the outcome is
  uncertain when the server had the end of DATA without refusing it and did not confirm, and
  reports a plain failure in every other case, whatever step failed.
\<close>

lemma deliver_phase_exact:
  "(deliverWithPhase s = Delivered \<longleftrightarrow> may_have_taken s \<and> dCopy s = None \<and> dClose s = Closed) \<and>
   ((\<exists>e. deliverWithPhase s = Undelivered e True) \<longleftrightarrow> may_have_taken s \<and> \<not> (dCopy s = None \<and> dClose s = Closed)) \<and>
   ((\<exists>e. deliverWithPhase s = Undelivered e False) \<longleftrightarrow> \<not> may_have_taken s)"
proof (cases "dFetch s = None \<and> dDial s = None \<and> dAuth s = None \<and> dSpool s = None")
  case True
  have "before_data s = Inr () \<or> (\<exists>e. before_data s = Inl e)" by (cases "before_data s") auto
  then show ?thesis using True
    by (cases "dCopy s"; cases "dClose s") (auto simp: deliverWithPhase_def sendMessage_def DoSMTP_def may_have_taken_def)
next
  case False
  then show ?thesis
    by (cases "dFetch s"; cases "dDial s"; cases "dAuth s"; cases "dSpool s")
      (auto simp: deliverWithPhase_def DoSMTP_def may_have_taken_def fails_with_def)
qed

text \<open>
  C36: what a retry is told. A submission that gets its claim returns what its exchange with the
  mail servers says. A retry of the same message within ten minutes is refused without an
  exchange of its own when the server took the message (already accepted, or accepted with
  follow-ups that failed) or may have taken it (uncertain); when the server certainly did not
  take it, the retry is let through and returns what its own exchange says.
\<close>

theorem Submit_retry:
  assumes "accepting p" and "shows_claim p (claimAt p a mid) None" and "clocked x" and "clocked x'"
    and "xTo x = Inr to" and "xTo x' = Inr to'"
    and "xRecorded x \<le> xClaimed x'" and "xClaimed x' < xClaimed x + sendClaimKeep"
  shows "fst (fst (Submit a mid x p)) = exchange_result x \<and>
    fst (fst (Submit a mid x' (snd (Submit a mid x p)))) =
      (case retry_refused x of Some e \<Rightarrow> Inl e | None \<Rightarrow> exchange_result x')"
proof -
  obtain p' at where s: "Submit a mid x p = ((exchange_result x, at), p')" "accepting p'" "same_keys p p'"
    "shows_claim p' (claimAt p a mid) (claim_left x)" using Submit_first [OF assms(1-3,5)] by blast
  have at: "claimAt p' a mid = claimAt p a mid" using same_keys_at [OF s(3)] by simp
  have "xClaimed x \<le> xRecorded x" using assms(3) by (simp add: clocked_def)
  then have t: "xClaimed x' < xRecorded x + sendClaimKeep" using assms(8) by simp
  have "fst (fst (Submit a mid x' p')) = (case retry_refused x of Some e \<Rightarrow> Inl e | None \<Rightarrow> exchange_result x')"
  proof (cases "claim_left x")
    case None
    then have "retry_refused x = None"
      by (auto simp: claim_left_def retry_refused_def split: sum.splits delivery.splits if_splits)
    then show ?thesis using Submit_first [OF s(2) _ assms(4,6), of a mid] s(4) None at by auto
  next
    case (Some st)
    obtain e where e: "retry_refused x = Some e" "refused_claim (fst st) False = Some e" "xClaimed x' < snd st + sendClaimKeep"
      using Some t assms(8) by (auto simp: claim_left_def retry_refused_def refused_claim_def split: sum.splits delivery.splits if_splits)
    then show ?thesis using Submit_again [OF s(2) _ e(3) assms(6) e(2), of a mid] s(4) Some at by simp
  qed
  then show ?thesis using s(1) by simp
qed

theorem Submit_retry_witness:
  "fst (fst (Submit ''amy'' ''m1'' (sample_exchange Delivered 9) (snd (Submit ''amy'' ''m1'' (sample_exchange Delivered 5) sample_send)))) =
     Inl ErrSendAlreadyAccepted \<and>
   fst (fst (Submit ''amy'' ''m1'' (sample_exchange Delivered 9)
     (snd (Submit ''amy'' ''m1'' (sample_exchange (Undelivered ErrLocked False) 5) sample_send)))) = Inr ()"
  using Submit_retry [OF sample_send_ok(1,2), of "sample_exchange Delivered 5" "sample_exchange Delivered 9" 0 0 "''amy''" "''m1''"]
    Submit_retry [OF sample_send_ok(1,2), of "sample_exchange (Undelivered ErrLocked False) 5" "sample_exchange Delivered 9" 0 0 "''amy''" "''m1''"]
  by (simp add: sample_exchange_def clocked_def clock_ok_def sendClaimKeep_def retry_refused_def exchange_result_def sent_found_def followups_def)

text \<open>
  C2: a message is submitted at most once in ten minutes. However submissions, retries and restarts
  of the server interleave, as long as no exchange with the mail server lasts the ten minutes
  a claim is kept, two claims on the same sender and message id that were not given back
  after a certain refusal were granted at least ten minutes apart; so only one of them can
  have handed the message to the mail server in that time.
\<close>

theorem send_at_most_once:
  assumes "sreach True p0 (p, clock, cs)" and "ordered_tx (sStore p0)"
    and "i < j" and "j < length cs" and "cAt (cs ! i) = cAt (cs ! j)"
    and "cPhase (cs ! i) \<noteq> Released" and "cPhase (cs ! j) \<noteq> Released"
  shows "cTime (cs ! i) + sendClaimKeep \<le> cTime (cs ! j)"
  using sreach_inv [OF assms(1,2)] assms(3-7) by (auto simp: sinv_def sorted_wrt_iff_nth_less apart_def)

lemma sreach_grant:
  assumes "sreach prompt p0 (p, clock, cs)" and "accepting p" and "clock \<le> now" and "clock_ok now"
    and "shows_claim p (claimAt p a mid) None \<or>
      shows_claim p (claimAt p a mid) (Some (s, t)) \<and> \<not> sActive p (claimAt p a mid) \<and> t + sendClaimKeep \<le> now"
  obtains p' where "sreach prompt p0 (p', now, cs @ [\<lparr>cAt = claimAt p a mid, cTime = now, cPhase = Sending, cLive = True\<rparr>])"
    and "accepting p'" and "same_keys p p'" and "shows_claim p' (claimAt p a mid) (Some (sendClaiming, now))"
proof -
  obtain p' where p': "claimSend a mid now p = (Inr (sendClaiming, True), p')" "accepting p'" "same_keys p p'"
    "shows_claim p' (claimAt p a mid) (Some (sendClaiming, now))" using claimSend_free [OF assms(2,4,5)] by blast
  show thesis by (rule that [OF sreach.step [OF assms(1) sstep.grant [OF assms(3,4) p'(1)]] p'(2-4)])
qed

theorem send_at_most_once_witness:
  "\<exists>p clock cs. sreach True sample_send (p, clock, cs) \<and> ordered_tx (sStore sample_send) \<and> length cs = 2 \<and>
     cPhase (cs ! 0) \<noteq> Released \<and> cPhase (cs ! 1) \<noteq> Released \<and> cAt (cs ! 0) = cAt (cs ! 1) \<and>
     cTime (cs ! 0) + sendClaimKeep \<le> cTime (cs ! 1)"
proof -
  let ?a = "''amy''" and ?m = "''m1''" and ?n = "1 + sendClaimKeep"
  let ?c = "\<lparr>cAt = claimAt sample_send ?a ?m, cTime = 1, cPhase = Sending, cLive = True\<rparr>"
  obtain p1 where p1: "sreach True sample_send (p1, 1, [?c])" "accepting p1" "same_keys sample_send p1"
    "shows_claim p1 (claimAt sample_send ?a ?m) (Some (sendClaiming, 1))"
    by (rule sreach_grant [OF sreach.init sample_send_ok(1), of 1 ?a ?m])
      (use sample_send_ok(2) in \<open>auto simp: clock_ok_def intro: that\<close>)
  have at1: "claimAt p1 ?a ?m = claimAt sample_send ?a ?m" using same_keys_at [OF p1(3)] by simp
  have d: "sreach True sample_send (p1, 1, [?c\<lparr>cPhase := Unsure\<rparr>])"
    using sreach.step [OF p1(1) sstep.deliver [of 1 1 0 "[?c]" True Unsure p1]] by (simp add: timely_def sendClaimKeep_def)
  have e: "sreach True sample_send (endSend ?a ?m p1, 1, [?c\<lparr>cPhase := Unsure, cLive := False\<rparr>])"
    using sreach.step [OF d sstep.end_send [of 1 1 0 "[?c\<lparr>cPhase := Unsure\<rparr>]" p1 ?a ?m]] at1 by simp
  obtain p2 where p2: "sreach True sample_send (p2, ?n, [?c\<lparr>cPhase := Unsure, cLive := False\<rparr>] @
      [\<lparr>cAt = claimAt (endSend ?a ?m p1) ?a ?m, cTime = ?n, cPhase = Sending, cLive = True\<rparr>])"
    by (rule sreach_grant [OF e endSend_kept(1) [OF p1(2)], of ?n ?a ?m sendClaiming 1])
      (use p1(4) at1 in \<open>auto simp: endSend_kept endSend_def claimAt_def clock_ok_def sendClaimKeep_def shows_claim_def claimKey_def intro: that\<close>)
  have at2: "claimAt (endSend ?a ?m p1) ?a ?m = claimAt sample_send ?a ?m" using at1 by (simp add: endSend_def claimAt_def)
  show ?thesis
    using p2 send_at_most_once [OF p2 sample_send_ok(3), of 0 1] sample_send_ok(3) at2 by (intro exI conjI) auto
qed

text \<open>
  The mark that keeps a running submission's claim from expiring is one flag per message, so the
  end of a submission that gave its claim back clears it for the next one too: once that one's
  exchange outlasts ten minutes, a third submission is let through while it still runs.
\<close>

lemma two_deliveries_at_once:
  "\<exists>p clock cs. sreach False sample_send (p, clock, cs) \<and> length cs = 3 \<and> cAt (cs ! 1) = cAt (cs ! 2) \<and>
     cPhase (cs ! 1) = Sending \<and> cLive (cs ! 1) \<and> cPhase (cs ! 2) = Sending \<and> cLive (cs ! 2)"
proof -
  let ?a = "''amy''" and ?m = "''m1''" and ?n = "2 + sendClaimKeep"
  define at where "at = claimAt sample_send ?a ?m"
  define c where "c = \<lparr>cAt = at, cTime = 1, cPhase = Sending, cLive = True\<rparr>"
  obtain p1 where p1: "sreach False sample_send (p1, 1, [c])" "accepting p1" "same_keys sample_send p1"
    by (rule sreach_grant [OF sreach.init sample_send_ok(1), of 1 ?a ?m])
      (use sample_send_ok(2) in \<open>auto simp: clock_ok_def c_def at_def intro: that\<close>)
  have at1: "claimAt p1 ?a ?m = at" using same_keys_at [OF p1(3)] by (simp add: at_def)
  obtain p2 where rel: "finishSend ?a ?m 0 1 p1 = (Inr (), p2)" and p2: "accepting p2" "same_keys p1 p2" "shows_claim p2 at None"
    using finishSend_releases [OF p1(2), of ?a ?m 1] at1 by auto
  have at2: "claimAt p2 ?a ?m = at" using same_keys_at [OF p2(2)] at1 by simp
  have d: "sreach False sample_send (p1, 1, [c\<lparr>cPhase := Failed\<rparr>])"
    using sreach.step [OF p1(1) sstep.deliver [of 1 1 0 "[c]" False Failed p1]] by (simp add: timely_def c_def)
  have r: "sreach False sample_send (p2, 1, [c\<lparr>cPhase := Released\<rparr>])"
    using sreach.step [OF d sstep.release [OF _ _ _ _ _ _ rel, of 1 0 "[c\<lparr>cPhase := Failed\<rparr>]"]] at1 by (simp add: timely_def c_def)
  define c2 where "c2 = \<lparr>cAt = at, cTime = 2, cPhase = Sending, cLive = True\<rparr>"
  obtain p3 where p3: "sreach False sample_send (p3, 2, [c\<lparr>cPhase := Released\<rparr>, c2])" "accepting p3" "same_keys p2 p3"
    "shows_claim p3 at (Some (sendClaiming, 2))"
    by (rule sreach_grant [OF r p2(1), of 2 ?a ?m]) (use p2(3) at2 in \<open>auto simp: clock_ok_def c2_def intro: that\<close>)
  have at3: "claimAt p3 ?a ?m = at" using same_keys_at [OF p3(3)] at2 by simp
  have e: "sreach False sample_send (endSend ?a ?m p3, 2, [c\<lparr>cPhase := Released, cLive := False\<rparr>, c2])"
    using sreach.step [OF p3(1) sstep.end_send [of 2 2 0 "[c\<lparr>cPhase := Released\<rparr>, c2]" p3 ?a ?m]] at3 by (simp add: c_def)
  have at4: "claimAt (endSend ?a ?m p3) ?a ?m = at" using at3 by (simp add: endSend_def claimAt_def)
  have free: "shows_claim (endSend ?a ?m p3) at (Some (sendClaiming, 2)) \<and> \<not> sActive (endSend ?a ?m p3) at"
    using p3(4) at3 by (simp add: endSend_kept endSend_def [of _ _ p3] shows_claim_def claimKey_def)
  obtain p4 where "sreach False sample_send (p4, ?n, [c\<lparr>cPhase := Released, cLive := False\<rparr>, c2] @
      [\<lparr>cAt = at, cTime = ?n, cPhase = Sending, cLive = True\<rparr>])"
    by (rule sreach_grant [OF e endSend_kept(1) [OF p3(2)], of ?n ?a ?m sendClaiming 2])
      (use free at4 in \<open>auto simp: clock_ok_def sendClaimKeep_def intro: that\<close>)
  then show ?thesis by (intro exI conjI) (assumption, auto simp: c2_def numeral_2_eq_2)
qed

end
