(* ===== verification/Imap_Search.thy ===== *)
theory Imap_Search
  imports Search_Query Pim_Data
begin

text \<open>
  A search of mail as the IMAP server is asked it (\<^verbatim>\<open>mail/imapsearch/query.go\<close>, \<^verbatim>\<open>imap.go\<close>).

  \<open>criteria\<close> is the struct of go-imap the code fills, with the fields it uses; a nil pointer is
  \<open>None\<close>, and following one is \<open>ErrPanic\<close>. How go-imap intersects two criteria is the argument
  \<open>isect\<close>. \<open>matches\<close> says which messages a server finds: a size that is not positive and an absent
  date are not sent, so they restrict nothing. IMAP compares dates only, so \<open>now\<close> is a civil
  date and a day is its number, counted from 1 January of year 1.
\<close>

subsection \<open>Criteria\<close>

datatype flag = FlagSeen | FlagFlagged | FlagAnswered | FlagDraft

datatype criteria = Criteria
  (cHeader: "(string \<times> string) list") (cBody: "string list") (cText: "string list")
  (cFlag: "flag list") (cNotFlag: "flag list") (cSince: "int option") (cBefore: "int option")
  (cLarger: "64 word") (cSmaller: "64 word") (cNot: "criteria list") (cOr: "(criteria \<times> criteria) list")

definition no_criteria :: criteria where
  "no_criteria = Criteria [] [] [] [] [] None None 0 0 [] []"

record message =
  mHeader :: "string \<Rightarrow> string \<Rightarrow> bool"
  mBody :: "string \<Rightarrow> bool"
  mText :: "string \<Rightarrow> bool"
  mFlags :: "flag list"
  mDay :: int
  mSize :: int

primrec matches :: "criteria \<Rightarrow> message \<Rightarrow> bool" where
  "matches (Criteria hs bs ts fs nfs since before larger smaller nots ors) m \<longleftrightarrow>
     list_all (\<lambda>(k, v). mHeader m k v) hs \<and> list_all (mBody m) bs \<and> list_all (mText m) ts \<and>
     list_all (\<lambda>f. f \<in> set (mFlags m)) fs \<and> list_all (\<lambda>f. f \<notin> set (mFlags m)) nfs \<and>
     (case since of None \<Rightarrow> True | Some d \<Rightarrow> d \<le> mDay m) \<and> (case before of None \<Rightarrow> True | Some d \<Rightarrow> mDay m < d) \<and>
     (0 < sint larger \<longrightarrow> sint larger < mSize m) \<and> (0 < sint smaller \<longrightarrow> mSize m < sint smaller) \<and>
     list_all (\<lambda>p. \<not> p m) (map matches nots) \<and> list_all (\<lambda>(p, q). p m \<or> q m) (map (map_prod matches matches) ors)"

definition searchCriteriaHeader :: "string \<Rightarrow> string \<Rightarrow> criteria" where
  "searchCriteriaHeader k v = Criteria [(k, v)] [] [] [] [] None None 0 0 [] []"

definition body_criteria :: "string \<Rightarrow> criteria" where
  "body_criteria v = Criteria [] [v] [] [] [] None None 0 0 [] []"

definition text_criteria :: "string \<Rightarrow> criteria" where
  "text_criteria v = Criteria [] [] [v] [] [] None None 0 0 [] []"

definition flag_criteria :: "flag \<Rightarrow> bool \<Rightarrow> criteria" where
  "flag_criteria f neg = (if neg then Criteria [] [] [] [] [f] None None 0 0 [] [] else Criteria [] [] [] [f] [] None None 0 0 [] [])"

definition since_criteria :: "int \<Rightarrow> criteria" where
  "since_criteria d = Criteria [] [] [] [] [] (Some d) None 0 0 [] []"

definition before_criteria :: "int \<Rightarrow> criteria" where
  "before_criteria d = Criteria [] [] [] [] [] None (Some d) 0 0 [] []"

definition larger_criteria :: "64 word \<Rightarrow> criteria" where
  "larger_criteria n = Criteria [] [] [] [] [] None None n 0 [] []"

definition smaller_criteria :: "64 word \<Rightarrow> criteria" where
  "smaller_criteria n = Criteria [] [] [] [] [] None None 0 n [] []"

definition not_criteria :: "criteria \<Rightarrow> criteria" where
  "not_criteria c = Criteria [] [] [] [] [] None None 0 0 [c] []"

definition or_criteria :: "criteria \<Rightarrow> criteria \<Rightarrow> criteria" where
  "or_criteria a b = Criteria [] [] [] [] [] None None 0 0 [] [(a, b)]"

text \<open>\<^verbatim>\<open>searchCriteriaOr\<close> of criteria none of which is nil, as its one caller gives them.\<close>

definition searchCriteriaOr :: "criteria \<Rightarrow> criteria list \<Rightarrow> criteria" where
  "searchCriteriaOr c cs = foldl or_criteria c cs"

text \<open>\<^verbatim>\<open>And\<close> of two pointers.\<close>

definition crit_And :: "(criteria \<Rightarrow> criteria \<Rightarrow> criteria) \<Rightarrow> criteria option \<Rightarrow> criteria option \<Rightarrow> err + criteria option" where
  "crit_And isect a b = (case a of
       None \<Rightarrow> Inr b
     | Some x \<Rightarrow> (case b of None \<Rightarrow> Inl ErrPanic | Some y \<Rightarrow> Inr (Some (isect x y))))"

subsection \<open>Values\<close>

type_synonym cdate = "int \<times> int \<times> int"

definition leap :: "int \<Rightarrow> bool" where
  "leap y \<longleftrightarrow> y mod 4 = 0 \<and> (y mod 100 \<noteq> 0 \<or> y mod 400 = 0)"

definition daysIn :: "int \<Rightarrow> int \<Rightarrow> int" where
  "daysIn m y = (if m = 2 \<and> leap y then 29 else [31, 28, 31, 30, 31, 30, 31, 31, 30, 31, 30, 31] ! nat (m - 1))"

definition daysBefore :: "int \<Rightarrow> int \<Rightarrow> int" where
  "daysBefore m y = sum_list (map (\<lambda>k. daysIn (int k) y) [1..<nat m])"

definition day_number :: "int \<Rightarrow> int \<Rightarrow> int \<Rightarrow> int" where
  "day_number y m d = 365 * (y - 1) + (y - 1) div 4 - (y - 1) div 100 + (y - 1) div 400 + daysBefore m y + (d - 1)"

text \<open>\<^verbatim>\<open>time.Date\<close> brings a month outside the year back into it; \<^verbatim>\<open>AddDate\<close> adds to the fields.\<close>

definition AddDate :: "cdate \<Rightarrow> int \<Rightarrow> int \<Rightarrow> int \<Rightarrow> int" where
  "AddDate now years months days = (case now of (y, m, d) \<Rightarrow>
     let m0 = m + months - 1 in day_number (y + years + m0 div 12) (m0 mod 12 + 1) (d + days))"

text \<open>\<^verbatim>\<open>time.Parse\<close> of four digits, a separator, two digits, the separator, two digits.\<close>

definition parse_day :: "char \<Rightarrow> string \<Rightarrow> int option" where
  "parse_day sep s =
     (if length s = 10 \<and> s ! 4 = sep \<and> s ! 7 = sep \<and> list_all is_digit (take 4 s @ take 2 (drop 5 s) @ drop 8 s)
      then let y = int (decimal (take 4 s)); m = int (decimal (take 2 (drop 5 s))); d = int (decimal (drop 8 s))
           in if 1 \<le> m \<and> m \<le> 12 \<and> 1 \<le> d \<and> d \<le> daysIn m y then Some (day_number y m d) else None
      else None)"

definition queryDay :: "string \<Rightarrow> int option" where
  "queryDay v = (case parse_day (CHR ''-'') v of Some d \<Rightarrow> Some d | None \<Rightarrow> parse_day (CHR ''/'') v)"

definition ParseInt :: "string \<Rightarrow> err + int" where
  "ParseInt s =
     (let neg = (s \<noteq> [] \<and> hd s = CHR ''-''); body = (if s \<noteq> [] \<and> (hd s = CHR ''-'' \<or> hd s = CHR ''+'') then tl s else s)
      in bindE (ParseUint body) (\<lambda>u. if \<not> neg \<and> unat u \<ge> 2 ^ 63 \<or> neg \<and> unat u > 2 ^ 63 then Inl ErrNumber
        else Inr (if neg then - int (unat u) else int (unat u))))"

definition wrap64 :: "int \<Rightarrow> int" where
  "wrap64 x = sint (of_int x :: 64 word)"

definition queryAgo :: "string \<Rightarrow> cdate \<Rightarrow> int option" where
  "queryAgo v now =
     (if length v < 2 then None
      else case ParseInt (take (length v - 1) v) of
          Inl _ \<Rightarrow> None
        | Inr n \<Rightarrow>
            if n \<le> 0 then None
            else if last v = CHR ''d'' then Some (AddDate now 0 0 (- n))
            else if last v = CHR ''w'' then Some (AddDate now 0 0 (wrap64 (- 7 * n)))
            else if last v = CHR ''m'' then Some (AddDate now 0 (- n) 0)
            else if last v = CHR ''y'' then Some (AddDate now (- n) 0 0)
            else None)"

definition querySize :: "string \<Rightarrow> (64 word) option" where
  "querySize v0 =
     (let (u, v) = (if suffix ''k'' (ToLower v0) then (2 ^ 10, take (length v0 - 1) v0)
                    else if suffix ''m'' (ToLower v0) then (2 ^ 20, take (length v0 - 1) v0)
                    else (1, v0))
      in case ParseInt v of Inl _ \<Rightarrow> None | Inr n \<Rightarrow> if n \<le> 0 then None else Some (of_int n * u))"

subsection \<open>Operators\<close>

type_synonym operator = "string \<Rightarrow> cdate \<Rightarrow> criteria option"

definition headerOperator :: "string \<Rightarrow> operator" where
  "headerOperator field v now = Some (searchCriteriaHeader field v)"

definition parsedDate :: "(string \<Rightarrow> cdate \<Rightarrow> int option) \<Rightarrow> (int \<Rightarrow> criteria) \<Rightarrow> operator" where
  "parsedDate parse mk v now = map_option mk (parse v now)"

definition queryDayAt :: "string \<Rightarrow> cdate \<Rightarrow> int option" where
  "queryDayAt v now = queryDay v"

definition parsedSize :: "(64 word \<Rightarrow> criteria) \<Rightarrow> operator" where
  "parsedSize mk v now = map_option mk (querySize v)"

definition messageStates :: "(string \<times> flag \<times> bool) list" where
  "messageStates = [(''unread'', FlagSeen, True), (''read'', FlagSeen, False), (''starred'', FlagFlagged, False),
     (''flagged'', FlagFlagged, False), (''unstarred'', FlagFlagged, True), (''answered'', FlagAnswered, False),
     (''replied'', FlagAnswered, False), (''draft'', FlagDraft, False)]"

definition isOperator :: operator where
  "isOperator v now = map_option (\<lambda>(f, neg). flag_criteria f neg) (map_of messageStates (ToLower v))"

definition operators :: "(string \<times> operator) list" where
  "operators = [
     (''from'', headerOperator ''From''), (''to'', headerOperator ''To''), (''cc'', headerOperator ''Cc''),
     (''bcc'', headerOperator ''Bcc''), (''subject'', headerOperator ''Subject''), (''list'', headerOperator ''List-Id''),
     (''body'', \<lambda>v _. Some (body_criteria v)), (''text'', \<lambda>v _. Some (text_criteria v)), (''is'', isOperator),
     (''after'', parsedDate queryDayAt since_criteria), (''before'', parsedDate queryDayAt before_criteria),
     (''newer_than'', parsedDate queryAgo since_criteria), (''older_than'', parsedDate queryAgo before_criteria),
     (''larger'', parsedSize larger_criteria), (''smaller'', parsedSize smaller_criteria)]"

definition In :: string where
  "In = ''in''"

definition zero_date :: cdate where
  "zero_date = (1, 1, 1)"

definition resolved_term :: "Term \<Rightarrow> Term" where
  "resolved_term t =
     (if tKey t \<noteq> [] \<and> tKey t \<noteq> In \<and>
         (case map_of operators (tKey t) of None \<Rightarrow> True | Some read \<Rightarrow> read (tValue t) zero_date = None)
      then \<lparr>tKey = [], tValue = tKey t @ '':'' @ tValue t, tNot = tNot t, tQuoted = False\<rparr> else t)"

definition resolved :: "Query \<Rightarrow> Query" where
  "resolved q = map resolved_term q"

definition word_criteria :: "bool \<Rightarrow> string \<Rightarrow> criteria" where
  "word_criteria indexed w =
     (if indexed then text_criteria w
      else searchCriteriaOr (searchCriteriaHeader ''From'' w)
        [searchCriteriaHeader ''To'' w, searchCriteriaHeader ''Cc'' w, searchCriteriaHeader ''Subject'' w])"

definition term_criteria :: "bool \<Rightarrow> cdate \<Rightarrow> Term \<Rightarrow> err + criteria option" where
  "term_criteria indexed now t =
     (if tKey t \<noteq> [] then (case map_of operators (tKey t) of None \<Rightarrow> Inl ErrPanic | Some read \<Rightarrow> Inr (read (tValue t) now))
      else Inr (Some (word_criteria indexed (tValue t))))"

definition negated :: "bool \<Rightarrow> criteria option \<Rightarrow> err + criteria option" where
  "negated neg one = (if neg then (case one of None \<Rightarrow> Inl ErrPanic | Some c \<Rightarrow> Inr (Some (not_criteria c))) else Inr one)"

definition Of_step :: "(criteria \<Rightarrow> criteria \<Rightarrow> criteria) \<Rightarrow> bool \<Rightarrow> cdate \<Rightarrow> Term \<Rightarrow> criteria option \<Rightarrow> err + criteria option" where
  "Of_step isect indexed now t acc =
     (if tKey t = In then Inr acc
      else bindE (term_criteria indexed now t) (\<lambda>one. bindE (negated (tNot t) one) (crit_And isect acc)))"

definition Of :: "(criteria \<Rightarrow> criteria \<Rightarrow> criteria) \<Rightarrow> Query \<Rightarrow> bool \<Rightarrow> cdate \<Rightarrow> err + criteria" where
  "Of isect q indexed now =
     bindE (foldE (Of_step isect indexed now) (resolved q) None) (\<lambda>c. Inr (case c of None \<Rightarrow> no_criteria | Some c \<Rightarrow> c))"

subsection \<open>Keys, folders and addresses\<close>

definition Search_Keys :: "string list" where
  "Search_Keys = sort (map fst operators) @ [In]"

definition WantsText :: "Query \<Rightarrow> bool" where
  "WantsText q = list_ex (\<lambda>t. tKey t = ''text'') q"

fun scope_loop :: "Query \<Rightarrow> string \<Rightarrow> string \<times> bool" where
  "scope_loop [] folder = (folder, False)"
| "scope_loop (t # q) folder =
     (if tKey t \<noteq> In \<or> tNot t then scope_loop q folder
      else if ToLower (tValue t) = ''anywhere'' \<or> ToLower (tValue t) = ''all'' then ([], True)
      else scope_loop q (tValue t))"

definition Scope :: "Query \<Rightarrow> string \<times> bool" where
  "Scope q = scope_loop q []"

definition Excluded :: "Query \<Rightarrow> string list" where
  "Excluded q = map tValue (filter (\<lambda>t. tKey t = In \<and> tNot t) q)"

definition addressKeys :: "string list" where
  "addressKeys = [''from'', ''to'', ''cc'', ''bcc'']"

definition Addressed :: "Query \<Rightarrow> bool" where
  "Addressed q = list_ex (\<lambda>t. \<not> tNot t \<and> tKey t \<in> set addressKeys) q"

definition Addresses :: "Query \<Rightarrow> string \<Rightarrow> string list option" where
  "Addresses q = foldl (\<lambda>out t. if \<not> tNot t \<and> tKey t \<in> set addressKeys
     then out(tKey t := Some ((case out (tKey t) of None \<Rightarrow> [] | Some vs \<Rightarrow> vs) @ [tValue t])) else out) (\<lambda>_. None) q"

definition widen_term :: "Term \<Rightarrow> Term" where
  "widen_term t = (if tKey t = [] then t\<lparr>tKey := ''text''\<rparr> else t)"

definition Widened :: "Query \<Rightarrow> string" where
  "Widened q =
     (let out = map (\<lambda>t. Term_String (widen_term t)) (resolved q); widened = list_ex (\<lambda>t. tKey t = []) (resolved q)
      in if \<not> widened then [] else Join '' '' out)"

subsection \<open>What a query finds\<close>

lemma matches_leaf [simp]:
  "matches no_criteria m"
  "matches (searchCriteriaHeader k v) m \<longleftrightarrow> mHeader m k v"
  "matches (body_criteria v) m \<longleftrightarrow> mBody m v"
  "matches (text_criteria v) m \<longleftrightarrow> mText m v"
  "matches (not_criteria c) m \<longleftrightarrow> \<not> matches c m"
  "matches (or_criteria c d) m \<longleftrightarrow> matches c m \<or> matches d m"
  by (simp_all add: no_criteria_def searchCriteriaHeader_def body_criteria_def text_criteria_def not_criteria_def or_criteria_def)

lemma matches_more:
  "matches (flag_criteria f neg) m \<longleftrightarrow> (f \<in> set (mFlags m)) \<noteq> neg"
  "matches (since_criteria d) m \<longleftrightarrow> d \<le> mDay m"
  "matches (before_criteria d) m \<longleftrightarrow> mDay m < d"
  "matches (larger_criteria n) m \<longleftrightarrow> (0 < sint n \<longrightarrow> sint n < mSize m)"
  "matches (smaller_criteria n) m \<longleftrightarrow> (0 < sint n \<longrightarrow> mSize m < sint n)"
  by (simp_all add: flag_criteria_def since_criteria_def before_criteria_def larger_criteria_def smaller_criteria_def)

lemma matches_word: "matches (word_criteria indexed w) m \<longleftrightarrow>
    (if indexed then mText m w else mHeader m ''From'' w \<or> mHeader m ''To'' w \<or> mHeader m ''Cc'' w \<or> mHeader m ''Subject'' w)"
  by (simp add: word_criteria_def searchCriteriaOr_def)

text \<open>Whether an operator reads a value does not depend on the day.\<close>

lemma queryAgo_reads: "queryAgo v now = None \<longleftrightarrow> queryAgo v now' = None"
  by (simp add: queryAgo_def split: sum.split)

lemma operators_read:
  assumes "map_of operators k = Some read"
  shows "read v now = None \<longleftrightarrow> read v now' = None"
proof -
  have "(k, read) \<in> set operators" using assms by (rule map_of_SomeD)
  then show ?thesis
    using queryAgo_reads [of v now now']
    by (auto simp: operators_def headerOperator_def parsedDate_def parsedSize_def queryDayAt_def isOperator_def)
qed

text \<open>
  What a term asks of a message, read on its own: a key the searcher knows with a value it can
  read is that test, anything else is a word.
\<close>

definition word_found :: "bool \<Rightarrow> string \<Rightarrow> message \<Rightarrow> bool" where
  "word_found indexed w m =
     (if indexed then mText m w else mHeader m ''From'' w \<or> mHeader m ''To'' w \<or> mHeader m ''Cc'' w \<or> mHeader m ''Subject'' w)"

definition term_found :: "bool \<Rightarrow> cdate \<Rightarrow> Term \<Rightarrow> message \<Rightarrow> bool" where
  "term_found indexed now t m =
     (if tKey t = [] then word_found indexed (tValue t) m
      else case map_of operators (tKey t) of
          None \<Rightarrow> word_found indexed (tKey t @ '':'' @ tValue t) m
        | Some read \<Rightarrow> (case read (tValue t) now of
            None \<Rightarrow> word_found indexed (tKey t @ '':'' @ tValue t) m
          | Some c \<Rightarrow> matches c m))"

lemma operators_In: "map_of operators In = None"
  by (simp add: operators_def In_def)

lemma operators_Nil: "map_of operators [] = None"
  by (simp add: operators_def)

lemma resolved_criteria:
  assumes "tKey t \<noteq> In"
  shows "tKey (resolved_term t) \<noteq> In \<and> tNot (resolved_term t) = tNot t \<and>
    (\<exists>c. term_criteria indexed now (resolved_term t) = Inr (Some c) \<and> (\<forall>m. matches c m = term_found indexed now t m))"
proof (cases "tKey t = []")
  case True
  then show ?thesis using assms by (simp add: resolved_term_def term_criteria_def term_found_def matches_word word_found_def)
next
  case False
  note key = False
  show ?thesis
  proof (cases "map_of operators (tKey t)")
    case None
    then show ?thesis using key assms
      by (simp add: resolved_term_def term_criteria_def term_found_def matches_word word_found_def In_def)
  next
    case (Some read)
    have "read (tValue t) zero_date = None \<longleftrightarrow> read (tValue t) now = None" by (rule operators_read [OF Some])
    then show ?thesis using key assms Some
      by (cases "read (tValue t) now")
        (auto simp: resolved_term_def term_criteria_def term_found_def matches_word word_found_def In_def)
  qed
qed

lemma Of_loop:
  assumes isect: "\<And>a b m. matches (isect a b) m \<longleftrightarrow> matches a m \<and> matches b m"
  shows "\<exists>c. foldE (Of_step isect indexed now) (resolved q) acc = Inr c \<and>
    (\<forall>m. (case c of None \<Rightarrow> True | Some c \<Rightarrow> matches c m) \<longleftrightarrow>
      (case acc of None \<Rightarrow> True | Some c \<Rightarrow> matches c m) \<and> (\<forall>t \<in> set q. tKey t \<noteq> In \<longrightarrow> term_found indexed now t m \<noteq> tNot t))"
proof (induction q arbitrary: acc)
  case Nil
  then show ?case by (simp add: resolved_def)
next
  case (Cons t q)
  show ?case
  proof (cases "tKey t = In")
    case True
    then have "resolved_term t = t" by (simp add: resolved_term_def)
    then have "foldE (Of_step isect indexed now) (resolved (t # q)) acc = foldE (Of_step isect indexed now) (resolved q) acc"
      using True by (simp add: resolved_def Of_step_def)
    then show ?thesis using Cons [of acc] True by simp
  next
    case False
    obtain c where r: "tKey (resolved_term t) \<noteq> In" "tNot (resolved_term t) = tNot t"
      and c: "term_criteria indexed now (resolved_term t) = Inr (Some c)" "\<And>m. matches c m = term_found indexed now t m"
      using resolved_criteria [OF False] by blast
    define one where "one = (if tNot t then not_criteria c else c)"
    have one: "negated (tNot t) (Some c) = Inr (Some one)" "matches one m \<longleftrightarrow> term_found indexed now t m \<noteq> tNot t" for m
      by (simp_all add: negated_def one_def c(2))
    define acc' where "acc' = Some (case acc of None \<Rightarrow> one | Some a \<Rightarrow> isect a one)"
    have "Of_step isect indexed now (resolved_term t) acc = Inr acc'"
      using r c(1) one(1) by (simp add: Of_step_def crit_And_def acc'_def split: option.split)
    then have "foldE (Of_step isect indexed now) (resolved (t # q)) acc = foldE (Of_step isect indexed now) (resolved q) acc'"
      by (simp add: resolved_def)
    moreover have "(case acc' of None \<Rightarrow> True | Some c \<Rightarrow> matches c m) \<longleftrightarrow>
        (case acc of None \<Rightarrow> True | Some c \<Rightarrow> matches c m) \<and> term_found indexed now t m \<noteq> tNot t" for m
      using one(2) by (simp add: acc'_def isect split: option.split)
    ultimately show ?thesis using Cons [of acc'] False by auto
  qed
qed

definition sample_isect :: "criteria \<Rightarrow> criteria \<Rightarrow> criteria" where
  "sample_isect a b = not_criteria (or_criteria (not_criteria a) (not_criteria b))"

lemma sample_isect_law: "matches (sample_isect a b) m \<longleftrightarrow> matches a m \<and> matches b m"
  by (simp add: sample_isect_def)

definition ann_mail :: message where
  "ann_mail = \<lparr>mHeader = (\<lambda>k v. k = ''From'' \<and> v = ''ann''), mBody = (\<lambda>_. False), mText = (\<lambda>_. False), mFlags = [FlagSeen], mDay = 100, mSize = 2000\<rparr>"



subsection \<open>Sizes\<close>

definition size_units :: "(string \<times> nat) list" where
  "size_units = [([], 1), (''k'', 2 ^ 10), (''K'', 2 ^ 10), (''m'', 2 ^ 20), (''M'', 2 ^ 20)]"

lemma suffix_ToLower: "suffix [c] (ToLower (s @ [d])) \<longleftrightarrow> lower_char d = c"
  by (auto simp: ToLower_def suffix_def)

lemma lower_units: "lower_char (CHR ''k'') = CHR ''k''" "lower_char (CHR ''K'') = CHR ''k''" "lower_char (CHR ''m'') = CHR ''m''"
  "lower_char (CHR ''M'') = CHR ''m''"
  by code_simp+

lemma lower_digit: "is_digit c \<Longrightarrow> lower_char c \<noteq> CHR ''k'' \<and> lower_char c \<noteq> CHR ''m''"
  by (auto simp: is_digit_def lower_char_def)

lemma ParseInt_FormatUint:
  assumes "n < 2 ^ 63"
  shows "ParseInt (FormatUint n) = Inr (int n)"
proof -
  obtain c cs where c: "FormatUint n = c # cs" "is_digit c" using FormatUint_digits [of n] by (cases "FormatUint n") auto
  then have "c \<noteq> CHR ''-''" "c \<noteq> CHR ''+''" by (auto simp: is_digit_def)
  moreover have "unat (of_nat n :: 64 word) = n" using assms by (simp add: unat_of_nat)
  ultimately show ?thesis
    using ParseUint_FormatUint [of "of_nat n :: 64 word"] assms c(1) by (simp add: ParseInt_def)
qed

lemma sint_exact: "sint (of_nat x :: 64 word) = int x \<longleftrightarrow> x < 2 ^ 63"
proof
  assume "sint (of_nat x :: 64 word) = int x"
  moreover have "sint (of_nat x :: 64 word) < 2 ^ 63" using sint_lt [of "of_nat x :: 64 word"] by simp
  ultimately show "x < 2 ^ 63" by simp
next
  assume "x < 2 ^ 63"
  then have "signed_take_bit 63 (int x) = int x" by (intro signed_take_bit_int_eq_self) auto
  then show "sint (of_nat x :: 64 word) = int x" using sint_sbintrunc' [of "int x", where ?'a = 64] by simp
qed

lemma querySize_FormatUint:
  assumes "0 < n" and "n < 2 ^ 63" and "(suf, u) \<in> set size_units"
  shows "querySize (FormatUint n @ suf) = Some (of_nat (n * u))"
proof -
  obtain s d where d: "FormatUint n = s @ [d]" "is_digit d"
    using FormatUint_digits [of n] by (cases "FormatUint n" rule: rev_cases) auto
  show ?thesis
  proof (cases "suf = []")
    case True
    then have "querySize (FormatUint n @ suf) = Some (of_int (int n))"
      using ParseInt_FormatUint [OF assms(2)] assms(1) lower_digit [OF d(2)]
      by (simp add: querySize_def d(1) suffix_ToLower)
    then show ?thesis using True assms(3) by (simp add: size_units_def)
  next
    case False
    then have "querySize (FormatUint n @ suf) = Some (of_int (int n) * of_nat u)"
      using ParseInt_FormatUint [OF assms(2)] assms(1,3)
      by (auto simp: querySize_def suffix_ToLower lower_units size_units_def)
    then show ?thesis by simp
  qed
qed

text \<open>
  C37: a size is the number of its units at 64 bits. \<^verbatim>\<open>larger:\<close> and \<^verbatim>\<open>smaller:\<close> read every positive
  number below \<open>2 ^ 63\<close>, plain or in k or m of either case, as the product wrapped to 64 bits;
  it is the size written exactly when the product stays below \<open>2 ^ 63\<close>.
\<close>

theorem querySize_exact:
  assumes "0 < n" and "n < 2 ^ 63" and "(suf, u) \<in> set size_units"
  shows "querySize (FormatUint n @ suf) = Some (of_nat (n * u)) \<and>
    (sint (of_nat (n * u) :: 64 word) = int (n * u) \<longleftrightarrow> n * u < 2 ^ 63)"
  using querySize_FormatUint [OF assms] sint_exact [of "n * u"] by simp

theorem querySize_exact_witness:
  "querySize (FormatUint 3 @ ''K'') = Some 3072 \<and> sint (3072 :: 64 word) = 3072"
  using querySize_exact [of 3 "''K''" "2 ^ 10"] by (simp add: size_units_def)

text \<open>
  A product of \<open>2 ^ 64\<close> wraps to zero, which go-imap does not send: the term finds every message,
  though its value was read.
\<close>

lemma oversized_finds_everything:
  "querySize (FormatUint (2 ^ 54) @ ''k'') = Some 0 \<and> matches (larger_criteria 0) m"
proof -
  have "(of_nat (2 ^ 54 * 2 ^ 10) :: 64 word) = 0" by simp
  then show ?thesis using querySize_FormatUint [of "2 ^ 54" "''k''" "2 ^ 10"] by (simp add: size_units_def matches_more)
qed

subsection \<open>Widening\<close>

lemma operator_keys:
  assumes "map_of operators k \<noteq> None"
  shows "k \<in> set (map fst operators)"
  using assms by (auto simp: map_of_eq_None_iff)

lemma known_keys_plain:
  "k \<in> set (map fst operators) \<or> k = In \<Longrightarrow> tKey t = k \<Longrightarrow> tValue t \<noteq> [] \<Longrightarrow> quote_char \<notin> set (tValue t) \<Longrightarrow> keyed_term t"
proof -
  assume k: "k \<in> set (map fst operators) \<or> k = In" and t: "tKey t = k" "tValue t \<noteq> []" "quote_char \<notin> set (tValue t)"
  have "list_all (\<lambda>k. k \<noteq> [] \<and> hd k \<noteq> CHR ''-'' \<and> ToLower k = k \<and> CHR '':'' \<notin> set k \<and> CHR '' '' \<notin> set k \<and> quote_char \<notin> set k)
      (In # map fst operators)" by (simp add: operators_def In_def) code_simp
  then have "k \<noteq> [] \<and> hd k \<noteq> CHR ''-'' \<and> ToLower k = k \<and> CHR '':'' \<notin> set k \<and> CHR '' '' \<notin> set k \<and> quote_char \<notin> set k"
    using k unfolding list_all_iff by auto
  then show ?thesis using t by (simp add: keyed_term_def)
qed

definition quote_free :: "Term \<Rightarrow> bool" where
  "quote_free t \<longleftrightarrow> tValue t \<noteq> [] \<and> quote_char \<notin> set (tValue t) \<and> quote_char \<notin> set (tKey t)"

text \<open>A term the widened query holds: its key is known and reads its value.\<close>

definition settled_term :: "Term \<Rightarrow> bool" where
  "settled_term t \<longleftrightarrow> tKey t = In \<or> (\<exists>read. map_of operators (tKey t) = Some read \<and> read (tValue t) zero_date \<noteq> None)"

lemma settled_resolved: "settled_term t \<Longrightarrow> resolved_term t = t \<and> tKey t \<noteq> []"
  using operators_Nil by (auto simp: settled_term_def resolved_term_def In_def)

lemma widen_settles:
  assumes "quote_free t"
  shows "settled_term (widen_term (resolved_term t)) \<and> keyed_term (widen_term (resolved_term t))"
proof -
  let ?r = "resolved_term t"
  have q: "tValue ?r \<noteq> []" "quote_char \<notin> set (tValue ?r)"
    using assms by (auto simp: quote_free_def resolved_term_def)
  have s: "settled_term (widen_term ?r)"
  proof (cases "tKey ?r = []")
    case True
    then show ?thesis by (simp add: widen_term_def settled_term_def operators_def)
  next
    case False
    then have "tKey t = In \<or> (\<exists>read. map_of operators (tKey t) = Some read \<and> read (tValue t) zero_date \<noteq> None)" and "?r = t"
      unfolding resolved_term_def by (auto split: if_splits option.splits)
    then show ?thesis using False by (simp add: widen_term_def settled_term_def)
  qed
  then have "tKey (widen_term ?r) \<in> set (map fst operators) \<or> tKey (widen_term ?r) = In"
    using operator_keys [of "tKey (widen_term ?r)"] by (auto simp: settled_term_def)
  moreover have "tValue (widen_term ?r) = tValue ?r" by (simp add: widen_term_def)
  ultimately show ?thesis using s known_keys_plain q by metis
qed

text \<open>
  A widened query leaves nothing to widen. Written with every bare word asked of the whole
  message, and every unreadable term kept as such a word, the query reads back with only keys
  that are known and values they read, so widening it again offers nothing.
\<close>

lemma Widened_is_final:
  assumes "list_all quote_free q" and "Widened q \<noteq> []"
  shows "Widened (Parse (Widened q)) = [] \<and> length (Parse (Widened q)) = length q"
proof -
  let ?w = "map (\<lambda>t. widen_term (resolved_term t)) q"
  have w: "Widened q = Query_String ?w"
    using assms(2) by (simp add: Widened_def Let_def Query_String_def resolved_def comp_def split: if_splits)
  have k: "list_all keyed_term ?w" "list_all settled_term ?w"
    using assms(1) widen_settles by (auto simp: list_all_iff)
  have p: "Parse (Widened q) = map (\<lambda>t. t\<lparr>tQuoted := False\<rparr>) ?w" unfolding w by (rule Parse_keyed [OF k(1)])
  have "settled_term (t\<lparr>tQuoted := False\<rparr>)" if "settled_term t" for t using that by (simp add: settled_term_def)
  then have "list_all settled_term (Parse (Widened q))" using k(2) unfolding p by (auto simp: list_all_iff)
  then have "\<not> list_ex (\<lambda>t. tKey t = []) (resolved (Parse (Widened q)))"
    using settled_resolved by (fastforce simp: list_all_iff list_ex_iff resolved_def)
  then show ?thesis using p by (simp add: Widened_def Let_def)
qed

lemma Widened_is_final_witness:
  "Widened [\<lparr>tKey = ''after'', tValue = ''yesterday'', tNot = True, tQuoted = False\<rparr>] = ''-text:after:yesterday'' \<and>
   Widened (Parse ''-text:after:yesterday'') = []"
proof -
  let ?q = "[\<lparr>tKey = ''after'', tValue = ''yesterday'', tNot = True, tQuoted = False\<rparr>]"
  have w: "Widened ?q = ''-text:after:yesterday''" by code_simp
  have "list_all quote_free ?q" by code_simp
  then show ?thesis using Widened_is_final [of ?q] w by simp
qed

end
