(* ===== verification/Mirror_Hot.thy ===== *)
theory Mirror_Hot
  imports Prelude
begin

text \<open>
  The opened objects a mirror keeps in memory (\<^verbatim>\<open>hold\<close>, \<^verbatim>\<open>unhold\<close>, and the critical sections under
  \<^verbatim>\<open>hotMu\<close> of \<^verbatim>\<open>objects\<close> and \<^verbatim>\<open>change\<close>, \<^verbatim>\<open>pim/dav/mirror.go\<close>).

  \<open>hHot\<close> is the Go map in the order its iteration takes, which the language leaves open. What an
  entry holds in memory (\<^verbatim>\<open>sizeOf\<close>) depends on the capacities the runtime chose, so it is the
  number kept with it. The loop of \<^verbatim>\<open>hold\<close> is a partial function: \<open>None\<close> is a loop that never
  ends. A read of a collection is \<open>objects_enter\<close>, a scan of the file, \<open>objects_leave\<close>; a change is a
  transaction on the file, then \<open>change_done\<close>. \<open>hstep\<close> interleaves them.
\<close>

record 'o opened =
  oObjects :: 'o
  oSize :: nat
  oUsed :: "64 word"

record 'o hotState =
  hHot :: "(string \<times> 'o opened) list"
  hBytes :: int
  hMax :: int
  hUses :: "64 word"
  hChanged :: "string \<Rightarrow> 64 word"

definition unhold :: "string \<Rightarrow> 'o hotState \<Rightarrow> 'o hotState" where
  "unhold k m = (case map_of (hHot m) k of
       None \<Rightarrow> m
     | Some h \<Rightarrow> m\<lparr>hBytes := hBytes m - int (oSize h), hHot := filter (\<lambda>e. fst e \<noteq> k) (hHot m)\<rparr>)"

definition oldest_of :: "(string \<times> 'o opened) list \<Rightarrow> string" where
  "oldest_of hot = foldl (\<lambda>oldest (k, h). if oldest = [] \<or> oUsed h < oUsed (the (map_of hot oldest)) then k else oldest) [] hot"

partial_function (option) hold_loop :: "'o hotState \<Rightarrow> 'o hotState option" where
  "hold_loop m = (if hBytes m > hMax m then hold_loop (unhold (oldest_of (hHot m)) m) else Some m)"

definition hot_hold :: "string \<Rightarrow> 'o opened \<Rightarrow> 'o hotState \<Rightarrow> 'o hotState option" where
  "hot_hold k o1 m = (let m1 = unhold k m
     in hold_loop (m1\<lparr>hHot := (k, o1) # hHot m1, hBytes := hBytes m1 + int (oSize o1)\<rparr>))"

text \<open>The sections of \<^verbatim>\<open>objects\<close>: the first counts the use and looks, the second keeps what was scanned unless it changed.\<close>

definition touch_hot :: "string \<Rightarrow> 64 word \<Rightarrow> (string \<times> 'o opened) list \<Rightarrow> (string \<times> 'o opened) list" where
  "touch_hot k use hot = map (\<lambda>(k', h). (k', if k' = k then h\<lparr>oUsed := use\<rparr> else h)) hot"

definition objects_enter :: "string \<Rightarrow> 'o hotState \<Rightarrow> ('o option \<times> 64 word) \<times> 'o hotState" where
  "objects_enter k m = (let use = hUses m + 1; m1 = m\<lparr>hUses := use, hHot := touch_hot k use (hHot m)\<rparr>
     in ((map_option oObjects (map_of (hHot m1) k), hChanged m1 k), m1))"

definition objects_leave :: "string \<Rightarrow> 64 word \<Rightarrow> 'o \<Rightarrow> nat \<Rightarrow> 'o hotState \<Rightarrow> 'o hotState option" where
  "objects_leave k before out sz m =
     (if hChanged m k = before then hot_hold k \<lparr>oObjects = out, oSize = sz, oUsed = hUses m\<rparr> m else Some m)"

definition change_done :: "string \<Rightarrow> 'o hotState \<Rightarrow> 'o hotState" where
  "change_done k m = (let m1 = unhold k m in m1\<lparr>hChanged := (hChanged m1)(k := hChanged m1 k + 1)\<rparr>)"

subsection \<open>The bound\<close>

definition hot_ok :: "'o hotState \<Rightarrow> bool" where
  "hot_ok m \<longleftrightarrow> distinct (map fst (hHot m)) \<and> [] \<notin> fst ` set (hHot m) \<and> 0 \<le> hMax m \<and>
     hBytes m = (\<Sum>e \<leftarrow> hHot m. int (oSize (snd e)))"

lemma sum_without:
  assumes "distinct (map fst xs)" and "map_of xs k = Some v"
  shows "(\<Sum>e \<leftarrow> xs. f e) = f (k, v) + (\<Sum>e \<leftarrow> filter (\<lambda>e. fst e \<noteq> k) xs. (f e :: int))"
  using assms
proof (induction xs)
  case (Cons x xs)
  show ?case
  proof (cases "fst x = k")
    case True
    then have "k \<notin> fst ` set xs" using Cons.prems(1) by auto
    then have "filter (\<lambda>e. fst e \<noteq> k) xs = xs" by (auto simp: filter_id_conv)
    moreover have "x = (k, v)" using True Cons.prems(2) by (cases x) auto
    ultimately show ?thesis by simp
  next
    case False
    then show ?thesis using Cons by (cases x) auto
  qed
qed simp

lemma unhold_ok: "hot_ok m \<Longrightarrow> hot_ok (unhold k m)"
  by (auto simp: hot_ok_def unhold_def sum_without distinct_map_filter split: option.split)

lemma unhold_hot: "hHot (unhold k m) = filter (\<lambda>e. fst e \<noteq> k) (hHot m)"
  by (auto simp: unhold_def map_of_eq_None_iff intro!: filter_True [symmetric] split: option.split)

lemma unhold_rest [simp]: "hMax (unhold k m) = hMax m" "hUses (unhold k m) = hUses m" "hChanged (unhold k m) = hChanged m"
  by (auto simp: unhold_def split: option.split)

text \<open>The entry let go is held, and none is older.\<close>

lemma oldest_fold:
  fixes hot :: "(string \<times> 'o opened) list"
  defines "f \<equiv> \<lambda>oldest (k, h). if oldest = [] \<or> oUsed h < oUsed (the (map_of hot oldest)) then k else oldest"
  assumes "distinct (map fst hot)" and "[] \<notin> fst ` set hot" and "set xs \<subseteq> set hot"
    and "o1 = [] \<or> (\<exists>h. (o1, h) \<in> set hot)"
  shows "foldl f o1 xs = o1 \<and> xs = [] \<or> (\<exists>h. (foldl f o1 xs, h) \<in> set hot \<and>
    (\<forall>e \<in> set xs. oUsed h \<le> oUsed (snd e)) \<and> (\<forall>h1. (o1, h1) \<in> set hot \<longrightarrow> oUsed h \<le> oUsed h1))"
  using assms(4,5)
proof (induction xs arbitrary: o1)
  case (Cons x xs)
  obtain k h where x: "x = (k, h)" by force
  have kh: "(k, h) \<in> set hot" using Cons.prems(1) x by simp
  have look: "map_of hot j = Some g" if "(j, g) \<in> set hot" for j g using that assms(2) by simp
  have new: "f o1 x = k \<or> f o1 x = o1 \<and> o1 \<noteq> []" by (auto simp: f_def x)
  then have "\<exists>h. (f o1 x, h) \<in> set hot" using kh Cons.prems(2) by auto
  then obtain g where g: "(f o1 x, g) \<in> set hot" by blast
  have le: "oUsed g \<le> oUsed h" and le1: "(o1, h1) \<in> set hot \<Longrightarrow> oUsed g \<le> oUsed h1" for h1
    using look [OF g] look [OF kh] look [of o1] Cons.prems(2) assms(3) by (force simp: f_def x split: if_splits)+
  show ?case
  proof (cases "xs = []")
    case True
    then show ?thesis using g le le1 x by auto
  next
    case False
    then obtain h' where "(foldl f (f o1 x) xs, h') \<in> set hot" "\<forall>e \<in> set xs. oUsed h' \<le> oUsed (snd e)" "oUsed h' \<le> oUsed g"
      using Cons.IH [of "f o1 x"] Cons.prems(1) g by auto
    then show ?thesis using le le1 x by (intro disjI2 exI [of _ h']) (auto intro: order_trans)
  qed
qed simp

lemma oldest_of_held:
  assumes "hot_ok m" and "hHot m \<noteq> []"
  obtains h where "(oldest_of (hHot m), h) \<in> set (hHot m)" and "\<And>e. e \<in> set (hHot m) \<Longrightarrow> oUsed h \<le> oUsed (snd e)"
  using oldest_fold [of "hHot m" "hHot m" "[]"] assms that by (auto simp: hot_ok_def oldest_of_def)

lemma hold_loop_fits:
  "hot_ok m \<Longrightarrow> \<exists>m'. hold_loop m = Some m' \<and> hot_ok m' \<and> hBytes m' \<le> hMax m \<and> hMax m' = hMax m \<and> hUses m' = hUses m \<and>
     hChanged m' = hChanged m \<and> set (hHot m') \<subseteq> set (hHot m) \<and>
     (\<forall>e \<in> set (hHot m) - set (hHot m'). \<forall>e' \<in> set (hHot m'). oUsed (snd e) \<le> oUsed (snd e'))"
proof (induction "length (hHot m)" arbitrary: m rule: less_induct)
  case less
  show ?case
  proof (cases "hBytes m > hMax m")
    case False
    then show ?thesis using less.prems by (subst hold_loop.simps) auto
  next
    case True
    then have "hHot m \<noteq> []" using less.prems by (auto simp: hot_ok_def)
    then obtain h where h: "(oldest_of (hHot m), h) \<in> set (hHot m)" "\<And>e. e \<in> set (hHot m) \<Longrightarrow> oUsed h \<le> oUsed (snd e)"
      using oldest_of_held [OF less.prems] by blast
    let ?m = "unhold (oldest_of (hHot m)) m"
    have "length (hHot ?m) < length (hHot m)" unfolding unhold_hot by (rule length_filter_less [OF h(1)]) simp
    from less.hyps [OF this unhold_ok [OF less.prems]] obtain m' where m': "hold_loop ?m = Some m'" "hot_ok m'" "hBytes m' \<le> hMax m"
      "hMax m' = hMax m" "hUses m' = hUses m" "hChanged m' = hChanged m" "set (hHot m') \<subseteq> set (hHot ?m)"
      "\<forall>e \<in> set (hHot ?m) - set (hHot m'). \<forall>e' \<in> set (hHot m'). oUsed (snd e) \<le> oUsed (snd e')"
      by auto
    have gone: "e = (oldest_of (hHot m), h)" if "e \<in> set (hHot m)" "e \<notin> set (hHot ?m)" for e
    proof -
      have "fst e = oldest_of (hHot m)" using that by (auto simp: unhold_hot)
      then have "(oldest_of (hHot m), snd e) \<in> set (hHot m)" using that(1) by (metis prod.collapse)
      then show ?thesis
        using h(1) less.prems \<open>fst e = _\<close> by (metis eq_key_imp_eq_value hot_ok_def prod.collapse)
    qed
    have "oUsed (snd e) \<le> oUsed (snd e')" if e: "e \<in> set (hHot m)" "e \<notin> set (hHot m')" "e' \<in> set (hHot m')" for e e'
    proof (cases "e \<in> set (hHot ?m)")
      case True
      then show ?thesis using m'(8) e by blast
    next
      case False
      have "e' \<in> set (hHot m)" using m'(7) e(3) by (auto simp: unhold_hot)
      then show ?thesis using gone [OF e(1) False] h(2) by simp
    qed
    then have "\<forall>e \<in> set (hHot m) - set (hHot m'). \<forall>e' \<in> set (hHot m'). oUsed (snd e) \<le> oUsed (snd e')" by blast
    moreover have "hold_loop m = Some m'" using True m'(1) by (subst hold_loop.simps) simp
    ultimately show ?thesis using m' by (auto simp: unhold_hot)
  qed
qed

lemma hot_hold_fits:
  assumes "hot_ok m" and "k \<noteq> []"
  shows "\<exists>m'. hot_hold k o1 m = Some m' \<and> hot_ok m' \<and> hBytes m' \<le> hMax m \<and> hMax m' = hMax m \<and> hUses m' = hUses m \<and>
    hChanged m' = hChanged m \<and> set (hHot m') \<subseteq> insert (k, o1) (set (filter (\<lambda>e. fst e \<noteq> k) (hHot m))) \<and>
    (\<forall>e \<in> insert (k, o1) (set (filter (\<lambda>e. fst e \<noteq> k) (hHot m))) - set (hHot m'). \<forall>e' \<in> set (hHot m'). oUsed (snd e) \<le> oUsed (snd e'))"
proof -
  let ?m = "(unhold k m)\<lparr>hHot := (k, o1) # hHot (unhold k m), hBytes := hBytes (unhold k m) + int (oSize o1)\<rparr>"
  have "hot_ok ?m" using unhold_ok [OF assms(1), of k] assms(2) by (auto simp: hot_ok_def unhold_hot)
  from hold_loop_fits [OF this] show ?thesis by (simp add: hot_hold_def Let_def unhold_hot)
qed

subsection \<open>Reads and changes interleaved\<close>

text \<open>
  A read on its way past the first section: the collection, the count it saw, what it scanned if
  it has, and how many changes were done since. The file is what a scan of each collection gives;
  \<open>ws\<close> are the changes made to the file whose section is still to come.
\<close>

record 'o reading =
  rdKey :: string
  rdBefore :: "64 word"
  rdOut :: "'o option"
  rdBumps :: nat

type_synonym 'o hstate = "'o hotState \<times> (string \<Rightarrow> 'o) \<times> 'o reading list \<times> string list"

definition bumped :: "string \<Rightarrow> 'o reading list \<Rightarrow> 'o reading list" where
  "bumped k rs = map (\<lambda>r. if rdKey r = k then r\<lparr>rdBumps := Suc (rdBumps r)\<rparr> else r) rs"

inductive hstep :: "'o hstate \<Rightarrow> 'o hstate \<Rightarrow> bool" where
  enter: "k \<noteq> [] \<Longrightarrow> objects_enter k m = ((hit, before), m') \<Longrightarrow>
    hstep (m, disk, rs, ws) (m', disk, (if hit = None then \<lparr>rdKey = k, rdBefore = before, rdOut = None, rdBumps = 0\<rparr> # rs else rs), ws)"
| scan: "i < length rs \<Longrightarrow> hstep (m, disk, rs, ws) (m, disk, rs[i := (rs ! i)\<lparr>rdOut := Some (disk (rdKey (rs ! i)))\<rparr>], ws)"
| leave: "r \<in> set rs \<Longrightarrow> rdOut r = Some out \<Longrightarrow> rdBumps r < 2 ^ 64 \<Longrightarrow> objects_leave (rdKey r) (rdBefore r) out sz m = Some m' \<Longrightarrow>
    hstep (m, disk, rs, ws) (m', disk, remove1 r rs, ws)"
| update: "hstep (m, disk, rs, ws) (m, disk(k := new), rs, k # ws)"
| bump: "k \<in> set ws \<Longrightarrow> hstep (m, disk, rs, ws) (change_done k m, disk, bumped k rs, remove1 k ws)"

inductive hreach :: "int \<Rightarrow> (string \<Rightarrow> 'o) \<Rightarrow> 'o hstate \<Rightarrow> bool" for mx disk0 where
  init: "hreach mx disk0 (\<lparr>hHot = [], hBytes = 0, hMax = mx, hUses = 0, hChanged = (\<lambda>_. 0)\<rparr>, disk0, [], [])"
| step: "hreach mx disk0 x \<Longrightarrow> hstep x y \<Longrightarrow> hreach mx disk0 y"

definition reading_ok :: "'o hotState \<Rightarrow> (string \<Rightarrow> 'o) \<Rightarrow> string list \<Rightarrow> 'o reading \<Rightarrow> bool" where
  "reading_ok m disk ws r \<longleftrightarrow> rdKey r \<noteq> [] \<and> hChanged m (rdKey r) = rdBefore r + of_nat (rdBumps r) \<and>
     (rdBumps r = 0 \<longrightarrow> rdOut r \<noteq> None \<longrightarrow> rdOut r = Some (disk (rdKey r)) \<or> rdKey r \<in> set ws)"

definition hinv :: "'o hstate \<Rightarrow> bool" where
  "hinv x \<longleftrightarrow> (case x of (m, disk, rs, ws) \<Rightarrow> hot_ok m \<and> hBytes m \<le> hMax m \<and>
     (\<forall>(k, h) \<in> set (hHot m). oObjects h = disk k \<or> k \<in> set ws) \<and> (\<forall>r \<in> set rs. reading_ok m disk ws r))"

lemma touch_hot_simps: "map fst (touch_hot k use hot) = map fst hot"
  "(\<Sum>e \<leftarrow> touch_hot k use hot. int (oSize (snd e))) = (\<Sum>e \<leftarrow> hot. int (oSize (snd e)))"
  by (auto simp: touch_hot_def case_prod_beta comp_def intro!: arg_cong [where f = sum_list])

lemma enter_hot:
  assumes "objects_enter k m = ((hit, before), m')"
  shows "hHot m' = touch_hot k (hUses m + 1) (hHot m)" "hBytes m' = hBytes m" "hMax m' = hMax m" "hChanged m' = hChanged m" "before = hChanged m k"
  using assms by (auto simp: objects_enter_def Let_def)

lemma change_done_simps: "hHot (change_done k m) = filter (\<lambda>e. fst e \<noteq> k) (hHot m)" "hMax (change_done k m) = hMax m"
  "hChanged (change_done k m) = (hChanged m)(k := hChanged m k + 1)" "hBytes (change_done k m) = hBytes (unhold k m)"
  by (simp_all add: change_done_def Let_def unhold_hot)

lemma hinv_enter:
  assumes "hinv (m, disk, rs, ws)" and "k \<noteq> []" and "objects_enter k m = ((hit, before), m')"
  shows "hinv (m', disk, (if hit = None then \<lparr>rdKey = k, rdBefore = before, rdOut = None, rdBumps = 0\<rparr> # rs else rs), ws)"
proof -
  note e = enter_hot [OF assms(3)]
  have keys: "fst ` set (touch_hot k (hUses m + 1) (hHot m)) = fst ` set (hHot m)" by (metis set_map touch_hot_simps(1))
  then have ok: "hot_ok m'" using assms(1) by (simp add: hinv_def hot_ok_def e touch_hot_simps)
  have "\<forall>(k, h) \<in> set (hHot m'). oObjects h = disk k \<or> k \<in> set ws"
    using assms(1) by (fastforce simp: hinv_def e touch_hot_def)
  moreover have "reading_ok m' disk ws r = reading_ok m disk ws r" for r by (simp add: reading_ok_def e)
  ultimately show ?thesis using assms(1,2) ok e by (auto simp: hinv_def reading_ok_def)
qed

lemma hinv_leave:
  assumes inv: "hinv (m, disk, rs, ws)" and r: "r \<in> set rs" and out: "rdOut r = Some out" and n: "rdBumps r < 2 ^ 64"
    and run: "objects_leave (rdKey r) (rdBefore r) out sz m = Some m'"
  shows "hinv (m', disk, remove1 r rs, ws)"
proof (cases "hChanged m (rdKey r) = rdBefore r")
  case False
  then have "m' = m" using run by (simp add: objects_leave_def)
  then show ?thesis using inv by (auto simp: hinv_def dest: notin_set_remove1 [rotated])
next
  case True
  have ok: "hot_ok m" and rd: "reading_ok m disk ws r" using inv r by (auto simp: hinv_def)
  then have "of_nat (rdBumps r) = (0 :: 64 word)" using True by (simp add: reading_ok_def)
  then have "rdBumps r = 0" using n by (auto simp: word_of_nat_eq_0_iff dest: dvd_imp_le)
  then have cur: "out = disk (rdKey r) \<or> rdKey r \<in> set ws" using rd out by (auto simp: reading_ok_def)
  let ?o = "\<lparr>oObjects = out, oSize = sz, oUsed = hUses m\<rparr>"
  have k: "rdKey r \<noteq> []" using rd by (simp add: reading_ok_def)
  have m': "hot_ok m'" "hBytes m' \<le> hMax m'" "hChanged m' = hChanged m"
    "set (hHot m') \<subseteq> insert (rdKey r, ?o) (set (filter (\<lambda>e. fst e \<noteq> rdKey r) (hHot m)))"
    using hot_hold_fits [OF ok k, of ?o] run True by (auto simp: objects_leave_def)
  have "\<forall>(k, h) \<in> set (hHot m'). oObjects h = disk k \<or> k \<in> set ws" using m'(4) inv cur by (force simp: hinv_def)
  moreover have "reading_ok m' disk ws q = reading_ok m disk ws q" for q by (simp add: reading_ok_def m'(3))
  ultimately show ?thesis using inv m'(1,2) by (auto simp: hinv_def dest: notin_set_remove1 [rotated])
qed

lemma hinv_bump:
  assumes "hinv (m, disk, rs, ws)" and "k \<in> set ws"
  shows "hinv (change_done k m, disk, bumped k rs, remove1 k ws)"
proof -
  have "hot_ok (change_done k m)"
    using unhold_ok [of m k] assms(1) by (auto simp: hinv_def hot_ok_def change_done_def Let_def)
  moreover have "hBytes (change_done k m) \<le> hMax (change_done k m)"
    using assms(1) by (auto simp: hinv_def change_done_simps unhold_def split: option.split)
  moreover have "j \<in> set (remove1 k ws)" if "j \<in> set ws" "j \<noteq> k" for j using that by (simp add: in_set_remove1)
  moreover from this have "\<forall>(k', h) \<in> set (hHot (change_done k m)). oObjects h = disk k' \<or> k' \<in> set (remove1 k ws)"
    using assms(1) by (fastforce simp: hinv_def change_done_simps)
  moreover have "reading_ok (change_done k m) disk (remove1 k ws) r" if "r \<in> set (bumped k rs)" for r
    using that assms(1) calculation(3) by (auto simp: hinv_def bumped_def reading_ok_def change_done_simps)
  ultimately show ?thesis by (simp add: hinv_def)
qed

lemma hstep_inv: "hstep x y \<Longrightarrow> hinv x \<Longrightarrow> hinv y"
proof (induction rule: hstep.induct)
  case (enter k m hit before m' disk rs ws)
  show ?case by (rule hinv_enter [OF enter.prems enter(1,2)])
next
  case (scan i rs m disk ws)
  then show ?case by (auto simp: hinv_def reading_ok_def dest!: subsetD [OF set_update_subset_insert])
next
  case (update m disk rs ws k new)
  then show ?case by (auto simp: hinv_def reading_ok_def split: if_splits)
qed (auto intro: hinv_leave hinv_bump)

lemma leave_max:
  assumes "hinv (m, disk, rs, ws)" and "r \<in> set rs" and "objects_leave (rdKey r) (rdBefore r) out sz m = Some m'"
  shows "hMax m' = hMax m"
proof -
  have "hot_ok m" "rdKey r \<noteq> []" using assms(1,2) by (auto simp: hinv_def reading_ok_def)
  from hot_hold_fits [OF this, of "\<lparr>oObjects = out, oSize = sz, oUsed = hUses m\<rparr>"] show ?thesis
    using assms(3) by (auto simp: objects_leave_def split: if_splits)
qed

lemma hstep_max: "hstep x y \<Longrightarrow> hinv x \<Longrightarrow> hMax (fst y) = hMax (fst x)"
  by (induction rule: hstep.induct) (auto simp: change_done_simps enter_hot(3) dest: leave_max)

lemma hreach_inv: "hreach mx disk0 x \<Longrightarrow> 0 \<le> mx \<Longrightarrow> hinv x \<and> hMax (fst x) = mx"
proof (induction rule: hreach.induct)
  case init
  then show ?case by (simp add: hinv_def hot_ok_def)
next
  case (step x y)
  then show ?case using hstep_inv [OF step.hyps(2)] hstep_max [OF step.hyps(2)] by simp
qed

subsection \<open>Properties\<close>

definition busy_hot :: "string hotState" where
  "busy_hot = \<lparr>hHot = [(''a'', \<lparr>oObjects = ''x'', oSize = 6, oUsed = 1\<rparr>), (''b'', \<lparr>oObjects = ''y'', oSize = 5, oUsed = 2\<rparr>)],
     hBytes = 11, hMax = 12, hUses = 2, hChanged = (\<lambda>_. 0)\<rparr>"

text \<open>
  What is opened in memory stays within its limit, and the least recently read goes first. Keeping
  one more collection ends, with no more bytes held than the limit and every byte accounted
  for; whatever was let go for it had been read no later than everything that stayed.
\<close>

lemma hot_hold_bounded:
  assumes "hot_ok m" and "k \<noteq> []"
  shows "\<exists>m'. hot_hold k o1 m = Some m' \<and> hot_ok m' \<and> hBytes m' \<le> hMax m \<and>
    set (hHot m') \<subseteq> insert (k, o1) (set (filter (\<lambda>e. fst e \<noteq> k) (hHot m))) \<and>
    (\<forall>e \<in> insert (k, o1) (set (filter (\<lambda>e. fst e \<noteq> k) (hHot m))) - set (hHot m').
       \<forall>e' \<in> set (hHot m'). oUsed (snd e) \<le> oUsed (snd e'))"
  using hot_hold_fits [OF assms, of o1] by blast

lemma hot_hold_bounded_witness:
  "\<exists>m'. hot_hold ''c'' \<lparr>oObjects = ''z'', oSize = 4, oUsed = 3\<rparr> busy_hot = Some m' \<and> hBytes m' \<le> 12 \<and> hot_ok m'"
proof -
  have "hot_ok busy_hot" by (simp add: hot_ok_def busy_hot_def)
  from hot_hold_bounded [OF this, of "''c''" "\<lparr>oObjects = ''z'', oSize = 4, oUsed = 3\<rparr>"] obtain m' where
    "hot_hold ''c'' \<lparr>oObjects = ''z'', oSize = 4, oUsed = 3\<rparr> busy_hot = Some m'" "hot_ok m'" "hBytes m' \<le> hMax busy_hot" by auto
  then show ?thesis by (simp add: busy_hot_def)
qed


definition read_once :: "string hstate" where
  "read_once = (\<lparr>hHot = [(''a'', \<lparr>oObjects = ''x'', oSize = 3, oUsed = 1\<rparr>)], hBytes = 3, hMax = 9, hUses = 1, hChanged = (\<lambda>_. 0)\<rparr>, \<lambda>_. ''x'', [], [])"


end
