(* ===== verification/Dav_Pull.thy ===== *)
theory Dav_Pull
  imports Seal "HOL-Library.AList"
begin

text \<open>
  Learning what changed in a remote collection (\<^verbatim>\<open>pim/dav/sync.go\<close>).

  The server's answers to the four requests the code makes are the fields of \<open>wire\<close>, over a world
  \<open>'w\<close> that moves on with every request. A Go map that is ranged over is an association list in
  the order the iteration takes. The loop over continuation pages ends when the server says so:
  it is a partial function, \<open>None\<close> being a server that never does.

  What RFC 6578 and RFC 4791 promise of a server is \<open>sync_contract\<close>: the collection is a history of
  events, each the object a name then had or its removal; a token stands for how much of each
  name's history was reported; a report from one token to the next lists every name with an event
  between them.
\<close>

record copied =
  cpName :: string
  cpETag :: string
  cpData :: string

record mirrored =
  mrURL :: string
  mrToken :: string
  mrCTag :: string
  mrNoSync :: bool
  mrSynced :: time

record delta =
  dlToken :: string
  dlCTag :: string
  dlNoSync :: bool
  dlWhole :: bool
  dlPut :: "copied list"
  dlGone :: "string list"

definition no_delta :: delta where
  "no_delta = \<lparr>dlToken = [], dlCTag = [], dlNoSync = False, dlWhole = False, dlPut = [], dlGone = []\<rparr>"

record sent =
  snPath :: string
  snETag :: string
  snData :: "string option"

record synced =
  syToken :: string
  syTruncated :: bool
  syPut :: "sent list"
  syGone :: "string list"

record listed_file =
  lfPath :: string
  lfETag :: string
  lfIsDir :: bool

record 'w wire =
  wSync :: "string \<Rightarrow> 'w \<Rightarrow> (err + synced) \<times> 'w"
  wGet :: "string list \<Rightarrow> 'w \<Rightarrow> (err + sent list) \<times> 'w"
  wCTag :: "'w \<Rightarrow> (err + string) \<times> 'w"
  wReadDir :: "'w \<Rightarrow> (err + listed_file list) \<times> 'w"

definition path_Split :: "string \<Rightarrow> string \<times> string" where
  "path_Split p = (let n = length (takeWhile (\<lambda>c. c \<noteq> CHR ''/'') (rev p)) in (take (length p - n) p, drop (length p - n) p))"

definition nameIn :: "string \<Rightarrow> string \<Rightarrow> string" where
  "nameIn p coll = (case path_Split p of (dir, name) \<Rightarrow> if dir \<noteq> coll then [] else name)"

definition HTTPErrorCode :: "err \<Rightarrow> nat" where
  "HTTPErrorCode e = (case e of ErrHTTP code _ \<Rightarrow> code | _ \<Rightarrow> 0)"

definition refused :: "err \<Rightarrow> bool" where
  "refused e = (let code = HTTPErrorCode e in 400 \<le> code \<and> code < 500 \<or> code = 501)"

type_synonym seen = "(string \<times> sent) list \<times> string list"

definition see_gone :: "string \<Rightarrow> string \<Rightarrow> seen \<Rightarrow> seen" where
  "see_gone coll p acc = (case acc of (updated, deleted) \<Rightarrow> let name = nameIn p coll in
     if name \<noteq> [] then (AList.delete name updated, List.insert name deleted) else (updated, deleted))"

definition see_put :: "string \<Rightarrow> sent \<Rightarrow> seen \<Rightarrow> seen" where
  "see_put coll o1 acc = (case acc of (updated, deleted) \<Rightarrow> let name = nameIn (snPath o1) coll in
     if name \<noteq> [] then (AList.update name o1 updated, removeAll name deleted) else (updated, deleted))"

definition see_page :: "string \<Rightarrow> synced \<Rightarrow> seen \<Rightarrow> seen" where
  "see_page coll s acc = fold (see_put coll) (syPut s) (fold (see_gone coll) (syGone s) acc)"

partial_function (option) sync_pages :: "'w wire \<Rightarrow> string \<Rightarrow> string \<Rightarrow> seen \<Rightarrow> 'w \<Rightarrow> ((err + string \<times> seen) \<times> 'w) option" where
  "sync_pages W coll token acc w = (case wSync W token w of (r, w1) \<Rightarrow>
     (case r of
        Inl e \<Rightarrow> Some (Inl e, w1)
      | Inr s \<Rightarrow>
          if syToken s = [] then Some (Inl (ErrHTTP 501 (ErrOther ''dav: a sync answered with no sync-token'')), w1)
          else if syTruncated s then sync_pages W coll (syToken s) (see_page coll s acc) w1
          else Some (Inr (syToken s, see_page coll s acc), w1)))"

definition multiget :: "'w wire \<Rightarrow> string \<Rightarrow> string list \<Rightarrow> 'w \<Rightarrow> (err + copied list) \<times> 'w" where
  "multiget W coll paths w =
     (if paths = [] then (Inr [], w)
      else case wGet W paths w of
          (Inl e, w1) \<Rightarrow> (Inl e, w1)
        | (Inr got, w1) \<Rightarrow> (Inr (concat (map (\<lambda>o1. let name = nameIn (snPath o1) coll in
            (case snData o1 of Some b \<Rightarrow> if name \<noteq> [] then [\<lparr>cpName = name, cpETag = snETag o1, cpData = b\<rparr>] else [] | None \<Rightarrow> [])) got)), w1))"

definition with_data :: "string \<times> sent \<Rightarrow> copied list" where
  "with_data u = (case snData (snd u) of None \<Rightarrow> [] | Some b \<Rightarrow> [\<lparr>cpName = fst u, cpETag = snETag (snd u), cpData = b\<rparr>])"

definition missing_paths :: "(string \<times> sent) list \<Rightarrow> string list" where
  "missing_paths updated = map (\<lambda>u. snPath (snd u)) (filter (\<lambda>u. snData (snd u) = None) updated)"

definition syncCollection :: "'w wire \<Rightarrow> string \<Rightarrow> string \<Rightarrow> 'w \<Rightarrow> ((err + delta) \<times> 'w) option" where
  "syncCollection W coll token w = Option.bind (sync_pages W coll token ([], []) w) (\<lambda>(r, w1).
     case r of
       Inl e \<Rightarrow> Some (Inl e, w1)
     | Inr (tok, updated, deleted) \<Rightarrow>
         (case multiget W coll (missing_paths updated) w1 of
            (Inl e, w2) \<Rightarrow> Some (Inl e, w2)
          | (Inr fetched, w2) \<Rightarrow> Some (Inr \<lparr>dlToken = tok, dlCTag = [], dlNoSync = False, dlWhole = (token = []),
                dlPut = concat (map with_data updated) @ fetched, dlGone = deleted\<rparr>, w2)))"

definition listed_names :: "string \<Rightarrow> listed_file list \<Rightarrow> (string \<times> string) list" where
  "listed_names coll files = fold (\<lambda>f m. let name = nameIn (lfPath f) coll in
     if name \<noteq> [] \<and> \<not> lfIsDir f then AList.update name (lfETag f) m else m) files []"

definition compare_etags :: "string \<Rightarrow> (string \<times> string) list \<Rightarrow> (string \<times> string) list \<Rightarrow> string list \<times> string list" where
  "compare_etags coll listed mine =
     (map (\<lambda>e. coll @ fst e) (filter (\<lambda>(name, etag). etag = [] \<or> map_of mine name \<noteq> Some etag) listed),
      filter (\<lambda>name. map_of listed name = None) (map fst mine))"

definition compare_copy :: "'w wire \<Rightarrow> string \<Rightarrow> mirrored \<Rightarrow> (err + (string \<times> string) list) \<Rightarrow> 'w \<Rightarrow> (err + delta) \<times> 'w" where
  "compare_copy W coll h have w = (case wCTag W w of
       (Inl e, w1) \<Rightarrow> (Inl e, w1)
     | (Inr ctag, w1) \<Rightarrow>
         let d = no_delta\<lparr>dlNoSync := True, dlCTag := ctag\<rparr> in
         if ctag \<noteq> [] \<and> ctag = mrCTag h then (Inr d, w1)
         else (case wReadDir W w1 of
             (Inl e, w2) \<Rightarrow> (Inl e, w2)
           | (Inr files, w2) \<Rightarrow>
               (case have of
                  Inl e \<Rightarrow> (Inl e, w2)
                | Inr mine \<Rightarrow>
                    (case compare_etags coll (listed_names coll files) mine of (changed, gone) \<Rightarrow>
                      (case multiget W coll changed w2 of
                         (Inl e, w3) \<Rightarrow> (Inl e, w3)
                       | (Inr objs, w3) \<Rightarrow> (Inr (d\<lparr>dlPut := objs, dlGone := gone\<rparr>), w3))))))"

text \<open>\<^verbatim>\<open>mine[name]\<close> of an absent name is the empty string, so a listed object with an etag differs from one not held.\<close>

definition wire_pull :: "'w wire \<Rightarrow> string \<Rightarrow> mirrored \<Rightarrow> (err + (string \<times> string) list) \<Rightarrow> 'w \<Rightarrow> ((err + delta) \<times> 'w) option" where
  "wire_pull W coll h have w =
     (if mrNoSync h then Some (compare_copy W coll h have w)
      else Option.bind (syncCollection W coll (mrToken h) w) (\<lambda>(r, w1).
        Option.bind (case r of
            Inl e \<Rightarrow> if refused e \<and> mrToken h \<noteq> [] then syncCollection W coll [] w1 else Some (r, w1)
          | Inr _ \<Rightarrow> Some (r, w1)) (\<lambda>(r2, w2).
        case r2 of
          Inl e \<Rightarrow> if refused e then Some (compare_copy W coll h have w2) else Some (r2, w2)
        | Inr _ \<Rightarrow> Some (r2, w2))))"

text \<open>What saving a delta makes of a copy.\<close>

definition apply_delta :: "delta \<Rightarrow> (string \<Rightarrow> copied option) \<Rightarrow> string \<Rightarrow> copied option" where
  "apply_delta d copy = fold (\<lambda>o1 f. f(cpName o1 := Some o1)) (dlPut d)
     (fold (\<lambda>n f. f(n := None)) (dlGone d) (if dlWhole d then (\<lambda>_. None) else copy))"

subsection \<open>Histories\<close>

type_synonym event = "string \<times> copied option"

definition snap :: "event list \<Rightarrow> nat \<Rightarrow> string \<Rightarrow> copied option" where
  "snap es v n = (case filter (\<lambda>e. fst e = n) (take v es) of [] \<Rightarrow> None | xs \<Rightarrow> snd (last xs))"

definition quiet_between :: "event list \<Rightarrow> nat \<Rightarrow> nat \<Rightarrow> string \<Rightarrow> bool" where
  "quiet_between es a b n \<longleftrightarrow> n \<notin> fst ` set (drop a (take b es))"

definition changed_since :: "event list \<Rightarrow> nat \<Rightarrow> string \<Rightarrow> bool" where
  "changed_since es v n \<longleftrightarrow> n \<in> fst ` set (drop v es)"

lemma quiet_snap:
  assumes "quiet_between es a b n" and "a \<le> b"
  shows "snap es b n = snap es a n"
proof -
  have "take b es = take a es @ drop a (take b es)" using assms(2) by (metis append_take_drop_id min.absorb1 take_take)
  moreover have "filter (\<lambda>e. fst e = n) (drop a (take b es)) = []"
    using assms(1) by (force simp: quiet_between_def filter_empty_conv)
  ultimately have "filter (\<lambda>e. fst e = n) (take b es) = filter (\<lambda>e. fst e = n) (take a es)" by (metis append_Nil2 filter_append)
  then show ?thesis by (simp add: snap_def)
qed

lemma quiet_between_trans:
  assumes "quiet_between es a b n" and "quiet_between es b c n" and "a \<le> b" and "b \<le> c"
  shows "quiet_between es a c n"
proof -
  have "take c es = take b es @ drop b (take c es)" using assms(4) by (metis append_take_drop_id min.absorb1 take_take)
  then have "drop a (take c es) = drop a (take b es) @ drop (a - length (take b es)) (drop b (take c es))" by (metis drop_append)
  moreover have "set (drop (a - length (take b es)) (drop b (take c es))) \<subseteq> set (drop b (take c es))" by (rule set_drop_subset)
  ultimately show ?thesis using assms(1,2) by (auto simp: quiet_between_def)
qed

lemma snap_extend: "prefix es es' \<Longrightarrow> v \<le> length es \<Longrightarrow> snap es' v n = snap es v n"
  by (auto simp: snap_def prefix_def)

lemma quiet_extend: "prefix es es' \<Longrightarrow> b \<le> length es \<Longrightarrow> quiet_between es' a b n = quiet_between es a b n"
  by (auto simp: quiet_between_def prefix_def)

lemma changed_extend: "prefix es es' \<Longrightarrow> changed_since es v n \<Longrightarrow> changed_since es' v n"
  by (auto simp: changed_since_def prefix_def)

lemma snap_differs:
  assumes "snap es v n \<noteq> snap es w n" and "v \<le> w" and "w \<le> length es"
  shows "changed_since es v n"
proof -
  have "\<not> quiet_between es v w n" using assms(1,2) quiet_snap [of es v w n] by auto
  moreover have "set (drop v (take w es)) \<subseteq> set (drop v es)" by (metis drop_take set_take_subset)
  ultimately show ?thesis by (auto simp: quiet_between_def changed_since_def)
qed

subsection \<open>What a server promises\<close>

definition put_names :: "string \<Rightarrow> synced \<Rightarrow> string set" where
  "put_names coll s = (\<lambda>o1. nameIn (snPath o1) coll) ` set (syPut s)"

definition gone_names :: "string \<Rightarrow> synced \<Rightarrow> string set" where
  "gone_names coll s = (\<lambda>p. nameIn p coll) ` set (syGone s)"

definition tells :: "event list \<Rightarrow> nat \<Rightarrow> string \<Rightarrow> sent \<Rightarrow> bool" where
  "tells es v n o1 \<longleftrightarrow> (case snap es v n of None \<Rightarrow> False
     | Some c \<Rightarrow> (case snData o1 of None \<Rightarrow> True | Some b \<Rightarrow> c = \<lparr>cpName = n, cpETag = snETag o1, cpData = b\<rparr>))"

definition sync_answer_ok :: "string \<Rightarrow> (string \<Rightarrow> string \<Rightarrow> nat) \<Rightarrow> event list \<Rightarrow> string \<Rightarrow> synced \<Rightarrow> bool" where
  "sync_answer_ok coll seen_of es token s \<longleftrightarrow> (\<forall>n. n \<noteq> [] \<longrightarrow>
     seen_of token n \<le> seen_of (syToken s) n \<and> seen_of (syToken s) n \<le> length es \<and>
     (\<forall>o1 \<in> set (syPut s). nameIn (snPath o1) coll = n \<longrightarrow> tells es (seen_of (syToken s) n) n o1) \<and>
     (n \<in> gone_names coll s \<longrightarrow> n \<notin> put_names coll s \<longrightarrow> snap es (seen_of (syToken s) n) n = None) \<and>
     (n \<notin> put_names coll s \<longrightarrow> n \<notin> gone_names coll s \<longrightarrow> quiet_between es (seen_of token n) (seen_of (syToken s) n) n))"

definition get_answer_ok :: "string \<Rightarrow> event list \<Rightarrow> string list \<Rightarrow> sent list \<Rightarrow> bool" where
  "get_answer_ok coll es paths got \<longleftrightarrow>
     (\<forall>o1 \<in> set got. nameIn (snPath o1) coll \<noteq> [] \<longrightarrow> snData o1 \<noteq> None \<longrightarrow> tells es (length es) (nameIn (snPath o1) coll) o1) \<and>
     (\<forall>p \<in> set paths. (\<exists>o1 \<in> set got. nameIn (snPath o1) coll = nameIn p coll \<and> snData o1 \<noteq> None) \<or> snap es (length es) (nameIn p coll) = None)"

definition sync_contract :: "'w wire \<Rightarrow> string \<Rightarrow> ('w \<Rightarrow> event list) \<Rightarrow> (string \<Rightarrow> string \<Rightarrow> nat) \<Rightarrow> bool" where
  "sync_contract W coll events seen_of \<longleftrightarrow> (\<forall>n. seen_of [] n = 0) \<and>
     (\<forall>token w r w'. wSync W token w = (r, w') \<longrightarrow> prefix (events w) (events w') \<and>
        (\<forall>s. r = Inr s \<longrightarrow> sync_answer_ok coll seen_of (events w') token s)) \<and>
     (\<forall>paths w r w'. wGet W paths w = (r, w') \<longrightarrow> prefix (events w) (events w') \<and>
        (\<forall>got. r = Inr got \<longrightarrow> get_answer_ok coll (events w') paths got))"

text \<open>A copy in step with a token: each name is as the token's state has it, or has changed since.\<close>

definition in_step :: "event list \<Rightarrow> (string \<Rightarrow> nat) \<Rightarrow> (string \<Rightarrow> copied option) \<Rightarrow> bool" where
  "in_step es seen_to copy \<longleftrightarrow> (\<forall>n. n \<noteq> [] \<longrightarrow> seen_to n \<le> length es \<and> (copy n = snap es (seen_to n) n \<or> changed_since es (seen_to n) n))"

lemma in_step_extend: "prefix es es' \<Longrightarrow> in_step es seen_to copy \<Longrightarrow> in_step es' seen_to copy"
  unfolding in_step_def by (metis changed_extend prefix_length_le order_trans snap_extend)

subsection \<open>The pages together\<close>

definition told :: "string \<Rightarrow> event list \<Rightarrow> (string \<Rightarrow> nat) \<Rightarrow> (string \<Rightarrow> nat) \<Rightarrow> seen \<Rightarrow> bool" where
  "told coll es base seen_to acc \<longleftrightarrow> distinct (map fst (fst acc)) \<and>
     (\<forall>n. n \<noteq> [] \<longrightarrow> base n \<le> seen_to n \<and> seen_to n \<le> length es \<and>
       (case map_of (fst acc) n of
          Some o1 \<Rightarrow> n \<notin> set (snd acc) \<and> nameIn (snPath o1) coll = n \<and> tells es (seen_to n) n o1
        | None \<Rightarrow> if n \<in> set (snd acc) then snap es (seen_to n) n = None else quiet_between es (base n) (seen_to n) n))"

lemma fold_gone:
  assumes "n \<noteq> []"
  shows "map_of (fst (fold (see_gone coll) ps acc)) n = (if n \<in> (\<lambda>p. nameIn p coll) ` set ps then None else map_of (fst acc) n)"
    and "n \<in> set (snd (fold (see_gone coll) ps acc)) \<longleftrightarrow> n \<in> (\<lambda>p. nameIn p coll) ` set ps \<or> n \<in> set (snd acc)"
    and "distinct (map fst (fst acc)) \<Longrightarrow> distinct (map fst (fst (fold (see_gone coll) ps acc)))"
  by (induction ps arbitrary: acc)
    (use assms in \<open>auto simp: see_gone_def Let_def delete_conv case_prod_beta distinct_delete\<close>)

lemma fold_put:
  assumes "n \<noteq> []"
  shows "n \<notin> (\<lambda>o1. nameIn (snPath o1) coll) ` set os \<Longrightarrow>
      map_of (fst (fold (see_put coll) os acc)) n = map_of (fst acc) n \<and> (n \<in> set (snd (fold (see_put coll) os acc)) \<longleftrightarrow> n \<in> set (snd acc))"
    and "n \<in> (\<lambda>o1. nameIn (snPath o1) coll) ` set os \<Longrightarrow> n \<notin> set (snd (fold (see_put coll) os acc)) \<and>
      (\<exists>o1 \<in> set os. nameIn (snPath o1) coll = n \<and> map_of (fst (fold (see_put coll) os acc)) n = Some o1)"
    and "distinct (map fst (fst acc)) \<Longrightarrow> distinct (map fst (fst (fold (see_put coll) os acc)))"
proof (induction os arbitrary: acc)
  case (Cons o1 os)
  {
    case 1
    then show ?case using Cons.IH(1) [of "see_put coll o1 acc"] assms by (auto simp: see_put_def Let_def update_conv' case_prod_beta)
  next
    case 2
    show ?case
    proof (cases "n \<in> (\<lambda>o1. nameIn (snPath o1) coll) ` set os")
      case True
      then show ?thesis using Cons.IH(2) [OF True, of "see_put coll o1 acc"] by auto
    next
      case False
      then show ?thesis using Cons.IH(1) [OF False, of "see_put coll o1 acc"] 2 assms
        by (auto simp: see_put_def Let_def update_conv' case_prod_beta)
    qed
  next
    case 3
    then show ?case using Cons.IH(3) [of "see_put coll o1 acc"] by (auto simp: see_put_def Let_def case_prod_beta distinct_update)
  }
qed auto

lemma tells_quiet: "tells es a n o1 \<Longrightarrow> quiet_between es a b n \<Longrightarrow> a \<le> b \<Longrightarrow> tells es b n o1"
  by (simp add: tells_def quiet_snap)

lemma told_page:
  assumes told: "told coll es base (seen_of token) acc" and ext: "prefix es es'" and ok: "sync_answer_ok coll seen_of es' token s"
  shows "told coll es' base (seen_of (syToken s)) (see_page coll s acc)"
  unfolding told_def
proof (intro conjI allI impI)
  show "distinct (map fst (fst (see_page coll s acc)))"
    using told unfolding told_def see_page_def by (intro fold_put(3) [of "''x''"] fold_gone(3) [of "''x''"]) auto
  fix n :: string
  assume n: "n \<noteq> []"
  let ?a = "seen_of token n" and ?b = "seen_of (syToken s) n"
  let ?g = "fold (see_gone coll) (syGone s) acc"
  have t: "base n \<le> ?a" "?a \<le> length es" "case map_of (fst acc) n of
          Some o1 \<Rightarrow> n \<notin> set (snd acc) \<and> nameIn (snPath o1) coll = n \<and> tells es ?a n o1
        | None \<Rightarrow> if n \<in> set (snd acc) then snap es ?a n = None else quiet_between es (base n) ?a n"
    using told n unfolding told_def by auto
  have o: "?a \<le> ?b" "?b \<le> length es'" "\<And>o1. o1 \<in> set (syPut s) \<Longrightarrow> nameIn (snPath o1) coll = n \<Longrightarrow> tells es' ?b n o1"
    "n \<in> gone_names coll s \<Longrightarrow> n \<notin> put_names coll s \<Longrightarrow> snap es' ?b n = None"
    "n \<notin> put_names coll s \<Longrightarrow> n \<notin> gone_names coll s \<Longrightarrow> quiet_between es' ?a ?b n"
    using ok n unfolding sync_answer_ok_def by blast+
  have ext': "snap es' ?a n = snap es ?a n" "quiet_between es' (base n) ?a n = quiet_between es (base n) ?a n"
    using snap_extend [OF ext t(2)] quiet_extend [OF ext t(2)] by auto
  have tells': "tells es' ?a n o1 = tells es ?a n o1" for o1 by (simp add: tells_def ext'(1))
  show "base n \<le> ?b" using t(1) o(1) by simp
  show "?b \<le> length es'" by (rule o(2))
  let ?c = "see_page coll s acc"
  show "case map_of (fst ?c) n of
          Some o1 \<Rightarrow> n \<notin> set (snd ?c) \<and> nameIn (snPath o1) coll = n \<and> tells es' ?b n o1
        | None \<Rightarrow> if n \<in> set (snd ?c) then snap es' ?b n = None else quiet_between es' (base n) ?b n"
  proof (cases "n \<in> put_names coll s")
    case True
    then show ?thesis using fold_put(2) [OF n, of coll "syPut s" ?g] o(3) by (auto simp: put_names_def see_page_def)
  next
    case np: False
    then have same: "map_of (fst ?c) n = map_of (fst ?g) n" "n \<in> set (snd ?c) \<longleftrightarrow> n \<in> set (snd ?g)"
      using fold_put(1) [OF n, of coll "syPut s" ?g] by (auto simp: put_names_def see_page_def)
    show ?thesis
    proof (cases "n \<in> gone_names coll s")
      case True
      then show ?thesis using same fold_gone(1,2) [OF n, of coll "syGone s" acc] o(4) np by (simp add: gone_names_def)
    next
      case False
      then have same': "map_of (fst ?c) n = map_of (fst acc) n" "n \<in> set (snd ?c) \<longleftrightarrow> n \<in> set (snd acc)"
        using same fold_gone(1,2) [OF n, of coll "syGone s" acc] by (simp_all add: gone_names_def)
      have q: "quiet_between es' ?a ?b n" by (rule o(5) [OF np False])
      have "snap es' ?b n = snap es' ?a n" by (rule quiet_snap [OF q o(1)])
      moreover have "quiet_between es' (base n) ?a n \<Longrightarrow> quiet_between es' (base n) ?b n"
        using quiet_between_trans [OF _ q t(1) o(1)] by blast
      moreover have "tells es ?a n o1 \<Longrightarrow> tells es' ?b n o1" for o1 using tells_quiet [OF _ q o(1)] tells' by blast
      ultimately show ?thesis using t(3) ext' unfolding same' by (auto split: option.splits if_splits)
    qed
  qed
qed

lemma contract_sync:
  assumes "sync_contract W coll events seen_of" and "wSync W token w = (r, w')"
  shows "prefix (events w) (events w')" and "r = Inr s \<Longrightarrow> sync_answer_ok coll seen_of (events w') token s"
  using assms unfolding sync_contract_def by blast+

lemma contract_get:
  assumes "sync_contract W coll events seen_of" and "wGet W paths w = (r, w')"
  shows "prefix (events w) (events w')" and "r = Inr got \<Longrightarrow> get_answer_ok coll (events w') paths got"
  using assms unfolding sync_contract_def by blast+

lemma told_start: "(\<And>n. n \<noteq> [] \<Longrightarrow> base n \<le> length es) \<Longrightarrow> told coll es base base ([], [])"
  by (simp add: told_def quiet_between_def)

lemma told_extend:
  assumes "told coll es base seen_to acc" and "prefix es es'"
  shows "told coll es' base seen_to acc"
  unfolding told_def
proof (intro conjI allI impI)
  show "distinct (map fst (fst acc))" using assms(1) by (simp add: told_def)
  fix n :: string
  assume n: "n \<noteq> []"
  then have b: "seen_to n \<le> length es" and t: "base n \<le> seen_to n" "case map_of (fst acc) n of
          Some o1 \<Rightarrow> n \<notin> set (snd acc) \<and> nameIn (snPath o1) coll = n \<and> tells es (seen_to n) n o1
        | None \<Rightarrow> if n \<in> set (snd acc) then snap es (seen_to n) n = None else quiet_between es (base n) (seen_to n) n"
    using assms(1) by (simp_all add: told_def)
  have "snap es' (seen_to n) n = snap es (seen_to n) n" "quiet_between es' (base n) (seen_to n) n = quiet_between es (base n) (seen_to n) n"
    using snap_extend [OF assms(2) b] quiet_extend [OF assms(2) b] by auto
  then show "case map_of (fst acc) n of
          Some o1 \<Rightarrow> n \<notin> set (snd acc) \<and> nameIn (snPath o1) coll = n \<and> tells es' (seen_to n) n o1
        | None \<Rightarrow> if n \<in> set (snd acc) then snap es' (seen_to n) n = None else quiet_between es' (base n) (seen_to n) n"
    using t(2) by (cases "map_of (fst acc) n") (simp_all add: tells_def)
  show "base n \<le> seen_to n" by (rule t(1))
  show "seen_to n \<le> length es'" using b prefix_length_le [OF assms(2)] by simp
qed

lemma sync_pages_told:
  assumes "sync_pages W coll token acc w = Some rw"
  shows "sync_contract W coll events seen_of \<Longrightarrow> told coll (events w) base (seen_of token) acc \<Longrightarrow>
    prefix (events w) (events (snd rw)) \<and> (\<forall>tok acc'. fst rw = Inr (tok, acc') \<longrightarrow> told coll (events (snd rw)) base (seen_of tok) acc')"
  using assms
proof (induction W coll token acc w rw rule: sync_pages.raw_induct [rotated, consumes 1, case_names step])
  case (step f W coll token acc w rw)
  obtain r w1 where ans: "wSync W token w = (r, w1)" by force
  note c = contract_sync [OF step.prems(1) ans]
  show ?case
  proof (cases r)
    case (Inl e)
    then show ?thesis using step.hyps ans c(1) by auto
  next
    case (Inr s)
    note page = told_page [OF step.prems(2) c(1) c(2) [OF Inr]]
    show ?thesis
    proof (cases "syToken s = []")
      case True
      then show ?thesis using step.hyps ans Inr c(1) by auto
    next
      case False
      show ?thesis
      proof (cases "syTruncated s")
        case True
        then have "f W coll (syToken s) (see_page coll s acc) w1 = Some rw" using step.hyps ans Inr False by simp
        then show ?thesis using step.IH [OF _ step.prems(1) page] c(1) by (meson prefix_order.trans)
      next
        case nt: False
        then show ?thesis using step.hyps ans Inr False c(1) page by auto
      qed
    qed
  qed
qed

lemma changed_later:
  assumes "changed_since es a n" and "quiet_between es a b n" and "a \<le> b"
  shows "changed_since es b n"
proof -
  have "drop a es = drop a (take b es) @ drop b es"
    using assms(3) by (metis append_take_drop_id drop_drop drop_take le_add_diff_inverse2)
  then show ?thesis using assms(1,2) by (auto simp: changed_since_def quiet_between_def)
qed

lemma multiget_ok:
  assumes "multiget W coll paths w = (r, w')" and "sync_contract W coll events seen_of"
  shows "prefix (events w) (events w')"
    and "r = Inr objs \<Longrightarrow> c \<in> set objs \<Longrightarrow> snap (events w') (length (events w')) (cpName c) = Some c"
    and "r = Inr objs \<Longrightarrow> p \<in> set paths \<Longrightarrow> nameIn p coll \<noteq> [] \<Longrightarrow>
      (\<exists>c \<in> set objs. cpName c = nameIn p coll) \<or> snap (events w') (length (events w')) (nameIn p coll) = None"
proof -
  obtain r1 w1 where g: "wGet W paths w = (r1, w1)" by force
  note ok = contract_get [OF assms(2) g]
  have w': "w' = (if paths = [] then w else w1)" and r: "r = (if paths = [] then Inr [] else (case r1 of Inl e \<Rightarrow> Inl e
      | Inr got \<Rightarrow> Inr (concat (map (\<lambda>o1. let name = nameIn (snPath o1) coll in
            (case snData o1 of Some b \<Rightarrow> if name \<noteq> [] then [\<lparr>cpName = name, cpETag = snETag o1, cpData = b\<rparr>] else [] | None \<Rightarrow> [])) got))))"
    using assms(1) g by (auto simp: multiget_def split: sum.splits if_splits)
  show "prefix (events w) (events w')" using ok(1) w' by simp
  show "snap (events w') (length (events w')) (cpName c) = Some c" if h: "r = Inr objs" "c \<in> set objs"
  proof -
    obtain got where got: "r1 = Inr got" and ne: "paths \<noteq> []" using h r by (auto split: if_splits sum.splits)
    obtain o1 b where o1: "o1 \<in> set got" "snData o1 = Some b" "nameIn (snPath o1) coll \<noteq> []"
      and c: "c = \<lparr>cpName = nameIn (snPath o1) coll, cpETag = snETag o1, cpData = b\<rparr>"
      using h r got ne by (auto simp: Let_def split: option.splits if_splits)
    have "tells (events w1) (length (events w1)) (nameIn (snPath o1) coll) o1"
      using ok(2) [OF got] o1 unfolding get_answer_ok_def by auto
    then show ?thesis using w' ne o1(2) c by (auto simp: tells_def split: option.splits)
  qed
  show "(\<exists>c \<in> set objs. cpName c = nameIn p coll) \<or> snap (events w') (length (events w')) (nameIn p coll) = None"
    if h: "r = Inr objs" "p \<in> set paths" "nameIn p coll \<noteq> []"
  proof -
    have ne: "paths \<noteq> []" using h(2) by auto
    obtain got where got: "r1 = Inr got" using h r ne by (auto split: sum.splits)
    have "\<forall>p \<in> set paths. (\<exists>o1 \<in> set got. nameIn (snPath o1) coll = nameIn p coll \<and> snData o1 \<noteq> None) \<or>
        snap (events w1) (length (events w1)) (nameIn p coll) = None"
      using ok(2) [OF got] unfolding get_answer_ok_def by (rule conjunct2)
    from bspec [OF this h(2)] consider o1 where "o1 \<in> set got" "nameIn (snPath o1) coll = nameIn p coll" "snData o1 \<noteq> None"
      | "snap (events w1) (length (events w1)) (nameIn p coll) = None" by (elim disjE bexE conjE)
    then show ?thesis
    proof cases
      case 1
      let ?F = "\<lambda>o1. let name = nameIn (snPath o1) coll in
            (case snData o1 of Some b \<Rightarrow> if name \<noteq> [] then [\<lparr>cpName = name, cpETag = snETag o1, cpData = b\<rparr>] else [] | None \<Rightarrow> [])"
      have "objs = concat (map ?F got)" using h(1) r got ne by simp
      moreover have "\<lparr>cpName = nameIn p coll, cpETag = snETag o1, cpData = the (snData o1)\<rparr> \<in> set (?F o1)"
        using 1 h(3) by (auto simp: Let_def)
      ultimately have "\<lparr>cpName = nameIn p coll, cpETag = snETag o1, cpData = the (snData o1)\<rparr> \<in> set objs" using 1(1) by auto
      then show ?thesis by (intro disjI1 bexI) simp_all
    qed (simp add: w' ne)
  qed
qed

lemma fold_puts:
  "n \<notin> cpName ` set os \<Longrightarrow> fold (\<lambda>o1 f. f(cpName o1 := Some o1)) os f n = f n"
  "n \<in> cpName ` set os \<Longrightarrow> \<exists>o1 \<in> set os. cpName o1 = n \<and> fold (\<lambda>o1 f. f(cpName o1 := Some o1)) os f n = Some o1"
proof (induction os arbitrary: f)
  case (Cons o1 os)
  { case 1 then show ?case using Cons.IH(1) [of "f(cpName o1 := Some o1)"] by simp
  next
    case 2
    show ?case
    proof (cases "n \<in> cpName ` set os")
      case True
      then show ?thesis using Cons.IH(2) [OF True, of "f(cpName o1 := Some o1)"] by auto
    next
      case False
      then show ?thesis using Cons.IH(1) [OF False, of "f(cpName o1 := Some o1)"] 2 by auto
    qed }
qed simp_all

lemma fold_gones: "fold (\<lambda>n f. f(n := None)) ns f n = (if n \<in> set ns then None else f n)"
  by (induction ns arbitrary: f) auto

lemma syncCollection_in_step:
  assumes run: "syncCollection W coll token w = Some (Inr d, w')" and con: "sync_contract W coll events seen_of"
    and base: "token \<noteq> [] \<Longrightarrow> in_step (events w) (seen_of token) copy"
  shows "prefix (events w) (events w')" "in_step (events w') (seen_of (dlToken d)) (apply_delta d copy)" "\<not> dlNoSync d" "dlWhole d \<longleftrightarrow> token = []"
proof -
  obtain tok updated deleted w1 fetched where pg: "sync_pages W coll token ([], []) w = Some (Inr (tok, updated, deleted), w1)"
    and mg: "multiget W coll (missing_paths updated) w1 = (Inr fetched, w')"
    and d: "d = \<lparr>dlToken = tok, dlCTag = [], dlNoSync = False, dlWhole = (token = []), dlPut = concat (map with_data updated) @ fetched, dlGone = deleted\<rparr>"
    using run unfolding syncCollection_def by (auto split: Option.bind_splits sum.splits prod.splits)
  have "told coll (events w) (seen_of token) (seen_of token) ([], [])"
    using base con by (intro told_start) (cases "token = []", auto simp: in_step_def sync_contract_def)
  from sync_pages_told [OF pg con this] have p1: "prefix (events w) (events w1)"
    and t1: "told coll (events w1) (seen_of token) (seen_of tok) (updated, deleted)" by auto
  note mg = multiget_ok [OF mg con]
  note t2 = told_extend [OF t1 mg(1)]
  show p: "prefix (events w) (events w')" using p1 mg(1) by (rule prefix_order.trans)
  show "\<not> dlNoSync d" "dlWhole d \<longleftrightarrow> token = []" by (simp_all add: d)
  let ?es = "events w'"
  show "in_step ?es (seen_of (dlToken d)) (apply_delta d copy)"
    unfolding in_step_def
  proof (intro allI impI)
    fix n :: string
    assume n: "n \<noteq> []"
    let ?b = "seen_of tok n"
    have t: "seen_of token n \<le> ?b" "?b \<le> length ?es" "case map_of updated n of
          Some o1 \<Rightarrow> n \<notin> set deleted \<and> nameIn (snPath o1) coll = n \<and> tells ?es ?b n o1
        | None \<Rightarrow> if n \<in> set deleted then snap ?es ?b n = None else quiet_between ?es (seen_of token n) ?b n"
      and dis: "distinct (map fst updated)"
      using t2 n unfolding told_def fst_conv snd_conv by blast+
    have later: "snap ?es (length ?es) n = snap ?es ?b n \<or> changed_since ?es ?b n"
      by (rule disjCI) (use snap_differs [of ?es ?b n "length ?es"] t(2) in \<open>force simp del: not_None_eq\<close>)
    have "apply_delta d copy n = snap ?es ?b n \<or> changed_since ?es ?b n"
    proof (cases "n \<in> cpName ` set (dlPut d)")
      case True
      then obtain c where c: "c \<in> set (dlPut d)" "cpName c = n" "apply_delta d copy n = Some c"
        using fold_puts(2) [OF True] unfolding apply_delta_def by blast
      have "snap ?es ?b n = Some c \<or> snap ?es (length ?es) n = Some c"
      proof (cases "c \<in> set fetched")
        case True
        then show ?thesis using mg(2) [OF refl True] c(2) by simp
      next
        case False
        then obtain o1 b where o1: "(n, o1) \<in> set updated" "snData o1 = Some b" "c = \<lparr>cpName = n, cpETag = snETag o1, cpData = b\<rparr>"
          using c(1,2) by (auto simp: d with_data_def split: option.splits)
        then show ?thesis using t(3) dis by (auto simp: tells_def split: option.splits)
      qed
      then show ?thesis using later c(3) by auto
    next
      case np: False
      then have a: "apply_delta d copy n = (if n \<in> set deleted then None else if token = [] then None else copy n)"
        using fold_puts(1) [OF np] by (simp add: apply_delta_def fold_gones d)
      show ?thesis
      proof (cases "map_of updated n")
        case (Some o1)
        have o1: "n \<notin> set deleted" "nameIn (snPath o1) coll = n" "tells ?es ?b n o1" using t(3) Some by auto
        have mem: "(n, o1) \<in> set updated" using Some by (rule map_of_SomeD)
        have "snData o1 = None" using np mem by (cases "snData o1") (force simp: d with_data_def)+
        then have "snPath o1 \<in> set (missing_paths updated)" using mem by (force simp: missing_paths_def)
        from mg(3) [OF refl this] have "snap ?es (length ?es) n = None" using o1(2) n np by (force simp: d)
        then show ?thesis using later o1(3) by (auto simp: tells_def)
      next
        case None
        show ?thesis
        proof (cases "n \<in> set deleted")
          case True
          then show ?thesis using t(3) None a by simp
        next
          case False
          then have q: "quiet_between ?es (seen_of token n) ?b n" using t(3) None by simp
          note s = quiet_snap [OF q t(1)]
          show ?thesis
          proof (cases "token = []")
            case True
            then have "snap ?es (seen_of token n) n = None" using con by (simp add: sync_contract_def snap_def)
            then show ?thesis using s True a False by simp
          next
            case tn: False
            then have "copy n = snap ?es (seen_of token n) n \<or> changed_since ?es (seen_of token n) n"
              using in_step_extend [OF p base] n by (simp add: in_step_def)
            then show ?thesis using s a False tn changed_later [OF _ q t(1)] by auto
          qed
        qed
      qed
    qed
    then show "seen_of (dlToken d) n \<le> length ?es \<and>
        (apply_delta d copy n = snap ?es (seen_of (dlToken d) n) n \<or> changed_since ?es (seen_of (dlToken d) n) n)"
      using t(2) by (simp add: d)
  qed
qed

lemma syncCollection_prefix:
  assumes run: "syncCollection W coll token w = Some (r, w')" and con: "sync_contract W coll events seen_of"
    and base: "token \<noteq> [] \<Longrightarrow> in_step (events w) (seen_of token) copy"
  shows "prefix (events w) (events w')"
proof -
  obtain r1 w1 where pg: "sync_pages W coll token ([], []) w = Some (r1, w1)"
    using run unfolding syncCollection_def by (auto split: Option.bind_splits)
  have "told coll (events w) (seen_of token) (seen_of token) ([], [])"
    using base con by (intro told_start) (cases "token = []", auto simp: in_step_def sync_contract_def)
  from sync_pages_told [OF pg con this] have p1: "prefix (events w) (events w1)" by auto
  show ?thesis
  proof (cases r1)
    case (Inl e)
    then show ?thesis using run pg p1 by (simp add: syncCollection_def)
  next
    case (Inr a)
    obtain tok updated deleted where a: "a = (tok, updated, deleted)" by (cases a) auto
    obtain r2 w2 where m: "multiget W coll (missing_paths updated) w1 = (r2, w2)" by force
    have "w' = w2" using run pg Inr a m by (auto simp: syncCollection_def split: sum.splits)
    then show ?thesis using p1 multiget_ok(1) [OF m con] by (auto intro: prefix_order.trans)
  qed
qed

lemma compare_NoSync: "compare_copy W coll h have w = (Inr d, w') \<Longrightarrow> dlNoSync d"
  by (auto simp: compare_copy_def Let_def split: prod.splits sum.splits if_splits)

lemma pull_steps:
  assumes con: "sync_contract W coll events seen_of" and run: "wire_pull W coll h have w = Some (Inr d, w')"
    and tok: "\<not> dlNoSync d" and base: "mrToken h \<noteq> [] \<Longrightarrow> in_step (events w) (seen_of (mrToken h)) copy"
  shows "prefix (events w) (events w') \<and> in_step (events w') (seen_of (dlToken d)) (apply_delta d copy)"
proof (cases "mrNoSync h")
  case True
  then have "compare_copy W coll h have w = (Inr d, w')" using run by (simp add: wire_pull_def)
  from compare_NoSync [OF this] tok show ?thesis by simp
next
  case False
  obtain r w1 where s1: "syncCollection W coll (mrToken h) w = Some (r, w1)"
    using run False by (auto simp: wire_pull_def split: Option.bind_splits)
  note p1 = syncCollection_prefix [OF s1 con base]
  have no: "\<And>w2 w3. compare_copy W coll h have w2 \<noteq> (Inr d, w3)" using tok by (auto dest: compare_NoSync)
  show ?thesis
  proof (cases r)
    case (Inr d1)
    then have "d = d1" "w' = w1" using run False s1 by (auto simp: wire_pull_def)
    then show ?thesis using syncCollection_in_step [OF s1 [unfolded Inr] con base] by simp
  next
    case (Inl e)
    show ?thesis
    proof (cases "refused e \<and> mrToken h \<noteq> []")
      case True
      obtain r2 w2 where s2: "syncCollection W coll [] w1 = Some (r2, w2)"
        using run False s1 Inl True by (auto simp: wire_pull_def split: Option.bind_splits)
      have "r2 = Inr d \<and> w' = w2"
        using run False s1 Inl True s2 no by (auto simp: wire_pull_def split: sum.splits if_splits)
      then show ?thesis using syncCollection_in_step [OF _ con, of "[]" w1 d w2 copy] s2 p1 by (auto intro: prefix_order.trans)
    next
      case nr: False
      then show ?thesis using run False s1 Inl no by (auto simp: wire_pull_def split: if_splits)
    qed
  qed
qed

subsection \<open>Property\<close>

definition one_object :: copied where
  "one_object = \<lparr>cpName = ''e.ics'', cpETag = ''1'', cpData = ''body''\<rparr>"

text \<open>A server with one object, which answers a first sync with its path only and hands the data out on request.\<close>

definition sample_wire :: "unit wire" where
  "sample_wire = \<lparr>
     wSync = (\<lambda>token w. (Inr \<lparr>syToken = ''t1'', syTruncated = False,
       syPut = (if token = [] then [\<lparr>snPath = ''/c/e.ics'', snETag = ''1'', snData = None\<rparr>] else []), syGone = []\<rparr>, w)),
     wGet = (\<lambda>paths w. (Inr [\<lparr>snPath = ''/c/e.ics'', snETag = ''1'', snData = Some ''body''\<rparr>], w)),
     wCTag = (\<lambda>w. (Inr [], w)), wReadDir = (\<lambda>w. (Inr [], w))\<rparr>"

definition sample_seen :: "string \<Rightarrow> string \<Rightarrow> nat" where
  "sample_seen token n = (if token = [] then 0 else 1)"

lemma sample_nameIn [simp]: "nameIn ''/c/e.ics'' ''/c/'' = ''e.ics''"
  by code_simp

lemma sample_contract: "sync_contract sample_wire ''/c/'' (\<lambda>_. [(''e.ics'', Some one_object)]) sample_seen"
proof -
  let ?es = "[(''e.ics'', Some one_object)]"
  have s: "snap ?es v n = (if 0 < v \<and> n = ''e.ics'' then Some one_object else None)" for v n
    by (cases v) (auto simp: snap_def)
  have q: "n \<noteq> ''e.ics'' \<Longrightarrow> quiet_between ?es a b n" "quiet_between ?es 1 b n" for n a b
    by (cases a; cases b; simp add: quiet_between_def) (cases b; simp add: quiet_between_def)
  have ok: "sync_answer_ok ''/c/'' sample_seen ?es token s" if "wSync sample_wire token w = (Inr s, w')" for token w s w'
    using that q
    by (auto simp: sample_wire_def sync_answer_ok_def put_names_def gone_names_def sample_seen_def s tells_def split: if_splits)
  have "get_answer_ok ''/c/'' ?es paths got" if "wGet sample_wire paths w = (Inr got, w')" for paths w got w'
    unfolding get_answer_ok_def tells_def s using that by (auto simp: sample_wire_def) (simp_all add: one_object_def)
  with ok show ?thesis unfolding sync_contract_def by (auto simp: sample_seen_def)
qed

lemma sample_pull:
  "wire_pull sample_wire ''/c/'' \<lparr>mrURL = url, mrToken = [], mrCTag = [], mrNoSync = False, mrSynced = 0\<rparr> (Inr []) () =
     Some (Inr \<lparr>dlToken = ''t1'', dlCTag = [], dlNoSync = False, dlWhole = True, dlPut = [one_object], dlGone = []\<rparr>, ())"
proof -
  have p: "sync_pages sample_wire ''/c/'' [] ([], []) () = Some (Inr (''t1'', [(''e.ics'', \<lparr>snPath = ''/c/e.ics'', snETag = ''1'', snData = None\<rparr>)], []), ())"
    by (subst sync_pages.simps) (simp add: sample_wire_def see_page_def see_put_def Let_def)
  show ?thesis
    by (simp add: wire_pull_def syncCollection_def p missing_paths_def multiget_def) (simp add: sample_wire_def one_object_def with_data_def)
qed

text \<open>
  C11: a sync forgets nothing. Whatever pages a server that keeps its promises answers with, from the
  held token or, refused, from scratch, and wherever an object's data had to be fetched
  separately, the delta saved over a copy in step with the old token leaves one in step with the
  new token: each name is what the server had when the token was given, or has changed since
  and is reported next time.
\<close>

theorem pull_in_step:
  assumes "sync_contract W coll events seen_of" and "wire_pull W coll h have w = Some (Inr d, w')"
    and "\<not> dlNoSync d" and "mrToken h \<noteq> [] \<longrightarrow> in_step (events w) (seen_of (mrToken h)) copy"
  shows "prefix (events w) (events w') \<and> in_step (events w') (seen_of (dlToken d)) (apply_delta d copy)"
  using pull_steps [OF assms(1-3)] assms(4) by blast

theorem pull_in_step_witness:
  "\<exists>d w'. wire_pull sample_wire ''/c/'' \<lparr>mrURL = [], mrToken = [], mrCTag = [], mrNoSync = False, mrSynced = 0\<rparr> (Inr []) () = Some (Inr d, w') \<and>
     in_step [(''e.ics'', Some one_object)] (sample_seen (dlToken d)) (apply_delta d (\<lambda>_. None)) \<and> apply_delta d (\<lambda>_. None) ''e.ics'' = Some one_object"
proof -
  let ?d = "\<lparr>dlToken = ''t1'', dlCTag = [], dlNoSync = False, dlWhole = True, dlPut = [one_object], dlGone = []\<rparr>"
  have "apply_delta ?d (\<lambda>_. None) ''e.ics'' = Some one_object" by (simp add: apply_delta_def one_object_def)
  then show ?thesis using pull_in_step [OF sample_contract sample_pull [of "[]"], of "\<lambda>_. None"] sample_pull [of "[]"] by auto
qed

end
