(* ===== verification/Dav_Mirror.thy ===== *)
theory Dav_Mirror
  imports KV Keyring Dav_Pull Mirror_Hot
begin

text \<open>
  The copies of remote collections (\<^verbatim>\<open>pim/dav/mirror.go\<close>): the file of sealed records, the readers
  and their collections, syncs, own writes, and the moves of an account's copies under another key.

  What \<^verbatim>\<open>json.Marshal\<close> writes is a value of \<open>mvalue\<close>; read into the other type it has none of its fields,
  so the zero value results. A transaction is the bucket and the ring that seals for it: a failing
  \<^verbatim>\<open>Update\<close> leaves the bucket as it was, but not the ring, whose accounts may have lapsed meanwhile.
  \<open>mReaders\<close> is the Go map in the order its iteration takes, from users to readers; readers are
  compared as pointers, so they live in \<open>mHeap\<close> and the map holds where. The channel \<^verbatim>\<open>syncing\<close> is only
  compared with nil and waited for: it is a flag. \<^verbatim>\<open>now.Sub\<close> of the zero time saturates in Go and is
  a longer time here; every comparison made comes out the same.
\<close>

datatype mvalue = MHeld mirrored | MObject copied

definition zero_mirrored :: mirrored where
  "zero_mirrored = \<lparr>mrURL = [], mrToken = [], mrCTag = [], mrNoSync = False, mrSynced = 0\<rparr>"

definition zero_copied :: copied where
  "zero_copied = \<lparr>cpName = [], cpETag = [], cpData = []\<rparr>"

definition as_mirrored :: "mvalue \<Rightarrow> mirrored" where
  "as_mirrored v = (case v of MHeld h \<Rightarrow> h | MObject _ \<Rightarrow> zero_mirrored)"

definition as_copied :: "mvalue \<Rightarrow> copied" where
  "as_copied v = (case v of MObject o1 \<Rightarrow> o1 | MHeld _ \<Rightarrow> zero_copied)"

definition mirror_tick :: duration where
  "mirror_tick = 10 * 1000000000"

record mirror_coll =
  mcSyncing :: bool
  mcFailed :: time
  mcWrites :: "64 word"
  mcRead :: bool
  mcTried :: bool

definition zero_coll :: mirror_coll where
  "zero_coll = \<lparr>mcSyncing = False, mcFailed = 0, mcWrites = 0, mcRead = False, mcTried = False\<rparr>"

record 'o reader =
  rdrAccount :: string
  rdrOut :: "'o option"
  rdrColls :: "string \<Rightarrow> mirror_coll option"

record 'o mirror =
  mDB :: "(mvalue sealed, err) tx"
  mRing :: ring
  mNames :: string
  mPoll :: duration
  mReaders :: "(string \<times> nat) list"
  mHeap :: "'o reader list"
  mClosed :: bool
  mHot :: "copied list hotState"

definition coll_waiting :: "time \<Rightarrow> duration \<Rightarrow> mirror_coll \<Rightarrow> bool" where
  "coll_waiting now poll c \<longleftrightarrow> now - mcFailed c \<le> poll - mirror_tick"

definition reader_coll :: "string \<Rightarrow> 'o reader \<Rightarrow> mirror_coll \<times> 'o reader" where
  "reader_coll p r = (case rdrColls r p of
       Some c \<Rightarrow> (c, r)
     | None \<Rightarrow> (zero_coll, r\<lparr>rdrColls := (rdrColls r)(p \<mapsto> zero_coll)\<rparr>))"

subsection \<open>The file\<close>

definition mirror_owner :: string where
  "mirror_owner = ''dav.mirror''"

definition heldKey :: "crypto \<Rightarrow> string \<Rightarrow> string \<Rightarrow> string \<Rightarrow> string" where
  "heldKey C nk u coll = mirror_owner @ ''/held/'' @ u @ ''/'' @ Names_Of C nk coll"

definition objectsKey :: "crypto \<Rightarrow> string \<Rightarrow> string \<Rightarrow> string \<Rightarrow> string" where
  "objectsKey C nk u coll = mirror_owner @ ''/objects/'' @ u @ ''/'' @ Names_Of C nk coll @ ''/''"

definition accountOf :: "string \<Rightarrow> string" where
  "accountOf k = Split (CHR ''/'') k ! 2"

definition nameOf :: "string \<Rightarrow> string" where
  "nameOf u = fst (Cut (CHR ''/'') u)"

type_synonym mtx = "(mvalue sealed, err) tx \<times> ring"

definition mirror_put :: "crypto \<Rightarrow> string \<Rightarrow> mvalue \<Rightarrow> time \<Rightarrow> (err, mtx, unit) prog" where
  "mirror_put C k v now = (\<lambda>(t, r). case For C (accountOf k) mirror_owner now r of
       (Inl e, r1) \<Rightarrow> (Inl e, t, r1)
     | (Inr key, r1) \<Rightarrow> (case kv_put k (Seal key v) t of
           Inl e \<Rightarrow> (Inl e, t, r1)
         | Inr t1 \<Rightarrow> (Inr (), t1, r1)))"

definition mirror_open :: "crypto \<Rightarrow> string \<Rightarrow> mvalue sealed \<Rightarrow> time \<Rightarrow> (err, mtx, mvalue) prog" where
  "mirror_open C k v now = (\<lambda>(t, r). case Ring_Open C (accountOf k) mirror_owner v now r of (res, r1) \<Rightarrow> (res, t, r1))"

definition mtx_delete :: "string \<Rightarrow> (err, mtx, unit) prog" where
  "mtx_delete k = (\<lambda>(t, r). case kv_delete k t of Inl e \<Rightarrow> (Inl e, t, r) | Inr t1 \<Rightarrow> (Inr (), t1, r))"

definition mtx_delete_under :: "string \<Rightarrow> (err, mtx, unit) prog" where
  "mtx_delete_under p = (\<lambda>(t, r). case DeleteUnder kv_scan kv_delete t p None of Inl e \<Rightarrow> (Inl e, t, r) | Inr t1 \<Rightarrow> (Inr (), t1, r))"

definition mirror_View :: "(err, mtx, 'a) prog \<Rightarrow> 'o mirror \<Rightarrow> (err + 'a) \<times> 'o mirror" where
  "mirror_View fn m = (case fn (mDB m, mRing m) of (res, _, r) \<Rightarrow> (res, m\<lparr>mRing := r\<rparr>))"

definition mirror_Update :: "(err, mtx, 'a) prog \<Rightarrow> 'o mirror \<Rightarrow> (err + 'a) \<times> 'o mirror" where
  "mirror_Update fn m = (case fn (mDB m, mRing m) of
       (Inl e, _, r) \<Rightarrow> (Inl e, m\<lparr>mRing := r\<rparr>)
     | (Inr a, t, r) \<Rightarrow> (Inr a, m\<lparr>mDB := t, mRing := r\<rparr>))"

fun open_all :: "crypto \<Rightarrow> (string \<times> mvalue sealed) list \<Rightarrow> time \<Rightarrow> (err, mtx, mvalue list) prog" where
  "open_all C [] now = returnT []"
| "open_all C ((k, v) # es) now = bindT (mirror_open C k v now) (\<lambda>x. bindT (open_all C es now) (\<lambda>xs. returnT (x # xs)))"

definition mirror_scan :: "crypto \<Rightarrow> string \<Rightarrow> time \<Rightarrow> 'o mirror \<Rightarrow> (err + mvalue list) \<times> 'o mirror" where
  "mirror_scan C p now = mirror_View (\<lambda>t. open_all C (kv_scan p (fst t)) now t)"

definition held_copy :: "crypto \<Rightarrow> string \<Rightarrow> string \<Rightarrow> time \<Rightarrow> 'o mirror \<Rightarrow> (err + mirrored option) \<times> 'o mirror" where
  "held_copy C u coll now m = mirror_View (\<lambda>t. case kv_get (heldKey C (mNames m) u coll) (fst t) of
       None \<Rightarrow> returnT None t
     | Some v \<Rightarrow> bindT (mirror_open C (heldKey C (mNames m) u coll) v now) (\<lambda>x. returnT (Some (as_mirrored x))) t) m"

definition heldOf :: "crypto \<Rightarrow> string \<Rightarrow> time \<Rightarrow> 'o mirror \<Rightarrow> (err + mirrored list) \<times> 'o mirror" where
  "heldOf C u now m = (case mirror_scan C (mirror_owner @ ''/held/'' @ u @ ''/'') now m of (res, m1) \<Rightarrow> (map_sum id (map as_mirrored) res, m1))"

text \<open>
  \<^verbatim>\<open>objects\<close>, undisturbed between its two sections; \<open>None\<close> is an eviction that never ends. What the opened
  objects hold in memory is the argument \<open>sizeOf\<close>.
\<close>

definition mirror_objects :: "crypto \<Rightarrow> (copied list \<Rightarrow> nat) \<Rightarrow> string \<Rightarrow> string \<Rightarrow> time \<Rightarrow> 'o mirror \<Rightarrow> ((err + copied list) \<times> 'o mirror) option" where
  "mirror_objects C sizeOf u coll now m = (let k = objectsKey C (mNames m) u coll in
     (case objects_enter k (mHot m) of
        ((Some objs, _), hot) \<Rightarrow> Some (Inr objs, m\<lparr>mHot := hot\<rparr>)
      | ((None, before), hot) \<Rightarrow> (case mirror_scan C k now (m\<lparr>mHot := hot\<rparr>) of
            (Inl e, m1) \<Rightarrow> Some (Inl e, m1)
          | (Inr vs, m1) \<Rightarrow> (let out = sort_key cpName (map as_copied vs)
              in map_option (\<lambda>hot1. (Inr out, m1\<lparr>mHot := hot1\<rparr>)) (objects_leave k before out (sizeOf out) (mHot m1))))))"

definition etags :: "crypto \<Rightarrow> (copied list \<Rightarrow> nat) \<Rightarrow> string \<Rightarrow> string \<Rightarrow> time \<Rightarrow> 'o mirror \<Rightarrow> ((err + (string \<times> string) list) \<times> 'o mirror) option" where
  "etags C sizeOf u coll now m = map_option (\<lambda>(res, m1).
     (map_sum id (\<lambda>objs. fold (\<lambda>o1. AList.update (cpName o1) (cpETag o1)) objs []) res, m1)) (mirror_objects C sizeOf u coll now m)"

definition mirror_change :: "crypto \<Rightarrow> string \<Rightarrow> string \<Rightarrow> (err, mtx, unit) prog \<Rightarrow> 'o mirror \<Rightarrow> (err + unit) \<times> 'o mirror" where
  "mirror_change C u coll update m = (case mirror_Update update m of
     (res, m1) \<Rightarrow> (res, m1\<lparr>mHot := change_done (objectsKey C (mNames m) u coll) (mHot m1)\<rparr>))"

definition mirror_drop :: "crypto \<Rightarrow> string \<Rightarrow> string \<Rightarrow> 'o mirror \<Rightarrow> (err + unit) \<times> 'o mirror" where
  "mirror_drop C u coll m = mirror_change C u coll
     (bindT (mtx_delete (heldKey C (mNames m) u coll)) (\<lambda>_. mtx_delete_under (objectsKey C (mNames m) u coll))) m"

subsection \<open>Readers\<close>

definition new_reader :: "'o reader" where
  "new_reader = \<lparr>rdrAccount = [], rdrOut = None, rdrColls = (\<lambda>_. None)\<rparr>"

definition mirror_reader :: "string \<Rightarrow> 'o mirror \<Rightarrow> nat \<times> 'o mirror" where
  "mirror_reader u m = (case map_of (mReaders m) u of
       Some r \<Rightarrow> (r, m)
     | None \<Rightarrow> (length (mHeap m), m\<lparr>mHeap := mHeap m @ [new_reader], mReaders := (u, length (mHeap m)) # mReaders m\<rparr>))"

text \<open>\<open>coll_at\<close> is what \<^verbatim>\<open>r.coll(p)\<close> points to; \<open>set_coll\<close> assigns its fields.\<close>

definition coll_at :: "nat \<Rightarrow> string \<Rightarrow> 'o mirror \<Rightarrow> mirror_coll" where
  "coll_at r p m = fst (reader_coll p (mHeap m ! r))"

definition set_coll :: "nat \<Rightarrow> string \<Rightarrow> (mirror_coll \<Rightarrow> mirror_coll) \<Rightarrow> 'o mirror \<Rightarrow> 'o mirror" where
  "set_coll r p f m = (case reader_coll p (mHeap m ! r) of
     (c, rd) \<Rightarrow> m\<lparr>mHeap := (mHeap m)[r := rd\<lparr>rdrColls := (rdrColls rd)(p \<mapsto> f c)\<rparr>]\<rparr>)"

definition on_coll :: "string \<Rightarrow> string \<Rightarrow> (mirror_coll \<Rightarrow> mirror_coll) \<Rightarrow> 'o mirror \<Rightarrow> mirror_coll \<times> 'o mirror" where
  "on_coll u p f m = (case mirror_reader u m of (r, m1) \<Rightarrow> (coll_at r p m1, set_coll r p f m1))"

record Principal =
  prAccount :: string
  prName :: string

definition mirror_user :: "crypto \<Rightarrow> string \<Rightarrow> Principal \<Rightarrow> string" where
  "mirror_user C nk who = Names_Of C nk (ToLower (prAccount who)) @ ''/'' @ Names_Of C nk (prName who)"

definition mirror_note :: "crypto \<Rightarrow> Principal \<Rightarrow> 'o \<Rightarrow> 'o mirror \<Rightarrow> 'o mirror" where
  "mirror_note C who out m = (case mirror_reader (mirror_user C (mNames m) who) m of
     (r, m1) \<Rightarrow> m1\<lparr>mHeap := (mHeap m1)[r := (mHeap m1 ! r)\<lparr>rdrAccount := prAccount who, rdrOut := Some out\<rparr>]\<rparr>)"

text \<open>What becomes of a request: passed on, answered from the copy if it can, or passed on and applied to the copy.\<close>

datatype trip = Pass | TripRead | TripWrite

definition trip_of :: "string \<Rightarrow> trip" where
  "trip_of meth = (if meth \<in> {''REPORT'', ''GET''} then TripRead
     else if meth \<in> {''PUT'', ''DELETE'', ''MKCOL'', ''MKCALENDAR'', ''PROPPATCH'', ''MOVE''} then TripWrite else Pass)"

definition RoundTrip :: "crypto \<Rightarrow> Principal \<Rightarrow> 'o \<Rightarrow> string \<Rightarrow> time \<Rightarrow> 'o mirror \<Rightarrow> trip \<times> 'o mirror" where
  "RoundTrip C who out meth now m = (case Locked C (nameOf (mirror_user C (mNames m) who)) now (mRing m) of
       (True, r) \<Rightarrow> (Pass, m\<lparr>mRing := r\<rparr>)
     | (False, r) \<Rightarrow> (trip_of meth, mirror_note C who out (m\<lparr>mRing := r\<rparr>)))"

definition path_Dir :: "string \<Rightarrow> string" where
  "path_Dir p = path_Clean (fst (path_Split p))"

definition collectionOf :: "string \<Rightarrow> string" where
  "collectionOf p = (if suffix ''/'' p then p else path_Dir p @ ''/'')"

text \<open>
  \<^verbatim>\<open>ready\<close> up to what it waits for: whether the copy answers, a sync is begun beside it, or one is awaited
  and the copy looked for again (\<open>ready_again\<close>).
\<close>

datatype readiness = Ready bool | ReadySync | AwaitSync

definition ready :: "crypto \<Rightarrow> string \<Rightarrow> string \<Rightarrow> time \<Rightarrow> 'o mirror \<Rightarrow> (err + readiness) \<times> 'o mirror" where
  "ready C u coll now m = (case held_copy C u coll now m of
       (Inl e, m1) \<Rightarrow> (Inl e, m1)
     | (Inr ho, m1) \<Rightarrow> (case on_coll u coll (\<lambda>c. c\<lparr>mcRead := True\<rparr>) m1 of (c, m2) \<Rightarrow>
         let failed = coll_waiting now (mPoll m2) c in
         (Inr (case ho of
              Some h \<Rightarrow> if mcTried c then (if now - mrSynced h > mPoll m2 \<and> \<not> failed then ReadySync else Ready True)
                else if failed then Ready True else AwaitSync
            | None \<Rightarrow> if failed then Ready False else AwaitSync), m2)))"

definition ready_again :: "crypto \<Rightarrow> string \<Rightarrow> string \<Rightarrow> time \<Rightarrow> 'o mirror \<Rightarrow> (err + bool) \<times> 'o mirror" where
  "ready_again C u coll now m = (case held_copy C u coll now m of (res, m1) \<Rightarrow> (map_sum id (\<lambda>ho. ho \<noteq> None) res, m1))"

subsection \<open>Syncs\<close>

text \<open>
  \<^verbatim>\<open>start\<close> under \<^verbatim>\<open>mu\<close>: a sync is under way, none can be made, or one is begun with the reader, the way out
  and the count of writes it is given. The goroutine then runs \<open>sync_begin\<close>, the pull, \<open>sync_gone\<close> or \<open>sync_save\<close>,
  and \<open>start_end\<close>.
\<close>

datatype 'o started = UnderWay | NotStarted | Began nat 'o "64 word"

definition start :: "string \<Rightarrow> string \<Rightarrow> 'o mirror \<Rightarrow> 'o started \<times> 'o mirror" where
  "start u coll m = (case mirror_reader u m of (r, m1) \<Rightarrow>
     let m2 = set_coll r coll id m1; c = coll_at r coll m2 in
     if mcSyncing c then (UnderWay, m2)
     else if mClosed m2 then (NotStarted, m2)
     else (case rdrOut (mHeap m2 ! r) of
         None \<Rightarrow> (NotStarted, m2)
       | Some out \<Rightarrow> (Began r out (mcWrites c), set_coll r coll (\<lambda>c. c\<lparr>mcSyncing := True\<rparr>) m2)))"

definition start_end :: "nat \<Rightarrow> string \<Rightarrow> bool \<Rightarrow> time \<Rightarrow> 'o mirror \<Rightarrow> 'o mirror" where
  "start_end r coll failed now = set_coll r coll (\<lambda>c. c\<lparr>mcSyncing := False, mcFailed := (if failed then now else 0), mcTried := True\<rparr>)"

definition sync_begin :: "crypto \<Rightarrow> string \<Rightarrow> string \<Rightarrow> string \<Rightarrow> time \<Rightarrow> 'o mirror \<Rightarrow> (err + mirrored) \<times> 'o mirror" where
  "sync_begin C u coll url now m = (case held_copy C u coll now m of
     (res, m1) \<Rightarrow> (map_sum id (\<lambda>ho. (case ho of None \<Rightarrow> zero_mirrored | Some h \<Rightarrow> h)\<lparr>mrURL := url\<rparr>) res, m1))"

definition sync_gone :: "crypto \<Rightarrow> nat \<Rightarrow> string \<Rightarrow> string \<Rightarrow> 'o mirror \<Rightarrow> string \<times> 'o mirror" where
  "sync_gone C r u coll m = (case mirror_drop C u coll m of (_, m1) \<Rightarrow> (rdrAccount (mHeap m ! r), m1))"

definition save_delta :: "crypto \<Rightarrow> string \<Rightarrow> string \<Rightarrow> string \<Rightarrow> mirrored \<Rightarrow> delta \<Rightarrow> time \<Rightarrow> (err, mtx, unit) prog" where
  "save_delta C nk u coll h d now = (let p = objectsKey C nk u coll in
     bindT (whenT (dlWhole d) (mtx_delete_under p)) (\<lambda>_.
     bindT (forT (\<lambda>name. mtx_delete (p @ Names_Of C nk name)) (dlGone d)) (\<lambda>_.
     bindT (forT (\<lambda>o1. mirror_put C (p @ Names_Of C nk (cpName o1)) (MObject o1) now) (dlPut d)) (\<lambda>_.
     mirror_put C (heldKey C nk u coll) (MHeld h) now))))"

definition sync_save :: "crypto \<Rightarrow> nat \<Rightarrow> string \<Rightarrow> string \<Rightarrow> 64 word \<Rightarrow> mirrored \<Rightarrow> delta \<Rightarrow> time \<Rightarrow> 'o mirror \<Rightarrow> (err + unit) \<times> 'o mirror" where
  "sync_save C r u coll written h d now m =
     (if map_of (mReaders m) u = Some r \<and> mcWrites (coll_at r coll m) = written
      then mirror_change C u coll (save_delta C (mNames m) u coll
        (h\<lparr>mrToken := dlToken d, mrCTag := dlCTag d, mrNoSync := dlNoSync d, mrSynced := now\<rparr>) d now) m
      else (Inr (), m))"

subsection \<open>Own writes\<close>

text \<open>
  A request that was sent and its answer, as \<^verbatim>\<open>wrote\<close> reads them; \<open>wrDest\<close> is what \<^verbatim>\<open>url.Parse\<close> makes of the
  \<^verbatim>\<open>Destination\<close> header.
\<close>

record written =
  wrMethod :: string
  wrPath :: string
  wrDest :: "err + string"
  wrBody :: string
  wrStatus :: nat
  wrETag :: string

definition count_write :: "string \<Rightarrow> string \<Rightarrow> 'o mirror \<Rightarrow> 'o mirror" where
  "count_write u coll m = snd (on_coll u coll (\<lambda>c. c\<lparr>mcWrites := mcWrites c + 1\<rparr>) m)"

definition wrote_object :: "crypto \<Rightarrow> string \<Rightarrow> string \<Rightarrow> string \<Rightarrow> mirrored \<Rightarrow> written \<Rightarrow> time \<Rightarrow> string \<Rightarrow> (err, mtx, unit) prog" where
  "wrote_object C u coll name h q now nk = (let k = objectsKey C nk u coll @ Names_Of C nk name in
     if wrStatus q \<ge> 300 then mirror_put C (heldKey C nk u coll) (MHeld (h\<lparr>mrSynced := 0\<rparr>)) now
     else if wrMethod q = ''DELETE'' then bindT (mtx_delete k) (\<lambda>_. mirror_put C (heldKey C nk u coll) (MHeld h) now)
     else bindT (mirror_put C k (MObject \<lparr>cpName = name, cpETag = wrETag q, cpData = wrBody q\<rparr>) now) (\<lambda>_.
       mirror_put C (heldKey C nk u coll) (MHeld (if wrETag q = [] then h\<lparr>mrSynced := 0\<rparr> else h)) now))"

fun drop_each :: "crypto \<Rightarrow> string \<Rightarrow> string list \<Rightarrow> 'o mirror \<Rightarrow> (err + unit) \<times> 'o mirror" where
  "drop_each C u [] m = (Inr (), m)"
| "drop_each C u (coll # colls) m = (case mirror_drop C u coll (count_write u coll m) of
     (Inl e, m1) \<Rightarrow> (Inl e, m1) | (Inr _, m1) \<Rightarrow> drop_each C u colls m1)"

definition wrote :: "crypto \<Rightarrow> string \<Rightarrow> written \<Rightarrow> time \<Rightarrow> 'o mirror \<Rightarrow> (err + unit) \<times> 'o mirror" where
  "wrote C u q now m = (let p = wrPath q in
     if wrMethod q = ''MOVE'' then
       (if wrStatus q \<noteq> 201 \<and> wrStatus q \<noteq> 204 then (Inr (), m)
        else (case wrDest q of
            Inl e \<Rightarrow> (Inl e, m)
          | Inr to \<Rightarrow> drop_each C u (remdups_adj [collectionOf p, collectionOf to]) m))
     else if suffix ''/'' p \<or> wrMethod q \<noteq> ''PUT'' \<and> wrMethod q \<noteq> ''DELETE'' then
       (if wrStatus q \<ge> 300 then (Inr (), m) else mirror_drop C u (collectionOf p) m)
     else (case path_Split p of (coll, name) \<Rightarrow>
       (case held_copy C u coll now (count_write u coll m) of
          (Inl e, m1) \<Rightarrow> (Inl e, m1)
        | (Inr None, m1) \<Rightarrow> (Inr (), m1)
        | (Inr (Some h), m1) \<Rightarrow> mirror_change C u coll (wrote_object C u coll name h q now (mNames m1)) m1)))"

subsection \<open>Accounts\<close>

definition mirror_Forget :: "crypto \<Rightarrow> string \<Rightarrow> 'o mirror \<Rightarrow> 'o mirror" where
  "mirror_Forget C username m =
     m\<lparr>mReaders := filter (\<lambda>e. \<not> prefix (Names_Of C (mNames m) (ToLower username) @ ''/'') (fst e)) (mReaders m)\<rparr>"

text \<open>The users a round looks at, and which of a user's copies it syncs; \<open>pathOf\<close> is the path of a URL.\<close>

fun round_users :: "crypto \<Rightarrow> time \<Rightarrow> 'o reader list \<Rightarrow> (string \<times> nat) list \<Rightarrow> ring \<Rightarrow> string list \<times> ring" where
  "round_users C now heap [] r = ([], r)"
| "round_users C now heap ((u, a) # es) r =
     (if rdrOut (heap ! a) = None then round_users C now heap es r
      else (case Locked C (nameOf u) now r of (l, r1) \<Rightarrow>
        (case round_users C now heap es r1 of (us, r2) \<Rightarrow> (if l then us else u # us, r2))))"

fun round_due :: "(string \<Rightarrow> string) \<Rightarrow> time \<Rightarrow> string \<Rightarrow> mirrored list \<Rightarrow> 'o mirror \<Rightarrow> mirrored list \<times> 'o mirror" where
  "round_due pathOf now u [] m = ([], m)"
| "round_due pathOf now u (h # hs) m = (case on_coll u (pathOf (mrURL h)) id m of (c, m1) \<Rightarrow>
     (case round_due pathOf now u hs m1 of (due, m2) \<Rightarrow>
       (if mcRead c \<and> now - mrSynced h > mPoll m - mirror_tick \<and> \<not> coll_waiting now (mPoll m) c then h # due else due, m2)))"

fun match_each :: "(mvalue sealed \<Rightarrow> ring \<Rightarrow> bool \<times> ring) \<Rightarrow> (string \<times> mvalue sealed) list \<Rightarrow> ring \<Rightarrow> string list \<times> ring" where
  "match_each match [] r = ([], r)"
| "match_each match ((k, v) # es) r = (case match v r of (b, r1) \<Rightarrow>
     (case match_each match es r1 of (out, r2) \<Rightarrow> (if b then TrimPrefix (mirror_owner @ ''/held/'') k # out else out, r2)))"

definition heldBy :: "string \<Rightarrow> (mvalue sealed \<Rightarrow> ring \<Rightarrow> bool \<times> ring) \<Rightarrow> 'o mirror \<Rightarrow> string list \<times> 'o mirror" where
  "heldBy name match m = (case match_each match (kv_scan (mirror_owner @ ''/held/'' @ name @ ''/'') (mDB m)) (mRing m) of
     (out, r) \<Rightarrow> (out, m\<lparr>mRing := r\<rparr>))"

definition reseal_one :: "crypto \<Rightarrow> string \<Rightarrow> Key \<Rightarrow> time \<Rightarrow> string \<times> mvalue sealed \<Rightarrow> (err, mtx, unit) prog" where
  "reseal_one C name key now e = (\<lambda>(t, r). case Stale C name mirror_owner (snd e) now r of
       (False, r1) \<Rightarrow> (Inr (), t, r1)
     | (True, r1) \<Rightarrow> (case Ring_Open C name mirror_owner (snd e) now r1 of
           (Inl er, r2) \<Rightarrow> (Inl er, t, r2)
         | (Inr raw, r2) \<Rightarrow> (case kv_put (fst e) (Seal key raw) t of
               Inl er \<Rightarrow> (Inl er, t, r2)
             | Inr t1 \<Rightarrow> (Inr (), t1, r2))))"

definition reseal_held :: "crypto \<Rightarrow> string \<Rightarrow> Key \<Rightarrow> time \<Rightarrow> string \<Rightarrow> (err, mtx, unit) prog" where
  "reseal_held C name key now held = (\<lambda>t.
     let hk = mirror_owner @ ''/held/'' @ held;
         moved = AList.update hk (case kv_get hk (fst t) of None \<Rightarrow> Raw [] | Some v \<Rightarrow> v)
           (kv_scan (mirror_owner @ ''/objects/'' @ held @ ''/'') (fst t))
     in forT (reseal_one C name key now) moved t)"

fun mirror_each :: "('x \<Rightarrow> 'o mirror \<Rightarrow> (err + unit) \<times> 'o mirror) \<Rightarrow> 'x list \<Rightarrow> 'o mirror \<Rightarrow> (err + unit) \<times> 'o mirror" where
  "mirror_each f [] m = (Inr (), m)"
| "mirror_each f (x # xs) m = (case f x m of (Inl e, m1) \<Rightarrow> (Inl e, m1) | (Inr _, m1) \<Rightarrow> mirror_each f xs m1)"

definition mirror_Reseal :: "crypto \<Rightarrow> string \<Rightarrow> time \<Rightarrow> 'o mirror \<Rightarrow> (err + unit) \<times> 'o mirror" where
  "mirror_Reseal C account now m = (let name = Names_Of C (mNames m) (ToLower account) in
     (case For C name mirror_owner now (mRing m) of
        (Inl e, r) \<Rightarrow> (Inl e, m\<lparr>mRing := r\<rparr>)
      | (Inr key, r) \<Rightarrow> (case heldBy name (\<lambda>v. Stale C name mirror_owner v now) (m\<lparr>mRing := r\<rparr>) of
          (stale, m1) \<Rightarrow> mirror_each (\<lambda>held. mirror_Update (reseal_held C name key now held)) stale m1)))"

definition drop_held :: "string \<Rightarrow> (err, mtx, unit) prog" where
  "drop_held held = bindT (mtx_delete (mirror_owner @ ''/held/'' @ held)) (\<lambda>_. mtx_delete_under (mirror_owner @ ''/objects/'' @ held @ ''/''))"

definition mirror_Drop :: "crypto \<Rightarrow> string \<Rightarrow> time \<Rightarrow> 'o mirror \<Rightarrow> (err + unit) \<times> 'o mirror" where
  "mirror_Drop C account now m = (let name = Names_Of C (mNames m) (ToLower account) in
     (case heldBy name (\<lambda>v r. case Ring_Open C name mirror_owner v now r of (res, r1) \<Rightarrow> (res = Inl ErrLocked, r1)) m of
        (lost, m1) \<Rightarrow> mirror_Update (forT drop_held lost) m1))"

text \<open>\<^verbatim>\<open>OpenMirror\<close> on a file of copies, and \<^verbatim>\<open>Close\<close>.\<close>

definition OpenMirror :: "(mvalue sealed, err) tx \<Rightarrow> ring \<Rightarrow> string \<Rightarrow> duration \<Rightarrow> 'o mirror" where
  "OpenMirror db ring nk poll = \<lparr>mDB = db, mRing = ring, mNames = nk, mPoll = poll, mReaders = [], mHeap = [], mClosed = False,
     mHot = \<lparr>hHot = [], hBytes = 0, hMax = 128 * 2 ^ 20, hUses = 0, hChanged = (\<lambda>_. 0)\<rparr>\<rparr>"

definition mirror_Close :: "'o mirror \<Rightarrow> 'o mirror" where
  "mirror_Close m = m\<lparr>mClosed := True\<rparr>"

subsection \<open>What the file holds\<close>

text \<open>
  The file with its seals taken off. The copy of a collection is read by name: the object stored under
  the name's key, if it is that name's.
\<close>

definition payload :: "'p sealed \<Rightarrow> 'p option" where
  "payload v = (case v of Sealed _ _ _ p \<Rightarrow> Some p | Raw _ \<Rightarrow> None)"

definition plain :: "(mvalue sealed, err) tx \<Rightarrow> string \<Rightarrow> mvalue option" where
  "plain t k = Option.bind (kv_get k t) payload"

definition copyKey :: "crypto \<Rightarrow> string \<Rightarrow> string \<Rightarrow> string \<Rightarrow> string \<Rightarrow> string" where
  "copyKey C nk u coll n = objectsKey C nk u coll @ Names_Of C nk n"

definition held_in :: "crypto \<Rightarrow> string \<Rightarrow> (string \<Rightarrow> mvalue option) \<Rightarrow> string \<Rightarrow> string \<Rightarrow> mirrored option" where
  "held_in C nk f u coll = (case f (heldKey C nk u coll) of Some (MHeld h) \<Rightarrow> Some h | _ \<Rightarrow> None)"

definition copy_in :: "crypto \<Rightarrow> string \<Rightarrow> (string \<Rightarrow> mvalue option) \<Rightarrow> string \<Rightarrow> string \<Rightarrow> string \<Rightarrow> copied option" where
  "copy_in C nk f u coll n = (case f (copyKey C nk u coll n) of
     Some (MObject o1) \<Rightarrow> if cpName o1 = n then Some o1 else None | _ \<Rightarrow> None)"

lemma payload_Seal [simp]: "payload (Seal k p) = Some p"
  by (simp add: payload_def Seal_def)

lemma Ring_Open_payload: "Ring_Open C name pu v now r = (Inr p, r') \<Longrightarrow> payload v = Some p"
  by (auto simp: Ring_Open_def acc_open_def payload_def open_old_Inr Open_Inr split: prod.splits if_splits option.splits sum.splits)

lemma mirror_put_returns:
  assumes "mirror_put C k v now (t, r) = (Inr u, t', r')" and "ordered_tx t"
  shows "ordered_tx t' \<and> plain t' = (plain t)(k \<mapsto> v)"
proof -
  obtain key where "kv_put k (Seal key v) t = Inr t'"
    using assms(1) by (auto simp: mirror_put_def split: prod.splits sum.splits)
  then show ?thesis using bolt.put_inv [OF assms(2)] bolt.put_get [OF assms(2)] by (auto simp: plain_def fun_eq_iff)
qed

lemma mtx_delete_returns:
  assumes "mtx_delete k (t, r) = (Inr u, t', r')" and "ordered_tx t"
  shows "ordered_tx t' \<and> plain t' = (plain t)(k := None)"
proof -
  have "kv_delete k t = Inr t'" using assms(1) by (auto simp: mtx_delete_def split: sum.splits)
  then show ?thesis using bolt.del_inv [OF assms(2)] bolt.del_get [OF assms(2)] by (auto simp: plain_def fun_eq_iff)
qed

lemma mtx_delete_under_returns:
  assumes "mtx_delete_under p (t, r) = (Inr u, t', r')" and "ordered_tx t"
  shows "ordered_tx t' \<and> plain t' = (\<lambda>k. if prefix p k then None else plain t k)"
proof -
  have d: "DeleteUnder kv_scan kv_delete t p None = Inr t'" using assms(1) by (auto simp: mtx_delete_under_def split: sum.splits)
  have "kv_get k t' = (if prefix p k then None else kv_get k t)" for k
    using bolt.delete_under_get [OF d assms(2), of k] by (cases "kv_get k t") (auto simp: accepts_def)
  then show ?thesis using bolt.delete_under_inv [OF d assms(2)] by (auto simp: plain_def fun_eq_iff)
qed

text \<open>A loop of such steps is the fold of what they do.\<close>

lemma forT_plain:
  assumes "forT f xs (t, r) = (Inr u, t', r')" and "ordered_tx t"
    and "\<And>x t r u t' r'. f x (t, r) = (Inr u, t', r') \<Longrightarrow> ordered_tx t \<Longrightarrow> ordered_tx t' \<and> plain t' = g x (plain t)"
  shows "ordered_tx t' \<and> plain t' = fold g xs (plain t)"
  using assms(1,2)
proof (induction xs arbitrary: t r)
  case (Cons x xs)
  then obtain u1 t1 r1 where "f x (t, r) = (Inr u1, t1, r1)" "forT f xs (t1, r1) = (Inr u, t', r')"
    by (auto simp: bindT_returns)
  with Cons assms(3) show ?case by fastforce
qed auto

lemma save_delta_returns:
  assumes "save_delta C nk u coll h d now (t, r) = (Inr x, t', r')" and "ordered_tx t"
  shows "ordered_tx t' \<and> plain t' = (fold (\<lambda>o1 f. f(copyKey C nk u coll (cpName o1) \<mapsto> MObject o1)) (dlPut d)
    (fold (\<lambda>n f. f(copyKey C nk u coll n := None)) (dlGone d)
      (if dlWhole d then (\<lambda>k. if prefix (objectsKey C nk u coll) k then None else plain t k) else plain t)))(heldKey C nk u coll \<mapsto> MHeld h)"
proof -
  obtain t1 r1 t2 r2 t3 r3 x1 x2 x3 where
    1: "whenT (dlWhole d) (mtx_delete_under (objectsKey C nk u coll)) (t, r) = (Inr x1, t1, r1)"
    and 2: "forT (\<lambda>n. mtx_delete (copyKey C nk u coll n)) (dlGone d) (t1, r1) = (Inr x2, t2, r2)"
    and 3: "forT (\<lambda>o1. mirror_put C (copyKey C nk u coll (cpName o1)) (MObject o1) now) (dlPut d) (t2, r2) = (Inr x3, t3, r3)"
    and 4: "mirror_put C (heldKey C nk u coll) (MHeld h) now (t3, r3) = (Inr x, t', r')"
    using assms(1) by (auto simp: save_delta_def Let_def bindT_returns copyKey_def)
  have o1: "ordered_tx t1 \<and> plain t1 = (if dlWhole d then (\<lambda>k. if prefix (objectsKey C nk u coll) k then None else plain t k) else plain t)"
    using 1 mtx_delete_under_returns [OF _ assms(2)] assms(2) by (auto simp: whenT_returns split: if_splits)
  have o2: "ordered_tx t2 \<and> plain t2 = fold (\<lambda>n f. f(copyKey C nk u coll n := None)) (dlGone d) (plain t1)"
    by (rule forT_plain [OF 2]) (use o1 in \<open>auto dest: mtx_delete_returns\<close>)
  have o3: "ordered_tx t3 \<and> plain t3 = fold (\<lambda>o1 f. f(copyKey C nk u coll (cpName o1) \<mapsto> MObject o1)) (dlPut d) (plain t2)"
    by (rule forT_plain [OF 3]) (use o2 in \<open>auto dest: mirror_put_returns\<close>)
  show ?thesis using mirror_put_returns [OF 4] o1 o2 o3 by simp
qed

text \<open>
  Keyed names are 32 letters, so the parts of a key can be told apart. They are hashes, and can only be
  told apart on a set of names without a collision: \<open>names_apart\<close>.
\<close>

definition names_apart :: "crypto \<Rightarrow> string \<Rightarrow> string set \<Rightarrow> bool" where
  "names_apart C nk N \<longleftrightarrow> named C \<and> inj_on (Names_Of C nk) N"

definition user_key :: "string \<Rightarrow> bool" where
  "user_key u \<longleftrightarrow> length u = 65"

lemma user_key_user: "named C \<Longrightarrow> user_key (mirror_user C nk who)"
  by (simp add: user_key_def mirror_user_def length_Names_Of)

lemma mirror_keys:
  assumes "names_apart C nk N" and "user_key u" and "user_key u'" and "coll \<in> N" and "coll' \<in> N"
  shows "heldKey C nk u coll = heldKey C nk u' coll' \<longleftrightarrow> u = u' \<and> coll = coll'"
    and "copyKey C nk u coll n = copyKey C nk u' coll' n' \<longleftrightarrow> u = u' \<and> coll = coll' \<and> Names_Of C nk n = Names_Of C nk n'"
    and "prefix (objectsKey C nk u coll) (copyKey C nk u' coll' n) \<longleftrightarrow> u = u' \<and> coll = coll'"
proof -
  have inj: "Names_Of C nk coll = Names_Of C nk coll' \<longleftrightarrow> coll = coll'"
    using assms by (auto simp: names_apart_def dest: inj_onD)
  have len: "length (Names_Of C nk x) = 32" for x using assms(1) by (simp add: names_apart_def length_Names_Of)
  have eq: "u @ CHR ''/'' # Names_Of C nk coll @ x = u' @ CHR ''/'' # Names_Of C nk coll' @ y \<longleftrightarrow> u = u' \<and> coll = coll' \<and> x = y" for x y
    using assms(2,3) len by (simp add: user_key_def inj)
  show "heldKey C nk u coll = heldKey C nk u' coll' \<longleftrightarrow> u = u' \<and> coll = coll'"
    using eq [of "[]" "[]"] by (simp add: heldKey_def)
  show "copyKey C nk u coll n = copyKey C nk u' coll' n' \<longleftrightarrow> u = u' \<and> coll = coll' \<and> Names_Of C nk n = Names_Of C nk n'"
    by (simp add: copyKey_def objectsKey_def eq)
  show "prefix (objectsKey C nk u coll) (copyKey C nk u' coll' n) \<longleftrightarrow> u = u' \<and> coll = coll'"
  proof
    assume "prefix (objectsKey C nk u coll) (copyKey C nk u' coll' n)"
    then obtain z where "u' @ CHR ''/'' # Names_Of C nk coll' @ CHR ''/'' # Names_Of C nk n = u @ CHR ''/'' # Names_Of C nk coll @ CHR ''/'' # z"
      by (auto simp: prefix_def copyKey_def objectsKey_def)
    then show "u = u' \<and> coll = coll'" using eq [of "CHR ''/'' # z" "CHR ''/'' # Names_Of C nk n"] by auto
  qed (simp add: copyKey_def)
qed

lemma mirror_key_kinds:
  "heldKey C nk u coll \<noteq> copyKey C nk u' coll' n" "copyKey C nk u' coll' n \<noteq> heldKey C nk u coll"
  "\<not> prefix (objectsKey C nk u coll) (heldKey C nk u' coll')"
  by (auto simp: heldKey_def copyKey_def objectsKey_def mirror_owner_def)

text \<open>Every object on file has a name among those told apart.\<close>

definition names_in :: "string set \<Rightarrow> (string \<Rightarrow> mvalue option) \<Rightarrow> bool" where
  "names_in N f \<longleftrightarrow> (\<forall>k o1. f k = Some (MObject o1) \<longrightarrow> cpName o1 \<in> N)"

lemma names_in_upd [simp]:
  "names_in N f \<Longrightarrow> names_in N (f(k := None))" "names_in N f \<Longrightarrow> names_in N (f(k \<mapsto> MHeld h))"
  "names_in N f \<Longrightarrow> cpName o1 \<in> N \<Longrightarrow> names_in N (f(k \<mapsto> MObject o1))"
  "names_in N f \<Longrightarrow> names_in N (\<lambda>k. if P k then None else f k)"
  by (auto simp: names_in_def)

lemma copy_in_upd:
  assumes "names_apart C nk N" and "user_key u" and "coll \<in> N" and "names_in N f"
  shows "cpName o1 \<in> N \<Longrightarrow> copy_in C nk (f(copyKey C nk u coll (cpName o1) \<mapsto> MObject o1)) u coll = (copy_in C nk f u coll)(cpName o1 := Some o1)"
    and "n \<in> N \<Longrightarrow> copy_in C nk (f(copyKey C nk u coll n := None)) u coll = (copy_in C nk f u coll)(n := None)"
proof -
  have out: "copy_in C nk f u coll n = None" if "n \<notin> N" for n
    using that assms(4) by (auto simp: copy_in_def names_in_def split: option.splits mvalue.splits)
  have key: "copyKey C nk u coll n = copyKey C nk u coll m \<longleftrightarrow> n = m" if "n \<in> N" "m \<in> N" for n m
    using mirror_keys(2) [OF assms(1,2,2,3,3), of n m] assms(1) that by (auto simp: names_apart_def dest: inj_onD)
  show "copy_in C nk (f(copyKey C nk u coll (cpName o1) \<mapsto> MObject o1)) u coll = (copy_in C nk f u coll)(cpName o1 := Some o1)" if "cpName o1 \<in> N"
  proof
    fix m
    show "copy_in C nk (f(copyKey C nk u coll (cpName o1) \<mapsto> MObject o1)) u coll m = ((copy_in C nk f u coll)(cpName o1 := Some o1)) m"
      using that key [of m "cpName o1"] out [of m] by (cases "m \<in> N") (auto simp: copy_in_def)
  qed
  show "copy_in C nk (f(copyKey C nk u coll n := None)) u coll = (copy_in C nk f u coll)(n := None)" if "n \<in> N"
  proof
    fix m
    show "copy_in C nk (f(copyKey C nk u coll n := None)) u coll m = ((copy_in C nk f u coll)(n := None)) m"
      using that key [of m n] out [of m] by (cases "m \<in> N") (auto simp: copy_in_def)
  qed
qed

lemma copy_in_cong: "(\<And>n. f (copyKey C nk u coll n) = g (copyKey C nk u coll n)) \<Longrightarrow> copy_in C nk f u coll = copy_in C nk g u coll"
  by (simp add: copy_in_def fun_eq_iff)

lemma held_in_cong: "f (heldKey C nk u coll) = g (heldKey C nk u coll) \<Longrightarrow> held_in C nk f u coll = held_in C nk g u coll"
  by (simp add: held_in_def)

lemma copy_in_held [simp]: "copy_in C nk (f(heldKey C nk u' coll' := v)) u coll = copy_in C nk f u coll"
  by (rule copy_in_cong) (simp add: mirror_key_kinds)

text \<open>What saving a delta does to a file: the copy becomes what \<open>apply_delta\<close> says, and no other copy changes.\<close>

definition saved :: "crypto \<Rightarrow> string \<Rightarrow> string \<Rightarrow> string \<Rightarrow> delta \<Rightarrow> (string \<Rightarrow> mvalue option) \<Rightarrow> string \<Rightarrow> mvalue option" where
  "saved C nk u coll d f = fold (\<lambda>o1 f. f(copyKey C nk u coll (cpName o1) \<mapsto> MObject o1)) (dlPut d)
    (fold (\<lambda>n f. f(copyKey C nk u coll n := None)) (dlGone d)
      (if dlWhole d then (\<lambda>k. if prefix (objectsKey C nk u coll) k then None else f k) else f))"

lemma fold_relate: "(\<And>x f. x \<in> set xs \<Longrightarrow> P f \<Longrightarrow> P (g x f) \<and> V (g x f) = h x (V f)) \<Longrightarrow> P f \<Longrightarrow> P (fold g xs f) \<and> V (fold g xs f) = fold h xs (V f)"
  by (induction xs arbitrary: f) auto

lemma saved_copy:
  assumes "names_apart C nk N" and "user_key u" and "coll \<in> N" and "names_in N f"
    and "cpName ` set (dlPut d) \<subseteq> N" and "set (dlGone d) \<subseteq> N"
  shows "names_in N (saved C nk u coll d f) \<and> copy_in C nk (saved C nk u coll d f) u coll = apply_delta d (copy_in C nk f u coll)"
proof -
  let ?f = "if dlWhole d then (\<lambda>k. if prefix (objectsKey C nk u coll) k then None else f k) else f"
  let ?g = "fold (\<lambda>n f. f(copyKey C nk u coll n := None)) (dlGone d) ?f"
  have f: "names_in N ?f" "copy_in C nk ?f u coll = (if dlWhole d then (\<lambda>_. None) else copy_in C nk f u coll)"
    using assms(4) by (auto simp: copy_in_def copyKey_def fun_eq_iff)
  have g: "names_in N ?g \<and> copy_in C nk ?g u coll = fold (\<lambda>n f. f(n := None)) (dlGone d) (copy_in C nk ?f u coll)"
  proof (rule fold_relate [where V = "\<lambda>f. copy_in C nk f u coll" and P = "names_in N"])
    fix n f assume "n \<in> set (dlGone d)" and f: "names_in N f"
    then show "names_in N (f(copyKey C nk u coll n := None)) \<and>
        copy_in C nk (f(copyKey C nk u coll n := None)) u coll = (copy_in C nk f u coll)(n := None)"
      using copy_in_upd(2) [OF assms(1-3) f, of n] assms(6) names_in_upd(1) [OF f] by blast
  qed (rule f(1))
  have "names_in N (saved C nk u coll d f) \<and> copy_in C nk (saved C nk u coll d f) u coll = fold (\<lambda>o1 f. f(cpName o1 := Some o1)) (dlPut d) (copy_in C nk ?g u coll)"
    unfolding saved_def
  proof (rule fold_relate [where V = "\<lambda>f. copy_in C nk f u coll" and P = "names_in N"])
    fix o1 f assume "o1 \<in> set (dlPut d)" and f: "names_in N f"
    then show "names_in N (f(copyKey C nk u coll (cpName o1) \<mapsto> MObject o1)) \<and>
        copy_in C nk (f(copyKey C nk u coll (cpName o1) \<mapsto> MObject o1)) u coll = (copy_in C nk f u coll)(cpName o1 := Some o1)"
      using copy_in_upd(1) [OF assms(1-3) f, of o1] assms(5) names_in_upd(3) [OF f] by blast
  qed (use g in blast)
  then show ?thesis using f(2) g by (simp add: apply_delta_def)
qed

lemma saved_elsewhere:
  assumes "\<And>n. copyKey C nk u coll n \<noteq> k" and "\<not> prefix (objectsKey C nk u coll) k"
  shows "saved C nk u coll d f k = f k"
proof -
  have "fold (\<lambda>n f. f(copyKey C nk u coll n := None)) ns f k = f k" for ns and f :: "string \<Rightarrow> mvalue option"
    using assms(1) by (induction ns arbitrary: f) (simp_all, metis fun_upd_other)
  moreover have "fold (\<lambda>o1 f. f(copyKey C nk u coll (cpName o1) \<mapsto> MObject o1)) os f k = f k" for os f
    using assms(1) by (induction os arbitrary: f) (simp_all, metis fun_upd_other)
  ultimately show ?thesis using assms(2) by (cases "dlWhole d") (simp_all add: saved_def)
qed

end
