(* ===== verification/Mirror_Sync.thy ===== *)
theory Mirror_Sync
  imports Dav_Mirror
begin

text \<open>
  What the operations of the mirror do to its readers and to its file: which changes a sync under way does not
  notice, how a counted write makes one give up, and what a drop, a saved delta, an own write and a move under
  another key make of each copy. \<open>Mirror_Run\<close> puts them together.
\<close>

datatype phase = Started | Holding mirrored | Pulled mirrored delta | Finished bool

record 'o job =
  jUser :: string
  jColl :: string
  jReader :: nat
  jOut :: 'o
  jWritten :: "64 word"
  jPhase :: phase

type_synonym ('o, 'w) mstate = "'o mirror \<times> 'w \<times> 'o job list"

definition held_of :: "crypto \<Rightarrow> 'o mirror \<Rightarrow> string \<Rightarrow> string \<Rightarrow> mirrored option" where
  "held_of C m u coll = held_in C (mNames m) (plain (mDB m)) u coll"

definition copy_of :: "crypto \<Rightarrow> 'o mirror \<Rightarrow> string \<Rightarrow> string \<Rightarrow> string \<Rightarrow> copied option" where
  "copy_of C m u coll = copy_in C (mNames m) (plain (mDB m)) u coll"

text \<open>The job's result would be saved: its reader is still the user's, and nothing was written since it began.\<close>

definition current :: "'o mirror \<Rightarrow> 'o job \<Rightarrow> bool" where
  "current m j \<longleftrightarrow> map_of (mReaders m) (jUser j) = Some (jReader j) \<and> mcWrites (coll_at (jReader j) (jColl j) m) = jWritten j"

definition idle :: "'o mirror \<Rightarrow> 'o job list \<Rightarrow> string \<Rightarrow> string \<Rightarrow> bool" where
  "idle m js u coll \<longleftrightarrow> (\<forall>j \<in> set js. jUser j = u \<and> jColl j = coll \<longrightarrow> \<not> current m j)"

subsection \<open>Readers and counts\<close>

definition readers_ok :: "'o mirror \<Rightarrow> bool" where
  "readers_ok m \<longleftrightarrow> (\<forall>u r. map_of (mReaders m) u = Some r \<longrightarrow> r < length (mHeap m) \<and> (\<forall>u'. map_of (mReaders m) u' = Some r \<longrightarrow> u' = u))"

definition job_ok :: "string set \<Rightarrow> 'o mirror \<Rightarrow> 'o job \<Rightarrow> bool" where
  "job_ok N m j \<longleftrightarrow> user_key (jUser j) \<and> jColl j \<in> N \<and> jReader j < length (mHeap m) \<and>
     (\<forall>u. map_of (mReaders m) u = Some (jReader j) \<longrightarrow> u = jUser j) \<and>
     mcSyncing (coll_at (jReader j) (jColl j) m) \<and> jWritten j \<le> mcWrites (coll_at (jReader j) (jColl j) m)"

definition jobs_ok :: "string set \<Rightarrow> 'o mirror \<Rightarrow> 'o job list \<Rightarrow> bool" where
  "jobs_ok N m js \<longleftrightarrow> distinct (map (\<lambda>j. (jReader j, jColl j)) js) \<and> (\<forall>j \<in> set js. job_ok N m j)"

text \<open>A change of readers and collections that no job notices.\<close>

definition mild :: "string set \<Rightarrow> 'o job list \<Rightarrow> 'o mirror \<Rightarrow> 'o mirror \<Rightarrow> bool" where
  "mild N js m m' \<longleftrightarrow> readers_ok m' \<and> jobs_ok N m' js \<and> mNames m' = mNames m \<and> mDB m' = mDB m \<and> (\<forall>j \<in> set js. current m' j \<longrightarrow> current m j)"

lemma mild_refl: "readers_ok m \<Longrightarrow> jobs_ok N m js \<Longrightarrow> mild N js m m"
  by (simp add: mild_def)

lemma mild_trans: "mild N js m m1 \<Longrightarrow> mild N js m1 m2 \<Longrightarrow> mild N js m m2"
  by (simp add: mild_def)

lemma mild_keeps: "mild N js m m' \<Longrightarrow> readers_ok m' \<and> jobs_ok N m' js"
  by (simp add: mild_def)

lemma coll_at_set [simp]:
  assumes "r < length (mHeap m)"
  shows "coll_at r' p' (set_coll r p f m) = (if r' = r \<and> p' = p then f (coll_at r p m) else coll_at r' p' m)"
  using assms by (cases "r' = r") (auto simp: coll_at_def set_coll_def reader_coll_def split: option.split)

lemma set_coll_rest [simp]:
  "mReaders (set_coll r p f m) = mReaders m" "mDB (set_coll r p f m) = mDB m" "mNames (set_coll r p f m) = mNames m"
  "length (mHeap (set_coll r p f m)) = length (mHeap m)"
  by (simp_all add: set_coll_def split: prod.split)

lemma coll_at_cong: "mHeap m' ! r = mHeap m ! r \<Longrightarrow> coll_at r p m' = coll_at r p m"
  by (simp add: coll_at_def)

lemma mild_set_coll:
  assumes "readers_ok m" and "jobs_ok N m js" and "r < length (mHeap m)"
    and "mcSyncing (coll_at r p m) \<longrightarrow> mcSyncing (f (coll_at r p m))" and "mcWrites (coll_at r p m) \<le> mcWrites (f (coll_at r p m))"
  shows "mild N js m (set_coll r p f m)"
proof -
  let ?m = "set_coll r p f m"
  have up: "mcWrites (coll_at r' p' m) \<le> mcWrites (coll_at r' p' ?m)" and sy: "mcSyncing (coll_at r' p' m) \<Longrightarrow> mcSyncing (coll_at r' p' ?m)" for r' p'
    using assms(3-5) by auto
  have job: "job_ok N ?m j" if "job_ok N m j" for j
    using that sy order_trans [OF _ up] by (simp add: job_ok_def)
  have cur: "current m j" if "job_ok N m j" "current ?m j" for j
    using that up [of "jReader j" "jColl j"] by (auto simp: job_ok_def current_def intro: antisym)
  have "readers_ok ?m" using assms(1) unfolding readers_ok_def set_coll_rest .
  then show ?thesis using assms(2) job cur by (simp add: mild_def jobs_ok_def)
qed

lemma mirror_reader_cases:
  assumes "mirror_reader u m = (r, m')"
  obtains (known_user) "map_of (mReaders m) u = Some r" "m' = m"
  | (new_user) "map_of (mReaders m) u = None" "r = length (mHeap m)"
      "m' = m\<lparr>mHeap := mHeap m @ [new_reader], mReaders := (u, length (mHeap m)) # mReaders m\<rparr>"
proof (cases "map_of (mReaders m) u")
  case None
  then have "(r, m') = (length (mHeap m), m\<lparr>mHeap := mHeap m @ [new_reader], mReaders := (u, length (mHeap m)) # mReaders m\<rparr>)"
    unfolding assms [symmetric] mirror_reader_def by (simp only: option.case)
  then show thesis by (elim Pair_inject) (rule new_user [OF None])
next
  case (Some s)
  then have "(r, m') = (s, m)" unfolding assms [symmetric] mirror_reader_def by (simp only: option.case)
  then show thesis using Some by (elim Pair_inject) (rule known_user, simp_all only:)
qed

lemma mirror_reader_found:
  assumes "mirror_reader u m = (r, m')"
  shows "map_of (mReaders m') u = Some r" and "\<forall>u'. u' \<noteq> u \<longrightarrow> map_of (mReaders m') u' = map_of (mReaders m) u'"
    and "mNames m' = mNames m" and "mDB m' = mDB m" and "mRing m' = mRing m"
proof -
  have "map_of (mReaders m') u = Some r \<and> (\<forall>u'. u' \<noteq> u \<longrightarrow> map_of (mReaders m') u' = map_of (mReaders m) u') \<and>
      mNames m' = mNames m \<and> mDB m' = mDB m \<and> mRing m' = mRing m"
    using assms
  proof (cases rule: mirror_reader_cases)
    case new_user
    show ?thesis unfolding new_user(2,3) by simp
  qed simp
  then show "map_of (mReaders m') u = Some r" and "\<forall>u'. u' \<noteq> u \<longrightarrow> map_of (mReaders m') u' = map_of (mReaders m) u'"
    and "mNames m' = mNames m" and "mDB m' = mDB m" and "mRing m' = mRing m" by blast+
qed

lemma mirror_reader_mild:
  assumes "readers_ok m" and "jobs_ok N m js" and "mirror_reader u m = (r, m')"
  shows "mild N js m m'" and "r < length (mHeap m')"
proof -
  have "mild N js m m' \<and> r < length (mHeap m')"
    using assms(3)
  proof (cases rule: mirror_reader_cases)
    case new_user
    note m' = new_user(3) and r = new_user(2)
    have c: "coll_at a p m' = coll_at a p m" if "a < length (mHeap m)" for a p
      using that by (intro coll_at_cong) (simp add: m' nth_append)
    have look: "map_of (mReaders m') x = (if x = u then Some (length (mHeap m)) else map_of (mReaders m) x)" for x by (simp add: m')
    have len: "length (mHeap m') = Suc (length (mHeap m))" by (simp add: m')
    have old: "s < length (mHeap m)" if "map_of (mReaders m) x = Some s" for x s using assms(1) that by (simp add: readers_ok_def)
    have one: "x = y" if "map_of (mReaders m) x = Some s" "map_of (mReaders m) y = Some s" for x y s
      using assms(1) that unfolding readers_ok_def by blast
    have "readers_ok m'" unfolding readers_ok_def look len using old one by (auto dest: old split: if_splits)
    moreover have job: "job_ok N m j" if "j \<in> set js" for j using assms(2) that by (simp add: jobs_ok_def)
    moreover have "job_ok N m' j" if "j \<in> set js" for j using job [OF that] c by (auto simp: job_ok_def look len split: if_splits)
    moreover have "current m j" if "j \<in> set js" "current m' j" for j
      using that(2) job [OF that(1)] c by (auto simp: current_def job_ok_def look split: if_splits)
    moreover have "distinct (map (\<lambda>j. (jReader j, jColl j)) js)" using assms(2) by (simp add: jobs_ok_def)
    ultimately have "mild N js m m'" unfolding mild_def jobs_ok_def using mirror_reader_found(3,4) [OF assms(3)] by blast
    then show ?thesis by (simp add: len r)
  next
    case known_user
    then show ?thesis using assms(1,2) by (auto simp: readers_ok_def intro: mild_refl)
  qed
  then show "mild N js m m'" and "r < length (mHeap m')" by auto
qed

lemma on_coll_mild:
  assumes "readers_ok m" and "jobs_ok N m js" and "on_coll u p f m = (c, m')"
    and "\<And>r m1. mirror_reader u m = (r, m1) \<Longrightarrow> (mcSyncing (coll_at r p m1) \<longrightarrow> mcSyncing (f (coll_at r p m1))) \<and> mcWrites (coll_at r p m1) \<le> mcWrites (f (coll_at r p m1))"
  shows "mild N js m m'"
proof -
  obtain r m1 where r: "mirror_reader u m = (r, m1)" by force
  note k = mirror_reader_mild [OF assms(1,2) r]
  have "m' = set_coll r p f m1" using assms(3) r by (simp add: on_coll_def)
  moreover have "mild N js m1 (set_coll r p f m1)"
    using mild_keeps [OF k(1)] k(2) assms(4) [OF r] by (intro mild_set_coll) auto
  ultimately show ?thesis using k(1) by (auto intro: mild_trans)
qed

text \<open>No count of writes has reached \<open>B\<close>.\<close>

definition room :: "nat \<Rightarrow> 'o mirror \<Rightarrow> bool" where
  "room B m \<longleftrightarrow> (\<forall>rd \<in> set (mHeap m). \<forall>p. unat (mcWrites (fst (reader_coll p rd))) < B)"

lemma room_reader: "room B m \<Longrightarrow> 0 < B \<Longrightarrow> mirror_reader u m = (r, m') \<Longrightarrow> room B m'"
  by (cases rule: mirror_reader_cases, assumption) (auto simp: room_def new_reader_def reader_coll_def zero_coll_def)

lemma room_at: "room B m \<Longrightarrow> r < length (mHeap m) \<Longrightarrow> unat (mcWrites (coll_at r p m)) < B"
  by (simp add: room_def coll_at_def)

lemma room_set_coll:
  assumes "room B m" and "r < length (mHeap m)" and "\<And>c. unat (mcWrites (f c)) \<le> Suc (unat (mcWrites c))"
  shows "room (Suc B) (set_coll r p f m)"
proof -
  have le: "unat (mcWrites (f (coll_at r p m))) \<le> B" using assms(3) [of "coll_at r p m"] room_at [OF assms(1,2), of p] by linarith
  have "unat (mcWrites (coll_at r' p' (set_coll r p f m))) < Suc B" if "r' < length (mHeap m)" for r' p'
    using le room_at [OF assms(1) that, of p'] by (simp add: assms(2))
  then show ?thesis by (auto simp: room_def in_set_conv_nth coll_at_def)
qed

lemma unat_Suc_le: "unat (w + 1 :: 64 word) \<le> Suc (unat w)"
  by (metis Suc_eq_plus1 le_refl mod_less_eq_dividend unat_1 unat_add_lem unat_word_ariths(1))

lemma word_Suc_less:
  assumes "unat w < 2 ^ 64 - 1"
  shows "(w :: 64 word) < w + 1"
proof -
  have "unat w + unat (1 :: 64 word) < 2 ^ LENGTH(64)" using assms by simp
  then have "unat (w + 1) = unat w + unat (1 :: 64 word)" using unat_add_lem by blast
  then show ?thesis by (simp add: word_less_nat_alt)
qed

lemma count_write_idle:
  assumes "readers_ok m" and "jobs_ok N m js" and "room B m" and "0 < B" and "B < 2 ^ 64"
  shows "mild N js m (count_write u coll m)" and "idle (count_write u coll m) js u coll" and "room (Suc B) (count_write u coll m)"
proof -
  obtain r m1 where r: "mirror_reader u m = (r, m1)" by force
  let ?f = "\<lambda>c. c\<lparr>mcWrites := mcWrites c + 1\<rparr>"
  have m': "count_write u coll m = set_coll r coll ?f m1" by (simp add: count_write_def on_coll_def r)
  note k = mirror_reader_mild [OF assms(1,2) r]
  have ok: "readers_ok m1" "jobs_ok N m1 js" using mild_keeps [OF k(1)] by auto
  have rm: "room B m1" by (rule room_reader [OF assms(3,4) r])
  have "unat (mcWrites (coll_at r coll m1)) < 2 ^ 64 - 1" using room_at [OF rm k(2), of coll] assms(5) by linarith
  then have less: "mcWrites (coll_at r coll m1) < mcWrites (coll_at r coll m1) + 1"
    by (rule word_Suc_less)
  have "mild N js m1 (set_coll r coll ?f m1)"
    by (rule mild_set_coll [OF ok k(2)]) (use less in \<open>simp_all add: less_imp_le\<close>)
  then show "mild N js m (count_write u coll m)" unfolding m' by (rule mild_trans [OF k(1)])
  show "idle (count_write u coll m) js u coll"
    unfolding idle_def
  proof (intro ballI impI notI)
    fix j assume j: "j \<in> set js" "jUser j = u \<and> jColl j = coll" "current (count_write u coll m) j"
    then have "jReader j = r" using mirror_reader_found(1) [OF r] by (simp add: current_def m')
    then have "mcWrites (coll_at r coll m1) + 1 = jWritten j" using j k(2) by (simp add: current_def m')
    moreover have "jWritten j \<le> mcWrites (coll_at r coll m1)" using ok(2) j(1,2) \<open>jReader j = r\<close> by (auto simp: jobs_ok_def job_ok_def)
    ultimately show False using less by simp
  qed
  show "room (Suc B) (count_write u coll m)"
    unfolding m' by (rule room_set_coll [OF rm k(2)]) (simp add: unat_Suc_le)
qed

subsection \<open>The file under the readers\<close>

definition same_readers :: "'o mirror \<Rightarrow> 'o mirror \<Rightarrow> bool" where
  "same_readers m m' \<longleftrightarrow> mNames m' = mNames m \<and> mReaders m' = mReaders m \<and> mHeap m' = mHeap m"

lemma same_readers_simps:
  assumes "same_readers m m'"
  shows "readers_ok m' = readers_ok m" and "jobs_ok N m' js = jobs_ok N m js" and "current m' j = current m j" and "room B m' = room B m" and "idle m' js u coll = idle m js u coll"
  using assms by (simp_all add: same_readers_def readers_ok_def jobs_ok_def job_ok_def current_def coll_at_def room_def idle_def)

lemma mirror_View_same: "mirror_View fn m = (res, m') \<Longrightarrow> same_readers m m' \<and> mDB m' = mDB m"
  by (auto simp: mirror_View_def same_readers_def split: prod.splits)

lemma held_copy_same: "held_copy C u coll now m = (res, m') \<Longrightarrow> same_readers m m' \<and> mDB m' = mDB m"
  unfolding held_copy_def by (rule mirror_View_same)

lemma mirror_Update_cases:
  assumes "mirror_Update fn m = (res, m')"
  obtains (fails) e where "res = Inl e" "mDB m' = mDB m" "same_readers m m'"
  | (commits) a r where "res = Inr a" "fn (mDB m, mRing m) = (Inr a, mDB m', r)" "same_readers m m'"
  using assms by (auto simp: mirror_Update_def same_readers_def split: prod.splits sum.splits)

lemma mirror_change_cases:
  assumes "mirror_change C u coll fn m = (res, m')"
  obtains (fails) e where "res = Inl e" "mDB m' = mDB m" "same_readers m m'"
  | (commits) r where "res = Inr ()" "fn (mDB m, mRing m) = (Inr (), mDB m', r)" "same_readers m m'"
proof -
  obtain m1 where m1: "mirror_Update fn m = (res, m1)" "m' = m1\<lparr>mHot := change_done (objectsKey C (mNames m) u coll) (mHot m1)\<rparr>"
    using assms by (auto simp: mirror_change_def split: prod.splits)
  show thesis
    using m1(1)
  proof (cases rule: mirror_Update_cases)
    case (fails e)
    then show thesis using that(1) m1(2) by (auto simp: same_readers_def)
  next
    case (commits a r)
    then show thesis using that(2) m1(2) by (auto simp: same_readers_def)
  qed
qed

lemma held_copy_held:
  assumes "held_copy C u coll now m = (Inr (Some h), m')" and "mrToken h \<noteq> []"
  shows "held_of C m u coll = Some h"
proof -
  obtain v x r where v: "kv_get (heldKey C (mNames m) u coll) (mDB m) = Some v" "h = as_mirrored x"
    "Ring_Open C (accountOf (heldKey C (mNames m) u coll)) mirror_owner v now (mRing m) = (Inr x, r)"
    using assms(1) by (auto simp: held_copy_def mirror_View_def mirror_open_def bindT_returns returnT_def split: option.splits prod.splits)
  have "x = MHeld h" using v(2) assms(2) by (cases x) (auto simp: as_mirrored_def zero_mirrored_def)
  then show ?thesis using v(1) Ring_Open_payload [OF v(3)] by (simp add: held_of_def held_in_def plain_def)
qed

text \<open>A change of the file that leaves every copy but one as it was.\<close>

definition file_ok :: "string set \<Rightarrow> 'o mirror \<Rightarrow> bool" where
  "file_ok N m \<longleftrightarrow> ordered_tx (mDB m) \<and> names_in N (plain (mDB m))"

definition only_at :: "crypto \<Rightarrow> string set \<Rightarrow> string \<Rightarrow> string \<Rightarrow> 'o mirror \<Rightarrow> 'o mirror \<Rightarrow> bool" where
  "only_at C N u coll m m' \<longleftrightarrow> same_readers m m' \<and> file_ok N m' \<and> (\<forall>u' coll'. user_key u' \<longrightarrow> coll' \<in> N \<longrightarrow> (u', coll') \<noteq> (u, coll) \<longrightarrow>
     held_of C m' u' coll' = held_of C m u' coll' \<and> copy_of C m' u' coll' = copy_of C m u' coll')"

lemma only_at_same: "same_readers m m' \<Longrightarrow> mDB m' = mDB m \<Longrightarrow> file_ok N m \<Longrightarrow> only_at C N u coll m m'"
  by (simp add: only_at_def same_readers_def file_ok_def held_of_def copy_of_def)

lemma only_atI:
  assumes "names_apart C (mNames m) N" and "user_key u" and "coll \<in> N" and "same_readers m m'" and "file_ok N m'"
    and "\<And>k. k \<noteq> heldKey C (mNames m) u coll \<Longrightarrow> \<not> prefix (objectsKey C (mNames m) u coll) k \<Longrightarrow> plain (mDB m') k = plain (mDB m) k"
  shows "only_at C N u coll m m'"
proof -
  have nk: "mNames m' = mNames m" using assms(4) by (simp add: same_readers_def)
  have "held_of C m' u' coll' = held_of C m u' coll' \<and> copy_of C m' u' coll' = copy_of C m u' coll'"
    if h: "user_key u'" "coll' \<in> N" "(u', coll') \<noteq> (u, coll)" for u' coll'
  proof
    note k = mirror_keys [OF assms(1,2) h(1) assms(3) h(2)]
    show "held_of C m' u' coll' = held_of C m u' coll'"
      unfolding held_of_def nk by (rule held_in_cong, rule assms(6)) (use k h(3) in \<open>auto simp: mirror_key_kinds\<close>)
    show "copy_of C m' u' coll' = copy_of C m u' coll'"
      unfolding copy_of_def nk by (rule copy_in_cong, rule assms(6)) (use k h(3) in \<open>auto simp: mirror_key_kinds\<close>)
  qed
  then show ?thesis using assms(4,5) by (simp add: only_at_def)
qed

lemma drop_file:
  assumes "names_apart C (mNames m) N" and "user_key u" and "coll \<in> N" and "file_ok N m" and "mirror_drop C u coll m = (res, m')"
  shows "only_at C N u coll m m' \<and> (isl res \<and> mDB m' = mDB m \<or> held_of C m' u coll = None \<and> copy_of C m' u coll = (\<lambda>_. None))"
  using assms(5) unfolding mirror_drop_def
proof (cases rule: mirror_change_cases)
  case (fails e)
  then show ?thesis using assms(4) by (simp add: only_at_same)
next
  case (commits r)
  obtain t1 r1 where 1: "mtx_delete (heldKey C (mNames m) u coll) (mDB m, mRing m) = (Inr (), t1, r1)"
    and 2: "mtx_delete_under (objectsKey C (mNames m) u coll) (t1, r1) = (Inr (), mDB m', r)"
    using commits(2) by (auto simp: bindT_returns)
  have "ordered_tx (mDB m)" using assms(4) by (simp add: file_ok_def)
  from mtx_delete_returns [OF 1 this] mtx_delete_under_returns [OF 2]
  have p: "ordered_tx (mDB m')" "plain (mDB m') = (\<lambda>k. if prefix (objectsKey C (mNames m) u coll) k then None else ((plain (mDB m))(heldKey C (mNames m) u coll := None)) k)"
    by auto
  have "names_in N (plain (mDB m'))" unfolding p(2) using assms(4) by (intro names_in_upd) (simp add: file_ok_def)
  then have "only_at C N u coll m m'"
    by (intro only_atI [OF assms(1-3) commits(3)]) (simp_all add: p file_ok_def)
  moreover have "held_of C m' u coll = None \<and> copy_of C m' u coll = (\<lambda>_. None)"
    using commits(3) by (simp add: held_of_def held_in_def copy_of_def copy_in_def copyKey_def p same_readers_def fun_eq_iff)
  ultimately show ?thesis by simp
qed

lemma save_file:
  assumes "names_apart C (mNames m) N" and "user_key u" and "coll \<in> N" and "file_ok N m"
    and "cpName ` set (dlPut d) \<subseteq> N" and "set (dlGone d) \<subseteq> N"
    and "mirror_change C u coll (save_delta C (mNames m) u coll h d now) m = (res, m')"
  shows "only_at C N u coll m m' \<and> (isl res \<and> mDB m' = mDB m \<or> held_of C m' u coll = Some h \<and> copy_of C m' u coll = apply_delta d (copy_of C m u coll))"
  using assms(7)
proof (cases rule: mirror_change_cases)
  case (fails e)
  then show ?thesis using assms(4) by (simp add: only_at_same)
next
  case (commits r)
  have nk: "mNames m' = mNames m" using commits(3) by (simp add: same_readers_def)
  have ok: "ordered_tx (mDB m)" "names_in N (plain (mDB m))" using assms(4) by (auto simp: file_ok_def)
  from save_delta_returns [OF commits(2) ok(1)] have o: "ordered_tx (mDB m')"
    and p: "plain (mDB m') = (saved C (mNames m) u coll d (plain (mDB m)))(heldKey C (mNames m) u coll \<mapsto> MHeld h)"
    by (auto simp: saved_def)
  note c = saved_copy [OF assms(1-3) ok(2) assms(5,6)]
  have "only_at C N u coll m m'"
  proof (rule only_atI [OF assms(1-3) commits(3)])
    show "file_ok N m'" using c by (simp add: file_ok_def o p)
    fix k assume k: "k \<noteq> heldKey C (mNames m) u coll" "\<not> prefix (objectsKey C (mNames m) u coll) k"
    have "copyKey C (mNames m) u coll n \<noteq> k" for n using k(2) by (auto simp: copyKey_def)
    then show "plain (mDB m') k = plain (mDB m) k" using k by (simp add: p saved_elsewhere)
  qed
  moreover have "held_of C m' u coll = Some h" by (simp add: held_of_def held_in_def p nk)
  moreover have "copy_of C m' u coll = apply_delta d (copy_of C m u coll)" using c by (simp add: copy_of_def p nk)
  ultimately show ?thesis by simp
qed

text \<open>What a successful write leaves under the object's name.\<close>

definition left_by :: "written \<Rightarrow> copied option" where
  "left_by q = (if wrMethod q = ''DELETE'' then None
     else Some \<lparr>cpName = snd (path_Split (wrPath q)), cpETag = wrETag q, cpData = wrBody q\<rparr>)"

lemma wrote_object_returns:
  assumes "wrote_object C u coll name h q now nk (t, r) = (Inr x, t', r')" and "ordered_tx t" and "path_Split (wrPath q) = (coll, name)"
  shows "ordered_tx t' \<and> (\<exists>h'. mrToken h' = mrToken h \<and> plain t' = (if wrStatus q \<ge> 300 then plain t
    else (plain t)(copyKey C nk u coll name := map_option MObject (left_by q)))(heldKey C nk u coll \<mapsto> MHeld h'))"
proof (cases "wrStatus q \<ge> 300")
  case True
  then have "mirror_put C (heldKey C nk u coll) (MHeld (h\<lparr>mrSynced := 0\<rparr>)) now (t, r) = (Inr x, t', r')"
    using assms(1) by (simp add: wrote_object_def Let_def)
  from mirror_put_returns [OF this assms(2)] True show ?thesis by (intro conjI exI [of _ "h\<lparr>mrSynced := 0\<rparr>"]) simp_all
next
  case small: False
  have then_held: ?thesis
    if "ordered_tx t1" "plain t1 = (plain t)(copyKey C nk u coll name := map_option MObject (left_by q))"
      "mirror_put C (heldKey C nk u coll) (MHeld h1) now (t1, r1) = (Inr x, t', r')" "mrToken h1 = mrToken h" for t1 r1 h1
    using mirror_put_returns [OF that(3,1)] that(2,4) small by (intro conjI exI [of _ h1]) simp_all
  show ?thesis
  proof (cases "wrMethod q = ''DELETE''")
    case True
    then obtain y t1 r1 where 1: "mtx_delete (copyKey C nk u coll name) (t, r) = (Inr y, t1, r1)" and 2: "mirror_put C (heldKey C nk u coll) (MHeld h) now (t1, r1) = (Inr x, t', r')"
      using assms(1) small by (auto simp: wrote_object_def Let_def bindT_returns copyKey_def)
    from mtx_delete_returns [OF 1 assms(2)] True show ?thesis by (intro then_held [OF _ _ 2]) (simp_all add: left_by_def)
  next
    case False
    obtain y t1 r1 where 1: "mirror_put C (copyKey C nk u coll name) (MObject \<lparr>cpName = name, cpETag = wrETag q, cpData = wrBody q\<rparr>) now (t, r) = (Inr y, t1, r1)"
      and 2: "mirror_put C (heldKey C nk u coll) (MHeld (if wrETag q = [] then h\<lparr>mrSynced := 0\<rparr> else h)) now (t1, r1) = (Inr x, t', r')"
      using assms(1) small False by (auto simp: wrote_object_def Let_def bindT_returns copyKey_def)
    from mirror_put_returns [OF 1 assms(2)] False assms(3) show ?thesis by (intro then_held [OF _ _ 2]) (simp_all add: left_by_def)
  qed
qed

lemma wrote_object_file:
  assumes "names_apart C (mNames m) N" and "user_key u" and "coll \<in> N" and "file_ok N m" and "name \<in> N" and "path_Split (wrPath q) = (coll, name)"
    and "mirror_change C u coll (wrote_object C u coll name h q now (mNames m)) m = (res, m')"
  shows "only_at C N u coll m m' \<and> (mDB m' = mDB m \<or> (\<exists>h'. held_of C m' u coll = Some h' \<and> mrToken h' = mrToken h) \<and>
    copy_of C m' u coll = (if wrStatus q \<ge> 300 then copy_of C m u coll else (copy_of C m u coll)(name := left_by q)))"
  using assms(7)
proof (cases rule: mirror_change_cases)
  case (fails e)
  then show ?thesis using assms(4) by (simp add: only_at_same)
next
  case (commits r)
  have nk: "mNames m' = mNames m" using commits(3) by (simp add: same_readers_def)
  let ?k = "copyKey C (mNames m) u coll name"
  have ok: "ordered_tx (mDB m)" "names_in N (plain (mDB m))" using assms(4) by (auto simp: file_ok_def)
  from wrote_object_returns [OF commits(2) ok(1) assms(6)] obtain h' where h': "mrToken h' = mrToken h" and o: "ordered_tx (mDB m')"
    and p: "plain (mDB m') = (if wrStatus q \<ge> 300 then plain (mDB m) else (plain (mDB m))(?k := map_option MObject (left_by q)))(heldKey C (mNames m) u coll \<mapsto> MHeld h')"
    by blast
  have lf: "left_by q = Some o1 \<Longrightarrow> cpName o1 = name" for o1 using assms(6) by (auto simp: left_by_def split: if_splits)
  have n: "names_in N (plain (mDB m'))"
    unfolding p using ok(2) lf assms(5) by (cases "left_by q") (auto intro!: names_in_upd)
  have "only_at C N u coll m m'"
    by (rule only_atI [OF assms(1-3) commits(3)]) (use n o in \<open>auto simp: file_ok_def p copyKey_def\<close>)
  moreover have "held_of C m' u coll = Some h'" by (simp add: held_of_def held_in_def p nk)
  moreover have "copy_of C m' u coll = (if wrStatus q \<ge> 300 then copy_of C m u coll else (copy_of C m u coll)(name := left_by q))"
  proof (cases "left_by q")
    case None
    then show ?thesis using copy_in_upd(2) [OF assms(1-3) ok(2) assms(5)] by (simp add: copy_of_def p nk)
  next
    case (Some o1)
    then show ?thesis using copy_in_upd(1) [OF assms(1-3) ok(2), of o1] lf [OF Some] assms(5) by (simp add: copy_of_def p nk)
  qed
  ultimately show ?thesis using h' by auto
qed

text \<open>Moving copies under another key changes none.\<close>

lemma reseal_one_returns:
  assumes "reseal_one C name key now e (t, r) = (Inr x, t', r')" and "ordered_tx t" and "plain t (fst e) = payload (snd e)"
  shows "ordered_tx t' \<and> plain t' = plain t"
proof -
  obtain b r1 where st: "Stale C name mirror_owner (snd e) now r = (b, r1)" by force
  show ?thesis
  proof (cases b)
    case True
    obtain raw r2 where op: "Ring_Open C name mirror_owner (snd e) now r1 = (Inr raw, r2)" and pu: "kv_put (fst e) (Seal key raw) t = Inr t'"
      using assms(1) st True by (auto simp: reseal_one_def split: prod.splits sum.splits)
    have "plain t' = (plain t)(fst e \<mapsto> raw)" using bolt.put_get [OF assms(2) pu] by (auto simp: plain_def fun_eq_iff)
    then show ?thesis using bolt.put_inv [OF assms(2) pu] Ring_Open_payload [OF op] assms(3) by (simp add: fun_upd_idem)
  qed (use assms(1,2) st in \<open>simp add: reseal_one_def\<close>)
qed

lemma reseal_each_returns:
  "forT (reseal_one C name key now) es (t, r) = (Inr x, t', r') \<Longrightarrow> ordered_tx t \<Longrightarrow> (\<And>e. e \<in> set es \<Longrightarrow> plain t (fst e) = payload (snd e)) \<Longrightarrow>
     ordered_tx t' \<and> plain t' = plain t"
proof (induction es arbitrary: t r)
  case (Cons e es)
  obtain y t1 r1 where 1: "reseal_one C name key now e (t, r) = (Inr y, t1, r1)" and 2: "forT (reseal_one C name key now) es (t1, r1) = (Inr x, t', r')"
    using Cons.prems(1) by (auto simp: bindT_returns)
  from reseal_one_returns [OF 1 Cons.prems(2,3)] have "ordered_tx t1 \<and> plain t1 = plain t" by simp
  with Cons.IH [OF 2] Cons.prems(3) show ?case by simp
qed simp

lemma in_update: "e \<in> set (AList.update k v es) \<Longrightarrow> e = (k, v) \<or> e \<in> set es"
  by (induction es) (auto split: if_splits)

lemma reseal_held_returns:
  assumes "reseal_held C name key now held (t, r) = (Inr x, t', r')" and "ordered_tx t"
  shows "ordered_tx t' \<and> plain t' = plain t"
proof -
  let ?hk = "mirror_owner @ ''/held/'' @ held"
  let ?v = "case kv_get ?hk t of None \<Rightarrow> Raw [] | Some v \<Rightarrow> v"
  let ?es = "AList.update ?hk ?v (kv_scan (mirror_owner @ ''/objects/'' @ held @ ''/'') t)"
  have "plain t ?hk = payload ?v" by (auto simp: plain_def payload_def split: option.split)
  moreover have "plain t (fst e) = payload (snd e)" if "e \<in> set (kv_scan p t)" for e p
    using that bolt.scan_iff [OF assms(2), of "fst e" "snd e" p] by (simp add: plain_def)
  moreover have "e \<in> set ?es \<Longrightarrow> e = (?hk, ?v) \<or> e \<in> set (kv_scan (mirror_owner @ ''/objects/'' @ held @ ''/'') t)" for e
    by (rule in_update)
  ultimately have "\<And>e. e \<in> set ?es \<Longrightarrow> plain t (fst e) = payload (snd e)" by fastforce
  then show ?thesis using reseal_each_returns [of C name key now ?es t r x t' r'] assms by (simp add: reseal_held_def Let_def)
qed

lemma match_same: "heldBy name match m = (out, m') \<Longrightarrow> same_readers m m' \<and> mDB m' = mDB m"
  by (auto simp: heldBy_def same_readers_def split: prod.splits)

lemma same_readers_trans: "same_readers m m1 \<Longrightarrow> same_readers m1 m2 \<Longrightarrow> same_readers m m2"
  by (simp add: same_readers_def)

lemma reseal_colls_plain:
  "mirror_each (\<lambda>held. mirror_Update (reseal_held C name key now held)) hs m = (res, m') \<Longrightarrow> ordered_tx (mDB m) \<Longrightarrow>
     same_readers m m' \<and> ordered_tx (mDB m') \<and> plain (mDB m') = plain (mDB m)"
proof (induction hs arbitrary: m)
  case (Cons h hs)
  obtain r1 m1 where u: "mirror_Update (reseal_held C name key now h) m = (r1, m1)" by force
  have 1: "same_readers m m1 \<and> ordered_tx (mDB m1) \<and> plain (mDB m1) = plain (mDB m)"
    using u Cons.prems(2) by (cases rule: mirror_Update_cases) (auto dest: reseal_held_returns)
  show ?case
  proof (cases r1)
    case (Inr y)
    then have "mirror_each (\<lambda>held. mirror_Update (reseal_held C name key now held)) hs m1 = (res, m')" using Cons.prems(1) u by simp
    from Cons.IH [OF this] 1 show ?thesis by (auto intro: same_readers_trans)
  qed (use Cons.prems u 1 in simp)
qed (auto simp: same_readers_def)

lemma Reseal_plain:
  assumes "mirror_Reseal C account now m = (res, m')" and "ordered_tx (mDB m)"
  shows "same_readers m m' \<and> ordered_tx (mDB m') \<and> plain (mDB m') = plain (mDB m)"
proof -
  let ?name = "Names_Of C (mNames m) (ToLower account)"
  obtain k r where f: "For C ?name mirror_owner now (mRing m) = (k, r)" by force
  show ?thesis
  proof (cases k)
    case (Inl e)
    then show ?thesis using assms f by (auto simp: mirror_Reseal_def Let_def same_readers_def)
  next
    case (Inr key)
    obtain stale m1 where h: "heldBy ?name (\<lambda>v. Stale C ?name mirror_owner v now) (m\<lparr>mRing := r\<rparr>) = (stale, m1)" by force
    have 1: "same_readers m m1 \<and> mDB m1 = mDB m" using match_same [OF h] by (auto simp: same_readers_def)
    have "mirror_each (\<lambda>held. mirror_Update (reseal_held C ?name key now held)) stale m1 = (res, m')"
      using assms(1) f Inr h by (simp add: mirror_Reseal_def Let_def)
    from reseal_colls_plain [OF this] 1 assms(2) show ?thesis by (auto intro: same_readers_trans)
  qed
qed

end
