(* ===== verification/Mirror_Run.thy ===== *)
theory Mirror_Run
  imports Mirror_Sync
begin

text \<open>
  The mirror at work: requests of any number of users, syncs, own writes, sign-outs, restarts and moves under
  another key, in every order, against servers that keep the promises of \<open>sync_contract\<close>.

  A step of \<open>mstep\<close> is one of the code's critical sections or one exchange with a server. A sync is a job that
  goes from section to section; its pull is one step, since nothing it reads of the mirror is kept. The last part
  of \<^verbatim>\<open>sync\<close> and \<^verbatim>\<open>wrote\<close> are one step each: both hold \<^verbatim>\<open>saving\<close>. Where the code drops a copy without
  holding \<^verbatim>\<open>saving\<close> or counting a write, the premise is that no sync of that copy would still be saved.
\<close>

subsection \<open>The steps\<close>

text \<open>
  What an own write means on the server: it is an event of the collection's history, with what was sent where the
  server answered with an ETag (RFC 4791 5.3.4). The answer is applied before a later change of the object
  has been synced, and before the write itself has been where the server may have stored something else.
\<close>

definition write_told :: "event list \<Rightarrow> (string \<Rightarrow> nat) \<Rightarrow> string \<Rightarrow> written \<Rightarrow> bool" where
  "write_told es seen_to name q \<longleftrightarrow> (\<exists>x sv. x < length es \<and> es ! x = (name, sv) \<and>
     (seen_to name \<le> x \<or> (wrMethod q = ''DELETE'' \<or> wrETag q \<noteq> []) \<and> sv = left_by q \<and> quiet_between es (Suc x) (seen_to name) name))"

definition write_ok :: "crypto \<Rightarrow> string set \<Rightarrow> (string \<Rightarrow> string \<Rightarrow> 'w \<Rightarrow> event list) \<Rightarrow> (string \<Rightarrow> string \<Rightarrow> string \<Rightarrow> string \<Rightarrow> nat) \<Rightarrow>
    string \<Rightarrow> written \<Rightarrow> 'o mirror \<Rightarrow> 'w \<Rightarrow> 'o job list \<Rightarrow> bool" where
  "write_ok C N events seen_of u q m w js \<longleftrightarrow> (let p = wrPath q in
     if wrMethod q = ''MOVE'' then collectionOf p \<in> N \<and> (\<forall>to. wrDest q = Inr to \<longrightarrow> collectionOf to \<in> N)
     else if suffix ''/'' p \<or> wrMethod q \<noteq> ''PUT'' \<and> wrMethod q \<noteq> ''DELETE''
     then collectionOf p \<in> N \<and> (wrStatus q < 300 \<longrightarrow> idle m js u (collectionOf p))
     else (case path_Split p of (coll, name) \<Rightarrow> coll \<in> N \<and> name \<in> N \<and> (wrStatus q < 300 \<longrightarrow>
       (\<forall>h. held_of C m u coll = Some h \<longrightarrow> mrToken h \<noteq> [] \<longrightarrow> write_told (events u coll w) (seen_of u coll (mrToken h)) name q))))"

text \<open>Histories only grow.\<close>

definition grows :: "(string \<Rightarrow> string \<Rightarrow> 'w \<Rightarrow> event list) \<Rightarrow> 'w \<Rightarrow> 'w \<Rightarrow> bool" where
  "grows events w w' \<longleftrightarrow> (\<forall>u coll. prefix (events u coll w) (events u coll w'))"

text \<open>The copies a lost key's \<open>mirror_Drop\<close> deletes are of known users and collections, none with a sync still to be saved.\<close>

definition drop_ok :: "crypto \<Rightarrow> string set \<Rightarrow> 'o mirror \<Rightarrow> 'o job list \<Rightarrow> string list \<Rightarrow> bool" where
  "drop_ok C N m js lost \<longleftrightarrow> (\<forall>x \<in> set lost. \<exists>u coll. user_key u \<and> coll \<in> N \<and> x = u @ ''/'' @ Names_Of C (mNames m) coll \<and> idle m js u coll)"

inductive mstep :: "crypto \<Rightarrow> string set \<Rightarrow> (string \<Rightarrow> 'o \<Rightarrow> string \<Rightarrow> 'w wire) \<Rightarrow> (string \<Rightarrow> string \<Rightarrow> 'w \<Rightarrow> event list) \<Rightarrow>
    (string \<Rightarrow> string \<Rightarrow> string \<Rightarrow> string \<Rightarrow> nat) \<Rightarrow> ('o, 'w) mstate \<Rightarrow> ('o, 'w) mstate \<Rightarrow> bool"
  for C N net events seen_of where
  world: "grows events w w' \<Longrightarrow> mstep C N net events seen_of (m, w, js) (m, w', js)"
| request: "RoundTrip C who out meth now m = (t, m') \<Longrightarrow> mstep C N net events seen_of (m, w, js) (m', w, js)"
| reads: "ready C u coll now m = (res, m') \<Longrightarrow> mstep C N net events seen_of (m, w, js) (m', w, js)"
| looks: "mirror_objects C sz u coll now m = Some (res, m') \<Longrightarrow> mstep C N net events seen_of (m, w, js) (m', w, js)"
| begins: "u = mirror_user C (mNames m) who \<Longrightarrow> coll \<in> N \<Longrightarrow> start u coll m = (Began r out wr, m') \<Longrightarrow>
    mstep C N net events seen_of (m, w, js) (m', w, \<lparr>jUser = u, jColl = coll, jReader = r, jOut = out, jWritten = wr, jPhase = Started\<rparr> # js)"
| begins_not: "start u coll m = (s, m') \<Longrightarrow> s = UnderWay \<or> s = NotStarted \<Longrightarrow> mstep C N net events seen_of (m, w, js) (m', w, js)"
| has: "j \<in> set js \<Longrightarrow> jPhase j = Started \<Longrightarrow> sync_begin C (jUser j) (jColl j) url now m = (res, m') \<Longrightarrow>
    mstep C N net events seen_of (m, w, js) (m', w, j\<lparr>jPhase := (case res of Inl _ \<Rightarrow> Finished True | Inr h \<Rightarrow> Holding h)\<rparr> # remove1 j js)"
| pulls: "j \<in> set js \<Longrightarrow> jPhase j = Holding h \<Longrightarrow> wire_pull (net (jUser j) (jOut j) (jColl j)) (jColl j) h have w = Some (Inr d, w') \<Longrightarrow> grows events w w' \<Longrightarrow>
    mstep C N net events seen_of (m, w, js) (m, w', j\<lparr>jPhase := Pulled h d\<rparr> # remove1 j js)"
| pull_fails: "j \<in> set js \<Longrightarrow> jPhase j = Holding h \<Longrightarrow> wire_pull (net (jUser j) (jOut j) (jColl j)) (jColl j) h have w = Some (Inl e, w') \<Longrightarrow> grows events w w' \<Longrightarrow>
    HTTPErrorCode e \<noteq> 404 \<Longrightarrow> mstep C N net events seen_of (m, w, js) (m, w', j\<lparr>jPhase := Finished True\<rparr> # remove1 j js)"
| pull_gone: "j \<in> set js \<Longrightarrow> jPhase j = Holding h \<Longrightarrow> wire_pull (net (jUser j) (jOut j) (jColl j)) (jColl j) h have w = Some (Inl e, w') \<Longrightarrow> grows events w w' \<Longrightarrow>
    HTTPErrorCode e = 404 \<Longrightarrow> idle m (remove1 j js) (jUser j) (jColl j) \<Longrightarrow> sync_gone C (jReader j) (jUser j) (jColl j) m = (acct, m') \<Longrightarrow>
    mstep C N net events seen_of (m, w, js) (m', w', j\<lparr>jPhase := Finished True\<rparr> # remove1 j js)"
| saves: "j \<in> set js \<Longrightarrow> jPhase j = Pulled h d \<Longrightarrow> cpName ` set (dlPut d) \<subseteq> N \<Longrightarrow> set (dlGone d) \<subseteq> N \<Longrightarrow>
    sync_save C (jReader j) (jUser j) (jColl j) (jWritten j) h d now m = (res, m') \<Longrightarrow>
    mstep C N net events seen_of (m, w, js) (m', w, j\<lparr>jPhase := Finished (isl res)\<rparr> # remove1 j js)"
| ends: "j \<in> set js \<Longrightarrow> jPhase j = Finished failed \<Longrightarrow>
    mstep C N net events seen_of (m, w, js) (start_end (jReader j) (jColl j) failed now m, w, remove1 j js)"
| writes: "u = mirror_user C (mNames m) who \<Longrightarrow> room (2 ^ 63) m \<Longrightarrow> write_ok C N events seen_of u q m w js \<Longrightarrow> wrote C u q now m = (res, m') \<Longrightarrow>
    mstep C N net events seen_of (m, w, js) (m', w, js)"
| forgets: "mstep C N net events seen_of (m, w, js) (mirror_Forget C username m, w, js)"
| looks_due: "round_due pathOf now u hs m = (due, m') \<Longrightarrow> mstep C N net events seen_of (m, w, js) (m', w, js)"
| reseals: "mirror_Reseal C account now m = (res, m') \<Longrightarrow> mstep C N net events seen_of (m, w, js) (m', w, js)"
| drops: "heldBy (Names_Of C (mNames m) (ToLower account)) (\<lambda>v r. case Ring_Open C (Names_Of C (mNames m) (ToLower account)) mirror_owner v now r of
      (res, r1) \<Rightarrow> (res = Inl ErrLocked, r1)) m = (lost, m1) \<Longrightarrow> drop_ok C N m js lost \<Longrightarrow> mirror_Drop C account now m = (res, m') \<Longrightarrow>
    mstep C N net events seen_of (m, w, js) (m', w, js)"
| closes: "mstep C N net events seen_of (m, w, js) (mirror_Close m, w, js)"
| rings: "mstep C N net events seen_of (m, w, js) (m\<lparr>mRing := r\<rparr>, w, js)"
| restarts: "mstep C N net events seen_of (m, w, js) (OpenMirror (mDB m) r (mNames m) poll, w, [])"

inductive mreach :: "crypto \<Rightarrow> string set \<Rightarrow> (string \<Rightarrow> 'o \<Rightarrow> string \<Rightarrow> 'w wire) \<Rightarrow> (string \<Rightarrow> string \<Rightarrow> 'w \<Rightarrow> event list) \<Rightarrow>
    (string \<Rightarrow> string \<Rightarrow> string \<Rightarrow> string \<Rightarrow> nat) \<Rightarrow> string \<Rightarrow> ('o, 'w) mstate \<Rightarrow> bool"
  for C N net events seen_of nk where
  opened: "entries db = [] \<Longrightarrow> mreach C N net events seen_of nk (OpenMirror db ring nk poll, w, [])"
| steps: "mreach C N net events seen_of nk x \<Longrightarrow> mstep C N net events seen_of x y \<Longrightarrow> mreach C N net events seen_of nk y"

subsection \<open>What every state satisfies\<close>

definition copy_step :: "crypto \<Rightarrow> (string \<Rightarrow> string \<Rightarrow> 'w \<Rightarrow> event list) \<Rightarrow> (string \<Rightarrow> string \<Rightarrow> string \<Rightarrow> string \<Rightarrow> nat) \<Rightarrow> 'o mirror \<Rightarrow> 'w \<Rightarrow> string \<Rightarrow> string \<Rightarrow> bool" where
  "copy_step C events seen_of m w u coll \<longleftrightarrow> (\<forall>h. held_of C m u coll = Some h \<longrightarrow> mrToken h \<noteq> [] \<longrightarrow>
     in_step (events u coll w) (seen_of u coll (mrToken h)) (copy_of C m u coll))"

definition job_step :: "crypto \<Rightarrow> (string \<Rightarrow> string \<Rightarrow> 'w \<Rightarrow> event list) \<Rightarrow> (string \<Rightarrow> string \<Rightarrow> string \<Rightarrow> string \<Rightarrow> nat) \<Rightarrow> 'o mirror \<Rightarrow> 'w \<Rightarrow> 'o job \<Rightarrow> bool" where
  "job_step C events seen_of m w j \<longleftrightarrow> (let es = events (jUser j) (jColl j) w; seen = seen_of (jUser j) (jColl j); copy = copy_of C m (jUser j) (jColl j) in
     case jPhase j of
       Holding h \<Rightarrow> mrToken h \<noteq> [] \<longrightarrow> in_step es (seen (mrToken h)) copy
     | Pulled h d \<Rightarrow> dlToken d \<noteq> [] \<longrightarrow> in_step es (seen (dlToken d)) (apply_delta d copy)
     | _ \<Rightarrow> True)"

definition minv :: "crypto \<Rightarrow> string set \<Rightarrow> (string \<Rightarrow> string \<Rightarrow> 'w \<Rightarrow> event list) \<Rightarrow> (string \<Rightarrow> string \<Rightarrow> string \<Rightarrow> string \<Rightarrow> nat) \<Rightarrow> string \<Rightarrow> ('o, 'w) mstate \<Rightarrow> bool" where
  "minv C N events seen_of nk x \<longleftrightarrow> (case x of (m, w, js) \<Rightarrow> mNames m = nk \<and> file_ok N m \<and> readers_ok m \<and> jobs_ok N m js \<and>
     (\<forall>u coll. user_key u \<longrightarrow> coll \<in> N \<longrightarrow> copy_step C events seen_of m w u coll) \<and>
     (\<forall>j \<in> set js. current m j \<longrightarrow> job_step C events seen_of m w j))"

lemma minvD:
  assumes "minv C N events seen_of nk (m, w, js)"
  shows "mNames m = nk" and "file_ok N m" and "readers_ok m" and "jobs_ok N m js"
    and "user_key u \<Longrightarrow> coll \<in> N \<Longrightarrow> copy_step C events seen_of m w u coll" and "j \<in> set js \<Longrightarrow> current m j \<Longrightarrow> job_step C events seen_of m w j"
  using assms by (simp_all add: minv_def)

lemma same_file: "mNames m' = mNames m \<Longrightarrow> mDB m' = mDB m \<Longrightarrow> held_of C m' u coll = held_of C m u coll \<and> copy_of C m' u coll = copy_of C m u coll"
  by (simp add: held_of_def copy_of_def)

lemma minv_mild:
  assumes "minv C N events seen_of nk (m, w, js)" and "mild N js m m'"
  shows "minv C N events seen_of nk (m', w, js)"
proof -
  have m: "mNames m' = mNames m" "mDB m' = mDB m" "readers_ok m'" "jobs_ok N m' js" "\<And>j. j \<in> set js \<Longrightarrow> current m' j \<Longrightarrow> current m j"
    using assms(2) by (auto simp: mild_def)
  note f = same_file [OF m(1,2)]
  have "file_ok N m'" using minvD(2) [OF assms(1)] m(2) by (simp add: file_ok_def)
  then show ?thesis using assms(1) m(1,3,4,5) by (auto simp: minv_def copy_step_def job_step_def f)
qed

lemma minv_same:
  assumes "minv C N events seen_of nk (m, w, js)" and "same_readers m m'" and "mDB m' = mDB m"
  shows "minv C N events seen_of nk (m', w, js)"
  by (rule minv_mild [OF assms(1)])
    (use assms(2,3) minvD(3,4) [OF assms(1)] in \<open>simp add: mild_def same_readers_simps [OF assms(2)], simp add: same_readers_def\<close>)

text \<open>A change of copies that no sync still to be saved has read.\<close>

lemma minv_file:
  assumes "minv C N events seen_of nk (m, w, js)" and "same_readers m m'" and "file_ok N m'"
    and "\<And>u coll. user_key u \<Longrightarrow> coll \<in> N \<Longrightarrow> held_of C m' u coll = held_of C m u coll \<and> copy_of C m' u coll = copy_of C m u coll \<or>
      idle m js u coll \<and> copy_step C events seen_of m' w u coll"
  shows "minv C N events seen_of nk (m', w, js)"
proof -
  note D = minvD [OF assms(1)]
  note s = same_readers_simps [OF assms(2)]
  have copies: "copy_step C events seen_of m' w u coll" if "user_key u" "coll \<in> N" for u coll
    using assms(4) [OF that] D(5) [OF that] by (auto simp: copy_step_def)
  have jobs: "job_step C events seen_of m' w j" if j: "j \<in> set js" "current m j" for j
  proof -
    have "user_key (jUser j)" "jColl j \<in> N" using D(4) j(1) by (auto simp: jobs_ok_def job_ok_def)
    moreover have "\<not> idle m js (jUser j) (jColl j)" using j by (auto simp: idle_def)
    ultimately have "copy_of C m' (jUser j) (jColl j) = copy_of C m (jUser j) (jColl j)" using assms(4) by blast
    then show ?thesis using D(6) [OF j] by (simp add: job_step_def Let_def)
  qed
  have "mNames m' = nk" using D(1) assms(2) by (simp add: same_readers_def)
  then show ?thesis using copies jobs D(3,4) assms(3) by (simp add: minv_def s)
qed

lemma minv_only_at:
  assumes "minv C N events seen_of nk (m, w, js)" and "only_at C N u coll m m'" and "idle m js u coll"
    and "copy_step C events seen_of m' w u coll"
  shows "minv C N events seen_of nk (m', w, js)"
  by (rule minv_file [OF assms(1)]) (use assms(2-4) in \<open>auto simp: only_at_def\<close>)

lemma minv_world:
  assumes "minv C N events seen_of nk (m, w, js)" and "grows events w w'"
  shows "minv C N events seen_of nk (m, w', js)"
proof -
  have p: "prefix (events u coll w) (events u coll w')" for u coll using assms(2) by (simp add: grows_def)
  have "job_step C events seen_of m w' j" if "job_step C events seen_of m w j" for j
    using that in_step_extend [OF p] by (auto simp: job_step_def Let_def split: phase.splits)
  moreover have "copy_step C events seen_of m w' u coll" if "copy_step C events seen_of m w u coll" for u coll
    using that in_step_extend [OF p] by (auto simp: copy_step_def)
  ultimately show ?thesis using assms(1) by (auto simp: minv_def)
qed

text \<open>A job goes on to another phase.\<close>

lemma jobs_take:
  assumes "j \<in> set js"
  obtains xs ys where "js = xs @ j # ys" "remove1 j js = xs @ ys"
  using split_list_first [OF assms] by (auto simp: remove1_append)

lemma jobs_ok_phase:
  assumes "jobs_ok N m js" and "j \<in> set js"
  shows "jobs_ok N m (j\<lparr>jPhase := ph\<rparr> # remove1 j js)"
proof -
  obtain xs ys where x: "js = xs @ j # ys" "remove1 j js = xs @ ys" using jobs_take [OF assms(2)] .
  have "job_ok N m (j\<lparr>jPhase := ph\<rparr>)" if "job_ok N m j" using that by (simp add: job_ok_def)
  then show ?thesis using assms(1) unfolding x(2) by (auto simp: jobs_ok_def x(1))
qed

lemma current_phase [simp]: "current m (j\<lparr>jPhase := ph\<rparr>) = current m j"
  by (simp add: current_def)

lemma minv_phase:
  assumes "minv C N events seen_of nk (m, w, js)" and "j \<in> set js" and "current m j \<Longrightarrow> job_step C events seen_of m w (j\<lparr>jPhase := ph\<rparr>)"
  shows "minv C N events seen_of nk (m, w, j\<lparr>jPhase := ph\<rparr> # remove1 j js)"
  using assms jobs_ok_phase [OF minvD(4) [OF assms(1)] assms(2), of ph] notin_set_remove1 [of _ js j]
  by (auto simp: minv_def)

lemma job_step_trivial [simp]: "job_step C events seen_of m w (j\<lparr>jPhase := Finished b\<rparr>)"
  by (simp add: job_step_def Let_def)

text \<open>No other job of the same copy is still to be saved.\<close>

lemma others_idle:
  assumes "jobs_ok N m js" and "j \<in> set js" and "current m j"
  shows "idle m (remove1 j js) (jUser j) (jColl j)"
  unfolding idle_def
proof (intro ballI impI notI)
  fix i assume i: "i \<in> set (remove1 j js)" "jUser i = jUser j \<and> jColl i = jColl j" "current m i"
  then have "jReader i = jReader j" using assms(3) by (simp add: current_def)
  then have same: "(jReader j, jColl j) = (jReader i, jColl i)" using i(2) by simp
  obtain xs ys where x: "js = xs @ j # ys" "remove1 j js = xs @ ys" using jobs_take [OF assms(2)] .
  have "(jReader j, jColl j) \<notin> (\<lambda>j. (jReader j, jColl j)) ` set (xs @ ys)" using assms(1) by (auto simp: jobs_ok_def x(1))
  moreover have "(jReader i, jColl i) \<in> (\<lambda>j. (jReader j, jColl j)) ` set (xs @ ys)" using i(1) unfolding x(2) by (rule imageI)
  ultimately show False unfolding same by blast
qed

subsection \<open>Each step\<close>

lemma step_reads:
  assumes "minv C N events seen_of nk (m, w, js)" and "ready C u coll now m = (res, m')"
  shows "minv C N events seen_of nk (m', w, js)"
proof -
  obtain r m1 where h: "held_copy C u coll now m = (r, m1)" by force
  have 1: "minv C N events seen_of nk (m1, w, js)" using held_copy_same [OF h] minv_same [OF assms(1)] by blast
  show ?thesis
  proof (cases r)
    case (Inl e)
    then show ?thesis using assms(2) h 1 by (simp add: ready_def)
  next
    case (Inr ho)
    obtain c m2 where o: "on_coll u coll (\<lambda>c. c\<lparr>mcRead := True\<rparr>) m1 = (c, m2)" by force
    have "m' = m2" using assms(2) h Inr o by (simp add: ready_def Let_def)
    moreover have "mild N js m1 m2" by (rule on_coll_mild [OF minvD(3,4) [OF 1] o]) simp
    ultimately show ?thesis using minv_mild [OF 1] by simp
  qed
qed

lemma step_request:
  assumes "minv C N events seen_of nk (m, w, js)" and "RoundTrip C who out meth now m = (t, m')"
  shows "minv C N events seen_of nk (m', w, js)"
proof -
  obtain l rg where L: "Locked C (nameOf (mirror_user C (mNames m) who)) now (mRing m) = (l, rg)" by force
  let ?m = "m\<lparr>mRing := rg\<rparr>"
  have 1: "minv C N events seen_of nk (?m, w, js)" by (rule minv_same [OF assms(1)]) (simp_all add: same_readers_def)
  show ?thesis
  proof (cases l)
    case True
    then show ?thesis using assms(2) L 1 by (simp add: RoundTrip_def)
  next
    case False
    obtain r m1 where r: "mirror_reader (mirror_user C (mNames m) who) ?m = (r, m1)" by force
    note k = mirror_reader_mild [OF minvD(3,4) [OF 1] r]
    have m': "m' = m1\<lparr>mHeap := (mHeap m1)[r := (mHeap m1 ! r)\<lparr>rdrAccount := prAccount who, rdrOut := Some out\<rparr>]\<rparr>"
      using assms(2) L False r by (simp add: RoundTrip_def mirror_note_def)
    have c: "coll_at a p m' = coll_at a p m1" for a p
      using k(2) by (cases "a = r") (simp_all add: m' coll_at_def reader_coll_def split: option.split)
    have rest: "mReaders m' = mReaders m1" "length (mHeap m') = length (mHeap m1)" "mNames m' = mNames m1" "mDB m' = mDB m1" by (simp_all add: m')
    have "readers_ok m' = readers_ok m1" "\<And>j. job_ok N m' j = job_ok N m1 j" "\<And>j. current m' j = current m1 j"
      unfolding readers_ok_def job_ok_def current_def c rest by (rule refl)+
    then have "mild N js m1 m'" using mild_keeps [OF k(1)] rest by (simp add: mild_def jobs_ok_def)
    then show ?thesis using minv_mild [OF 1 mild_trans [OF k(1)]] by blast
  qed
qed

lemma start_mild:
  assumes "readers_ok m" and "jobs_ok N m js" and "start u coll m = (s, m')"
  shows "mild N js m m'" and "s = Began r out wr \<Longrightarrow> map_of (mReaders m') u = Some r \<and> r < length (mHeap m') \<and> mcSyncing (coll_at r coll m') \<and>
    mcWrites (coll_at r coll m') = wr \<and> (\<forall>j \<in> set js. (jReader j, jColl j) \<noteq> (r, coll))"
proof -
  obtain a m1 where a: "mirror_reader u m = (a, m1)" by force
  note k = mirror_reader_mild [OF assms(1,2) a]
  let ?m = "set_coll a coll id m1"
  have 2: "mild N js m1 ?m" by (rule mild_set_coll) (use mild_keeps [OF k(1)] k(2) in auto)
  let ?f = "\<lambda>c. c\<lparr>mcSyncing := True\<rparr>"
  have 3: "mild N js ?m (set_coll a coll ?f ?m)" by (rule mild_set_coll) (use mild_keeps [OF 2] k(2) in auto)
  have c: "s = UnderWay \<and> m' = ?m \<or> s = NotStarted \<and> m' = ?m \<or>
      (\<exists>out. s = Began a out (mcWrites (coll_at a coll ?m)) \<and> m' = set_coll a coll ?f ?m \<and> \<not> mcSyncing (coll_at a coll ?m))"
    using assms(3) a by (auto simp: start_def Let_def split: if_splits option.splits)
  show "mild N js m m'" using c mild_trans [OF mild_trans [OF k(1) 2] 3] mild_trans [OF k(1) 2] by auto
  assume s: "s = Began r out wr"
  then have r: "r = a" "wr = mcWrites (coll_at a coll ?m)" "m' = set_coll a coll ?f ?m" "\<not> mcSyncing (coll_at a coll ?m)" using c by auto
  have "(jReader j, jColl j) \<noteq> (r, coll)" if "j \<in> set js" for j
    using mild_keeps [OF 2] that r(1,4) by (auto simp: jobs_ok_def job_ok_def)
  then show "map_of (mReaders m') u = Some r \<and> r < length (mHeap m') \<and> mcSyncing (coll_at r coll m') \<and>
    mcWrites (coll_at r coll m') = wr \<and> (\<forall>j \<in> set js. (jReader j, jColl j) \<noteq> (r, coll))"
    using r(1-3) k(2) mirror_reader_found(1) [OF a] by auto
qed

lemma step_begins:
  assumes "minv C N events seen_of nk (m, w, js)" and "start u coll m = (Began r out wr, m')" and "user_key u" and "coll \<in> N"
  shows "minv C N events seen_of nk (m', w, \<lparr>jUser = u, jColl = coll, jReader = r, jOut = out, jWritten = wr, jPhase = Started\<rparr> # js)"
proof -
  note k = start_mild [OF minvD(3,4) [OF assms(1)] assms(2)]
  have m': "minv C N events seen_of nk (m', w, js)" by (rule minv_mild [OF assms(1) k(1)])
  note f = k(2) [OF refl]
  let ?j = "\<lparr>jUser = u, jColl = coll, jReader = r, jOut = out, jWritten = wr, jPhase = Started\<rparr>"
  have "x = u" if "map_of (mReaders m') x = Some r" for x
    using minvD(3) [OF m'] f that unfolding readers_ok_def by blast
  then have "job_ok N m' ?j" using f assms(3,4) by (simp add: job_ok_def)
  moreover have "(r, coll) \<notin> (\<lambda>j. (jReader j, jColl j)) ` set js" using f by (auto simp del: prod.inject)
  ultimately have "jobs_ok N m' (?j # js)" using minvD(4) [OF m'] by (simp add: jobs_ok_def)
  moreover have "job_step C events seen_of m' w ?j" by (simp add: job_step_def Let_def)
  ultimately show ?thesis using m' by (simp add: minv_def)
qed

lemma step_has:
  assumes "minv C N events seen_of nk (m, w, js)" and "j \<in> set js" and "sync_begin C (jUser j) (jColl j) url now m = (res, m')"
  shows "minv C N events seen_of nk (m', w, j\<lparr>jPhase := (case res of Inl _ \<Rightarrow> Finished True | Inr h \<Rightarrow> Holding h)\<rparr> # remove1 j js)"
proof -
  obtain r where h: "held_copy C (jUser j) (jColl j) now m = (r, m')" and res: "res = map_sum id (\<lambda>ho. (case ho of None \<Rightarrow> zero_mirrored | Some h \<Rightarrow> h)\<lparr>mrURL := url\<rparr>) r"
    using assms(3) by (auto simp: sync_begin_def split: prod.splits)
  have same: "same_readers m m'" "mDB m' = mDB m" using held_copy_same [OF h] by auto
  have m': "minv C N events seen_of nk (m', w, js)" by (rule minv_same [OF assms(1) same])
  have j: "user_key (jUser j)" "jColl j \<in> N" using minvD(4) [OF m'] assms(2) by (auto simp: jobs_ok_def job_ok_def)
  show ?thesis
  proof (rule minv_phase [OF m' assms(2)])
    show "job_step C events seen_of m' w (j\<lparr>jPhase := (case res of Inl _ \<Rightarrow> Finished True | Inr h \<Rightarrow> Holding h)\<rparr>)"
    proof (cases r)
      case (Inr ho)
      have "in_step (events (jUser j) (jColl j) w) (seen_of (jUser j) (jColl j) (mrToken h1)) (copy_of C m' (jUser j) (jColl j))"
        if "ho = Some h1" "mrToken h1 \<noteq> []" for h1
        using minvD(5) [OF assms(1) j] held_copy_held [OF h [unfolded Inr that(1)] that(2)] that(2) same
        by (simp add: copy_step_def copy_of_def same_readers_def)
      then show ?thesis using Inr res by (auto simp: job_step_def Let_def zero_mirrored_def split: option.splits)
    qed (simp add: res)
  qed
qed

lemma compare_token: "compare_copy W coll h have w = (Inr d, w') \<Longrightarrow> dlToken d = []"
  by (auto simp: compare_copy_def no_delta_def Let_def split: prod.splits sum.splits if_splits)

lemma syncCollection_NoSync: "syncCollection W coll token w = Some (Inr d, w') \<Longrightarrow> \<not> dlNoSync d"
  by (auto simp: syncCollection_def split: Option.bind_splits prod.splits sum.splits)

lemma pull_token:
  assumes "wire_pull W coll h have w = Some (Inr d, w')" and "dlToken d \<noteq> []"
  shows "\<not> dlNoSync d"
proof
  assume no: "dlNoSync d"
  have "compare_copy W coll h have w1 \<noteq> (Inr d, w')" for w1 using compare_token [of W coll h "have" w1 d w'] assms(2) by auto
  moreover have "syncCollection W coll t w1 \<noteq> Some (Inr d, w')" for t w1 using syncCollection_NoSync [of W coll t w1 d w'] no by auto
  ultimately show False using assms(1) by (auto simp: wire_pull_def split: Option.bind_splits if_splits sum.splits)
qed

lemma step_pulls:
  assumes "minv C N events seen_of nk (m, w, js)" and "j \<in> set js" and "jPhase j = Holding h"
    and "wire_pull (net (jUser j) (jOut j) (jColl j)) (jColl j) h have w = Some (Inr d, w')" and "grows events w w'"
    and "sync_contract (net (jUser j) (jOut j) (jColl j)) (jColl j) (events (jUser j) (jColl j)) (seen_of (jUser j) (jColl j))"
  shows "minv C N events seen_of nk (m, w', j\<lparr>jPhase := Pulled h d\<rparr> # remove1 j js)"
proof (rule minv_phase [OF minv_world [OF assms(1,5)] assms(2)])
  assume "current m j"
  then have "mrToken h \<noteq> [] \<Longrightarrow> in_step (events (jUser j) (jColl j) w) (seen_of (jUser j) (jColl j) (mrToken h)) (copy_of C m (jUser j) (jColl j))"
    using minvD(6) [OF assms(1,2)] assms(3) by (simp add: job_step_def Let_def)
  then show "job_step C events seen_of m w' (j\<lparr>jPhase := Pulled h d\<rparr>)"
    using pull_steps [OF assms(6,4)] pull_token [OF assms(4)] by (simp add: job_step_def Let_def)
qed

lemma minv_rest:
  assumes "minv C N events seen_of nk (m, w, js)" and "j \<in> set js"
  shows "minv C N events seen_of nk (m, w, remove1 j js)"
proof -
  obtain xs ys where x: "js = xs @ j # ys" "remove1 j js = xs @ ys" using jobs_take [OF assms(2)] .
  have "jobs_ok N m (remove1 j js)" using minvD(4) [OF assms(1)] unfolding x(2) by (auto simp: jobs_ok_def x(1))
  then show ?thesis using assms(1) notin_set_remove1 [of _ js j] by (auto simp: minv_def)
qed

text \<open>A job that does a step of its own, with nothing left to be saved after it.\<close>

lemma minv_finished:
  assumes "minv C N events seen_of nk (m, w, js)" and "j \<in> set js" and "minv C N events seen_of nk (m', w, remove1 j js)" and "same_readers m m'"
  shows "minv C N events seen_of nk (m', w, j\<lparr>jPhase := Finished b\<rparr> # remove1 j js)"
proof -
  have "jobs_ok N m' (j\<lparr>jPhase := Finished b\<rparr> # remove1 j js)"
    using jobs_ok_phase [OF minvD(4) [OF assms(1)] assms(2)] same_readers_simps(2) [OF assms(4)] by blast
  then show ?thesis using assms(3) by (simp add: minv_def)
qed

lemma step_gone:
  assumes "names_apart C nk N" and "minv C N events seen_of nk (m, w, js)" and "j \<in> set js" and "idle m (remove1 j js) (jUser j) (jColl j)"
    and "sync_gone C (jReader j) (jUser j) (jColl j) m = (acct, m')"
  shows "minv C N events seen_of nk (m', w, j\<lparr>jPhase := Finished True\<rparr> # remove1 j js)"
proof -
  obtain res where d: "mirror_drop C (jUser j) (jColl j) m = (res, m')" using assms(5) by (auto simp: sync_gone_def split: prod.splits)
  have j: "user_key (jUser j)" "jColl j \<in> N" using minvD(4) [OF assms(2)] assms(3) by (auto simp: jobs_ok_def job_ok_def)
  have f: "only_at C N (jUser j) (jColl j) m m'" "mDB m' = mDB m \<or> held_of C m' (jUser j) (jColl j) = None"
    using drop_file [OF _ j minvD(2) [OF assms(2)] d] assms(1) minvD(1) [OF assms(2)] by auto
  have same: "same_readers m m'" using f(1) by (simp add: only_at_def)
  note r = minv_rest [OF assms(2,3)]
  have "minv C N events seen_of nk (m', w, remove1 j js)"
  proof (cases "mDB m' = mDB m")
    case True
    then show ?thesis by (rule minv_same [OF r same])
  next
    case False
    then have "copy_step C events seen_of m' w (jUser j) (jColl j)" using f(2) by (simp add: copy_step_def)
    then show ?thesis by (rule minv_only_at [OF r f(1) assms(4)])
  qed
  then show ?thesis by (rule minv_finished [OF assms(2,3) _ same])
qed

lemma step_saves:
  assumes "names_apart C nk N" and "minv C N events seen_of nk (m, w, js)" and "j \<in> set js" and "jPhase j = Pulled h d"
    and "cpName ` set (dlPut d) \<subseteq> N" and "set (dlGone d) \<subseteq> N"
    and "sync_save C (jReader j) (jUser j) (jColl j) (jWritten j) h d now m = (res, m')"
  shows "minv C N events seen_of nk (m', w, j\<lparr>jPhase := Finished b\<rparr> # remove1 j js)"
proof (cases "current m j")
  case False
  then have "m' = m" using assms(7) by (auto simp: sync_save_def current_def)
  then show ?thesis using minv_phase [OF assms(2,3)] by simp
next
  case True
  have j: "user_key (jUser j)" "jColl j \<in> N" using minvD(4) [OF assms(2)] assms(3) by (auto simp: jobs_ok_def job_ok_def)
  let ?h = "h\<lparr>mrToken := dlToken d, mrCTag := dlCTag d, mrNoSync := dlNoSync d, mrSynced := now\<rparr>"
  have "mirror_change C (jUser j) (jColl j) (save_delta C (mNames m) (jUser j) (jColl j) ?h d now) m = (res, m')"
    using True assms(7) by (simp add: sync_save_def current_def)
  from save_file [OF _ j minvD(2) [OF assms(2)] assms(5,6) this] assms(1) minvD(1) [OF assms(2)]
  have f: "only_at C N (jUser j) (jColl j) m m'" "mDB m' = mDB m \<or> held_of C m' (jUser j) (jColl j) = Some ?h \<and>
      copy_of C m' (jUser j) (jColl j) = apply_delta d (copy_of C m (jUser j) (jColl j))" by auto
  have same: "same_readers m m'" using f(1) by (simp add: only_at_def)
  note r = minv_rest [OF assms(2,3)]
  have "minv C N events seen_of nk (m', w, remove1 j js)"
  proof (cases "mDB m' = mDB m")
    case True
    then show ?thesis by (rule minv_same [OF r same])
  next
    case False
    then have "copy_step C events seen_of m' w (jUser j) (jColl j)"
      using f(2) minvD(6) [OF assms(2,3) True] assms(4) by (simp add: copy_step_def job_step_def Let_def)
    then show ?thesis by (rule minv_only_at [OF r f(1) others_idle [OF minvD(4) [OF assms(2)] assms(3) True]])
  qed
  then show ?thesis by (rule minv_finished [OF assms(2,3) _ same])
qed

lemma step_ends:
  assumes "minv C N events seen_of nk (m, w, js)" and "j \<in> set js"
  shows "minv C N events seen_of nk (start_end (jReader j) (jColl j) failed now m, w, remove1 j js)"
proof -
  let ?f = "\<lambda>c. c\<lparr>mcSyncing := False, mcFailed := (if failed then now else 0), mcTried := True\<rparr>"
  let ?m = "set_coll (jReader j) (jColl j) ?f m"
  note r = minv_rest [OF assms]
  have len: "jReader j < length (mHeap m)" using minvD(4) [OF assms(1)] assms(2) by (auto simp: jobs_ok_def job_ok_def)
  obtain xs ys where x: "js = xs @ j # ys" "remove1 j js = xs @ ys" using jobs_take [OF assms(2)] .
  have "(jReader j, jColl j) \<notin> (\<lambda>j. (jReader j, jColl j)) ` set (remove1 j js)"
    using minvD(4) [OF assms(1)] unfolding x(2) by (auto simp: jobs_ok_def x(1))
  then have "(jReader i, jColl i) \<noteq> (jReader j, jColl j)" if "i \<in> set (remove1 j js)" for i using that by (metis (no_types, lifting) image_eqI)
  then have at: "coll_at (jReader i) (jColl i) ?m = coll_at (jReader i) (jColl i) m" if "i \<in> set (remove1 j js)" for i
    using that unfolding coll_at_set [OF len] by (metis (no_types))
  have "job_ok N ?m i" "current ?m i = current m i" if "i \<in> set (remove1 j js)" for i
    using minvD(4) [OF r] that unfolding jobs_ok_def job_ok_def current_def at [OF that] set_coll_rest by blast+
  moreover have "readers_ok ?m" using minvD(3) [OF r] unfolding readers_ok_def set_coll_rest .
  ultimately have "mild N (remove1 j js) m ?m" using minvD(4) [OF r] by (simp add: mild_def jobs_ok_def)
  then show ?thesis unfolding start_end_def by (rule minv_mild [OF r])
qed

lemma step_drop:
  assumes "names_apart C nk N" and "minv C N events seen_of nk (m, w, js)" and "user_key u" and "coll \<in> N" and "idle m js u coll"
    and "mirror_drop C u coll m = (res, m')"
  shows "minv C N events seen_of nk (m', w, js)" and "same_readers m m'"
proof -
  have f: "only_at C N u coll m m'" "mDB m' = mDB m \<or> held_of C m' u coll = None"
    using drop_file [OF _ assms(3,4) minvD(2) [OF assms(2)] assms(6)] assms(1) minvD(1) [OF assms(2)] by auto
  show "same_readers m m'" using f(1) by (simp add: only_at_def)
  then show "minv C N events seen_of nk (m', w, js)"
    using f(2) minv_same [OF assms(2)] minv_only_at [OF assms(2) f(1) assms(5)] by (auto simp: copy_step_def)
qed

lemma step_drop_each:
  "names_apart C nk N \<Longrightarrow> minv C N events seen_of nk (m, w, js) \<Longrightarrow> user_key u \<Longrightarrow> set colls \<subseteq> N \<Longrightarrow> room B m \<Longrightarrow> 0 < B \<Longrightarrow> B + length colls < 2 ^ 64 \<Longrightarrow>
     drop_each C u colls m = (res, m') \<Longrightarrow> minv C N events seen_of nk (m', w, js)"
proof (induction colls arbitrary: m B)
  case (Cons coll colls)
  let ?m = "count_write u coll m"
  have B: "B < 2 ^ 64" using Cons.prems(7) by simp
  note k = count_write_idle [OF minvD(3,4) [OF Cons.prems(2)] Cons.prems(5,6) B, of u coll]
  have 1: "minv C N events seen_of nk (?m, w, js)" by (rule minv_mild [OF Cons.prems(2) k(1)])
  obtain r m1 where d: "mirror_drop C u coll ?m = (r, m1)" by force
  have c: "coll \<in> N" using Cons.prems(4) by simp
  note 2 = step_drop [OF Cons.prems(1) 1 Cons.prems(3) c k(2) d]
  have rm: "room (Suc B) m1" using k(3) same_readers_simps(4) [OF 2(2)] by blast
  show ?case
  proof (cases r)
    case (Inl e)
    then show ?thesis using Cons.prems(8) d 2(1) by simp
  next
    case (Inr x)
    then have "drop_each C u colls m1 = (res, m')" using Cons.prems(8) d by simp
    from Cons.IH [OF Cons.prems(1) 2(1) Cons.prems(3) _ rm _ _ this] Cons.prems(4,7) show ?thesis by simp
  qed
qed simp

lemma snap_at:
  assumes "x < length es" and "es ! x = (n, sv)"
  shows "snap es (Suc x) n = sv"
proof -
  have "filter (\<lambda>e. fst e = n) (take (Suc x) es) = filter (\<lambda>e. fst e = n) (take x es) @ [(n, sv)]"
    using assms by (simp add: take_Suc_conv_app_nth)
  then show ?thesis by (cases "filter (\<lambda>e. fst e = n) (take x es)") (simp_all add: snap_def)
qed

lemma write_in_step:
  assumes "write_told es seen_to name q" and "in_step es seen_to copy"
  shows "in_step es seen_to (copy(name := left_by q))"
proof -
  obtain x sv where x: "x < length es" "es ! x = (name, sv)" and c: "seen_to name \<le> x \<or> sv = left_by q \<and> quiet_between es (Suc x) (seen_to name) name"
    using assms(1) by (auto simp: write_told_def)
  have "left_by q = snap es (seen_to name) name \<or> changed_since es (seen_to name) name"
  proof (cases "seen_to name \<le> x")
    case True
    then have "drop (seen_to name) es ! (x - seen_to name) = es ! x" "x - seen_to name < length (drop (seen_to name) es)" using x(1) by auto
    then have "es ! x \<in> set (drop (seen_to name) es)" by (metis nth_mem)
    then show ?thesis using x(2) by (force simp: changed_since_def)
  next
    case False
    then have "snap es (seen_to name) name = snap es (Suc x) name" using c quiet_snap [of es "Suc x" "seen_to name" name] by simp
    then show ?thesis using snap_at [OF x] c False by simp
  qed
  then show ?thesis using assms(2) by (simp add: in_step_def)
qed

lemma step_wrote_object:
  assumes "names_apart C nk N" and "minv C N events seen_of nk (m, w, js)" and "user_key u" and "coll \<in> N" and "name \<in> N" and "idle m js u coll"
    and "path_Split (wrPath q) = (coll, name)" and "mrToken h \<noteq> [] \<Longrightarrow> held_of C m u coll = Some h"
    and "wrStatus q < 300 \<Longrightarrow> mrToken h \<noteq> [] \<Longrightarrow> write_told (events u coll w) (seen_of u coll (mrToken h)) name q"
    and "mirror_change C u coll (wrote_object C u coll name h q now (mNames m)) m = (res, m')"
  shows "minv C N events seen_of nk (m', w, js)"
proof -
  have f: "only_at C N u coll m m'" "mDB m' = mDB m \<or> (\<exists>h'. held_of C m' u coll = Some h' \<and> mrToken h' = mrToken h) \<and>
      copy_of C m' u coll = (if wrStatus q \<ge> 300 then copy_of C m u coll else (copy_of C m u coll)(name := left_by q))"
    using wrote_object_file [OF _ assms(3,4) minvD(2) [OF assms(2)] assms(5,7,10)] assms(1) minvD(1) [OF assms(2)] by auto
  show ?thesis
  proof (cases "mDB m' = mDB m")
    case True
    then show ?thesis using f(1) minv_same [OF assms(2)] by (simp add: only_at_def)
  next
    case False
    have "in_step (events u coll w) (seen_of u coll (mrToken h)) (copy_of C m' u coll)" if t: "mrToken h \<noteq> []"
    proof -
      have "in_step (events u coll w) (seen_of u coll (mrToken h)) (copy_of C m u coll)"
        using minvD(5) [OF assms(2-4)] assms(8) t by (simp add: copy_step_def)
      then show ?thesis using f(2) False write_in_step [OF assms(9)] t by (cases "wrStatus q < 300") auto
    qed
    then have "copy_step C events seen_of m' w u coll" using f(2) False by (auto simp: copy_step_def)
    then show ?thesis by (rule minv_only_at [OF assms(2) f(1) assms(6)])
  qed
qed

lemma step_writes:
  assumes "names_apart C nk N" and "minv C N events seen_of nk (m, w, js)" and "user_key u" and "room (2 ^ 63) m"
    and "write_ok C N events seen_of u q m w js" and "wrote C u q now m = (res, m')"
  shows "minv C N events seen_of nk (m', w, js)"
proof -
  consider (move) "wrMethod q = ''MOVE''"
    | (collection) "wrMethod q \<noteq> ''MOVE''" "suffix ''/'' (wrPath q) \<or> wrMethod q \<noteq> ''PUT'' \<and> wrMethod q \<noteq> ''DELETE''"
    | (one) "wrMethod q \<noteq> ''MOVE''" "\<not> (suffix ''/'' (wrPath q) \<or> wrMethod q \<noteq> ''PUT'' \<and> wrMethod q \<noteq> ''DELETE'')" by blast
  then show ?thesis
  proof cases
    case move
    show ?thesis
    proof (cases "(wrStatus q = 201 \<or> wrStatus q = 204) \<and> \<not> isl (wrDest q)")
      case True
      then obtain to where to: "wrDest q = Inr to" by (cases "wrDest q") auto
      let ?cs = "remdups_adj [collectionOf (wrPath q), collectionOf to]"
      have "drop_each C u ?cs m = (res, m')" using assms(6) True to move by (auto simp: wrote_def Let_def)
      moreover have "set ?cs \<subseteq> N" using assms(5) move to by (simp add: write_ok_def Let_def)
      moreover have "length ?cs \<le> 2" using remdups_adj_length [of "[collectionOf (wrPath q), collectionOf to]"] by simp
      then have "2 ^ 63 + length ?cs < (2 :: nat) ^ 64" by simp
      ultimately show ?thesis using step_drop_each [OF assms(1-3) _ assms(4)] by simp
    next
      case False
      then have "m' = m" using assms(6) move by (auto simp: wrote_def Let_def split: if_splits sum.splits)
      then show ?thesis using assms(2) by simp
    qed
  next
    case collection
    show ?thesis
    proof (cases "wrStatus q \<ge> 300")
      case True
      then show ?thesis using assms(2,6) collection by (simp add: wrote_def Let_def)
    next
      case False
      then have "mirror_drop C u (collectionOf (wrPath q)) m = (res, m')" "collectionOf (wrPath q) \<in> N" "idle m js u (collectionOf (wrPath q))"
        using assms(5,6) collection by (simp_all add: wrote_def write_ok_def Let_def)
      then show ?thesis using step_drop(1) [OF assms(1-3)] by blast
    qed
  next
    case one
    obtain coll name where p: "path_Split (wrPath q) = (coll, name)" by force
    have w: "coll \<in> N" "name \<in> N" "\<And>h. wrStatus q < 300 \<Longrightarrow> held_of C m u coll = Some h \<Longrightarrow> mrToken h \<noteq> [] \<Longrightarrow>
        write_told (events u coll w) (seen_of u coll (mrToken h)) name q"
      using assms(5) one p by (simp_all add: write_ok_def Let_def)
    let ?m = "count_write u coll m"
    note k = count_write_idle [OF minvD(3,4) [OF assms(2)] assms(4), of u coll, simplified]
    have 1: "minv C N events seen_of nk (?m, w, js)" by (rule minv_mild [OF assms(2) k(1)])
    obtain r m1 where h: "held_copy C u coll now ?m = (r, m1)" by force
    have s: "same_readers ?m m1" "mDB m1 = mDB ?m" using held_copy_same [OF h] by auto
    have 2: "minv C N events seen_of nk (m1, w, js)" by (rule minv_same [OF 1 s])
    have i: "idle m1 js u coll" using k(2) same_readers_simps(5) [OF s(1)] by blast
    have hm: "held_of C m1 u coll = held_of C m u coll" "held_of C ?m u coll = held_of C m u coll"
      using same_file [of m1 ?m] same_file [of ?m m] s k(1) by (auto simp: same_readers_def mild_def)
    show ?thesis
    proof (cases "\<exists>h1. r = Inr (Some h1)")
      case True
      then obtain h1 where r: "r = Inr (Some h1)" by blast
      have ch: "mirror_change C u coll (wrote_object C u coll name h1 q now (mNames m1)) m1 = (res, m')"
        using assms(6) one p h r by (simp add: wrote_def Let_def)
      have hd: "mrToken h1 \<noteq> [] \<Longrightarrow> held_of C m u coll = Some h1" using held_copy_held [OF h [unfolded r]] hm(2) by simp
      show ?thesis
        by (rule step_wrote_object [OF assms(1) 2 assms(3) w(1,2) i p _ _ ch]) (use hd hm w(3) in auto)
    next
      case False
      then have "m' = m1" using assms(6) one p h by (auto simp: wrote_def Let_def split: sum.splits option.splits)
      then show ?thesis using 2 by simp
    qed
  qed
qed

lemma map_of_kept: "map_of (filter (\<lambda>e. P (fst e)) xs) k = (if P k then map_of xs k else None)"
  by (induction xs) auto

lemma step_forgets:
  assumes "minv C N events seen_of nk (m, w, js)"
  shows "minv C N events seen_of nk (mirror_Forget C username m, w, js)"
proof (rule minv_mild [OF assms])
  let ?P = "\<lambda>u. \<not> prefix (Names_Of C (mNames m) (ToLower username) @ ''/'') u" and ?m = "mirror_Forget C username m"
  have look: "map_of (mReaders ?m) u = Some r \<Longrightarrow> map_of (mReaders m) u = Some r" for u r
    by (simp add: mirror_Forget_def map_of_kept [of ?P] split: if_splits)
  have at: "coll_at r p ?m = coll_at r p m" for r p by (simp add: coll_at_def mirror_Forget_def)
  have len: "mHeap ?m = mHeap m" by (simp add: mirror_Forget_def)
  have "readers_ok ?m" using minvD(3) [OF assms] look unfolding readers_ok_def len by blast
  moreover have "job_ok N ?m j" "current ?m j \<Longrightarrow> current m j" if "j \<in> set js" for j
    using minvD(4) [OF assms] that look unfolding jobs_ok_def job_ok_def current_def at len by blast+
  ultimately show "mild N js m ?m" using minvD(4) [OF assms] by (auto simp: mild_def jobs_ok_def) (simp_all add: mirror_Forget_def)
qed

lemma round_due_mild:
  "readers_ok m \<Longrightarrow> jobs_ok N m js \<Longrightarrow> round_due pathOf now u hs m = (due, m') \<Longrightarrow> mild N js m m'"
proof (induction hs arbitrary: m due)
  case (Cons h hs)
  obtain c m1 where o: "on_coll u (pathOf (mrURL h)) id m = (c, m1)" by force
  obtain d where "round_due pathOf now u hs m1 = (d, m')" using Cons.prems(3) o by (auto split: prod.splits)
  moreover have "mild N js m m1" by (rule on_coll_mild [OF Cons.prems(1,2) o]) simp
  ultimately show ?case using Cons.IH mild_keeps mild_trans by blast
qed (simp add: mild_refl)

lemma step_looks:
  assumes "mirror_objects C sz u coll now m = Some (res, m')"
  shows "same_readers m m' \<and> mDB m' = mDB m"
proof -
  let ?k = "objectsKey C (mNames m) u coll"
  obtain hit before hot where e: "objects_enter ?k (mHot m) = ((hit, before), hot)" by (metis prod.collapse)
  show ?thesis
  proof (cases hit)
    case (Some objs)
    then show ?thesis using assms e by (auto simp: mirror_objects_def Let_def same_readers_def)
  next
    case None
    obtain vs m1 where v: "mirror_scan C ?k now (m\<lparr>mHot := hot\<rparr>) = (vs, m1)" by force
    have "same_readers m m1 \<and> mDB m1 = mDB m"
      using mirror_View_same [OF v [unfolded mirror_scan_def]] by (simp add: same_readers_def)
    then show ?thesis using assms e None v by (auto simp: mirror_objects_def Let_def same_readers_def split: sum.splits)
  qed
qed

text \<open>What a lost key's copies leave.\<close>

definition dropped_in :: "string \<Rightarrow> (string \<Rightarrow> mvalue option) \<Rightarrow> string \<Rightarrow> mvalue option" where
  "dropped_in x f = (\<lambda>k. if prefix (mirror_owner @ ''/objects/'' @ x @ ''/'') k then None else (f(mirror_owner @ ''/held/'' @ x := None)) k)"

lemma drop_held_returns:
  assumes "drop_held x (t, r) = (Inr y, t', r')" and "ordered_tx t"
  shows "ordered_tx t' \<and> plain t' = dropped_in x (plain t)"
proof -
  obtain z t1 r1 where 1: "mtx_delete (mirror_owner @ ''/held/'' @ x) (t, r) = (Inr z, t1, r1)"
    and 2: "mtx_delete_under (mirror_owner @ ''/objects/'' @ x @ ''/'') (t1, r1) = (Inr y, t', r')"
    using assms(1) by (auto simp: drop_held_def bindT_returns)
  from mtx_delete_returns [OF 1 assms(2)] have o: "ordered_tx t1" and p: "plain t1 = (plain t)(mirror_owner @ ''/held/'' @ x := None)" by auto
  show ?thesis using mtx_delete_under_returns [OF 2 o] unfolding dropped_in_def p .
qed

lemma names_in_dropped: "names_in N f \<Longrightarrow> names_in N (fold dropped_in xs f)"
  by (induction xs arbitrary: f) (simp_all add: dropped_in_def)

lemma fold_dropped_views:
  assumes "names_apart C nk N" and "user_key u" and "coll \<in> N" and "\<And>x. x \<in> set xs \<Longrightarrow> \<exists>u' coll'. user_key u' \<and> coll' \<in> N \<and> x = u' @ ''/'' @ Names_Of C nk coll'"
  shows "if u @ ''/'' @ Names_Of C nk coll \<in> set xs then held_in C nk (fold dropped_in xs f) u coll = None
    else held_in C nk (fold dropped_in xs f) u coll = held_in C nk f u coll \<and> copy_in C nk (fold dropped_in xs f) u coll = copy_in C nk f u coll"
  using assms(4)
proof (induction xs arbitrary: f)
  case (Cons x xs)
  obtain u' coll' where x: "user_key u'" "coll' \<in> N" "x = u' @ ''/'' @ Names_Of C nk coll'" using Cons.prems [of x] by auto
  have keys: "mirror_owner @ ''/held/'' @ x = heldKey C nk u' coll'" "mirror_owner @ ''/objects/'' @ x @ ''/'' = objectsKey C nk u' coll'"
    by (simp_all add: x(3) heldKey_def objectsKey_def)
  note k = mirror_keys [OF assms(1) x(1) assms(2) x(2) assms(3)]
  have here: "u' = u \<and> coll' = coll \<longleftrightarrow> x = u @ ''/'' @ Names_Of C nk coll" using k(1) by (simp add: heldKey_def x(3))
  have one: "held_in C nk (dropped_in x f) u coll = (if x = u @ ''/'' @ Names_Of C nk coll then None else held_in C nk f u coll)"
    unfolding here [symmetric] dropped_in_def keys held_in_def using k(1) by (auto simp: mirror_key_kinds)
  have two: "copy_in C nk (dropped_in x f) u coll = copy_in C nk f u coll" if "x \<noteq> u @ ''/'' @ Names_Of C nk coll"
    by (rule copy_in_cong, unfold dropped_in_def keys) (use that k(3) here in \<open>auto simp: mirror_key_kinds\<close>)
  have ih: "if u @ ''/'' @ Names_Of C nk coll \<in> set xs then held_in C nk (fold dropped_in xs (dropped_in x f)) u coll = None
    else held_in C nk (fold dropped_in xs (dropped_in x f)) u coll = held_in C nk (dropped_in x f) u coll \<and>
      copy_in C nk (fold dropped_in xs (dropped_in x f)) u coll = copy_in C nk (dropped_in x f) u coll"
    by (rule Cons.IH) (use Cons.prems in auto)
  show ?case
  proof (cases "u @ ''/'' @ Names_Of C nk coll \<in> set xs")
    case True
    then show ?thesis using ih by simp
  next
    case False
    then show ?thesis using ih one two by (cases "x = u @ ''/'' @ Names_Of C nk coll") auto
  qed
qed simp

lemma step_drops:
  assumes "names_apart C nk N" and "minv C N events seen_of nk (m, w, js)" and "drop_ok C N m js lost"
    and "heldBy name match m = (lost, m1)" and "mirror_Update (forT drop_held lost) m1 = (res, m')"
  shows "minv C N events seen_of nk (m', w, js)"
proof -
  have s: "same_readers m m1" "mDB m1 = mDB m" using match_same [OF assms(4)] by auto
  have 1: "minv C N events seen_of nk (m1, w, js)" by (rule minv_same [OF assms(2) s])
  have nk: "mNames m = nk" by (rule minvD(1) [OF assms(2)])
  show ?thesis
    using assms(5)
  proof (cases rule: mirror_Update_cases)
    case (fails e)
    then show ?thesis by (intro minv_same [OF 1])
  next
    case (commits a r)
    have ok: "ordered_tx (mDB m1)" "names_in N (plain (mDB m1))" using minvD(2) [OF 1] by (auto simp: file_ok_def)
    have p: "ordered_tx (mDB m') \<and> plain (mDB m') = fold dropped_in lost (plain (mDB m1))"
      by (rule forT_plain [OF commits(2) ok(1)]) (rule drop_held_returns)
    have l: "\<exists>u' coll'. user_key u' \<and> coll' \<in> N \<and> x = u' @ ''/'' @ Names_Of C nk coll'" if "x \<in> set lost" for x
      using assms(3) that unfolding drop_ok_def nk by blast
    have n: "mNames m' = nk" "mNames m1 = nk" using commits(3) minvD(1) [OF 1] by (auto simp: same_readers_def)
    show ?thesis
    proof (rule minv_file [OF 1 commits(3)])
      show "file_ok N m'" using p names_in_dropped [OF ok(2)] by (simp add: file_ok_def)
      fix u coll assume u: "user_key u" "coll \<in> N"
      show "held_of C m' u coll = held_of C m1 u coll \<and> copy_of C m' u coll = copy_of C m1 u coll \<or> idle m1 js u coll \<and> copy_step C events seen_of m' w u coll"
      proof (cases "u @ ''/'' @ Names_Of C nk coll \<in> set lost")
        case True
        then obtain u' coll' where x: "user_key u'" "coll' \<in> N" "u @ ''/'' @ Names_Of C nk coll = u' @ ''/'' @ Names_Of C nk coll'" "idle m js u' coll'"
          using assms(3) unfolding drop_ok_def nk by blast
        have "u = u' \<and> coll = coll'" using mirror_keys(1) [OF assms(1) u(1) x(1) u(2) x(2)] x(3) by (simp add: heldKey_def)
        then have "idle m1 js u coll" using x(4) same_readers_simps(5) [OF s(1)] by blast
        moreover have "held_of C m' u coll = None" using fold_dropped_views [OF assms(1) u l] True p n by (simp add: held_of_def)
        ultimately show ?thesis by (simp add: copy_step_def)
      next
        case False
        then show ?thesis using fold_dropped_views [OF assms(1) u l] p n by (simp add: held_of_def copy_of_def)
      qed
    qed
  qed
qed

subsection \<open>Every state\<close>

lemma minv_opened:
  assumes "entries db = []"
  shows "minv C N events seen_of nk (OpenMirror db ring nk poll, w, [])"
proof -
  have "plain db = (\<lambda>_. None)" by (simp add: plain_def kv_get_def assms fun_eq_iff)
  then show ?thesis
    using assms by (simp add: minv_def OpenMirror_def file_ok_def names_in_def readers_ok_def jobs_ok_def copy_step_def held_of_def held_in_def ordered_tx_def)
qed

lemma minv_restarts:
  assumes "minv C N events seen_of nk (m, w, js)"
  shows "minv C N events seen_of nk (OpenMirror (mDB m) r (mNames m) poll, w, [])"
  using assms by (auto simp: minv_def OpenMirror_def file_ok_def readers_ok_def jobs_ok_def copy_step_def held_of_def copy_of_def)

lemma minv_step:
  assumes "names_apart C nk N" and "\<And>u out coll. sync_contract (net u out coll) coll (events u coll) (seen_of u coll)"
    and "mstep C N net events seen_of x y" and "minv C N events seen_of nk x"
  shows "minv C N events seen_of nk y"
  using assms(3,4)
proof (induction rule: mstep.induct)
  case (world w w' m js)
  then show ?case by (auto intro: minv_world)
next
  case (request who out meth now m t m' w js)
  show ?case by (rule step_request [OF request(2,1)])
next
  case (reads u coll now m res m' w js)
  show ?case by (rule step_reads [OF reads(2,1)])
next
  case (looks sz u coll now m res m' w js)
  show ?case using step_looks [OF looks(1)] minv_same [OF looks(2)] by blast
next
  case (begins u m who coll r out wr m' w js)
  have "user_key u" using begins(1) assms(1) by (simp add: names_apart_def user_key_user)
  then show ?case by (rule step_begins [OF begins(4,3) _ begins(2)])
next
  case (begins_not u coll m s m' w js)
  show ?case by (rule minv_mild [OF begins_not(3) start_mild(1) [OF minvD(3,4) [OF begins_not(3)] begins_not(1)]])
next
  case (has j js url now m res m' w)
  show ?case by (rule step_has [OF has(4,1,3)])
next
  case (pulls j js h "have" w d w' m)
  show ?case by (rule step_pulls [where net = net, OF pulls(5,1-4)]) (rule assms(2))
next
  case (pull_fails j js h "have" w e w' m)
  show ?case by (rule minv_phase [OF minv_world [OF pull_fails(6,4)] pull_fails(1)]) simp
next
  case (pull_gone j js h "have" w e w' m acct m')
  show ?case by (rule step_gone [OF assms(1) minv_world [OF pull_gone(8,4)] pull_gone(1,6,7)])
next
  case (saves j js h d now m res m' w)
  show ?case by (rule step_saves [OF assms(1) saves(6,1-5)])
next
  case (ends j js failed now m w)
  show ?case by (rule step_ends [OF ends(3,1)])
next
  case (writes u m who q w js now res m')
  have "user_key u" using writes(1) assms(1) by (simp add: names_apart_def user_key_user)
  then show ?case by (rule step_writes [OF assms(1) writes(5) _ writes(2-4)])
next
  case (forgets m w js username)
  then show ?case by (rule step_forgets)
next
  case (looks_due pathOf now u hs m due m' w js)
  show ?case by (rule minv_mild [OF looks_due(2) round_due_mild [OF minvD(3,4) [OF looks_due(2)] looks_due(1)]])
next
  case (reseals account now m res m' w js)
  have "ordered_tx (mDB m)" using minvD(2) [OF reseals(2)] by (simp add: file_ok_def)
  note r = Reseal_plain [OF reseals(1) this]
  show ?case
    by (rule minv_file [OF reseals(2)]) (use r minvD(2) [OF reseals(2)] in \<open>auto simp: file_ok_def held_of_def copy_of_def same_readers_def\<close>)
next
  case (drops m account now lost m1 js res m' w)
  have "mirror_Update (forT drop_held lost) m1 = (res, m')" using drops(1,3) by (simp add: mirror_Drop_def Let_def)
  then show ?case by (rule step_drops [OF assms(1) drops(4,2,1)])
next
  case (closes m w js)
  then show ?case by (rule minv_same) (simp_all add: mirror_Close_def same_readers_def)
next
  case (rings m w js r)
  then show ?case by (rule minv_same) (simp_all add: same_readers_def)
next
  case (restarts m w js r poll)
  then show ?case by (rule minv_restarts)
qed

lemma minv_reach:
  assumes "names_apart C nk N" and "\<And>u out coll. sync_contract (net u out coll) coll (events u coll) (seen_of u coll)"
    and "mreach C N net events seen_of nk x"
  shows "minv C N events seen_of nk x"
  using assms(3) by induction (auto intro: minv_opened minv_step [OF assms(1,2)])

subsection \<open>A run\<close>

text \<open>An account that never turned its encryption on, on a file that takes every change: each sync is saved.\<close>

definition ring_plain :: "ring \<Rightarrow> bool" where
  "ring_plain r \<longleftrightarrow> (\<forall>n a. accounts r n = Some a \<longrightarrow> a = zero_account)"

definition takes_all :: "('v, 'e) tx \<Rightarrow> bool" where
  "takes_all t \<longleftrightarrow> put_refused t = (\<lambda>_ _. None) \<and> delete_refused t = (\<lambda>_. None)"

lemma expire_zero [simp]: "expire now zero_account = zero_account"
  by (simp add: expire_def zero_account_def)

lemma ring_get_plain: "ring_plain r \<Longrightarrow> ring_get n now r = (zero_account, put_account n zero_account r) \<and> ring_plain (put_account n zero_account r)"
proof -
  assume r: "ring_plain r"
  then have "(case accounts r n of None \<Rightarrow> zero_account | Some a \<Rightarrow> a) = zero_account" by (auto simp: ring_plain_def split: option.split)
  then show ?thesis using r by (simp add: ring_get_def Let_def ring_plain_def)
qed

lemma For_plain: "ring_plain r \<Longrightarrow> \<exists>k r'. For C n p now r = (Inr k, r') \<and> ring_plain r'"
  using ring_get_plain [of r n now] by (simp add: For_def) (simp add: zero_account_def)

lemma Locked_plain: "ring_plain r \<Longrightarrow> \<exists>r'. Locked C n now r = (False, r') \<and> ring_plain r'"
  using ring_get_plain [of r n now] by (simp add: Locked_def acc_locked_def) (simp add: zero_account_def)

definition all_open :: "mtx \<Rightarrow> bool" where
  "all_open x \<longleftrightarrow> takes_all (fst x) \<and> ring_plain (snd x)"

lemma put_open: "all_open x \<Longrightarrow> \<exists>y. mirror_put C k v now x = (Inr (), y) \<and> all_open y"
  using For_plain [of "snd x" C "accountOf k" mirror_owner now]
  by (cases x) (auto simp: all_open_def mirror_put_def kv_put_def takes_all_def)

lemma delete_open: "all_open x \<Longrightarrow> \<exists>y. mtx_delete k x = (Inr (), y) \<and> all_open y"
  by (cases x) (auto simp: all_open_def mtx_delete_def kv_delete_def takes_all_def)

lemma delete_under_open: "all_open x \<Longrightarrow> \<exists>y. mtx_delete_under p x = (Inr (), y) \<and> all_open y"
proof -
  assume x: "all_open x"
  have "\<exists>t'. DeleteUnder kv_scan kv_delete (fst x) p None = Inr t' \<and> takes_all t'"
    unfolding DeleteUnder_def Let_def by (rule foldE_total) (use x in \<open>auto simp: all_open_def takes_all_def kv_delete_def\<close>)
  then show ?thesis using x by (cases x) (auto simp: mtx_delete_under_def all_open_def)
qed

lemma forT_open: "(\<And>x t. all_open t \<Longrightarrow> \<exists>y. f x t = (Inr (), y) \<and> all_open y) \<Longrightarrow> all_open t \<Longrightarrow> \<exists>y. forT f xs t = (Inr (), y) \<and> all_open y"
proof (induction xs arbitrary: t)
  case (Cons x xs)
  obtain t1 where "f x t = (Inr (), t1)" "all_open t1" using Cons.prems by blast
  with Cons.IH [of t1] Cons.prems(1) show ?case by (auto simp: bindT_def)
qed (simp add: returnT_def)

lemma bindT_open: "\<exists>y. a t = (Inr (), y) \<and> all_open y \<Longrightarrow> (\<And>y. all_open y \<Longrightarrow> \<exists>z. b () y = (Inr (), z) \<and> all_open z) \<Longrightarrow> \<exists>z. bindT a b t = (Inr (), z) \<and> all_open z"
  by (auto simp: bindT_def)

lemma save_open: "all_open t \<Longrightarrow> \<exists>y. save_delta C nk u coll h d now t = (Inr (), y) \<and> all_open y"
  unfolding save_delta_def Let_def
  by (intro bindT_open forT_open put_open delete_open) (use delete_under_open [of t] in \<open>cases t; auto simp: whenT_def returnT_def\<close>)

definition mute_wire :: "unit wire" where
  "mute_wire = \<lparr>wSync = (\<lambda>_ w. (Inl (ErrOther ''no answer''), w)), wGet = (\<lambda>_ w. (Inl (ErrOther ''no answer''), w)),
     wCTag = (\<lambda>w. (Inl (ErrOther ''no answer''), w)), wReadDir = (\<lambda>w. (Inl (ErrOther ''no answer''), w))\<rparr>"

definition sample_net :: "string \<Rightarrow> unit \<Rightarrow> string \<Rightarrow> unit wire" where
  "sample_net u out coll = (if coll = ''/c/'' then sample_wire else mute_wire)"

definition sample_events :: "string \<Rightarrow> string \<Rightarrow> unit \<Rightarrow> event list" where
  "sample_events u coll w = [(''e.ics'', Some one_object)]"

definition sample_seen_of :: "string \<Rightarrow> string \<Rightarrow> string \<Rightarrow> string \<Rightarrow> nat" where
  "sample_seen_of u coll = sample_seen"

definition sample_who :: Principal where
  "sample_who = \<lparr>prAccount = ''ann'', prName = ''ann''\<rparr>"

abbreviation sample_reach :: "(unit, unit) mstate \<Rightarrow> bool" where
  "sample_reach \<equiv> mreach sample_crypto {''/c/'', ''e.ics''} sample_net sample_events sample_seen_of ''k''"

lemma sample_apart: "names_apart sample_crypto ''k'' {''/c/'', ''e.ics''}"
proof -
  have "Names_Of sample_crypto ''k'' ''/c/'' \<noteq> Names_Of sample_crypto ''k'' ''e.ics''" by code_simp
  then show ?thesis by (simp add: names_apart_def named_sample_crypto)
qed

lemma sample_net_contract: "sync_contract (sample_net u out coll) coll (sample_events u coll) (sample_seen_of u coll)"
proof (cases "coll = ''/c/''")
  case True
  then show ?thesis using sample_contract by (simp add: sample_net_def sample_events_def [abs_def] sample_seen_of_def)
next
  case False
  then show ?thesis by (simp add: sync_contract_def sample_net_def mute_wire_def sample_seen_of_def sample_seen_def sample_events_def)
qed

text \<open>A first sync, from the request to the saved copy.\<close>

lemma sample_started:
  obtains m where "sample_reach (m, (), [\<lparr>jUser = mirror_user sample_crypto ''k'' sample_who, jColl = ''/c/'', jReader = 0, jOut = (), jWritten = 0, jPhase = Started\<rparr>])"
    "all_open (mDB m, mRing m)" "entries (mDB m) = []" "mNames m = ''k''"
    "map_of (mReaders m) (mirror_user sample_crypto ''k'' sample_who) = Some 0" "mcWrites (coll_at 0 ''/c/'' m) = 0"
proof -
  let ?u = "mirror_user sample_crypto ''k'' sample_who"
  let ?db = "\<lparr>entries = [], put_refused = (\<lambda>_ _. None), delete_refused = (\<lambda>_. None)\<rparr> :: (mvalue sealed, err) tx"
  let ?m0 = "OpenMirror ?db sample_ring ''k'' 0 :: unit mirror"
  have r0: "sample_reach (?m0, (), [])" by (rule mreach.opened) simp
  have "ring_plain (mRing ?m0)" by (simp add: OpenMirror_def ring_plain_def sample_ring_def)
  from Locked_plain [OF this] obtain rg where rg: "Locked sample_crypto (nameOf (mirror_user sample_crypto (mNames ?m0) sample_who)) 1 (mRing ?m0) = (False, rg)" "ring_plain rg"
    by blast
  let ?m1 = "mirror_note sample_crypto sample_who () (?m0\<lparr>mRing := rg\<rparr>)"
  have "RoundTrip sample_crypto sample_who () ''GET'' 1 ?m0 = (trip_of ''GET'', ?m1)" by (simp only: RoundTrip_def rg(1) prod.case bool.case)
  from mreach.steps [OF r0 mstep.request [OF this]] have r1: "sample_reach (?m1, (), [])" .
  have m1: "mReaders ?m1 = [(?u, 0)]" "mHeap ?m1 = [\<lparr>rdrAccount = ''ann'', rdrOut = Some (), rdrColls = (\<lambda>_. None)\<rparr>]" "mNames ?m1 = ''k''" "mDB ?m1 = ?db" "\<not> mClosed ?m1" "mRing ?m1 = rg"
    by (simp_all add: mirror_note_def mirror_reader_def OpenMirror_def new_reader_def sample_who_def)
  let ?c = "set_coll 0 ''/c/'' id ?m1"
  let ?m2 = "set_coll 0 ''/c/'' (\<lambda>c. c\<lparr>mcSyncing := True\<rparr>) ?c"
  have one: "0 < length (mHeap ?m1)" by (simp add: m1)
  have "coll_at 0 ''/c/'' ?m1 = zero_coll" by (simp add: coll_at_def m1 reader_coll_def)
  moreover have "rdrOut (mHeap ?c ! 0) = Some ()" "\<not> mClosed ?c" by (simp_all add: set_coll_def m1 reader_coll_def)
  ultimately have st: "start ?u ''/c/'' ?m1 = (Began 0 () 0, ?m2)" by (simp add: start_def mirror_reader_def m1 one Let_def zero_coll_def)
  from mreach.steps [OF r1 mstep.begins [OF _ _ this]]
  have r2: "sample_reach (?m2, (), [\<lparr>jUser = ?u, jColl = ''/c/'', jReader = 0, jOut = (), jWritten = 0, jPhase = Started\<rparr>])" by (simp add: m1)
  have two: "0 < length (mHeap ?c)" using one by (simp only: set_coll_rest)
  have "mcWrites (coll_at 0 ''/c/'' ?m2) = 0"
    unfolding coll_at_set [OF two] coll_at_set [OF one] \<open>coll_at 0 ''/c/'' ?m1 = zero_coll\<close> by (simp add: zero_coll_def)
  moreover have "mRing ?m2 = rg" by (simp add: set_coll_def m1 split: prod.split)
  ultimately show thesis using that [OF r2] rg(2) by (simp add: m1 all_open_def takes_all_def)
qed

lemma sample_run:
  obtains m js h where "sample_reach (m, (), js)" "held_of sample_crypto m (mirror_user sample_crypto ''k'' sample_who) ''/c/'' = Some h" "mrToken h = ''t1''"
    "copy_of sample_crypto m (mirror_user sample_crypto ''k'' sample_who) ''/c/'' ''e.ics'' = Some one_object"
proof -
  let ?u = "mirror_user sample_crypto ''k'' sample_who" and ?N = "{''/c/'', ''e.ics''}"
  let ?j = "\<lparr>jUser = ?u, jColl = ''/c/'', jReader = 0, jOut = (), jWritten = 0, jPhase = Started\<rparr>"
  let ?h = "\<lparr>mrURL = [], mrToken = [], mrCTag = [], mrNoSync = False, mrSynced = 0\<rparr>"
  let ?d = "\<lparr>dlToken = ''t1'', dlCTag = [], dlNoSync = False, dlWhole = True, dlPut = [one_object], dlGone = []\<rparr>"
  obtain m :: "unit mirror" where m: "sample_reach (m, (), [?j])" "all_open (mDB m, mRing m)" "entries (mDB m) = []" "mNames m = ''k''"
    "map_of (mReaders m) ?u = Some 0" "mcWrites (coll_at 0 ''/c/'' m) = 0"
    using sample_started .
  have "sync_begin sample_crypto ?u ''/c/'' [] 1 m = (Inr ?h, m)"
    by (simp add: sync_begin_def held_copy_def mirror_View_def kv_get_def m(3) returnT_def zero_mirrored_def)
  with mreach.steps [OF m(1) mstep.has [of ?j "[?j]"]]
  have "sample_reach (m, (), [?j\<lparr>jPhase := Holding ?h\<rparr>])" by fastforce
  from mreach.steps [OF this mstep.pulls [of "?j\<lparr>jPhase := Holding ?h\<rparr>" _ ?h sample_net "Inr []" "()" ?d "()"]]
  have r: "sample_reach (m, (), [?j\<lparr>jPhase := Pulled ?h ?d\<rparr>])" by (simp add: sample_net_def sample_pull grows_def)
  let ?h1 = "\<lparr>mrURL = [], mrToken = ''t1'', mrCTag = [], mrNoSync = False, mrSynced = 1\<rparr>"
  obtain t rg where sv: "save_delta sample_crypto ''k'' ?u ''/c/'' ?h1 ?d 1 (mDB m, mRing m) = (Inr (), t, rg)"
    using save_open [OF m(2)] by fastforce
  obtain m' where ch: "mirror_change sample_crypto ?u ''/c/'' (save_delta sample_crypto (mNames m) ?u ''/c/'' ?h1 ?d 1) m = (Inr (), m')"
    unfolding mirror_change_def mirror_Update_def m(4) sv by simp
  have "sync_save sample_crypto 0 ?u ''/c/'' 0 ?h ?d 1 m = (Inr (), m')" using ch by (simp add: sync_save_def m(5,6))
  from mreach.steps [OF r mstep.saves [of "?j\<lparr>jPhase := Pulled ?h ?d\<rparr>" _ ?h ?d _ _ 1 _ "Inr ()" m']] this
  have r1: "sample_reach (m', (), [?j\<lparr>jPhase := Finished False\<rparr>])" by (simp add: one_object_def)
  have "file_ok ?N m" by (simp add: file_ok_def ordered_tx_def m(3) names_in_def plain_def kv_get_def)
  from save_file [OF _ user_key_user [OF named_sample_crypto] _ this _ _ ch] sample_apart m(4)
  have "held_of sample_crypto m' ?u ''/c/'' = Some ?h1" "copy_of sample_crypto m' ?u ''/c/'' = apply_delta ?d (copy_of sample_crypto m ?u ''/c/'')"
    by (auto simp: one_object_def)
  then show thesis using that [OF r1] by (simp add: apply_delta_def one_object_def)
qed

subsection \<open>A write the syncs do not hear of\<close>

text \<open>
  \<^verbatim>\<open>wrote\<close> drops the copy of a collection that was changed itself (a PROPPATCH) without counting a write: a sync
  that has pulled what changed since the old token is still current, and saves it over the emptied copy
  with the new token. Every object it had nothing to report of is missing, until the server changes it.
\<close>

lemma collection_write_loses:
  assumes "names_apart C (mNames m) N" and "user_key (jUser j)" and "jColl j \<in> N" and "file_ok N m" and "current m j"
    and "collectionOf (wrPath q) = jColl j" and "wrMethod q = ''PROPPATCH''" and "wrStatus q < 300" and "wrote C (jUser j) q now m = (Inr (), m1)"
    and "cpName ` set (dlPut d) \<subseteq> N" and "set (dlGone d) \<subseteq> N" and "sync_save C (jReader j) (jUser j) (jColl j) (jWritten j) h d now' m1 = (Inr (), m2)"
  shows "\<exists>h'. held_of C m2 (jUser j) (jColl j) = Some h' \<and> mrToken h' = dlToken d" and "n \<notin> cpName ` set (dlPut d) \<Longrightarrow> copy_of C m2 (jUser j) (jColl j) n = None"
proof -
  have "mirror_drop C (jUser j) (jColl j) m = (Inr (), m1)" using assms(6-9) by (simp add: wrote_def Let_def)
  from drop_file [OF assms(1-4) this] have d: "only_at C N (jUser j) (jColl j) m m1" "copy_of C m1 (jUser j) (jColl j) = (\<lambda>_. None)" by auto
  have s: "same_readers m m1" "file_ok N m1" using d(1) by (auto simp: only_at_def)
  have "current m1 j" using assms(5) same_readers_simps(3) [OF s(1)] by blast
  then have ch: "mirror_change C (jUser j) (jColl j) (save_delta C (mNames m1) (jUser j) (jColl j)
      (h\<lparr>mrToken := dlToken d, mrCTag := dlCTag d, mrNoSync := dlNoSync d, mrSynced := now'\<rparr>) d now') m1 = (Inr (), m2)"
    using assms(12) by (simp add: sync_save_def current_def)
  have "names_apart C (mNames m1) N" using assms(1) s(1) by (simp add: same_readers_def)
  from save_file [OF this assms(2,3) s(2) assms(10,11) ch] have f: "held_of C m2 (jUser j) (jColl j) = Some (h\<lparr>mrToken := dlToken d, mrCTag := dlCTag d, mrNoSync := dlNoSync d, mrSynced := now'\<rparr>)"
    "copy_of C m2 (jUser j) (jColl j) = apply_delta d (\<lambda>_. None)"
    using d(2) by auto
  from f(1) show "\<exists>h'. held_of C m2 (jUser j) (jColl j) = Some h' \<and> mrToken h' = dlToken d" by simp
  show "copy_of C m2 (jUser j) (jColl j) n = None" if "n \<notin> cpName ` set (dlPut d)"
    unfolding f(2) apply_delta_def using fold_puts(1) [OF that] by (simp add: fold_gones)
qed

subsection \<open>Property\<close>



end
