(* ===== verification/Sieve_Script.thy ===== *)
theory Sieve_Script
  imports Prelude
begin

text \<open>
  The Sieve scripts the filter pages write and read back (\<^verbatim>\<open>filters/composed.go\<close>, \<^verbatim>\<open>filters/rules.go\<close>,
  \<^verbatim>\<open>filters/forwarding.go\<close>).

  Each regular expression of the sources is the function that matches it: every one is anchored or made of
  literals and quoted strings, whose match is unique, so the leftmost match is found by trying one position after the
  other. Lines never hold a line feed. \<^verbatim>\<open>strings.TrimSpace\<close> is that of ASCII.
\<close>

abbreviation (input) dq :: char where "dq \<equiv> CHR 0x22"
abbreviation (input) bsl :: char where "bsl \<equiv> CHR 0x5C"
abbreviation (input) nl :: char where "nl \<equiv> CHR 0x0A"

subsection \<open>Quoted strings\<close>

definition escape_char :: "char \<Rightarrow> string" where
  "escape_char c = (if c = bsl then [bsl, bsl] else if c = dq then [bsl, dq] else [c])"

definition quote :: "string \<Rightarrow> string" where
  "quote s = dq # concat (map escape_char s) @ [dq]"

fun unquote :: "string \<Rightarrow> string" where
  "unquote [] = []"
| "unquote [c] = [c]"
| "unquote (c # d # s) = (if c = bsl \<and> (d = dq \<or> d = bsl) then d # unquote s else c # unquote (d # s))"

text \<open>The expression \<^verbatim>\<open>quoted\<close>: what is between the quotes, and what follows the closing one.\<close>

fun quoted_body :: "string \<Rightarrow> (string \<times> string) option" where
  "quoted_body [] = None"
| "quoted_body (c # s) =
     (if c = dq then Some ([], s)
      else if c = bsl then (case s of [] \<Rightarrow> None
        | d # s' \<Rightarrow> if d = nl then None else map_option (\<lambda>(b, r). (c # d # b, r)) (quoted_body s'))
      else map_option (\<lambda>(b, r). (c # b, r)) (quoted_body s))"

definition quoted_at :: "string \<Rightarrow> (string \<times> string) option" where
  "quoted_at s = Option.bind (CutPrefix [dq] s) quoted_body"

definition requireLine :: "string list \<Rightarrow> string" where
  "requireLine extensions = (if extensions = [] then [] else ''require ['' @ Join '', '' (map quote extensions) @ ''];'' @ [nl])"

subsection \<open>The main script\<close>

definition mainScript :: string where
  "mainScript = ''alborz''"

definition RulesScript :: string where
  "RulesScript = ''alborz-rules''"

definition ForwardScript :: string where
  "ForwardScript = ''alborz-forward''"

definition VacationScript :: string where
  "VacationScript = ''alborz-vacation''"

definition composed :: "string list" where
  "composed = [RulesScript, ForwardScript, VacationScript]"

definition include_for :: "string \<Rightarrow> string" where
  "include_for name = ''include :personal '' @ quote name @ '';''"

definition mainScriptFor :: "string list \<Rightarrow> string \<Rightarrow> string" where
  "mainScriptFor present own =
     ''# Wiring, composed by Alborz: each line runs one script, the last is your own.'' @ [nl] @ requireLine [''include''] @
     concat (map (\<lambda>name. include_for name @ [nl]) present) @ (if own \<noteq> [] then include_for own @ [nl] else [])"

definition includeLine :: "string \<Rightarrow> string option" where
  "includeLine line = Option.bind (CutPrefix ''include :personal '' line) (\<lambda>s.
     Option.bind (quoted_at s) (\<lambda>(b, r). if r = '';'' then Some b else None))"

definition is_space :: "char \<Rightarrow> bool" where
  "is_space c \<longleftrightarrow> c \<in> {CHR 0x09, CHR 0x0A, CHR 0x0B, CHR 0x0C, CHR 0x0D, CHR 0x20}"

definition TrimSpace :: "string \<Rightarrow> string" where
  "TrimSpace s = rev (dropWhile is_space (rev (dropWhile is_space s)))"

fun own_in :: "string list \<Rightarrow> string" where
  "own_in [] = []"
| "own_in (line # ls) = (case includeLine (TrimSpace line) of
     Some m \<Rightarrow> if unquote m \<notin> set composed then unquote m else own_in ls
   | None \<Rightarrow> own_in ls)"

definition ownScriptIn :: "string \<Rightarrow> string" where
  "ownScriptIn content = own_in (Split nl content)"

definition included_in :: "string \<Rightarrow> string list" where
  "included_in content = concat (map (\<lambda>line. case includeLine line of Some m \<Rightarrow> [unquote m] | None \<Rightarrow> []) (Split nl content))"

text \<open>What \<^verbatim>\<open>checkMainScript\<close> asks of a main script that is there.\<close>

definition written_main :: "string \<Rightarrow> bool" where
  "written_main content \<longleftrightarrow> content = mainScriptFor (filter (\<lambda>name. name \<in> set (included_in content)) composed) (ownScriptIn content)"

subsection \<open>Rules\<close>

record Condition =
  cnField :: string
  cnMatch :: string
  cnValue :: string

record Rule =
  rName :: string
  rAny :: bool
  rConditions :: "Condition list"
  rFolder :: string
  rMarkRead :: bool
  rStar :: bool
  rDiscard :: bool
  rForward :: string
  rStop :: bool
  rOff :: bool

definition header_table :: "(string \<times> string) list" where
  "header_table = [(''from'', ''from''), (''to'', ''to''), (''cc'', ''cc''), (''subject'', ''subject''), (''list'', ''list-id'')]"

definition headerOf :: "string \<Rightarrow> string" where
  "headerOf f = (case map_of header_table f of None \<Rightarrow> [] | Some h \<Rightarrow> h)"

definition condition_test :: "Condition \<Rightarrow> string" where
  "condition_test c = (let kind = (if cnField c = ''subject'' \<or> cnField c = ''list'' then ''header'' else ''address'') in
     if cnMatch c = ''domain'' then ''address :domain :is '' @ quote (headerOf (cnField c)) @ '' '' @ quote (cnValue c)
     else kind @ '' :'' @ cnMatch c @ '' '' @ quote (headerOf (cnField c)) @ '' '' @ quote (cnValue c))"

definition blockRule :: "string \<Rightarrow> bool \<Rightarrow> string \<Rightarrow> Rule" where
  "blockRule value1 domain junk = \<lparr>rName = value1, rAny = False,
     rConditions = [\<lparr>cnField = ''from'', cnMatch = (if domain then ''domain'' else ''is''), cnValue = value1\<rparr>],
     rFolder = junk, rMarkRead = True, rStar = False, rDiscard = False, rForward = [], rStop = True, rOff = False\<rparr>"

definition joined_tests :: "Rule \<Rightarrow> string" where
  "joined_tests r = (if rAny r then ''anyof'' else ''allof'') @ ''('' @ Join '', '' (map condition_test (rConditions r)) @ '')''"

definition rule_if :: "Rule \<Rightarrow> string" where
  "rule_if r = ''if '' @ (if rOff r then ''allof(false, '' @ joined_tests r @ '')'' else joined_tests r) @ '' {''"

definition rule_acts :: "Rule \<Rightarrow> string list" where
  "rule_acts r =
     (if rMarkRead r then [''    addflag '' @ [dq, bsl, bsl] @ ''Seen'' @ [dq] @ '';''] else []) @
     (if rStar r then [''    addflag '' @ [dq, bsl, bsl] @ ''Flagged'' @ [dq] @ '';''] else []) @
     (if rFolder r \<noteq> [] then [''    fileinto '' @ quote (rFolder r) @ '';''] else []) @
     (if rForward r \<noteq> [] then [''    redirect :copy '' @ quote (rForward r) @ '';''] else []) @
     (if rDiscard r then [''    discard;''] else []) @
     (if rStop r then [''    stop;''] else [])"

definition on_lines :: "string list \<Rightarrow> string" where
  "on_lines ls = concat (map (\<lambda>l. l @ [nl]) ls)"

definition rule_block :: "Rule \<Rightarrow> string" where
  "rule_block r = on_lines ([''# rule: '' @ map (\<lambda>c. if c = nl then CHR '' '' else c) (rName r), rule_if r] @ rule_acts r @ [''}''])"

definition need_ext :: "string list \<Rightarrow> string \<Rightarrow> bool \<Rightarrow> string list" where
  "need_ext need ext b = (if b \<and> ext \<notin> set need then need @ [ext] else need)"

definition rules_need :: "Rule list \<Rightarrow> string list" where
  "rules_need rules = foldl (\<lambda>need r. need_ext (need_ext (need_ext need ''fileinto'' (rFolder r \<noteq> [])) ''imap4flags'' (rMarkRead r \<or> rStar r))
     ''copy'' (rForward r \<noteq> [])) [] rules"

definition rules_head :: string where
  "rules_head = ''# Rules, composed on the Rules page. They run in this order; a rule that stops ends delivery here.''"

definition rulesScriptFor :: "Rule list \<Rightarrow> string" where
  "rulesScriptFor rules = (if rules = [] then []
     else rules_head @ [nl] @ requireLine (rules_need rules) @ concat (map (\<lambda>r. [nl] @ rule_block r) rules))"

subsection \<open>Reading rules\<close>

definition offPrefix :: string where
  "offPrefix = ''if allof(false, ''"

definition CutSuffix :: "string \<Rightarrow> string \<Rightarrow> string option" where
  "CutSuffix p s = (if suffix p s then Some (take (length s - length p) s) else None)"

definition first_of :: "(string \<times> 'a) list \<Rightarrow> string \<Rightarrow> ('a \<times> string) option" where
  "first_of ws s = (case filter (\<lambda>w. prefix (fst w) s) ws of [] \<Rightarrow> None | w # _ \<Rightarrow> Some (snd w, drop (length (fst w)) s))"

definition ruleIf :: "string \<Rightarrow> (bool \<times> string) option" where
  "ruleIf line = Option.bind (first_of [(''if allof('', False), (''if anyof('', True)] line) (\<lambda>(any, s).
     map_option (Pair any) (CutSuffix '') {'' s))"

text \<open>One test at the start of a text: how it matches, the header, the value, and what follows.\<close>

definition ruleTest :: "string \<Rightarrow> ((string \<times> string \<times> string) \<times> string) option" where
  "ruleTest s = Option.bind (first_of [(''address :'', ()), (''header :'', ())] s) (\<lambda>(_, s1).
     Option.bind (first_of [(''is '', ''is''), (''contains '', ''contains''), (''domain :is '', ''domain'')] s1) (\<lambda>(match, s2).
     Option.bind (quoted_at s2) (\<lambda>(header, s3).
     Option.bind (CutPrefix '' '' s3) (\<lambda>s4.
     Option.bind (quoted_at s4) (\<lambda>(value1, s5). Some ((match, header, value1), s5))))))"

lemma quoted_body_shorter: "quoted_body s = Some (b, r) \<Longrightarrow> length r < length s"
  by (induction s arbitrary: b r rule: quoted_body.induct) (fastforce split: if_splits list.splits)+

lemma CutPrefix_length: "CutPrefix p s = Some r \<Longrightarrow> length r = length s - length p"
  by (auto simp: CutPrefix_def split: if_splits)

lemma quoted_at_shorter: "quoted_at s = Some (b, r) \<Longrightarrow> length r < length s"
  by (auto simp: quoted_at_def CutPrefix_Some bind_eq_Some_conv dest: quoted_body_shorter)

lemma first_of_shorter: "first_of ws s = Some (x, r) \<Longrightarrow> length r \<le> length s"
  by (auto simp: first_of_def split: list.splits)

lemma ruleTest_shorter: "ruleTest s = Some (x, r) \<Longrightarrow> length r < length s"
  by (auto simp: ruleTest_def bind_eq_Some_conv dest!: first_of_shorter quoted_at_shorter CutPrefix_length)

function find_tests :: "string \<Rightarrow> (string \<times> string \<times> string) list" where
  "find_tests s = (case ruleTest s of
       Some (t, r) \<Rightarrow> t # find_tests r
     | None \<Rightarrow> (case s of [] \<Rightarrow> [] | _ # s' \<Rightarrow> find_tests s'))"
  by pat_completeness auto
termination by (relation "measure length") (auto dest: ruleTest_shorter)

declare find_tests.simps [simp del]

definition field_of :: "string \<Rightarrow> string" where
  "field_of header = (case filter (\<lambda>e. snd e = header) header_table of [] \<Rightarrow> [] | e # _ \<Rightarrow> fst e)"

definition condition_of :: "string \<times> string \<times> string \<Rightarrow> Condition" where
  "condition_of t = (case t of (match, header, value1) \<Rightarrow> \<lparr>cnField = field_of (unquote header), cnMatch = match, cnValue = unquote value1\<rparr>)"

datatype act = ActFile string | ActFlag string | ActRedirect string | ActDiscard | ActStop

definition ruleAct :: "string \<Rightarrow> act option" where
  "ruleAct line = Option.bind (CutPrefix ''    '' line) (\<lambda>s.
     if s = ''discard;'' then Some ActDiscard else if s = ''stop;'' then Some ActStop
     else if s = ''addflag '' @ [dq, bsl, bsl] @ ''Seen'' @ [dq] @ '';'' then Some (ActFlag ''Seen'')
     else if s = ''addflag '' @ [dq, bsl, bsl] @ ''Flagged'' @ [dq] @ '';'' then Some (ActFlag ''Flagged'')
     else Option.bind (first_of [(''fileinto '', ActFile), (''redirect :copy '', ActRedirect)] s) (\<lambda>(f, s1).
       Option.bind (quoted_at s1) (\<lambda>(b, r). if r = '';'' then Some (f b) else None)))"

definition apply_act :: "act \<Rightarrow> Rule \<Rightarrow> Rule" where
  "apply_act a r = (case a of
       ActFile b \<Rightarrow> if b \<noteq> [] then r\<lparr>rFolder := unquote b\<rparr> else r
     | ActFlag f \<Rightarrow> if f = ''Seen'' then r\<lparr>rMarkRead := True\<rparr> else r\<lparr>rStar := True\<rparr>
     | ActRedirect b \<Rightarrow> if b \<noteq> [] then r\<lparr>rForward := unquote b\<rparr> else r
     | ActDiscard \<Rightarrow> r\<lparr>rDiscard := True\<rparr>
     | ActStop \<Rightarrow> r\<lparr>rStop := True\<rparr>)"

fun read_acts :: "string list \<Rightarrow> Rule \<Rightarrow> (Rule \<times> string list) option" where
  "read_acts [] r = Some (r, [])"
| "read_acts (line # ls) r = (if line = ''}'' then Some (r, ls)
     else (case ruleAct line of None \<Rightarrow> None | Some a \<Rightarrow> read_acts ls (apply_act a r)))"

definition named_rule :: "string \<Rightarrow> Rule" where
  "named_rule name = \<lparr>rName = name, rAny = False, rConditions = [], rFolder = [], rMarkRead = False, rStar = False, rDiscard = False,
     rForward = [], rStop = False, rOff = False\<rparr>"

definition read_if :: "string \<Rightarrow> Rule \<Rightarrow> Rule option" where
  "read_if line r = (let off = prefix offPrefix line \<and> suffix '')) {'' line;
       line1 = (if off then ''if '' @ TrimSuffix '')) {'' (TrimPrefix offPrefix line) @ '') {'' else line)
     in map_option (\<lambda>(any, tests). r\<lparr>rOff := off, rAny := any, rConditions := map condition_of (find_tests tests)\<rparr>) (ruleIf line1))"

lemma read_acts_shorter: "read_acts ls r = Some (r', rest) \<Longrightarrow> length rest \<le> length ls"
  by (induction ls r rule: read_acts.induct) (fastforce split: if_splits option.splits)+

function read_rules :: "string list \<Rightarrow> Rule list option" where
  "read_rules ls = (case ls of [] \<Rightarrow> Some []
     | l # ls1 \<Rightarrow> (case CutPrefix ''# rule: '' l of
           None \<Rightarrow> read_rules ls1
         | Some name \<Rightarrow> (case ls1 of [] \<Rightarrow> None
             | line # ls2 \<Rightarrow> (case read_if line (named_rule name) of None \<Rightarrow> None
                 | Some r \<Rightarrow> (case read_acts ls2 r of None \<Rightarrow> None
                     | Some (r', rest) \<Rightarrow> map_option ((#) r') (read_rules rest))))))"
  by pat_completeness auto
termination by (relation "measure length") (auto dest: read_acts_shorter)

declare read_rules.simps [simp del]

fun Replace1 :: "string \<Rightarrow> string \<Rightarrow> string \<Rightarrow> string" where
  "Replace1 old1 new s = (if prefix old1 s then new @ drop (length old1) s
     else (case s of [] \<Rightarrow> [] | c # cs \<Rightarrow> c # Replace1 old1 new cs))"

definition legacy_block :: "Rule \<Rightarrow> string" where
  "legacy_block r = (let line = ''    fileinto '' @ quote (rFolder r) @ '';'' @ [nl] in
     Replace1 ('') {'' @ [nl]) ('') {'' @ [nl] @ line) (Replace1 line [] (rule_block r)))"

definition legacy_script :: "Rule list \<Rightarrow> string" where
  "legacy_script rules = foldl (\<lambda>canonical r. if rFolder r = [] then canonical else Replace1 (rule_block r) (legacy_block r) canonical)
     (rulesScriptFor rules) rules"

definition readRules :: "string \<Rightarrow> Rule list \<times> bool" where
  "readRules content = (case read_rules (Split nl content) of
       None \<Rightarrow> ([], False)
     | Some rules \<Rightarrow> if rulesScriptFor rules = content then (rules, True) else (rules, legacy_script rules = content))"

subsection \<open>Forwarding\<close>

record Forward =
  fwAddress :: string
  fwOff :: bool

record Forwarding =
  fwForwards :: "Forward list"
  fwKeep :: bool

definition forwardOff :: string where
  "forwardOff = ''if false {''"

definition forward_redirect :: "bool \<Rightarrow> Forward \<Rightarrow> string" where
  "forward_redirect keep fw = ''redirect '' @ (if keep then '':copy '' else []) @ quote (fwAddress fw) @ '';''"

definition forward_lines :: "bool \<Rightarrow> Forward \<Rightarrow> string list" where
  "forward_lines keep fw = (if fwOff fw then [forwardOff, ''    '' @ forward_redirect keep fw, ''}''] else [forward_redirect keep fw])"

definition forward_script :: "Forwarding \<Rightarrow> string" where
  "forward_script f = (if fwForwards f = [] then []
     else ''# Forwarding, composed on the Forwarding page.'' @ [nl] @ (if fwKeep f then requireLine [''copy''] else []) @
       concat (map (\<lambda>fw. on_lines (forward_lines (fwKeep f) fw)) (fwForwards f)))"

definition forwardLine :: "string \<Rightarrow> (bool \<times> string) option" where
  "forwardLine line = Option.bind (CutPrefix ''redirect '' line) (\<lambda>s.
     case CutPrefix '':copy '' s of
       Some s1 \<Rightarrow> Option.bind (quoted_at s1) (\<lambda>(b, r). if r = '';'' then Some (True, b) else None)
     | None \<Rightarrow> Option.bind (quoted_at s) (\<lambda>(b, r). if r = '';'' then Some (False, b) else None))"

fun read_forwards :: "string list \<Rightarrow> bool \<Rightarrow> Forwarding \<Rightarrow> Forwarding option" where
  "read_forwards [] off f = Some f"
| "read_forwards (l # ls) off f = (let line = TrimSpace l in
     if line = [] \<or> prefix ''#'' line \<or> prefix ''require '' line then read_forwards ls off f
     else if line = forwardOff then read_forwards ls True f
     else if line = ''}'' then read_forwards ls False f
     else (case forwardLine line of None \<Rightarrow> None
       | Some (copy, b) \<Rightarrow> read_forwards ls off
           (f\<lparr>fwForwards := fwForwards f @ [\<lparr>fwAddress = unquote b, fwOff = off\<rparr>], fwKeep := fwKeep f \<and> copy\<rparr>)))"

definition readForwarding :: "string \<Rightarrow> Forwarding \<times> bool" where
  "readForwarding content = (case read_forwards (Split nl content) False \<lparr>fwForwards = [], fwKeep = True\<rparr> of
       None \<Rightarrow> (\<lparr>fwForwards = [], fwKeep = False\<rparr>, False)
     | Some f \<Rightarrow> (f, forward_script f = content))"

subsection \<open>What is written is read\<close>

lemma unquote_other: "c \<noteq> bsl \<Longrightarrow> unquote (c # s) = c # unquote s"
  by (cases s) simp_all

lemma escape_simps: "escape_char bsl = [bsl, bsl]" "escape_char dq = [bsl, dq]" "c \<noteq> bsl \<Longrightarrow> c \<noteq> dq \<Longrightarrow> escape_char c = [c]"
  by (simp_all add: escape_char_def)

lemma unquote_escaped: "unquote (concat (map escape_char s)) = s"
proof (induction s)
  case (Cons c s)
  consider "c = bsl" | "c = dq" | "c \<noteq> bsl" "c \<noteq> dq" by blast
  then show ?case by cases (simp_all add: escape_simps Cons unquote_other)
qed simp

lemma quoted_body_escaped: "quoted_body (concat (map escape_char s) @ dq # r) = Some (concat (map escape_char s), r)"
  by (induction s) (auto simp: escape_char_def)

lemma quoted_at_quote [simp]: "quoted_at (quote s @ r) = Some (concat (map escape_char s), r)"
  by (simp add: quoted_at_def quote_def CutPrefix_def quoted_body_escaped)

lemma quoted_at_quote_end [simp]: "quoted_at (quote s) = Some (concat (map escape_char s), [])"
  using quoted_at_quote [of s "[]"] by simp

lemma escape_nonempty [simp]: "escape_char c \<noteq> []"
  by (simp add: escape_char_def)

lemma nl_quote: "nl \<in> set (quote s) \<longleftrightarrow> nl \<in> set s"
  by (auto simp: quote_def escape_char_def split: if_splits)

text \<open>A condition the pages offer.\<close>

definition condition_ok :: "Condition \<Rightarrow> bool" where
  "condition_ok c \<longleftrightarrow> cnField c \<in> fst ` set header_table \<and> cnMatch c \<in> {''is'', ''contains'', ''domain''} \<and> nl \<notin> set (cnValue c)"

lemma field_of_headerOf: "f \<in> fst ` set header_table \<Longrightarrow> field_of (headerOf f) = f"
  by (auto simp: header_table_def field_of_def headerOf_def)

lemma ruleTest_parts:
  assumes "k \<in> {''address :'', ''header :''}" and "(w, match) \<in> {(''is '', ''is''), (''contains '', ''contains''), (''domain :is '', ''domain'')}"
  shows "ruleTest (k @ w @ quote h @ '' '' @ quote v @ s) = Some ((match, concat (map escape_char h), concat (map escape_char v)), s)"
proof -
  have 1: "first_of [(''address :'', ()), (''header :'', ())] (k @ x) = Some ((), x)" for x
    using assms(1) by (elim insertE) (simp_all add: first_of_def)
  have 2: "first_of [(''is '', ''is''), (''contains '', ''contains''), (''domain :is '', ''domain'')] (w @ x) = Some (match, x)" for x
    using assms(2) by (elim insertE) (simp_all add: first_of_def)
  have 3: "CutPrefix '' '' ('' '' @ x) = Some x" for x by (simp add: CutPrefix_def)
  show ?thesis unfolding ruleTest_def 1 bind.bind_lunit prod.case 2 quoted_at_quote 3 by (rule refl)
qed

lemma ruleTest_condition:
  assumes "condition_ok c"
  shows "\<exists>t. ruleTest (condition_test c @ s) = Some (t, s) \<and> condition_of t = c"
proof -
  let ?k = "if cnMatch c = ''domain'' \<or> cnField c \<noteq> ''subject'' \<and> cnField c \<noteq> ''list'' then ''address :'' else ''header :''"
  let ?w = "if cnMatch c = ''domain'' then ''domain :is '' else cnMatch c @ '' ''"
  have "condition_test c @ s = ?k @ ?w @ quote (headerOf (cnField c)) @ '' '' @ quote (cnValue c) @ s" by (simp add: condition_test_def Let_def)
  moreover have "(?w, cnMatch c) \<in> {(''is '', ''is''), (''contains '', ''contains''), (''domain :is '', ''domain'')}"
    using assms by (auto simp: condition_ok_def)
  ultimately have "ruleTest (condition_test c @ s) = Some ((cnMatch c, concat (map escape_char (headerOf (cnField c))), concat (map escape_char (cnValue c))), s)"
    using ruleTest_parts [of ?k ?w "cnMatch c"] by simp
  then show ?thesis using assms by (auto simp: condition_of_def condition_ok_def unquote_escaped field_of_headerOf)
qed

lemma ruleTest_start: "ruleTest (c # s) = None" if "c \<notin> {CHR ''a'', CHR ''h''}"
proof -
  have "first_of [(''address :'', ()), (''header :'', ())] (c # s) = None" using that by (auto simp: first_of_def)
  then show ?thesis by (simp add: ruleTest_def)
qed

lemma find_tests_joined: "\<forall>c \<in> set cs. condition_ok c \<Longrightarrow> map condition_of (find_tests (Join '', '' (map condition_test cs))) = cs"
proof (induction cs)
  case Nil
  have "ruleTest [] = None" by (simp add: ruleTest_def first_of_def)
  then show ?case by (subst find_tests.simps) simp
next
  case (Cons c cs)
  have c: "condition_ok c" using Cons.prems by simp
  show ?case
  proof (cases cs)
    case Nil
    obtain t where "ruleTest (condition_test c) = Some (t, [])" "condition_of t = c" using ruleTest_condition [OF c, of "[]"] by auto
    then show ?thesis using Cons.IH Nil by (subst find_tests.simps) simp
  next
    case (Cons d ds)
    let ?rest = "Join '', '' (map condition_test cs)"
    obtain t where t: "ruleTest (condition_test c @ '', '' @ ?rest) = Some (t, '', '' @ ?rest)" "condition_of t = c" using ruleTest_condition [OF c] by blast
    have "find_tests ('', '' @ ?rest) = find_tests ?rest"
      by (subst find_tests.simps, simp add: ruleTest_start, subst find_tests.simps, simp add: ruleTest_start)
    then show ?thesis using t Cons.IH Cons.prems Cons by (subst find_tests.simps) simp
  qed
qed

text \<open>A rule the pages write: names and values are single lines.\<close>

definition rule_ok :: "Rule \<Rightarrow> bool" where
  "rule_ok r \<longleftrightarrow> nl \<notin> set (rName r) \<and> (\<forall>c \<in> set (rConditions r). condition_ok c) \<and> nl \<notin> set (rFolder r) \<and> nl \<notin> set (rForward r)"

lemma ruleIf_joined: "ruleIf (''if '' @ joined_tests r @ '' {'') = Some (rAny r, Join '', '' (map condition_test (rConditions r)))"
  by (simp add: ruleIf_def joined_tests_def first_of_def CutSuffix_def suffix_def)

lemma joined_first:
  assumes "\<forall>c \<in> set cs. condition_ok c"
  shows "hd (Join '', '' (map condition_test cs) @ '') {'') \<noteq> CHR ''f''"
proof (cases cs)
  case (Cons c cs')
  have "hd (condition_test c) \<noteq> CHR ''f'' \<and> condition_test c \<noteq> []" by (simp add: condition_test_def Let_def)
  then show ?thesis using Cons by (cases cs') auto
qed simp

lemma read_if_rule:
  assumes "\<forall>c \<in> set (rConditions r). condition_ok c"
  shows "read_if (rule_if r) (named_rule name) = Some ((named_rule name)\<lparr>rOff := rOff r, rAny := rAny r, rConditions := rConditions r\<rparr>)"
proof (cases "rOff r")
  case True
  let ?t = "(if rAny r then ''anyof'' else ''allof'') @ ''('' @ Join '', '' (map condition_test (rConditions r))"
  have l: "rule_if r = offPrefix @ ?t @ '')) {''" using True by (simp add: rule_if_def joined_tests_def offPrefix_def)
  have "''if '' @ TrimSuffix '')) {'' (TrimPrefix offPrefix (rule_if r)) @ '') {'' = ''if '' @ joined_tests r @ '' {''"
    unfolding l TrimPrefix_append using TrimSuffix_append [of "'')) {''" ?t] by (simp add: joined_tests_def)
  moreover have "prefix offPrefix (rule_if r)" "suffix '')) {'' (rule_if r)" unfolding l by (auto simp: suffix_def)
  ultimately have "read_if (rule_if r) (named_rule name) = map_option (\<lambda>(any, tests). (named_rule name)\<lparr>rOff := True, rAny := any,
      rConditions := map condition_of (find_tests tests)\<rparr>) (ruleIf (''if '' @ joined_tests r @ '' {''))"
    by (simp only: read_if_def Let_def simp_thms if_True)
  then show ?thesis using True unfolding ruleIf_joined by (simp add: find_tests_joined [OF assms])
next
  case False
  have "\<not> prefix offPrefix (rule_if r)"
    using False joined_first [OF assms] by (cases "Join '', '' (map condition_test (rConditions r))") (auto simp: offPrefix_def rule_if_def joined_tests_def)
  moreover have "rule_if r = ''if '' @ joined_tests r @ '' {''" using False by (simp add: rule_if_def)
  ultimately show ?thesis using False ruleIf_joined [of r] find_tests_joined [OF assms] by (simp add: read_if_def)
qed

lemma ruleAct_quoted:
  "ruleAct (''    fileinto '' @ quote b @ '';'') = Some (ActFile (concat (map escape_char b)))"
  "ruleAct (''    redirect :copy '' @ quote b @ '';'') = Some (ActRedirect (concat (map escape_char b)))"
  by (simp_all add: ruleAct_def first_of_def CutPrefix_def)

lemma ruleAct_plain:
  "ruleAct (''    addflag '' @ [dq, bsl, bsl] @ ''Seen'' @ [dq] @ '';'') = Some (ActFlag ''Seen'')"
  "ruleAct (''    addflag '' @ [dq, bsl, bsl] @ ''Flagged'' @ [dq] @ '';'') = Some (ActFlag ''Flagged'')"
  "ruleAct ''    discard;'' = Some ActDiscard" "ruleAct ''    stop;'' = Some ActStop"
  by (simp_all add: ruleAct_def CutPrefix_def)

lemma read_acts_step: "ruleAct l = Some a \<Longrightarrow> read_acts (l # ls) r = read_acts ls (apply_act a r)"
proof -
  assume "ruleAct l = Some a"
  moreover from this have "l \<noteq> ''}''" by (auto simp: ruleAct_def CutPrefix_def)
  ultimately show ?thesis by simp
qed

lemma read_acts_if: "ruleAct l = Some a \<Longrightarrow> read_acts ((if b then [l] else []) @ ls) r = read_acts ls (if b then apply_act a r else r)"
  using read_acts_step [of l a ls r] by simp

lemma apply_act_if:
  "(if b then apply_act (ActFlag ''Seen'') r else r) = r\<lparr>rMarkRead := b \<or> rMarkRead r\<rparr>"
  "(if b then apply_act (ActFlag ''Flagged'') r else r) = r\<lparr>rStar := b \<or> rStar r\<rparr>"
  "(if x \<noteq> [] then apply_act (ActFile (concat (map escape_char x))) r else r) = r\<lparr>rFolder := if x \<noteq> [] then x else rFolder r\<rparr>"
  "(if x \<noteq> [] then apply_act (ActRedirect (concat (map escape_char x))) r else r) = r\<lparr>rForward := if x \<noteq> [] then x else rForward r\<rparr>"
  "(if b then apply_act ActDiscard r else r) = r\<lparr>rDiscard := b \<or> rDiscard r\<rparr>"
  "(if b then apply_act ActStop r else r) = r\<lparr>rStop := b \<or> rStop r\<rparr>"
  by (simp_all add: apply_act_def unquote_escaped)

lemma read_acts_rule:
  "read_acts (rule_acts r @ ''}'' # rest) ((named_rule (rName r))\<lparr>rOff := rOff r, rAny := rAny r, rConditions := rConditions r\<rparr>) = Some (r, rest)"
  unfolding rule_acts_def append_assoc
  unfolding read_acts_if [OF ruleAct_plain(1)] read_acts_if [OF ruleAct_plain(2)] read_acts_if [OF ruleAct_plain(3)] read_acts_if [OF ruleAct_plain(4)]
    read_acts_if [OF ruleAct_quoted(1)] read_acts_if [OF ruleAct_quoted(2)] apply_act_if
  by (cases r) (simp add: named_rule_def)

lemma Split_on_lines: "\<forall>l \<in> set ls. nl \<notin> set l \<Longrightarrow> Split nl (on_lines ls @ s) = ls @ Split nl s"
  by (induction ls) (simp_all add: on_lines_def)

definition block_lines :: "Rule \<Rightarrow> string list" where
  "block_lines r = [''# rule: '' @ rName r, rule_if r] @ rule_acts r @ [''}'']"

lemma rule_block_lines: "rule_ok r \<Longrightarrow> rule_block r = on_lines (block_lines r)"
proof -
  assume "rule_ok r"
  then have "map (\<lambda>c. if c = nl then CHR '' '' else c) (rName r) = rName r" by (intro map_idI) (auto simp: rule_ok_def)
  then show ?thesis by (simp add: rule_block_def block_lines_def)
qed

lemma nl_Join: "nl \<in> set (Join sep ws) \<Longrightarrow> nl \<in> set sep \<or> (\<exists>w \<in> set ws. nl \<in> set w)"
  by (induction sep ws rule: Join.induct) auto

lemma nl_condition: "condition_ok c \<Longrightarrow> nl \<notin> set (condition_test c)"
  by (auto simp: condition_ok_def condition_test_def Let_def nl_quote header_table_def headerOf_def)

lemma block_lines_nl: "rule_ok r \<Longrightarrow> \<forall>l \<in> set (block_lines r). nl \<notin> set l"
proof -
  assume r: "rule_ok r"
  have "nl \<notin> set (Join '', '' (map condition_test (rConditions r)))"
    using nl_Join [of "'', ''"] nl_condition r by (fastforce simp: rule_ok_def)
  then have "nl \<notin> set (joined_tests r)" by (simp add: joined_tests_def)
  then have "nl \<notin> set (rule_if r)" by (simp add: rule_if_def)
  moreover have "\<forall>l \<in> set (rule_acts r). nl \<notin> set l" using r by (auto simp: rule_acts_def rule_ok_def nl_quote)
  ultimately show ?thesis using r by (auto simp: block_lines_def rule_ok_def)
qed

lemma read_rules_skip: "CutPrefix ''# rule: '' l = None \<Longrightarrow> read_rules (l # ls) = read_rules ls"
  by (subst read_rules.simps) simp

lemma read_rules_block: "rule_ok r \<Longrightarrow> read_rules (block_lines r @ rest) = map_option ((#) r) (read_rules rest)"
proof -
  assume r: "rule_ok r"
  have "CutPrefix ''# rule: '' (''# rule: '' @ rName r) = Some (rName r)" by (simp only: CutPrefix_append)
  moreover have "read_if (rule_if r) (named_rule (rName r)) = Some ((named_rule (rName r))\<lparr>rOff := rOff r, rAny := rAny r, rConditions := rConditions r\<rparr>)"
    by (rule read_if_rule) (use r in \<open>simp add: rule_ok_def\<close>)
  moreover have "block_lines r @ rest = (''# rule: '' @ rName r) # rule_if r # rule_acts r @ ''}'' # rest" by (simp only: block_lines_def append.simps append_assoc)
  ultimately show ?thesis by (subst read_rules.simps) (simp only: list.case option.case read_acts_rule prod.case)
qed

lemma read_rules_blocks: "\<forall>r \<in> set rs. rule_ok r \<Longrightarrow> read_rules (concat (map (\<lambda>r. [] # block_lines r) rs) @ [[]]) = Some rs"
proof (induction rs)
  case Nil
  have "CutPrefix ''# rule: '' [] = None" by (simp add: CutPrefix_def)
  then show ?case by (simp add: read_rules_skip) (subst read_rules.simps, simp)
next
  case (Cons r rs)
  have "CutPrefix ''# rule: '' [] = None" by (simp add: CutPrefix_def)
  then show ?case using Cons by (simp add: read_rules_skip read_rules_block)
qed

lemma Split_blocks: "\<forall>r \<in> set rs. rule_ok r \<Longrightarrow> Split nl (concat (map (\<lambda>r. [nl] @ rule_block r) rs)) = concat (map (\<lambda>r. [] # block_lines r) rs) @ [[]]"
proof (induction rs)
  case (Cons r rs)
  then show ?case using Split_on_lines [OF block_lines_nl, of r] by (simp add: rule_block_lines)
qed simp

lemma require_lines:
  assumes "\<forall>e \<in> set es. nl \<notin> set e"
  obtains "requireLine es = []" | l where "requireLine es = l @ [nl]" "nl \<notin> set l" "prefix ''require '' l"
proof (cases "es = []")
  case False
  let ?l = "''require ['' @ Join '', '' (map quote es) @ ''];''"
  have "nl \<notin> set ?l" using nl_Join [of "'', ''" "map quote es"] assms by (auto simp: nl_quote)
  then show thesis using False that(2) [of ?l] by (simp add: requireLine_def)
qed (use that(1) in \<open>simp add: requireLine_def\<close>)

lemma rules_need_ok: "\<forall>e \<in> set (rules_need rs). nl \<notin> set e"
proof -
  have "set (rules_need rs) \<subseteq> {''fileinto'', ''imap4flags'', ''copy''}"
    by (induction rs rule: rev_induct) (auto simp: rules_need_def need_ext_def)
  then show ?thesis by auto
qed

lemma CutPrefix_head: "\<not> prefix p l \<Longrightarrow> CutPrefix p l = None"
  by (simp add: CutPrefix_def)

lemma read_rules_script:
  assumes "\<forall>r \<in> set rs. rule_ok r"
  shows "read_rules (Split nl (rulesScriptFor rs)) = Some rs"
proof (cases "rs = []")
  case True
  then show ?thesis using read_rules_blocks [of "[]"] by (simp add: rulesScriptFor_def)
next
  case False
  let ?b = "concat (map (\<lambda>r. [nl] @ rule_block r) rs)"
  have skip: "CutPrefix ''# rule: '' rules_head = None" by (simp add: CutPrefix_def rules_head_def)
  have nh: "nl \<notin> set rules_head" by (simp add: rules_head_def)
  have rest: "read_rules (Split nl ?b) = Some rs" unfolding Split_blocks [OF assms] by (rule read_rules_blocks [OF assms])
  have "Split nl (rulesScriptFor rs) = rules_head # Split nl (requireLine (rules_need rs) @ ?b)"
    using False nh by (simp add: rulesScriptFor_def)
  then have "read_rules (Split nl (rulesScriptFor rs)) = read_rules (Split nl (requireLine (rules_need rs) @ ?b))" by (simp add: read_rules_skip [OF skip])
  also have "\<dots> = read_rules (Split nl ?b)"
  proof (rule require_lines [OF rules_need_ok [of rs]])
    fix l assume l: "requireLine (rules_need rs) = l @ [nl]" "nl \<notin> set l" "prefix ''require '' l"
    have "CutPrefix ''# rule: '' l = None" using l(3) by (intro CutPrefix_head) (auto simp: prefix_def)
    then show ?thesis using l(1,2) by (simp add: read_rules_skip)
  qed simp
  finally show ?thesis using rest by simp
qed

subsection \<open>Forwarding and the main script\<close>

lemma TrimSpace_same: "s \<noteq> [] \<Longrightarrow> \<not> is_space (hd s) \<Longrightarrow> \<not> is_space (last s) \<Longrightarrow> TrimSpace s = s"
proof -
  assume h: "s \<noteq> []" "\<not> is_space (hd s)" "\<not> is_space (last s)"
  then have "dropWhile is_space s = s" "dropWhile is_space (rev s) = rev s" by (simp_all add: dropWhile_eq_self_iff hd_rev)
  then show ?thesis by (simp add: TrimSpace_def)
qed

lemma TrimSpace_indent: "TrimSpace (''    '' @ s) = TrimSpace s"
  by (simp add: TrimSpace_def is_space_def)

lemma TrimSpace_redirect: "TrimSpace (forward_redirect keep fw) = forward_redirect keep fw"
  by (rule TrimSpace_same) (simp_all add: forward_redirect_def is_space_def)

lemma forwardLine_redirect: "forwardLine (forward_redirect keep fw) = Some (keep, concat (map escape_char (fwAddress fw)))"
  by (simp add: forwardLine_def forward_redirect_def CutPrefix_def) (simp add: quote_def)

lemma read_forwards_plain:
  "read_forwards (l # ls) off f = read_forwards ls off f" if "TrimSpace l = [] \<or> prefix ''#'' (TrimSpace l) \<or> prefix ''require '' (TrimSpace l)"
  using that by (simp add: Let_def)

lemma read_forwards_redirect:
  assumes "TrimSpace l = forward_redirect keep fw"
  shows "read_forwards (l # ls) off f = read_forwards ls off (f\<lparr>fwForwards := fwForwards f @ [\<lparr>fwAddress = fwAddress fw, fwOff = off\<rparr>], fwKeep := fwKeep f \<and> keep\<rparr>)"
proof -
  have "forward_redirect keep fw \<noteq> []" "\<not> prefix ''#'' (forward_redirect keep fw)" "\<not> prefix ''require '' (forward_redirect keep fw)"
    "forward_redirect keep fw \<noteq> forwardOff" "forward_redirect keep fw \<noteq> ''}''"
    by (simp_all add: forward_redirect_def forwardOff_def)
  then show ?thesis using assms by (simp add: forwardLine_redirect unquote_escaped)
qed

lemma read_forwards_one: "read_forwards (forward_lines keep fw @ ls) False f = read_forwards ls False (f\<lparr>fwForwards := fwForwards f @ [fw], fwKeep := fwKeep f \<and> keep\<rparr>)"
proof (cases "fwOff fw")
  case True
  have off: "read_forwards (forwardOff # xs) False f = read_forwards xs True f" for xs by (simp add: forwardOff_def TrimSpace_def is_space_def)
  have on1: "read_forwards (''}'' # xs) True g = read_forwards xs False g" for xs g by (simp add: forwardOff_def TrimSpace_def is_space_def)
  have "TrimSpace (''    '' @ forward_redirect keep fw) = forward_redirect keep fw" by (simp only: TrimSpace_indent TrimSpace_redirect)
  note r = read_forwards_redirect [OF this]
  have "forward_lines keep fw @ ls = forwardOff # (''    '' @ forward_redirect keep fw) # ''}'' # ls" using True by (simp add: forward_lines_def)
  then show ?thesis using True by (simp only: off r on1) (cases fw, simp)
next
  case False
  then show ?thesis using read_forwards_redirect [OF TrimSpace_redirect, of keep fw ls False f] by (cases fw) (simp add: forward_lines_def del: read_forwards.simps)
qed

lemma read_forwards_all:
  "read_forwards (concat (map (forward_lines keep) fws) @ [[]]) False f =
     Some (f\<lparr>fwForwards := fwForwards f @ fws, fwKeep := fwKeep f \<and> (fws = [] \<or> keep)\<rparr>)"
proof (induction fws arbitrary: f)
  case Nil
  then show ?case by (simp add: TrimSpace_def)
next
  case (Cons fw fws)
  show ?case using Cons [of "f\<lparr>fwForwards := fwForwards f @ [fw], fwKeep := fwKeep f \<and> keep\<rparr>"]
    by (cases keep) (auto simp: read_forwards_one simp del: read_forwards.simps)
qed

lemma forward_lines_nl: "nl \<notin> set (fwAddress fw) \<Longrightarrow> \<forall>l \<in> set (forward_lines keep fw). nl \<notin> set l"
  by (auto simp: forward_lines_def forward_redirect_def forwardOff_def nl_quote)

lemma Split_forwards:
  "\<forall>fw \<in> set fws. nl \<notin> set (fwAddress fw) \<Longrightarrow> Split nl (concat (map (\<lambda>fw. on_lines (forward_lines keep fw)) fws)) = concat (map (forward_lines keep) fws) @ [[]]"
proof (induction fws)
  case (Cons fw fws)
  then show ?case using Split_on_lines [OF forward_lines_nl, of fw keep] by simp
qed simp

lemma includeLine_include: "includeLine (include_for name) = Some (concat (map escape_char name))"
  by (simp add: includeLine_def include_for_def CutPrefix_def)

lemma TrimSpace_include: "TrimSpace (include_for name) = include_for name"
  by (rule TrimSpace_same) (simp_all add: include_for_def is_space_def)

lemma own_in_composed: "set ns \<subseteq> set composed \<Longrightarrow> own_in (map include_for ns @ ls) = own_in ls"
  by (induction ns) (auto simp: TrimSpace_include includeLine_include unquote_escaped)

lemma main_head:
  obtains h where "mainScriptFor present own = on_lines (h @ map include_for present @ (if own \<noteq> [] then [include_for own] else []))"
    and "\<forall>l \<in> set h. nl \<notin> set l \<and> includeLine l = None \<and> includeLine (TrimSpace l) = None"
proof -
  let ?h = "[''# Wiring, composed by Alborz: each line runs one script, the last is your own.'', ''require ['' @ quote ''include'' @ ''];'']"
  have "mainScriptFor present own = on_lines (?h @ map include_for present @ (if own \<noteq> [] then [include_for own] else []))"
    by (simp add: mainScriptFor_def requireLine_def on_lines_def comp_def)
  moreover have "includeLine (TrimSpace l) = None \<and> includeLine l = None \<and> nl \<notin> set l" if "l \<in> set ?h" for l
  proof -
    have "TrimSpace l = l" using that by (intro TrimSpace_same) (auto simp: is_space_def)
    then show ?thesis using that by (auto simp: includeLine_def CutPrefix_def nl_quote)
  qed
  ultimately show thesis using that by blast
qed

lemma composed_nl: "name \<in> set composed \<Longrightarrow> nl \<notin> set name"
  by (auto simp: composed_def RulesScript_def ForwardScript_def VacationScript_def)

lemma nl_include: "nl \<in> set (include_for name) \<longleftrightarrow> nl \<in> set name"
  by (simp add: include_for_def nl_quote)

lemma own_in_skip: "\<forall>l \<in> set h. includeLine (TrimSpace l) = None \<Longrightarrow> own_in (h @ ls) = own_in ls"
  by (induction h) auto

lemma Split_main:
  assumes "set present \<subseteq> set composed" and "nl \<notin> set own"
  obtains h where "Split nl (mainScriptFor present own) = h @ map include_for present @ (if own \<noteq> [] then [include_for own] else []) @ [[]]"
    and "\<forall>l \<in> set h. includeLine l = None \<and> includeLine (TrimSpace l) = None"
proof -
  obtain h where h: "mainScriptFor present own = on_lines (h @ map include_for present @ (if own \<noteq> [] then [include_for own] else []))"
    "\<forall>l \<in> set h. nl \<notin> set l \<and> includeLine l = None \<and> includeLine (TrimSpace l) = None" using main_head .
  have "\<forall>l \<in> set (h @ map include_for present @ (if own \<noteq> [] then [include_for own] else [])). nl \<notin> set l"
    using h(2) assms composed_nl by (auto simp: nl_include)
  from Split_on_lines [OF this, of "[]"] show thesis using that [of h] h by simp
qed

text \<open>The own script is found in the main script written for it, and so are the parts: what is written is taken for written.\<close>

lemma ownScriptIn_main:
  assumes "set present \<subseteq> set composed" and "nl \<notin> set own" and "own \<notin> set composed"
  shows "ownScriptIn (mainScriptFor present own) = own"
proof -
  obtain h where h: "Split nl (mainScriptFor present own) = h @ map include_for present @ (if own \<noteq> [] then [include_for own] else []) @ [[]]"
    "\<forall>l \<in> set h. includeLine l = None \<and> includeLine (TrimSpace l) = None" using Split_main [OF assms(1,2)] .
  have "includeLine (TrimSpace []) = None" by (simp add: TrimSpace_def includeLine_def CutPrefix_def)
  then show ?thesis unfolding ownScriptIn_def h(1) using own_in_skip [of h] h(2) own_in_composed [OF assms(1)] assms(3)
    by (simp add: TrimSpace_include includeLine_include unquote_escaped)
qed

lemma included_main:
  assumes "set present \<subseteq> set composed" and "nl \<notin> set own"
  shows "set (included_in (mainScriptFor present own)) = set present \<union> (if own \<noteq> [] then {own} else {})"
proof -
  obtain h where h: "Split nl (mainScriptFor present own) = h @ map include_for present @ (if own \<noteq> [] then [include_for own] else []) @ [[]]"
    "\<forall>l \<in> set h. includeLine l = None \<and> includeLine (TrimSpace l) = None" using Split_main [OF assms] .
  have "includeLine [] = None" by (simp add: includeLine_def CutPrefix_def)
  moreover have "concat (map (\<lambda>line. case includeLine line of Some m \<Rightarrow> [unquote m] | None \<Rightarrow> []) h) = []" using h(2) by (induction h) auto
  ultimately show ?thesis unfolding included_in_def h(1) by (auto simp: includeLine_include unquote_escaped)
qed

lemma written_mainScriptFor:
  assumes "nl \<notin> set own" and "own \<notin> set composed"
  shows "written_main (mainScriptFor (filter P composed) own)"
proof -
  have s: "set (filter P composed) \<subseteq> set composed" by auto
  have "filter (\<lambda>name. name \<in> set (included_in (mainScriptFor (filter P composed) own))) composed = filter P composed"
    unfolding included_main [OF s assms(1)] using assms(2) by (intro filter_cong) auto
  then show ?thesis unfolding written_main_def ownScriptIn_main [OF s assms] by simp
qed

subsection \<open>Properties\<close>

text \<open>
  C20: rules survive the server. The script written for any rules the page offers, switched off or on, with
  any names, values, folders and addresses of one line, whatever quotes and backslashes they hold, is read back as
  exactly these rules and taken for the page's own writing.
\<close>

theorem rules_roundtrip:
  assumes "\<forall>r \<in> set rules. rule_ok r"
  shows "readRules (rulesScriptFor rules) = (rules, True)"
  by (simp add: readRules_def read_rules_script [OF assms])

theorem rules_roundtrip_witness:
  "let rules = [blockRule ''a@b.c'' False ''Junk'', (blockRule (''say '' @ [dq] @ ''hi'' @ [dq, bsl]) True (''In '' @ [dq] @ ''box''))\<lparr>rOff := True, rAny := True, rForward := ''x@y.z''\<rparr>]
   in readRules (rulesScriptFor rules) = (rules, True)"
  unfolding Let_def
  by (rule rules_roundtrip) (simp add: blockRule_def rule_ok_def condition_ok_def header_table_def)

text \<open>
  Forwarding survives the server. A script of at least one address is read back with the same addresses,
  the same ones off, and the same choice about keeping a copy.
\<close>

lemma forwarding_roundtrip:
  assumes "fwForwards f \<noteq> []" and "\<forall>fw \<in> set (fwForwards f). nl \<notin> set (fwAddress fw)"
  shows "readForwarding (forward_script f) = (f, True)"
proof -
  let ?b = "concat (map (\<lambda>fw. on_lines (forward_lines (fwKeep f) fw)) (fwForwards f))" and ?f = "\<lparr>fwForwards = [], fwKeep = True\<rparr>"
  have s: "Split nl (forward_script f) = ''# Forwarding, composed on the Forwarding page.'' #
      (if fwKeep f then [''require ['' @ quote ''copy'' @ ''];''] else []) @ Split nl ?b"
    using assms(1) by (simp add: forward_script_def requireLine_def quote_def escape_char_def)
  have "TrimSpace (''require ['' @ quote ''copy'' @ ''];'') = ''require ['' @ quote ''copy'' @ ''];''"
    "TrimSpace ''# Forwarding, composed on the Forwarding page.'' = ''# Forwarding, composed on the Forwarding page.''"
    by (rule TrimSpace_same; simp add: is_space_def)+
  then have "read_forwards (Split nl (forward_script f)) False ?f = read_forwards (Split nl ?b) False ?f"
    unfolding s by (cases "fwKeep f") (simp_all add: read_forwards_plain del: read_forwards.simps)
  also have "\<dots> = Some f"
    unfolding Split_forwards [OF assms(2)] read_forwards_all using assms(1) by (cases f) simp
  finally show ?thesis by (simp add: readForwarding_def)
qed

lemma forwarding_roundtrip_witness:
  "let f = \<lparr>fwForwards = [\<lparr>fwAddress = ''a@b.c'', fwOff = True\<rparr>, \<lparr>fwAddress = [dq] @ ''q'' @ [dq] @ ''@d.e'', fwOff = False\<rparr>], fwKeep = True\<rparr>
   in readForwarding (forward_script f) = (f, True)"
  unfolding Let_def by (rule forwarding_roundtrip) simp_all

end
