(* ===== verification/Sieve_Account.thy ===== *)
theory Sieve_Account
  imports Sieve_Script
begin

text \<open>
  The filter scripts of an account on its ManageSieve server (\<^verbatim>\<open>filters/composed.go\<close>, and what
  \<^verbatim>\<open>filters/rules.go\<close> and \<^verbatim>\<open>filters/forwarding.go\<close> do with it): three composed scripts, a main script that runs
  them and the reader's own, and the reader's own script.

  The server is the argument \<open>sieve\<close> with a state \<open>'s\<close>; what RFC 5804 promises of it is \<open>sieve_contract\<close>, over what is
  stored and what is active. \<^verbatim>\<open>Fingerprint\<close> is the argument \<open>fp\<close>. An error of the server is \<open>ErrServer\<close>.
\<close>

datatype filter_err = ErrChanged | ErrByHand | ErrServer string

record 's sieve =
  svList :: "'s \<Rightarrow> (string + (string \<times> bool) list) \<times> 's"
  svGet :: "string \<Rightarrow> 's \<Rightarrow> (string + string) \<times> 's"
  svPut :: "string \<Rightarrow> string \<Rightarrow> 's \<Rightarrow> (string + string) \<times> 's"
  svActivate :: "string \<Rightarrow> 's \<Rightarrow> (string + unit) \<times> 's"
  svDelete :: "string \<Rightarrow> 's \<Rightarrow> (string + unit) \<times> 's"
  svExtensions :: "string list"

definition ask :: "('s \<Rightarrow> (string + 'a) \<times> 's) \<Rightarrow> (filter_err, 's, 'a) prog" where
  "ask m = (\<lambda>s. case m s of (res, s') \<Rightarrow> (map_sum ErrServer id res, s'))"

definition scriptIfAny :: "'s sieve \<Rightarrow> string \<Rightarrow> (filter_err, 's, string option) prog" where
  "scriptIfAny c name = bindT (ask (svList c)) (\<lambda>scripts.
     if name \<in> fst ` set scripts then bindT (ask (svGet c name)) (\<lambda>content. returnT (Some content)) else returnT None)"

definition checkMainScript :: "'s sieve \<Rightarrow> (filter_err, 's, unit) prog" where
  "checkMainScript c = bindT (scriptIfAny c mainScript) (\<lambda>x. case x of
       None \<Rightarrow> returnT ()
     | Some content \<Rightarrow> if written_main content then returnT () else failT ErrByHand)"

definition active_of :: "(string \<times> bool) list \<Rightarrow> string" where
  "active_of scripts = foldl (\<lambda>active e. if snd e then fst e else active) [] scripts"

definition wire_own :: "'s sieve \<Rightarrow> (string \<times> bool) list \<Rightarrow> (filter_err, 's, string) prog" where
  "wire_own c scripts = (let active = active_of scripts in
     if active \<noteq> [] \<and> active \<noteq> mainScript then returnT active
     else if mainScript \<in> fst ` set scripts then bindT (ask (svGet c mainScript)) (\<lambda>current. returnT (ownScriptIn current))
     else returnT [])"

definition wire_scripts :: "'s sieve \<Rightarrow> (filter_err, 's, unit) prog" where
  "wire_scripts c = bindT (checkMainScript c) (\<lambda>_. bindT (ask (svList c)) (\<lambda>scripts.
     let present = filter (\<lambda>name. name \<in> fst ` set scripts) composed in
     bindT (wire_own c scripts) (\<lambda>own.
       if present = [] then
         (if mainScript \<notin> fst ` set scripts then returnT ()
          else bindT (ask (svActivate c own)) (\<lambda>_. ask (svDelete c mainScript)))
       else bindT (ask (svPut c mainScript (mainScriptFor present own))) (\<lambda>_.
         if active_of scripts \<noteq> mainScript then ask (svActivate c mainScript) else returnT ()))))"

definition loadScript :: "'s sieve \<Rightarrow> (string \<Rightarrow> string) \<Rightarrow> string \<Rightarrow> 'a \<Rightarrow> (string \<Rightarrow> 'a \<times> bool) \<Rightarrow> (filter_err, 's, 'a \<times> string \<times> bool) prog" where
  "loadScript c fp name none read = bindT (scriptIfAny c name) (\<lambda>x. case x of
       None \<Rightarrow> returnT (none, [], False)
     | Some content \<Rightarrow> returnT (fst (read content), fp content, \<not> snd (read content)))"

definition HasExtension :: "'s sieve \<Rightarrow> string \<Rightarrow> bool" where
  "HasExtension c name = list_ex (\<lambda>e. EqualFold e name) (svExtensions c)"

definition SaveScript :: "'s sieve \<Rightarrow> (string \<Rightarrow> string) \<Rightarrow> string \<Rightarrow> string \<Rightarrow> string \<Rightarrow> (filter_err, 's, string) prog" where
  "SaveScript c fp name content loaded = bindT
     (if loaded \<noteq> [] then bindT (ask (svGet c name)) (\<lambda>current. if fp current \<noteq> loaded then failT ErrChanged else returnT ()) else returnT ())
     (\<lambda>_. ask (svPut c name content))"

definition unit_of :: "(filter_err, 's, 'a) prog \<Rightarrow> (filter_err, 's, unit) prog" where
  "unit_of m = bindT m (\<lambda>_. returnT ())"

definition rewrite :: "'s sieve \<Rightarrow> (string \<Rightarrow> string) \<Rightarrow> string \<Rightarrow> string \<Rightarrow> (string option \<Rightarrow> filter_err + string) \<Rightarrow> (filter_err, 's, unit) prog" where
  "rewrite c fp name loaded change = bindT (checkMainScript c) (\<lambda>_. bindT (scriptIfAny c name) (\<lambda>x.
     if (x \<noteq> None) \<noteq> (loaded \<noteq> []) \<or> (case x of Some current \<Rightarrow> fp current \<noteq> loaded | None \<Rightarrow> False) then failT ErrChanged
     else bindT (liftT (change x)) (\<lambda>next1.
       bindT (if next1 = [] \<and> x \<noteq> None then ask (svDelete c name)
              else if next1 \<noteq> [] then unit_of (ask (svPut c name next1)) else returnT ()) (\<lambda>_.
       wire_scripts c))))"

definition rules_of :: "string option \<Rightarrow> filter_err + Rule list" where
  "rules_of x = (case x of None \<Rightarrow> Inr [] | Some current \<Rightarrow> (case readRules current of (rules, ok) \<Rightarrow> if ok then Inr rules else Inl ErrByHand))"

definition LoadRules :: "'s sieve \<Rightarrow> (string \<Rightarrow> string) \<Rightarrow> (filter_err, 's, Rule list \<times> string \<times> bool) prog" where
  "LoadRules c fp = loadScript c fp RulesScript [] readRules"

definition ChangeRules :: "'s sieve \<Rightarrow> (string \<Rightarrow> string) \<Rightarrow> string \<Rightarrow> (Rule list \<Rightarrow> Rule list) \<Rightarrow> (filter_err, 's, unit) prog" where
  "ChangeRules c fp loaded change = rewrite c fp RulesScript loaded (\<lambda>x. bindE (rules_of x) (\<lambda>rules. Inr (rulesScriptFor (change rules))))"

definition add_block :: "Rule \<Rightarrow> Rule list \<Rightarrow> Rule list" where
  "add_block block rules = (if list_ex (\<lambda>r. length (rConditions r) = 1 \<and> hd (rConditions r) = hd (rConditions block)) rules then rules else rules @ [block])"

definition Block :: "'s sieve \<Rightarrow> (string \<Rightarrow> string) \<Rightarrow> string \<Rightarrow> bool \<Rightarrow> string \<Rightarrow> (filter_err, 's, unit) prog" where
  "Block c fp value1 domain junk = bindT (scriptIfAny c RulesScript) (\<lambda>x.
     rewrite c fp RulesScript (case x of None \<Rightarrow> [] | Some current \<Rightarrow> fp current)
       (\<lambda>x. bindE (rules_of x) (\<lambda>rules. Inr (rulesScriptFor (add_block (blockRule value1 domain junk) rules)))))"

definition LoadForwarding :: "'s sieve \<Rightarrow> (string \<Rightarrow> string) \<Rightarrow> (filter_err, 's, Forwarding \<times> string \<times> bool) prog" where
  "LoadForwarding c fp = loadScript c fp ForwardScript \<lparr>fwForwards = [], fwKeep = HasExtension c ''copy''\<rparr> readForwarding"

definition ChangeForwarding :: "'s sieve \<Rightarrow> (string \<Rightarrow> string) \<Rightarrow> string \<Rightarrow> (Forwarding \<Rightarrow> Forwarding) \<Rightarrow> (filter_err, 's, unit) prog" where
  "ChangeForwarding c fp loaded change = rewrite c fp ForwardScript loaded (\<lambda>x. bindE
     (case x of None \<Rightarrow> Inr \<lparr>fwForwards = [], fwKeep = HasExtension c ''copy''\<rparr>
      | Some current \<Rightarrow> (case readForwarding current of (f, ok) \<Rightarrow> if ok then Inr f else Inl ErrByHand)) (\<lambda>f. Inr (forward_script (change f))))"

subsection \<open>What a server promises\<close>

definition sieve_contract :: "'s sieve \<Rightarrow> ('s \<Rightarrow> string \<Rightarrow> string option) \<Rightarrow> ('s \<Rightarrow> string) \<Rightarrow> bool" where
  "sieve_contract c scripts active \<longleftrightarrow>
     (\<forall>s n. scripts s n \<noteq> None \<longrightarrow> n \<noteq> [] \<and> nl \<notin> set n) \<and> (\<forall>s. active s \<noteq> [] \<longrightarrow> scripts s (active s) \<noteq> None) \<and>
     (\<forall>s res s'. svList c s = (res, s') \<longrightarrow> scripts s' = scripts s \<and> active s' = active s \<and>
        (\<forall>l. res = Inr l \<longrightarrow> (\<forall>n. n \<in> fst ` set l \<longleftrightarrow> scripts s n \<noteq> None) \<and> (\<forall>n. (n, True) \<in> set l \<longleftrightarrow> n = active s \<and> n \<noteq> []))) \<and>
     (\<forall>n s res s'. svGet c n s = (res, s') \<longrightarrow> scripts s' = scripts s \<and> active s' = active s \<and> (\<forall>t. res = Inr t \<longrightarrow> scripts s n = Some t)) \<and>
     (\<forall>n t s x s'. svPut c n t s = (Inr x, s') \<longrightarrow> scripts s' = (scripts s)(n \<mapsto> t) \<and> active s' = active s) \<and>
     (\<forall>n s s'. svActivate c n s = (Inr (), s') \<longrightarrow> scripts s' = scripts s \<and> active s' = n) \<and>
     (\<forall>n s s'. svDelete c n s = (Inr (), s') \<longrightarrow> scripts s' = (scripts s)(n := None) \<and> active s' = active s)"

text \<open>The reader's own script: the active one, or the one the main script remembers.\<close>

definition own_script :: "(string \<Rightarrow> string option) \<Rightarrow> string \<Rightarrow> string" where
  "own_script scripts active = (if active \<noteq> [] \<and> active \<noteq> mainScript then active
     else (case scripts mainScript of Some content \<Rightarrow> ownScriptIn content | None \<Rightarrow> []))"

subsection \<open>What each operation does to the account\<close>

lemma ask_cases:
  assumes "ask m s = (res, s')"
  obtains e where "m s = (Inl e, s')" "res = Inl (ErrServer e)" | a where "m s = (Inr a, s')" "res = Inr a"
proof (cases "fst (m s)")
  case (Inl e)
  then show thesis using assms that(1) [of e] by (cases "m s") (auto simp: ask_def)
next
  case (Inr a)
  then show thesis using assms that(2) [of a] by (cases "m s") (auto simp: ask_def)
qed

lemma ask_returns: "ask m s = (Inr a, s') \<longleftrightarrow> m s = (Inr a, s')"
proof -
  obtain r t where "m s = (r, t)" by force
  then show ?thesis by (cases r) (auto simp: ask_def)
qed

lemma sieve_list:
  assumes "sieve_contract c scripts active" and "svList c s = (res, s')"
  shows "scripts s' = scripts s \<and> active s' = active s \<and>
    (\<forall>l. res = Inr l \<longrightarrow> (\<forall>n. n \<in> fst ` set l \<longleftrightarrow> scripts s n \<noteq> None) \<and> (\<forall>n. (n, True) \<in> set l \<longleftrightarrow> n = active s \<and> n \<noteq> []))"
proof -
  have "\<forall>s res s'. svList c s = (res, s') \<longrightarrow> scripts s' = scripts s \<and> active s' = active s \<and>
      (\<forall>l. res = Inr l \<longrightarrow> (\<forall>n. n \<in> fst ` set l \<longleftrightarrow> scripts s n \<noteq> None) \<and> (\<forall>n. (n, True) \<in> set l \<longleftrightarrow> n = active s \<and> n \<noteq> []))"
    using assms(1) unfolding sieve_contract_def by (elim conjE)
  then show ?thesis using assms(2) by blast
qed

lemma sieve_get:
  assumes "sieve_contract c scripts active" and "svGet c n s = (res, s')"
  shows "scripts s' = scripts s \<and> active s' = active s \<and> (\<forall>t. res = Inr t \<longrightarrow> scripts s n = Some t)"
proof -
  have "\<forall>n s res s'. svGet c n s = (res, s') \<longrightarrow> scripts s' = scripts s \<and> active s' = active s \<and> (\<forall>t. res = Inr t \<longrightarrow> scripts s n = Some t)"
    using assms(1) unfolding sieve_contract_def by (elim conjE)
  then show ?thesis using assms(2) by blast
qed

lemma list_view:
  assumes "sieve_contract c scripts active" and "ask (svList c) s = (res, s')"
  shows "scripts s' = scripts s \<and> active s' = active s" and "res = Inr l \<Longrightarrow> n \<in> fst ` set l \<longleftrightarrow> scripts s n \<noteq> None"
    and "res = Inr l \<Longrightarrow> (n, True) \<in> set l \<longleftrightarrow> n = active s \<and> n \<noteq> []" and "res \<noteq> Inl ErrChanged" and "res \<noteq> Inl ErrByHand"
proof -
  have "(scripts s' = scripts s \<and> active s' = active s) \<and> (\<forall>l n. res = Inr l \<longrightarrow> (n \<in> fst ` set l \<longleftrightarrow> scripts s n \<noteq> None) \<and> ((n, True) \<in> set l \<longleftrightarrow> n = active s \<and> n \<noteq> [])) \<and>
      res \<noteq> Inl ErrChanged \<and> res \<noteq> Inl ErrByHand"
  proof (rule ask_cases [OF assms(2)])
    fix e assume "svList c s = (Inl e, s')" "res = Inl (ErrServer e)"
    then show ?thesis using sieve_list [OF assms(1), of s "Inl e" s'] by auto
  next
    fix l assume "svList c s = (Inr l, s')" "res = Inr l"
    then show ?thesis using sieve_list [OF assms(1), of s "Inr l" s'] by auto
  qed
  then show "scripts s' = scripts s \<and> active s' = active s" and "res = Inr l \<Longrightarrow> n \<in> fst ` set l \<longleftrightarrow> scripts s n \<noteq> None"
    and "res = Inr l \<Longrightarrow> (n, True) \<in> set l \<longleftrightarrow> n = active s \<and> n \<noteq> []" and "res \<noteq> Inl ErrChanged" and "res \<noteq> Inl ErrByHand" by blast+
qed

lemma get_view:
  assumes "sieve_contract c scripts active" and "ask (svGet c n) s = (res, s')"
  shows "scripts s' = scripts s \<and> active s' = active s" and "res = Inr t \<Longrightarrow> scripts s n = Some t" and "res \<noteq> Inl ErrChanged" and "res \<noteq> Inl ErrByHand"
proof -
  have "(scripts s' = scripts s \<and> active s' = active s) \<and> (\<forall>t. res = Inr t \<longrightarrow> scripts s n = Some t) \<and> res \<noteq> Inl ErrChanged \<and> res \<noteq> Inl ErrByHand"
  proof (rule ask_cases [OF assms(2)])
    fix e assume "svGet c n s = (Inl e, s')" "res = Inl (ErrServer e)"
    then show ?thesis using sieve_get [OF assms(1), of n s "Inl e" s'] by auto
  next
    fix t assume "svGet c n s = (Inr t, s')" "res = Inr t"
    then show ?thesis using sieve_get [OF assms(1), of n s "Inr t" s'] by auto
  qed
  then show "scripts s' = scripts s \<and> active s' = active s" and "res = Inr t \<Longrightarrow> scripts s n = Some t" and "res \<noteq> Inl ErrChanged" and "res \<noteq> Inl ErrByHand" by blast+
qed

lemma change_views:
  assumes "sieve_contract c scripts active"
  shows "ask (svPut c n t) s = (Inr x, s') \<Longrightarrow> scripts s' = (scripts s)(n \<mapsto> t) \<and> active s' = active s"
    and "ask (svActivate c n) s = (Inr u, s') \<Longrightarrow> scripts s' = scripts s \<and> active s' = n"
    and "ask (svDelete c n) s = (Inr u, s') \<Longrightarrow> scripts s' = (scripts s)(n := None) \<and> active s' = active s"
  using assms by (auto simp: ask_returns sieve_contract_def)

lemma scriptIfAny_view:
  assumes "sieve_contract c scripts active" and "scriptIfAny c n s = (res, s')"
  shows "scripts s' = scripts s \<and> active s' = active s" and "res = Inr x \<Longrightarrow> x = scripts s n" and "res \<noteq> Inl ErrChanged" and "res \<noteq> Inl ErrByHand"
proof -
  have "(scripts s' = scripts s \<and> active s' = active s) \<and> (\<forall>x. res = Inr x \<longrightarrow> x = scripts s n) \<and> res \<noteq> Inl ErrChanged \<and> res \<noteq> Inl ErrByHand"
    using assms(2) unfolding scriptIfAny_def
  proof (cases rule: bindT_cases)
    case (fails e)
    then show ?thesis using list_view [OF assms(1) fails(1)] by auto
  next
    case (goes l s1)
    note l = list_view [OF assms(1) goes(1)]
    show ?thesis
    proof (cases "n \<in> fst ` set l")
      case True
      then have "bindT (ask (svGet c n)) (\<lambda>content. returnT (Some content)) s1 = (res, s')" using goes(2) by simp
      then show ?thesis
      proof (cases rule: bindT_cases)
        case (fails e)
        then show ?thesis using get_view [OF assms(1) fails(1)] l(1) by auto
      next
        case (goes t s2)
        then show ?thesis using get_view [OF assms(1) goes(1)] l(1) by (auto simp: returnT_def)
      qed
    next
      case False
      then show ?thesis using goes(2) l(1) l(2) [OF refl] by (auto simp: returnT_def)
    qed
  qed
  then show "scripts s' = scripts s \<and> active s' = active s" and "res = Inr x \<Longrightarrow> x = scripts s n" and "res \<noteq> Inl ErrChanged" and "res \<noteq> Inl ErrByHand" by auto
qed

lemma check_view:
  assumes "sieve_contract c scripts active" and "checkMainScript c s = (res, s')"
  shows "scripts s' = scripts s \<and> active s' = active s" and "res \<noteq> Inl ErrChanged"
    and "res = Inr () \<Longrightarrow> scripts s mainScript = Some t \<Longrightarrow> written_main t" and "res = Inl ErrByHand \<Longrightarrow> \<exists>t. scripts s mainScript = Some t \<and> \<not> written_main t"
proof -
  have "(scripts s' = scripts s \<and> active s' = active s) \<and> res \<noteq> Inl ErrChanged \<and> (res = Inr () \<longrightarrow> (\<forall>t. scripts s mainScript = Some t \<longrightarrow> written_main t)) \<and>
      (res = Inl ErrByHand \<longrightarrow> (\<exists>t. scripts s mainScript = Some t \<and> \<not> written_main t))"
    using assms(2) unfolding checkMainScript_def
  proof (cases rule: bindT_cases)
    case (fails e)
    then show ?thesis using scriptIfAny_view [OF assms(1) fails(1)] by auto
  next
    case (goes x s1)
    note v = scriptIfAny_view(1) [OF assms(1) goes(1)] scriptIfAny_view(2) [OF assms(1) goes(1) refl]
    show ?thesis using goes(2) v by (auto simp: returnT_def failT_def split: option.splits if_splits)
  qed
  then show "scripts s' = scripts s \<and> active s' = active s" and "res \<noteq> Inl ErrChanged"
    and "res = Inr () \<Longrightarrow> scripts s mainScript = Some t \<Longrightarrow> written_main t" and "res = Inl ErrByHand \<Longrightarrow> \<exists>t. scripts s mainScript = Some t \<and> \<not> written_main t" by auto
qed

lemma active_of_listed:
  assumes "\<And>n. (n, True) \<in> set l \<longleftrightarrow> n = a \<and> n \<noteq> []"
  shows "active_of l = a"
proof -
  have f: "foldl (\<lambda>active e. if snd e then fst e else active) x l' = (if \<exists>n. (n, True) \<in> set l' then a else x)"
    if "\<forall>n. (n, True) \<in> set l' \<longrightarrow> n = a" for x l'
    using that by (induction l' arbitrary: x) auto
  show ?thesis
  proof (cases "a = []")
    case True
    then show ?thesis unfolding active_of_def using f [of l] assms by auto
  next
    case False
    then show ?thesis unfolding active_of_def using f [of l "[]"] assms by auto
  qed
qed

lemma wire_own_view:
  assumes "sieve_contract c scripts active" and "wire_own c l s = (res, s')" and "\<And>n. n \<in> fst ` set l \<longleftrightarrow> scripts s n \<noteq> None" and "active_of l = active s"
  shows "scripts s' = scripts s \<and> active s' = active s" and "res = Inr own \<Longrightarrow> own = own_script (scripts s) (active s)" and "res \<noteq> Inl ErrChanged" and "res \<noteq> Inl ErrByHand"
proof -
  have "(scripts s' = scripts s \<and> active s' = active s) \<and> (\<forall>own. res = Inr own \<longrightarrow> own = own_script (scripts s) (active s)) \<and> res \<noteq> Inl ErrChanged \<and> res \<noteq> Inl ErrByHand"
  proof (cases "active s \<noteq> [] \<and> active s \<noteq> mainScript")
    case True
    then show ?thesis using assms(2,4) by (auto simp: wire_own_def own_script_def returnT_def)
  next
    case False
    show ?thesis
    proof (cases "mainScript \<in> fst ` set l")
      case True
      then have "bindT (ask (svGet c mainScript)) (\<lambda>current. returnT (ownScriptIn current)) s = (res, s')" using assms(2,4) False by (auto simp: wire_own_def Let_def)
      then show ?thesis
      proof (cases rule: bindT_cases)
        case (fails e)
        then show ?thesis using get_view [OF assms(1) fails(1)] by auto
      next
        case (goes t s1)
        then show ?thesis using get_view [OF assms(1) goes(1)] False by (auto simp: returnT_def own_script_def)
      qed
    next
      case nomain: False
      then show ?thesis using assms(2-4) False by (auto simp: wire_own_def own_script_def returnT_def Let_def)
    qed
  qed
  then show "scripts s' = scripts s \<and> active s' = active s" and "res = Inr own \<Longrightarrow> own = own_script (scripts s) (active s)" and "res \<noteq> Inl ErrChanged" and "res \<noteq> Inl ErrByHand" by auto
qed

lemma unquote_chars: "set (unquote s) \<subseteq> set s"
  by (induction s rule: unquote.induct) auto

lemma quoted_body_chars: "quoted_body s = Some (b, r) \<Longrightarrow> set b \<subseteq> set s"
  by (induction s arbitrary: b r rule: quoted_body.induct) (fastforce split: if_splits list.splits)+

lemma includeLine_chars:
  assumes "includeLine l = Some m"
  shows "set m \<subseteq> set l"
proof -
  obtain y r where "CutPrefix ''include :personal '' l = Some y" "quoted_at y = Some (m, r)"
    using assms by (auto simp: includeLine_def bind_eq_Some_conv split: if_splits)
  then show ?thesis by (auto simp: quoted_at_def CutPrefix_Some bind_eq_Some_conv dest!: quoted_body_chars)
qed

lemma TrimSpace_chars: "set (TrimSpace s) \<subseteq> set s"
  by (auto simp: TrimSpace_def dest!: set_dropWhileD)

lemma own_in_ok: "\<forall>l \<in> set ls. nl \<notin> set l \<Longrightarrow> nl \<notin> set (own_in ls) \<and> own_in ls \<notin> set composed"
proof (induction ls)
  case Nil
  then show ?case by (simp add: composed_def RulesScript_def ForwardScript_def VacationScript_def)
next
  case (Cons l ls)
  have "nl \<notin> set (unquote m)" if "includeLine (TrimSpace l) = Some m" for m
    using includeLine_chars [OF that] TrimSpace_chars unquote_chars Cons.prems by fastforce
  then show ?case using Cons by (auto split: option.split)
qed

lemma ownScriptIn_ok: "nl \<notin> set (ownScriptIn t)" "ownScriptIn t \<notin> set composed"
  using own_in_ok [of "Split nl t"] Split_parts by (auto simp: ownScriptIn_def)

lemma own_script_nl: "sieve_contract c scripts active \<Longrightarrow> nl \<notin> set (own_script (scripts s) (active s))"
proof -
  assume con: "sieve_contract c scripts active"
  have "\<forall>s n. scripts s n \<noteq> None \<longrightarrow> n \<noteq> [] \<and> nl \<notin> set n" using con unfolding sieve_contract_def by (elim conjE)
  moreover have "\<forall>s. active s \<noteq> [] \<longrightarrow> scripts s (active s) \<noteq> None" using con unfolding sieve_contract_def by (elim conjE)
  ultimately have "active s \<noteq> [] \<Longrightarrow> nl \<notin> set (active s)" by blast
  then show ?thesis using ownScriptIn_ok(1) by (auto simp: own_script_def split: option.split)
qed

lemma wire_view:
  assumes con: "sieve_contract c scripts active" and "wire_scripts c s = (Inr (), s')" and "own = own_script (scripts s) (active s)"
  shows "\<forall>n. n \<noteq> mainScript \<longrightarrow> scripts s' n = scripts s n"
    and "filter (\<lambda>n. scripts s n \<noteq> None) composed = [] \<Longrightarrow> scripts s' mainScript = None \<and> active s' = own"
    and "filter (\<lambda>n. scripts s n \<noteq> None) composed \<noteq> [] \<Longrightarrow> active s' = mainScript \<and>
      scripts s' mainScript = Some (mainScriptFor (filter (\<lambda>n. scripts s n \<noteq> None) composed) own)"
proof -
  obtain s1 l s2 where 1: "checkMainScript c s = (Inr (), s1)" and 2: "ask (svList c) s1 = (Inr l, s2)"
    and rest: "(let present = filter (\<lambda>name. name \<in> fst ` set l) composed in bindT (wire_own c l) (\<lambda>own.
       if present = [] then (if mainScript \<notin> fst ` set l then returnT () else bindT (ask (svActivate c own)) (\<lambda>_. ask (svDelete c mainScript)))
       else bindT (ask (svPut c mainScript (mainScriptFor present own))) (\<lambda>_.
         if active_of l \<noteq> mainScript then ask (svActivate c mainScript) else returnT ()))) s2 = (Inr (), s')"
    using assms(2) by (auto simp: wire_scripts_def bindT_returns)
  have v: "scripts s2 = scripts s \<and> active s2 = active s" using check_view(1) [OF con 1] list_view(1) [OF con 2] by simp
  have ex: "n \<in> fst ` set l \<longleftrightarrow> scripts s n \<noteq> None" for n using list_view(2) [OF con 2 refl] check_view(1) [OF con 1] by simp
  have ac: "active_of l = active s" using active_of_listed list_view(3) [OF con 2 refl] check_view(1) [OF con 1] by simp
  let ?p = "filter (\<lambda>n. scripts s n \<noteq> None) composed"
  obtain o1 s3 where 3: "wire_own c l s2 = (Inr o1, s3)" and 4: "(if ?p = [] then (if scripts s mainScript = None then returnT () else bindT (ask (svActivate c o1)) (\<lambda>_. ask (svDelete c mainScript)))
       else bindT (ask (svPut c mainScript (mainScriptFor ?p o1))) (\<lambda>_.
         if active s \<noteq> mainScript then ask (svActivate c mainScript) else returnT ())) s3 = (Inr (), s')"
    using rest unfolding Let_def ex ac bindT_returns not_not by blast
  have w: "scripts s3 = scripts s \<and> active s3 = active s" "o1 = own"
    using wire_own_view(1) [OF con 3] wire_own_view(2) [OF con 3 _ _ refl] v ex ac assms(3) by auto
  have act: "active s \<noteq> [] \<Longrightarrow> scripts s (active s) \<noteq> None" using con by (simp add: sieve_contract_def)
  have all: "(\<forall>n. n \<noteq> mainScript \<longrightarrow> scripts s' n = scripts s n) \<and> (?p = [] \<longrightarrow> scripts s' mainScript = None \<and> active s' = own) \<and>
      (?p \<noteq> [] \<longrightarrow> active s' = mainScript \<and> scripts s' mainScript = Some (mainScriptFor ?p own))"
  proof (cases "?p = []")
    case True
    show ?thesis
    proof (cases "scripts s mainScript")
      case None
      then have "own = active s" using act assms(3) by (cases "active s = []") (auto simp: own_script_def)
      then show ?thesis using 4 True None w by (auto simp: returnT_def)
    next
      case (Some t)
      then obtain s4 where a: "ask (svActivate c o1) s3 = (Inr (), s4)" and d: "ask (svDelete c mainScript) s4 = (Inr (), s')"
        using 4 True by (auto simp: bindT_returns)
      show ?thesis using change_views(2) [OF con a] change_views(3) [OF con d] w True by auto
    qed
  next
    case False
    then obtain x s4 where p: "ask (svPut c mainScript (mainScriptFor ?p o1)) s3 = (Inr x, s4)"
      and a: "(if active s \<noteq> mainScript then ask (svActivate c mainScript) else returnT ()) s4 = (Inr (), s')"
      using 4 by (auto simp: bindT_returns)
    have v4: "scripts s4 = (scripts s)(mainScript \<mapsto> mainScriptFor ?p own) \<and> active s4 = active s" using change_views(1) [OF con p] w by simp
    show ?thesis
    proof (cases "active s = mainScript")
      case True
      then show ?thesis using a v4 False by (auto simp: returnT_def)
    next
      case other: False
      then have "ask (svActivate c mainScript) s4 = (Inr (), s')" using a by simp
      then show ?thesis using change_views(2) [OF con] v4 False by auto
    qed
  qed
  then show "\<forall>n. n \<noteq> mainScript \<longrightarrow> scripts s' n = scripts s n"
    and "?p = [] \<Longrightarrow> scripts s' mainScript = None \<and> active s' = own"
    and "?p \<noteq> [] \<Longrightarrow> active s' = mainScript \<and> scripts s' mainScript = Some (mainScriptFor ?p own)" by blast+
qed

text \<open>No step of the wiring but the check gives the two errors of the code's own.\<close>

definition asks_only :: "(filter_err, 's, 'a) prog \<Rightarrow> bool" where
  "asks_only m \<longleftrightarrow> (\<forall>s. fst (m s) \<noteq> Inl ErrChanged \<and> fst (m s) \<noteq> Inl ErrByHand)"

lemma asks_only_ask: "asks_only (ask m)"
proof -
  have "fst (ask m s) \<noteq> Inl ErrChanged \<and> fst (ask m s) \<noteq> Inl ErrByHand" for s
  proof -
    obtain r t where "m s = (r, t)" by force
    then show ?thesis by (cases r) (auto simp: ask_def)
  qed
  then show ?thesis by (simp add: asks_only_def)
qed

lemma asks_only_return: "asks_only (returnT a)"
  by (simp add: asks_only_def returnT_def)

lemma asks_only_bind:
  assumes "asks_only m" and "\<And>a. asks_only (f a)"
  shows "asks_only (bindT m f)"
proof -
  have "fst (bindT m f s) \<noteq> Inl ErrChanged \<and> fst (bindT m f s) \<noteq> Inl ErrByHand" for s
  proof -
    obtain r t where m: "m s = (r, t)" by force
    show ?thesis
    proof (cases r)
      case (Inl e)
      then show ?thesis using assms(1) m by (simp add: asks_only_def bindT_def) (metis fst_conv)
    next
      case (Inr a)
      then show ?thesis using assms(2) [of a] m by (simp add: asks_only_def bindT_def)
    qed
  qed
  then show ?thesis by (simp add: asks_only_def)
qed

lemma asks_only_if: "asks_only a \<Longrightarrow> asks_only b \<Longrightarrow> asks_only (if P then a else b)"
  by simp

lemma asks_only_wire_own: "asks_only (wire_own c l)"
  unfolding wire_own_def Let_def by (rule asks_only_if [OF asks_only_return asks_only_if [OF asks_only_bind [OF asks_only_ask asks_only_return] asks_only_return]])

lemma asks_onlyD: "asks_only m \<Longrightarrow> m s = (Inl e, s') \<Longrightarrow> e \<noteq> ErrChanged \<and> e \<noteq> ErrByHand"
  unfolding asks_only_def by (drule spec [of _ s]) simp

lemma wire_errors:
  assumes con: "sieve_contract c scripts active" and "wire_scripts c s = (Inl e, s')" and "\<And>t. scripts s mainScript = Some t \<Longrightarrow> written_main t"
  shows "e \<noteq> ErrChanged \<and> e \<noteq> ErrByHand"
  using assms(2) unfolding wire_scripts_def
proof (cases rule: bindT_cases)
  case (fails e1)
  then have "e = e1" "checkMainScript c s = (Inl e, s')" by auto
  then show ?thesis using check_view(2,4) [OF con] assms(3) by blast
next
  case (goes u s1)
  let ?rest = "bindT (ask (svList c)) (\<lambda>scripts. let present = filter (\<lambda>name. name \<in> fst ` set scripts) composed in
     bindT (wire_own c scripts) (\<lambda>own.
       if present = [] then (if mainScript \<notin> fst ` set scripts then returnT () else bindT (ask (svActivate c own)) (\<lambda>_. ask (svDelete c mainScript)))
       else bindT (ask (svPut c mainScript (mainScriptFor present own))) (\<lambda>_. if active_of scripts \<noteq> mainScript then ask (svActivate c mainScript) else returnT ())))"
  have "asks_only ?rest"
    unfolding Let_def by (intro asks_only_bind asks_only_ask asks_only_return asks_only_if asks_only_wire_own)
  then show ?thesis using goes(2) by (rule asks_onlyD)
qed

lemma put_view:
  assumes con: "sieve_contract c scripts active" and st: "(if next1 = [] \<and> x \<noteq> None then ask (svDelete c name)
      else if next1 \<noteq> [] then unit_of (ask (svPut c name next1)) else returnT ()) s3 = (Inr u, s1)"
  shows "scripts s1 = (if next1 = [] \<and> x = None then scripts s3 else (scripts s3)(name := (if next1 = [] then None else Some next1))) \<and> active s1 = active s3"
proof (cases "next1 = []")
  case True
  show ?thesis
  proof (cases x)
    case None
    then show ?thesis using st True by (auto simp: returnT_def)
  next
    case (Some t)
    then show ?thesis using st True change_views(3) [OF con, of name s3 u s1] by simp
  qed
next
  case False
  then obtain y where "ask (svPut c name next1) s3 = (Inr y, s1)" using st by (auto simp: unit_of_def bindT_returns)
  then show ?thesis using change_views(1) [OF con] False by auto
qed

lemma rewrite_runs:
  assumes con: "sieve_contract c scripts active" and "rewrite c fp name loaded change s = (Inr (), s')"
  obtains next1 s1 where "change (scripts s name) = Inr next1" "\<And>t. scripts s mainScript = Some t \<Longrightarrow> written_main t"
    "scripts s1 = (scripts s)(name := (if next1 = [] then None else Some next1))" "active s1 = active s" "wire_scripts c s1 = (Inr (), s')"
    "(scripts s name \<noteq> None) = (loaded \<noteq> [])" "\<And>t. scripts s name = Some t \<Longrightarrow> fp t = loaded"
proof -
  obtain u s2 x s3 where 0: "checkMainScript c s = (Inr u, s2)" and 2: "scriptIfAny c name s2 = (Inr x, s3)"
    and rest: "(if (x \<noteq> None) \<noteq> (loaded \<noteq> []) \<or> (case x of Some current \<Rightarrow> fp current \<noteq> loaded | None \<Rightarrow> False) then failT ErrChanged
     else bindT (liftT (change x)) (\<lambda>next1.
       bindT (if next1 = [] \<and> x \<noteq> None then ask (svDelete c name)
              else if next1 \<noteq> [] then unit_of (ask (svPut c name next1)) else returnT ()) (\<lambda>_. wire_scripts c))) s3 = (Inr (), s')"
    using assms(2) unfolding rewrite_def bindT_returns by blast
  have 1: "checkMainScript c s = (Inr (), s2)" using 0 by simp
  have x: "x = scripts s name" and v: "scripts s3 = scripts s \<and> active s3 = active s"
    using check_view(1) [OF con 1] scriptIfAny_view(1) [OF con 2] scriptIfAny_view(2) [OF con 2 refl] by auto
  have ok: "\<not> ((x \<noteq> None) \<noteq> (loaded \<noteq> []) \<or> (case x of Some current \<Rightarrow> fp current \<noteq> loaded | None \<Rightarrow> False))"
  proof
    assume b: "(x \<noteq> None) \<noteq> (loaded \<noteq> []) \<or> (case x of Some current \<Rightarrow> fp current \<noteq> loaded | None \<Rightarrow> False)"
    show False using rest unfolding if_P [OF b] by (simp add: failT_def)
  qed
  then obtain next1 s1 u where n: "change x = Inr next1" and st: "(if next1 = [] \<and> x \<noteq> None then ask (svDelete c name)
      else if next1 \<noteq> [] then unit_of (ask (svPut c name next1)) else returnT ()) s3 = (Inr u, s1)" and w: "wire_scripts c s1 = (Inr (), s')"
    using rest unfolding if_not_P [OF ok] bindT_returns liftT_returns by blast
  have "scripts s1 = (scripts s)(name := (if next1 = [] then None else Some next1)) \<and> active s1 = active s"
    using put_view [OF con st] v x by auto
  then show thesis using that [of next1 s1] n w x ok check_view(3) [OF con 1] by (auto split: option.splits)
qed

lemma main_not_composed: "mainScript \<notin> set composed"
  by (simp add: mainScript_def composed_def RulesScript_def ForwardScript_def VacationScript_def)

lemma own_script_upd: "name \<in> set composed \<Longrightarrow> own_script (m(name := x)) a = own_script m a"
  using main_not_composed by (auto simp: own_script_def)

lemma wired_own:
  assumes con: "sieve_contract c scripts active" and "own = own_script (scripts s) (active s)" and "own \<notin> set composed" and "own \<noteq> mainScript"
    and "filter (\<lambda>n. m n \<noteq> None) composed = [] \<Longrightarrow> m mainScript = None \<and> a = own"
    and "filter (\<lambda>n. m n \<noteq> None) composed \<noteq> [] \<Longrightarrow> a = mainScript \<and> m mainScript = Some (mainScriptFor (filter (\<lambda>n. m n \<noteq> None) composed) own)"
  shows "own_script m a = own \<and> (\<forall>t. m mainScript = Some t \<longrightarrow> written_main t)"
proof (cases "filter (\<lambda>n. m n \<noteq> None) composed = []")
  case True
  then show ?thesis using assms(4,5) by (auto simp: own_script_def)
next
  case False
  have own_nl: "nl \<notin> set own" using own_script_nl [OF con] assms(2) by simp
  have "ownScriptIn (mainScriptFor (filter (\<lambda>n. m n \<noteq> None) composed) own) = own" by (rule ownScriptIn_main [OF _ own_nl assms(3)]) auto
  moreover have "written_main (mainScriptFor (filter (\<lambda>n. m n \<noteq> None) composed) own)" by (rule written_mainScriptFor [OF own_nl assms(3)])
  ultimately show ?thesis using assms(6) [OF False] by (auto simp: own_script_def)
qed

lemma rewrite_refused_view:
  assumes con: "sieve_contract c scripts active" and "rewrite c fp name loaded change s = (Inl e, s')" and "e = ErrChanged \<or> e = ErrByHand" and "name \<noteq> mainScript"
  shows "scripts s' = scripts s \<and> active s' = active s"
  using assms(2) unfolding rewrite_def
proof (cases rule: bindT_cases)
  case (fails e1)
  then show ?thesis using check_view(1) [OF con] by blast
next
  case (goes u s1)
  then have 1: "checkMainScript c s = (Inr (), s1)" by simp
  note v1 = check_view(1) [OF con 1]
  show ?thesis using goes(2)
  proof (cases rule: bindT_cases)
    case (fails e1)
    then show ?thesis using scriptIfAny_view(1) [OF con fails(1)] v1 by simp
  next
    case (goes x s2)
    have v2: "scripts s2 = scripts s \<and> active s2 = active s" and x: "x = scripts s name"
      using scriptIfAny_view(1) [OF con goes(1)] scriptIfAny_view(2) [OF con goes(1) refl] v1 by auto
    show ?thesis
    proof (cases "(x \<noteq> None) \<noteq> (loaded \<noteq> []) \<or> (case x of Some current \<Rightarrow> fp current \<noteq> loaded | None \<Rightarrow> False)")
      case True
      then show ?thesis using goes(2) v2 unfolding if_P [OF True] by (simp add: failT_def)
    next
      case False
      show ?thesis using goes(2) unfolding if_not_P [OF False]
      proof (cases rule: bindT_cases)
        case (fails e1)
        then show ?thesis using v2 by (simp add: liftT_def)
      next
        case (goes next1 s3)
        then have s3: "s3 = s2" by (simp add: liftT_def)
        let ?put = "if next1 = [] \<and> x \<noteq> None then ask (svDelete c name) else if next1 \<noteq> [] then unit_of (ask (svPut c name next1)) else returnT ()"
        have put: "asks_only ?put" unfolding unit_of_def by (intro asks_only_bind asks_only_ask asks_only_return asks_only_if)
        show ?thesis using goes(2)
        proof (cases rule: bindT_cases)
          case (fails e1)
          then show ?thesis using asks_onlyD [OF put fails(1)] assms(3) by auto
        next
          case (goes u2 s4)
          have "scripts s4 mainScript = scripts s mainScript"
            using put_view [OF con goes(1)] s3 v2 assms(4) by simp
          then show ?thesis using wire_errors [OF con goes(2)] check_view(3) [OF con 1 refl] assms(3) by auto
        qed
      qed
    qed
  qed
qed

subsection \<open>A server\<close>

text \<open>A shelf of named scripts, one of them active: a server that keeps the contract.\<close>

type_synonym shelf = "(string \<times> string) list \<times> string"

definition on_shelf :: "shelf \<Rightarrow> string \<Rightarrow> string option" where
  "on_shelf s n = (if n \<noteq> [] \<and> nl \<notin> set n then map_of (fst s) n else None)"

definition active_shelf :: "shelf \<Rightarrow> string" where
  "active_shelf s = (if on_shelf s (snd s) = None then [] else snd s)"

definition shelf_server :: "shelf sieve" where
  "shelf_server = \<lparr>
     svList = (\<lambda>s. (Inr (map (\<lambda>e. (fst e, fst e = active_shelf s)) (filter (\<lambda>e. on_shelf s (fst e) \<noteq> None) (fst s))), s)),
     svGet = (\<lambda>n s. (case on_shelf s n of None \<Rightarrow> Inl ''no such script'' | Some t \<Rightarrow> Inr t, s)),
     svPut = (\<lambda>n t s. if n \<noteq> [] \<and> nl \<notin> set n then (Inr [], ((n, t) # fst s, active_shelf s)) else (Inl ''bad name'', s)),
     svActivate = (\<lambda>n s. if n = [] \<or> on_shelf s n \<noteq> None then (Inr (), (fst s, n)) else (Inl ''no such script'', s)),
     svDelete = (\<lambda>n s. if n = active_shelf s then (Inl ''active'', s) else (Inr (), (filter (\<lambda>e. fst e \<noteq> n) (fst s), active_shelf s))),
     svExtensions = [''fileinto'', ''imap4flags'', ''COPY'', ''include'']\<rparr>"

lemma on_shelf_filter: "on_shelf (filter (\<lambda>e. fst e \<noteq> n) l, a) = (on_shelf (l, b))(n := None)"
proof -
  have "map_of (filter (\<lambda>e. fst e \<noteq> n) l) m = (if m = n then None else map_of l m)" for m by (induction l) auto
  then show ?thesis by (auto simp: on_shelf_def fun_eq_iff)
qed

lemma on_shelf_upd: "n \<noteq> [] \<Longrightarrow> nl \<notin> set n \<Longrightarrow> on_shelf ((n, t) # l, a) = (on_shelf (l, b))(n \<mapsto> t)"
  by (auto simp: on_shelf_def fun_eq_iff)

lemma on_shelf_active: "on_shelf (l, a) = on_shelf (l, b)"
  by (simp add: on_shelf_def fun_eq_iff)

lemma active_on_shelf: "active_shelf s \<noteq> [] \<Longrightarrow> on_shelf s (active_shelf s) \<noteq> None"
  by (auto simp: active_shelf_def split: if_splits)

lemma active_shelfI: "(a \<noteq> [] \<Longrightarrow> on_shelf (l, a) a \<noteq> None) \<Longrightarrow> active_shelf (l, a) = a"
  by (cases "a = []") (auto simp: active_shelf_def)

lemma shelf_listed: "n \<in> fst ` set (filter (\<lambda>e. on_shelf s (fst e) \<noteq> None) (fst s)) \<longleftrightarrow> on_shelf s n \<noteq> None"
proof
  assume "on_shelf s n \<noteq> None"
  then obtain t where "map_of (fst s) n = Some t" by (auto simp: on_shelf_def split: if_splits)
  then show "n \<in> fst ` set (filter (\<lambda>e. on_shelf s (fst e) \<noteq> None) (fst s))"
    using \<open>on_shelf s n \<noteq> None\<close> map_of_SomeD by force
qed auto

lemma shelf_list:
  assumes "svList shelf_server s = (Inr l, s')"
  shows "s' = s" and "n \<in> fst ` set l \<longleftrightarrow> on_shelf s n \<noteq> None" and "(n, True) \<in> set l \<longleftrightarrow> n = active_shelf s \<and> n \<noteq> []"
proof -
  have l: "l = map (\<lambda>e. (fst e, fst e = active_shelf s)) (filter (\<lambda>e. on_shelf s (fst e) \<noteq> None) (fst s))" and "s' = s"
    using assms by (auto simp: shelf_server_def)
  then show "s' = s" by simp
  have "fst ` set l = fst ` set (filter (\<lambda>e. on_shelf s (fst e) \<noteq> None) (fst s))" unfolding l by force
  then show ex: "n \<in> fst ` set l \<longleftrightarrow> on_shelf s n \<noteq> None" using shelf_listed by simp
  have "(n, True) \<in> set l \<longleftrightarrow> n \<in> fst ` set l \<and> n = active_shelf s" unfolding l by force
  moreover have "on_shelf s n \<noteq> None \<Longrightarrow> n \<noteq> []" by (auto simp: on_shelf_def split: if_splits)
  ultimately show "(n, True) \<in> set l \<longleftrightarrow> n = active_shelf s \<and> n \<noteq> []" using ex active_on_shelf by blast
qed

lemma shelf_contract: "sieve_contract shelf_server on_shelf active_shelf"
  unfolding sieve_contract_def
proof (intro conjI allI impI)
  fix s n assume "on_shelf s n \<noteq> None"
  then show "n \<noteq> []" "nl \<notin> set n" by (auto simp: on_shelf_def split: if_splits)
next
  fix s assume "active_shelf s \<noteq> []"
  then show "on_shelf s (active_shelf s) \<noteq> None" by (rule active_on_shelf)
next
  fix s s' :: shelf and res assume "svList shelf_server s = (res, s')"
  then show "on_shelf s' = on_shelf s" "active_shelf s' = active_shelf s" by (simp_all add: shelf_server_def)
next
  fix s s' :: shelf and res l n assume "svList shelf_server s = (res, s')" "res = Inr l"
  then show "(n \<in> fst ` set l) = (on_shelf s n \<noteq> None)" "((n, True) \<in> set l) = (n = active_shelf s \<and> n \<noteq> [])"
    using shelf_list [of s l s'] by simp_all
next
  fix n and s s' :: shelf and res assume "svGet shelf_server n s = (res, s')"
  then show "on_shelf s' = on_shelf s" "active_shelf s' = active_shelf s" by (simp_all add: shelf_server_def)
next
  fix n and s s' :: shelf and res t assume "svGet shelf_server n s = (res, s')" "res = Inr t"
  then show "on_shelf s n = Some t" by (auto simp: shelf_server_def split: option.splits)
next
  fix n t and s s' :: shelf and x assume "svPut shelf_server n t s = (Inr x, s')"
  then have n: "n \<noteq> []" "nl \<notin> set n" and s': "s' = ((n, t) # fst s, active_shelf s)" by (auto simp: shelf_server_def split: if_splits)
  show e: "on_shelf s' = (on_shelf s)(n \<mapsto> t)" unfolding s' using on_shelf_upd [OF n, of t "fst s" "active_shelf s" "snd s"] by simp
  show "active_shelf s' = active_shelf s" unfolding s' by (rule active_shelfI) (use e active_on_shelf s' in auto)
next
  fix n and s s' :: shelf assume "svActivate shelf_server n s = (Inr (), s')"
  then have s': "s' = (fst s, n)" and n: "n = [] \<or> on_shelf s n \<noteq> None" by (auto simp: shelf_server_def split: if_splits)
  show e: "on_shelf s' = on_shelf s" unfolding s' using on_shelf_active [of "fst s" n "snd s"] by simp
  show "active_shelf s' = n" unfolding s' by (rule active_shelfI) (use e n s' in auto)
next
  fix n and s s' :: shelf assume "svDelete shelf_server n s = (Inr (), s')"
  then have s': "s' = (filter (\<lambda>e. fst e \<noteq> n) (fst s), active_shelf s)" and n: "n \<noteq> active_shelf s" by (auto simp: shelf_server_def split: if_splits)
  show e: "on_shelf s' = (on_shelf s)(n := None)" unfolding s' using on_shelf_filter [of n "fst s" "active_shelf s" "snd s"] by simp
  show "active_shelf s' = active_shelf s" unfolding s' by (rule active_shelfI) (use e active_on_shelf n s' in auto)
qed

definition found_account :: shelf where
  "found_account = ([(''mine'', ''keep;'')], ''mine'')"

subsection \<open>Properties\<close>

text \<open>
  C18: saving a composed script never costs a reader the script they had. Whatever is changed, the
  script the reader had active stays the one that runs (directly, or as the last include of the main script), no
  other script is touched, the composed one holds what the change gave, and the main script is there and active
  exactly while something composed is left, in the form the next save accepts.
\<close>

theorem rewrite_keeps_own:
  assumes con: "sieve_contract c scripts active" and run: "rewrite c fp name loaded change s = (Inr (), s')" and "name \<in> set composed"
    and "own = own_script (scripts s) (active s)" and "own \<notin> set composed" and "own \<noteq> mainScript"
  shows "own_script (scripts s') (active s') = own \<and> (\<forall>n. n \<noteq> mainScript \<and> n \<noteq> name \<longrightarrow> scripts s' n = scripts s n) \<and>
    (\<exists>next1. change (scripts s name) = Inr next1 \<and> scripts s' name = (if next1 = [] then None else Some next1)) \<and>
    (if filter (\<lambda>n. scripts s' n \<noteq> None) composed = [] then scripts s' mainScript = None \<and> active s' = own
     else active s' = mainScript \<and> scripts s' mainScript = Some (mainScriptFor (filter (\<lambda>n. scripts s' n \<noteq> None) composed) own)) \<and>
    (\<forall>t. scripts s' mainScript = Some t \<longrightarrow> written_main t)"
proof -
  obtain next1 s1 where n: "change (scripts s name) = Inr next1" and s1: "scripts s1 = (scripts s)(name := (if next1 = [] then None else Some next1))"
    and a: "active s1 = active s" and w: "wire_scripts c s1 = (Inr (), s')" using rewrite_runs [OF con run] by metis
  have own1: "own = own_script (scripts s1) (active s1)" unfolding s1 a own_script_upd [OF assms(3)] by (rule assms(4))
  note v = wire_view [OF con w own1]
  have nm: "name \<noteq> mainScript" using assms(3) main_not_composed by auto
  have p: "filter (\<lambda>n. scripts s' n \<noteq> None) composed = filter (\<lambda>n. scripts s1 n \<noteq> None) composed"
  proof (intro filter_cong refl)
    fix n assume "n \<in> set composed"
    then have "n \<noteq> mainScript" using main_not_composed by auto
    then show "(scripts s' n \<noteq> None) = (scripts s1 n \<noteq> None)" using v(1) by simp
  qed
  have o: "own_script (scripts s') (active s') = own \<and> (\<forall>t. scripts s' mainScript = Some t \<longrightarrow> written_main t)"
    by (rule wired_own [OF con own1 assms(5,6)]) (use v(2,3) p in simp_all)
  show ?thesis using o v p n nm unfolding s1 by auto
qed

theorem rewrite_keeps_own_witness:
  "let (res, s') = rewrite shelf_server id RulesScript [] (\<lambda>_. Inr ''stop;'') found_account in
   res = Inr () \<and> own_script (on_shelf s') (active_shelf s') = ''mine'' \<and> on_shelf s' ''mine'' = Some ''keep;'' \<and>
   on_shelf s' RulesScript = Some ''stop;'' \<and> active_shelf s' = mainScript"
proof -
  let ?r = "rewrite shelf_server id RulesScript [] (\<lambda>_. Inr ''stop;'') found_account"
  have res: "fst ?r = Inr ()" by code_simp
  have own: "''mine'' = own_script (on_shelf found_account) (active_shelf found_account)" by code_simp
  have had: "on_shelf found_account ''mine'' = Some ''keep;''" by code_simp
  have names: "RulesScript \<in> set composed" "''mine'' \<notin> set composed" "''mine'' \<noteq> mainScript" "''mine'' \<noteq> RulesScript" by code_simp+
  obtain s' where r: "?r = (Inr (), s')" using res by (cases ?r) auto
  note k = rewrite_keeps_own [OF shelf_contract r names(1) own names(2,3)]
  have "on_shelf s' ''mine'' = Some ''keep;''" using k names(3,4) had by auto
  moreover have rules: "on_shelf s' RulesScript = Some ''stop;''" using k by auto
  moreover have "filter (\<lambda>n. on_shelf s' n \<noteq> None) composed \<noteq> []" using rules names(1) by (auto simp: filter_empty_conv)
  then have "active_shelf s' = mainScript" using k by auto
  ultimately show ?thesis using r k by simp
qed

text \<open>
  C38: a refusal changes nothing. A save refused because the script changed since the page read it, or
  because it or the main script was edited by hand, leaves every script and the active one as they were: the checks
  come before the first write, and what was written cannot make the wiring refuse.
\<close>

theorem rewrite_refused:
  assumes "sieve_contract c scripts active" and "name \<in> set composed"
    and "rewrite c fp name loaded change s = (Inl e, s')" and "e = ErrChanged \<or> e = ErrByHand"
  shows "scripts s' = scripts s \<and> active s' = active s"
  using rewrite_refused_view [OF assms(1,3,4)] assms(2) main_not_composed by auto

theorem rewrite_refused_witness:
  "let (res, s') = rewrite shelf_server id RulesScript ''stale'' (\<lambda>_. Inr ''stop;'') found_account in
   res = Inl ErrChanged \<and> on_shelf s' = on_shelf found_account \<and> active_shelf s' = active_shelf found_account"
proof -
  let ?r = "rewrite shelf_server id RulesScript ''stale'' (\<lambda>_. Inr ''stop;'') found_account"
  have res: "fst ?r = Inl ErrChanged" by code_simp
  have name: "RulesScript \<in> set composed" by code_simp
  obtain s' where r: "?r = (Inl ErrChanged, s')" using res by (cases ?r) auto
  show ?thesis using rewrite_refused [OF shelf_contract name r] r by simp
qed

text \<open>
  C19: what the rules page saves is what it shows. After a change that leaves rules the page can write,
  loading gives exactly the changed rules, not marked as edited by hand, with the fingerprint the next save needs.
\<close>

theorem change_then_load:
  assumes con: "sieve_contract c scripts active" and "rules_of (scripts s RulesScript) = Inr rules" and "\<forall>r \<in> set (change rules). rule_ok r"
    and run: "ChangeRules c fp loaded change s = (Inr (), s')" and load: "LoadRules c fp s' = (Inr (shown, loaded', byHand), s'')"
  shows "shown = change rules \<and> \<not> byHand \<and> loaded' = (if change rules = [] then [] else fp (rulesScriptFor (change rules)))"
proof -
  obtain next1 s1 where n: "bindE (rules_of (scripts s RulesScript)) (\<lambda>rules. Inr (rulesScriptFor (change rules))) = Inr next1"
    and s1: "scripts s1 = (scripts s)(RulesScript := (if next1 = [] then None else Some next1))"
    and w: "wire_scripts c s1 = (Inr (), s')" using rewrite_runs [OF con run [unfolded ChangeRules_def]] by metis
  have next1: "next1 = rulesScriptFor (change rules)" using n assms(2) by simp
  have "RulesScript \<noteq> mainScript" by (simp add: RulesScript_def mainScript_def)
  then have s': "scripts s' RulesScript = (if next1 = [] then None else Some next1)" using wire_view(1) [OF con w refl] s1 by simp
  have e: "next1 = [] \<longleftrightarrow> change rules = []" unfolding next1 rulesScriptFor_def by (simp add: rules_head_def)
  obtain x s2 where 1: "scriptIfAny c RulesScript s' = (Inr x, s2)" and 2: "(case x of None \<Rightarrow> returnT ([], [], False)
      | Some content \<Rightarrow> returnT (fst (readRules content), fp content, \<not> snd (readRules content))) s2 = (Inr (shown, loaded', byHand) :: filter_err + _, s'')"
    using load unfolding LoadRules_def loadScript_def bindT_returns by (elim exE conjE) (rule that)
  have x: "x = scripts s' RulesScript" by (rule scriptIfAny_view(2) [OF con 1 refl])
  show ?thesis
  proof (cases "change rules = []")
    case True
    then show ?thesis using 2 x s' e by simp
  next
    case False
    then show ?thesis using 2 x s' e unfolding next1 by (simp add: readRules_def read_rules_script [OF assms(3)])
  qed
qed

lemma shelf_scriptIfAny: "\<exists>x. scriptIfAny shelf_server n s = (Inr x, s)"
proof -
  obtain l where l: "svList shelf_server s = (Inr l, s)" by (simp add: shelf_server_def)
  have g: "on_shelf s n = Some t \<Longrightarrow> svGet shelf_server n s = (Inr t, s)" for t by (simp add: shelf_server_def)
  show ?thesis
  proof (cases "on_shelf s n")
    case None
    then show ?thesis using l shelf_list(2) [OF l, of n] by (simp add: scriptIfAny_def bindT_def ask_def returnT_def)
  next
    case (Some t)
    then show ?thesis using l shelf_list(2) [OF l, of n] g [OF Some] by (simp add: scriptIfAny_def bindT_def ask_def returnT_def)
  qed
qed

lemma shelf_LoadRules: "\<exists>shown loaded byHand. LoadRules shelf_server fp s = (Inr (shown, loaded, byHand), s)"
proof -
  obtain x where "scriptIfAny shelf_server RulesScript s = (Inr x, s)" using shelf_scriptIfAny by blast
  then show ?thesis by (cases x) (auto simp: LoadRules_def loadScript_def bindT_def returnT_def)
qed

theorem change_then_load_witness:
  "\<exists>s'. ChangeRules shelf_server id [] (add_block (blockRule ''spam.example'' True ''Junk'')) found_account = (Inr (), s') \<and>
     LoadRules shelf_server id s' = (Inr ([blockRule ''spam.example'' True ''Junk''], rulesScriptFor [blockRule ''spam.example'' True ''Junk''], False), s')"
proof -
  let ?b = "blockRule ''spam.example'' True ''Junk''"
  let ?r = "ChangeRules shelf_server id [] (add_block ?b) found_account"
  have res: "fst ?r = Inr ()" by code_simp
  obtain s' where r: "?r = (Inr (), s')" using res by (cases ?r) auto
  have before: "rules_of (on_shelf found_account RulesScript) = Inr []" by code_simp
  have after1: "add_block ?b [] = [?b]" by (simp add: add_block_def)
  have ok: "\<forall>r \<in> set (add_block ?b []). rule_ok r" unfolding after1 by (simp add: blockRule_def rule_ok_def condition_ok_def header_table_def)
  obtain shown loaded byHand where l: "LoadRules shelf_server id s' = (Inr (shown, loaded, byHand), s')" using shelf_LoadRules by blast
  show ?thesis using change_then_load [OF shelf_contract before ok r l] l r after1 by auto
qed

end
