(* ===== verification/Record_Keep.thy ===== *)
theory Record_Keep
  imports Prelude
begin

text \<open>
  Records that keep what they do not know (\<^verbatim>\<open>internal/record/record.go\<close>): a version that rewrites a record carries
  over the fields a newer version put there.

  A JSON text is the tree it parses to; an object is the list of its names and values, no name twice, and
  numbers are their digits. What \<^verbatim>\<open>encoding/json\<close> does with a Go type is the functions \<open>Unmarshal\<close> and \<open>Marshal\<close> of the type's
  shape \<open>jtype\<close>: a value in memory is kept as a tree as well, with every field of a struct there. A scalar is any
  type with a reader of its own: strings, numbers, booleans, bytes, times, raw messages. The names of a written
  object are not put in order, and where a text spells one field in two ways the last one is taken.
\<close>

subsection \<open>Texts and types\<close>

datatype json = JNull | JBool bool | JNum string | JStr string | JArr "json list" | JObj "(string \<times> json) list"

datatype jtype = TScalar "json \<Rightarrow> json option" json | TList jtype | TMap jtype | TPtr jtype | TStruct "(string \<times> bool \<times> jtype) list"

fun fld :: "json \<Rightarrow> string \<Rightarrow> json option" where
  "fld (JObj es) k = map_of es k"
| "fld _ k = None"

function jzero :: "jtype \<Rightarrow> json" where
  "jzero (TScalar rd z) = z"
| "jzero (TList t) = JNull"
| "jzero (TMap t) = JNull"
| "jzero (TPtr t) = JNull"
| "jzero (TStruct fs) = JObj (map (\<lambda>f. (fst f, jzero (snd (snd f)))) fs)"
  by pat_completeness auto
termination
  by (relation "measure size") (auto simp: less_Suc_eq_le intro!: size_list_estimation')

text \<open>The basic kinds; bytes are written in base64, times in RFC 3339.\<close>

definition string_t :: jtype where
  "string_t = TScalar (\<lambda>j. case j of JStr _ \<Rightarrow> Some j | JNull \<Rightarrow> Some (JStr []) | _ \<Rightarrow> None) (JStr [])"

definition number_t :: jtype where
  "number_t = TScalar (\<lambda>j. case j of JNum _ \<Rightarrow> Some j | JNull \<Rightarrow> Some (JNum ''0'') | _ \<Rightarrow> None) (JNum ''0'')"

definition bool_t :: jtype where
  "bool_t = TScalar (\<lambda>j. case j of JBool _ \<Rightarrow> Some j | JNull \<Rightarrow> Some (JBool False) | _ \<Rightarrow> None) (JBool False)"

definition bytes_t :: jtype where
  "bytes_t = TScalar (\<lambda>j. case j of JStr _ \<Rightarrow> Some j | JNull \<Rightarrow> Some JNull | _ \<Rightarrow> None) JNull"

definition time_t :: jtype where
  "time_t = TScalar (\<lambda>j. case j of JStr _ \<Rightarrow> Some j | JNull \<Rightarrow> Some (JStr ''0001-01-01T00:00:00Z'') | _ \<Rightarrow> None) (JStr ''0001-01-01T00:00:00Z'')"

definition message_t :: jtype where
  "message_t = TScalar Some JNull"

definition matched :: "(string \<times> bool \<times> jtype) list \<Rightarrow> string \<Rightarrow> string option" where
  "matched fs k = (if k \<in> fst ` set fs then Some k else map_option fst (List.find (\<lambda>f. EqualFold (fst f) k) fs))"

text \<open>The entries of a text that fill the field \<open>n\<close>.\<close>

definition spelled :: "(string \<times> bool \<times> jtype) list \<Rightarrow> string \<Rightarrow> (string \<times> json) list \<Rightarrow> json list" where
  "spelled fs n es = map snd (filter (\<lambda>e. matched fs (fst e) = Some n) es)"

definition read_each :: "('a \<Rightarrow> 'b option) \<Rightarrow> 'a list \<Rightarrow> 'b list option" where
  "read_each f xs = those (map f xs)"

lemma read_each_cong [fundef_cong]: "xs = ys \<Longrightarrow> (\<And>x. x \<in> set ys \<Longrightarrow> f x = g x) \<Longrightarrow> read_each f xs = read_each g ys"
  unfolding read_each_def by (metis map_cong)

function Unmarshal :: "jtype \<Rightarrow> json \<Rightarrow> json option" where
  "Unmarshal (TScalar rd z) j = rd j"
| "Unmarshal (TList t) j = (case j of JNull \<Rightarrow> Some JNull | JArr js \<Rightarrow> map_option JArr (read_each (Unmarshal t) js) | _ \<Rightarrow> None)"
| "Unmarshal (TMap t) j = (case j of JNull \<Rightarrow> Some JNull
     | JObj es \<Rightarrow> map_option JObj (read_each (\<lambda>e. map_option (Pair (fst e)) (Unmarshal t (snd e))) es) | _ \<Rightarrow> None)"
| "Unmarshal (TPtr t) j = (if j = JNull then Some JNull else Unmarshal t j)"
| "Unmarshal (TStruct fs) j = (case j of JNull \<Rightarrow> Some (jzero (TStruct fs))
     | JObj es \<Rightarrow> map_option JObj (read_each (\<lambda>f. map_option (\<lambda>xs. (fst f, if xs = [] then jzero (snd (snd f)) else last xs))
         (read_each (Unmarshal (snd (snd f))) (spelled fs (fst f) es))) fs) | _ \<Rightarrow> None)"
  by pat_completeness auto
termination
  by (relation "measure (size \<circ> fst)") (auto simp: less_Suc_eq_le intro!: size_list_estimation')

definition jempty :: "jtype \<Rightarrow> json \<Rightarrow> bool" where
  "jempty t x = (case t of TStruct _ \<Rightarrow> False | TPtr _ \<Rightarrow> x = JNull
     | _ \<Rightarrow> x \<in> {JNull, JBool False, JNum ''0'', JStr [], JArr [], JObj []})"

function Marshal :: "jtype \<Rightarrow> json \<Rightarrow> json" where
  "Marshal (TScalar rd z) v = v"
| "Marshal (TList t) v = (case v of JArr vs \<Rightarrow> JArr (map (Marshal t) vs) | _ \<Rightarrow> JNull)"
| "Marshal (TMap t) v = (case v of JObj es \<Rightarrow> JObj (map (\<lambda>e. (fst e, Marshal t (snd e))) es) | _ \<Rightarrow> JNull)"
| "Marshal (TPtr t) v = (if v = JNull then JNull else Marshal t v)"
| "Marshal (TStruct fs) v = JObj (concat (map (\<lambda>f. case fld v (fst f) of None \<Rightarrow> []
     | Some x \<Rightarrow> if fst (snd f) \<and> jempty (snd (snd f)) x then [] else [(fst f, Marshal (snd (snd f)) x)]) fs))"
  by pat_completeness auto
termination
  by (relation "measure (size \<circ> fst)") (auto simp: less_Suc_eq_le intro!: size_list_estimation')

declare Unmarshal.simps [simp del] Marshal.simps [simp del]

subsection \<open>Keeping what is not known\<close>

fun strip :: "json \<Rightarrow> json option \<Rightarrow> json option" where
  "strip (JObj s) understood = (let out = concat (map (\<lambda>e. case Option.bind understood (\<lambda>u. fld u (fst e)) of
         None \<Rightarrow> [(fst e, snd e)]
       | Some known \<Rightarrow> (case strip (snd e) (Some known) of None \<Rightarrow> [] | Some inner \<Rightarrow> [(fst e, inner)])) s)
     in if out = [] then None else Some (JObj out))"
| "strip _ understood = None"

text \<open>A loop over \<open>u\<close> that touches each name once: what is under a name \<open>written\<close> has, and the names it has not.\<close>

fun graft :: "json \<Rightarrow> json \<Rightarrow> json option \<Rightarrow> json" where
  "graft (JObj w) (JObj u) understood = JObj
     (map (\<lambda>e. (fst e, case map_of u (fst e) of None \<Rightarrow> snd e
        | Some value1 \<Rightarrow> graft (snd e) value1 (Option.bind understood (\<lambda>k. fld k (fst e))))) w @
      filter (\<lambda>e. fst e \<notin> fst ` set w \<and> Option.bind understood (\<lambda>k. fld k (fst e)) = None) u)"
| "graft written unknown understood = written"

definition record_Keep :: "jtype \<Rightarrow> json option \<Rightarrow> json \<Rightarrow> json" where
  "record_Keep t old v = (let fresh = Marshal t v in case old of None \<Rightarrow> fresh
     | Some stored \<Rightarrow> (case Unmarshal t stored of None \<Rightarrow> fresh
         | Some known \<Rightarrow> (let understood = Marshal t known in case strip stored (Some understood) of None \<Rightarrow> fresh
             | Some unknown \<Rightarrow> graft fresh unknown (Some understood))))"

subsection \<open>Paths\<close>

fun at_path :: "string list \<Rightarrow> json \<Rightarrow> json option" where
  "at_path [] j = Some j"
| "at_path (k # p) j = Option.bind (fld j k) (at_path p)"

fun jwf :: "json \<Rightarrow> bool" where
  "jwf (JArr js) = list_all jwf js"
| "jwf (JObj es) = (distinct (map fst es) \<and> list_all (\<lambda>e. jwf (snd e)) es)"
| "jwf _ = True"

definition is_obj :: "json \<Rightarrow> bool" where
  "is_obj j = (case j of JObj _ \<Rightarrow> True | _ \<Rightarrow> False)"

abbreviation (input) sub :: "json option \<Rightarrow> string \<Rightarrow> json option" where
  "sub und n \<equiv> Option.bind und (\<lambda>u. fld u n)"

definition regraft :: "json \<Rightarrow> json option \<Rightarrow> json \<Rightarrow> json" where
  "regraft s und w = (case strip s und of None \<Rightarrow> w | Some unknown \<Rightarrow> graft w unknown und)"

lemma map_of_map_entry: "map_of (map (\<lambda>e. (fst e, h (fst e) (snd e))) es) k = map_option (h k) (map_of es k)"
  by (induction es) auto

lemma map_of_filter_fst: "map_of (filter (\<lambda>e. P (fst e)) es) k = (if P k then map_of es k else None)"
  by (induction es) auto

lemma map_of_concat_entry:
  assumes "distinct (map fst es)"
  shows "map_of (concat (map (\<lambda>e. case h (fst e) (snd e) of None \<Rightarrow> [] | Some x \<Rightarrow> [(fst e, x)]) es)) k = Option.bind (map_of es k) (h k)"
  using assms
proof (induction es)
  case (Cons e es)
  obtain a b where e: "e = (a, b)" by force
  have "map_of es a = None" using Cons.prems e by (simp add: map_of_eq_None_iff)
  then show ?case using Cons e by (cases "h a b") auto
qed simp

lemma jwf_fld: "jwf j \<Longrightarrow> fld j k = Some x \<Longrightarrow> jwf x"
  by (cases j) (auto simp: list_all_iff dest: map_of_SomeD)

lemma sub_out: "sub (if out = [] then None else Some (JObj out)) n = map_of out n"
  by simp

lemma sub_strip:
  assumes "jwf s"
  shows "sub (strip s und) n = (case fld s n of None \<Rightarrow> None | Some x \<Rightarrow> (case sub und n of None \<Rightarrow> Some x | Some kn \<Rightarrow> strip x (Some kn)))"
proof (cases s)
  case (JObj es)
  let ?h = "\<lambda>k x. case sub und k of None \<Rightarrow> Some x | Some kn \<Rightarrow> strip x (Some kn)"
  let ?out = "concat (map (\<lambda>e. case ?h (fst e) (snd e) of None \<Rightarrow> [] | Some x \<Rightarrow> [(fst e, x)]) es)"
  have "(case sub und k of None \<Rightarrow> [(k, x)] | Some known \<Rightarrow> (case strip x (Some known) of None \<Rightarrow> [] | Some inner \<Rightarrow> [(k, inner)])) =
      (case ?h k x of None \<Rightarrow> [] | Some x \<Rightarrow> [(k, x)])" for k x by (cases "sub und k") auto
  then have st: "strip s und = (if ?out = [] then None else Some (JObj ?out))" unfolding JObj strip.simps Let_def by simp
  have m: "map_of ?out n = Option.bind (map_of es n) (?h n)"
    by (rule map_of_concat_entry) (use assms JObj in simp)
  have "sub (strip s und) n = map_of ?out n" unfolding st by (rule sub_out)
  then show ?thesis unfolding m JObj by (cases "map_of es n") auto
qed auto

lemma strip_None: "strip (JObj es) None = (if es = [] then None else Some (JObj es))"
  by (induction es) auto

lemma fld_graft: "fld (graft w u und) n = (case fld w n of
     Some x \<Rightarrow> (case fld u n of None \<Rightarrow> Some x | Some y \<Rightarrow> Some (graft x y (sub und n)))
   | None \<Rightarrow> if is_obj w \<and> is_obj u \<and> sub und n = None then fld u n else None)"
proof (cases "is_obj w \<and> is_obj u")
  case True
  then obtain ws us where w: "w = JObj ws" and u: "u = JObj us" by (cases w; cases u) (auto simp: is_obj_def)
  let ?h = "\<lambda>k x. case map_of us k of None \<Rightarrow> x | Some y \<Rightarrow> graft x y (sub und k)"
  have "map_of (filter (\<lambda>e. fst e \<notin> fst ` set ws \<and> sub und (fst e) = None) us) n = (if n \<notin> fst ` set ws \<and> sub und n = None then map_of us n else None)"
    by (rule map_of_filter_fst)
  moreover have "n \<in> fst ` set ws \<longleftrightarrow> map_of ws n \<noteq> None" by (simp add: map_of_eq_None_iff)
  ultimately show ?thesis using map_of_map_entry [of ?h ws n] unfolding w u
    by (auto simp: map_add_def is_obj_def split: option.split)
next
  case False
  then have "graft w u und = w" by (cases w; cases u) (auto simp: is_obj_def)
  moreover have "fld w n = None \<or> fld u n = None" using False by (cases w; cases u) (auto simp: is_obj_def)
  ultimately show ?thesis using False by (auto split: option.split)
qed

lemma regraft_None: "regraft x None w = graft w x None"
  by (cases x; cases w) (auto simp: regraft_def strip_None)

lemma fld_regraft:
  assumes "jwf s"
  shows "fld (regraft s und w) n = (case fld w n of
     Some x \<Rightarrow> (case fld s n of None \<Rightarrow> Some x | Some y \<Rightarrow> Some (regraft y (sub und n) x))
   | None \<Rightarrow> if is_obj w \<and> sub und n = None then fld s n else None)"
proof -
  note ss = sub_strip [OF assms, of und n]
  show ?thesis
  proof (cases "strip s und")
    case None
    then show ?thesis using ss by (auto simp: regraft_def split: option.splits)
  next
    case (Some u)
    have u: "is_obj u" using Some by (cases s) (auto simp: is_obj_def Let_def split: if_splits)
    have r: "regraft s und w = graft w u und" using Some by (simp add: regraft_def)
    have su: "fld u n = (case fld s n of None \<Rightarrow> None | Some x \<Rightarrow> (case sub und n of None \<Rightarrow> Some x | Some kn \<Rightarrow> strip x (Some kn)))"
      using ss Some by simp
    show ?thesis unfolding r fld_graft su using u regraft_None [of _ ]
      by (cases "fld s n"; cases "sub und n"; cases "fld w n") (auto simp: regraft_def split: option.split)
  qed
qed

text \<open>Where the record was understood, the fields the type does not know come back as they were stored.\<close>

lemma regraft_unknown:
  assumes "jwf s" and "Option.bind und (at_path p) = Some u" and "at_path p w = Some (JObj ws)" and "fld u k = None" and "map_of ws k = None"
    and "at_path (p @ [k]) s = Some x"
  shows "at_path (p @ [k]) (regraft s und w) = Some x"
  using assms
proof (induction p arbitrary: s und w)
  case Nil
  then have "w = JObj ws" and "sub und k = None" and x: "fld s k = Some x" by (auto simp: bind_eq_Some_conv)
  then show ?case using fld_regraft [OF Nil.prems(1), of und w k] Nil.prems(5) by (simp add: is_obj_def)
next
  case (Cons n p)
  obtain w1 where w1: "fld w n = Some w1" "at_path p w1 = Some (JObj ws)" using Cons.prems(3) by (auto simp: bind_eq_Some_conv)
  obtain x1 where x1: "fld s n = Some x1" "at_path (p @ [k]) x1 = Some x" using Cons.prems(6) by (auto simp: bind_eq_Some_conv)
  have u1: "Option.bind (sub und n) (at_path p) = Some u" using Cons.prems(2) by (cases und) auto
  have "at_path (p @ [k]) (regraft x1 (sub und n) w1) = Some x"
    by (rule Cons.IH [OF jwf_fld [OF Cons.prems(1) x1(1)] u1 w1(2) Cons.prems(4,5) x1(2)])
  then show ?case using fld_regraft [OF Cons.prems(1), of und w n] w1 x1 by simp
qed

lemma regraft_written:
  assumes "jwf s" and "at_path p w = Some x" and "\<not> is_obj x"
  shows "at_path p (regraft s und w) = Some x"
  using assms
proof (induction p arbitrary: s und w)
  case Nil
  then show ?case by (cases x) (auto simp: regraft_def is_obj_def split: option.split)
next
  case (Cons n p)
  obtain w1 where w1: "fld w n = Some w1" "at_path p w1 = Some x" using Cons.prems(2) by (auto simp: bind_eq_Some_conv)
  show ?case
  proof (cases "fld s n")
    case None
    then show ?thesis using fld_regraft [OF Cons.prems(1), of und w n] w1 by simp
  next
    case (Some x1)
    then show ?thesis using fld_regraft [OF Cons.prems(1), of und w n] w1
      Cons.IH [OF jwf_fld [OF Cons.prems(1) Some] w1(2) Cons.prems(3), of "sub und n"] by simp
  qed
qed

text \<open>Nothing comes back that the type knew or that was not stored.\<close>

lemma regraft_dropped:
  assumes "jwf s" and "at_path p w = None" and "Option.bind und (at_path p) \<noteq> None \<or> at_path p s = None"
  shows "at_path p (regraft s und w) = None"
  using assms
proof (induction p arbitrary: s und w)
  case (Cons n p)
  note r = fld_regraft [OF Cons.prems(1), of und w n]
  show ?case
  proof (cases "fld w n")
    case None
    show ?thesis
    proof (cases "sub und n = None \<and> is_obj w")
      case True
      then have "Option.bind und (at_path (n # p)) = None" by (cases und) auto
      then have "Option.bind (fld s n) (at_path p) = None" using Cons.prems(3) by (cases und) auto
      then show ?thesis using r None True by simp
    next
      case False
      then show ?thesis using r None by auto
    qed
  next
    case (Some w1)
    then have w1: "at_path p w1 = None" using Cons.prems(2) by simp
    show ?thesis
    proof (cases "fld s n")
      case None
      then show ?thesis using r Some w1 by simp
    next
      case x1: (Some x1)
      have "Option.bind (sub und n) (at_path p) \<noteq> None \<or> at_path p x1 = None" using Cons.prems(3) x1 by (cases und) auto
      then show ?thesis using r Some x1 Cons.IH [OF jwf_fld [OF Cons.prems(1) x1] w1, of "sub und n"] by simp
    qed
  qed
qed simp

lemma Keep_regraft: "Unmarshal t stored = Some known \<Longrightarrow> record_Keep t (Some stored) v = regraft stored (Some (Marshal t known)) (Marshal t v)"
  by (simp add: record_Keep_def regraft_def Let_def)

subsection \<open>Values of a type\<close>

function type_ok :: "jtype \<Rightarrow> bool" where
  "type_ok (TScalar rd z) = True"
| "type_ok (TList t) = type_ok t"
| "type_ok (TMap t) = type_ok t"
| "type_ok (TPtr t) = type_ok t"
| "type_ok (TStruct fs) = (distinct (map fst fs) \<and> list_all (\<lambda>f. type_ok (snd (snd f))) fs)"
  by pat_completeness auto
termination
  by (relation "measure size") (auto simp: less_Suc_eq_le intro!: size_list_estimation')

text \<open>A value in memory, and one an empty optional field of which is its zero value.\<close>

function fits :: "jtype \<Rightarrow> json \<Rightarrow> bool" where
  "fits (TScalar rd z) v = (rd v = Some v)"
| "fits (TList t) v = (case v of JNull \<Rightarrow> True | JArr vs \<Rightarrow> list_all (fits t) vs | _ \<Rightarrow> False)"
| "fits (TMap t) v = (case v of JNull \<Rightarrow> True | JObj es \<Rightarrow> distinct (map fst es) \<and> list_all (\<lambda>e. fits t (snd e)) es | _ \<Rightarrow> False)"
| "fits (TPtr t) v = (v = JNull \<or> fits t v \<and> Marshal t v \<noteq> JNull)"
| "fits (TStruct fs) v = ((case v of JObj es \<Rightarrow> map fst es = map fst fs | _ \<Rightarrow> False) \<and>
     list_all (\<lambda>f. case fld v (fst f) of None \<Rightarrow> False
       | Some x \<Rightarrow> fits (snd (snd f)) x \<and> (fst (snd f) \<and> jempty (snd (snd f)) x \<longrightarrow> x = jzero (snd (snd f)))) fs)"
  by pat_completeness auto
termination
  by (relation "measure (size \<circ> fst)") (auto simp: less_Suc_eq_le intro!: size_list_estimation')

text \<open>
  A stored text no part of which the type reads as something else: every name of an object is a field as spelled or
  is like none in any case, an optional field that is written is not empty, and no scalar is read in part.
\<close>

function plain :: "jtype \<Rightarrow> json \<Rightarrow> bool" where
  "plain (TScalar rd z) x = (case rd x of None \<Rightarrow> True | Some y \<Rightarrow> strip x (Some y) = None)"
| "plain (TList t) x = True"
| "plain (TMap t) x = (case x of JObj es \<Rightarrow> list_all (\<lambda>e. plain t (snd e)) es | _ \<Rightarrow> True)"
| "plain (TPtr t) x = (x = JNull \<or> plain t x \<and> Unmarshal t x \<noteq> Some JNull)"
| "plain (TStruct fs) x = (case x of JObj es \<Rightarrow> list_all (\<lambda>e. fst e \<in> fst ` set fs \<or> matched fs (fst e) = None) es \<and>
     list_all (\<lambda>f. case map_of es (fst f) of None \<Rightarrow> True | Some y \<Rightarrow> plain (snd (snd f)) y \<and>
       (fst (snd f) \<longrightarrow> (case Unmarshal (snd (snd f)) y of None \<Rightarrow> True | Some k \<Rightarrow> \<not> jempty (snd (snd f)) k))) fs | _ \<Rightarrow> True)"
  by pat_completeness auto
termination
  by (relation "measure (size \<circ> fst)") (auto simp: less_Suc_eq_le intro!: size_list_estimation')

declare fits.simps [simp del] plain.simps [simp del] jzero.simps [simp del]

lemma read_each_map: "(\<And>x. x \<in> set xs \<Longrightarrow> f x = Some (g x)) \<Longrightarrow> read_each f xs = Some (map g xs)"
  unfolding read_each_def by (induction xs) auto

lemma read_each_Some: "read_each f xs = Some ys \<longleftrightarrow> map f xs = map Some ys"
  unfolding read_each_def
proof (induction xs arbitrary: ys)
  case (Cons x xs)
  then show ?case by (cases ys) (auto split: option.splits)
qed auto

lemma spelled_once:
  assumes "distinct (map fst es)" and "\<forall>e \<in> set es. matched fs (fst e) = Some n \<longrightarrow> fst e = n" and "n \<in> fst ` set fs"
  shows "spelled fs n es = (case map_of es n of None \<Rightarrow> [] | Some y \<Rightarrow> [y])"
  using assms(1,2)
proof (induction es)
  case (Cons e es)
  obtain a b where e: "e = (a, b)" by force
  have m: "matched fs n = Some n" using assms(3) by (simp add: matched_def)
  show ?case
  proof (cases "a = n")
    case True
    then have "map_of es n = None" using Cons.prems(1) e by (simp add: map_of_eq_None_iff)
    then show ?thesis using Cons e True m by (simp add: spelled_def)
  next
    case False
    then show ?thesis using Cons e by (auto simp: spelled_def)
  qed
qed (simp add: spelled_def)

lemma struct_reads:
  assumes "distinct (map fst es)" and keys: "\<forall>e \<in> set es. fst e \<in> fst ` set fs \<or> matched fs (fst e) = None"
    and each: "\<And>f. f \<in> set fs \<Longrightarrow> (case map_of es (fst f) of None \<Rightarrow> x (fst f) = jzero (snd (snd f)) | Some y \<Rightarrow> Unmarshal (snd (snd f)) y = Some (x (fst f)))"
  shows "Unmarshal (TStruct fs) (JObj es) = Some (JObj (map (\<lambda>f. (fst f, x (fst f))) fs))"
proof -
  have "map_option (\<lambda>xs. (fst f, if xs = [] then jzero (snd (snd f)) else last xs)) (read_each (Unmarshal (snd (snd f))) (spelled fs (fst f) es)) =
      Some (fst f, x (fst f))" if f: "f \<in> set fs" for f
  proof -
    have "\<forall>e \<in> set es. matched fs (fst e) = Some (fst f) \<longrightarrow> fst e = fst f" using keys by (auto simp: matched_def)
    then have sp: "spelled fs (fst f) es = (case map_of es (fst f) of None \<Rightarrow> [] | Some y \<Rightarrow> [y])" using spelled_once [OF assms(1)] f by auto
    show ?thesis
    proof (cases "map_of es (fst f)")
      case None
      then show ?thesis using each [OF f] unfolding sp by (simp add: read_each_def)
    next
      case (Some y)
      then show ?thesis using each [OF f] unfolding sp by (simp add: read_each_def)
    qed
  qed
  then have "read_each (\<lambda>f. map_option (\<lambda>xs. (fst f, if xs = [] then jzero (snd (snd f)) else last xs))
      (read_each (Unmarshal (snd (snd f))) (spelled fs (fst f) es))) fs = Some (map (\<lambda>f. (fst f, x (fst f))) fs)" by (rule read_each_map)
  then show ?thesis by (simp add: Unmarshal.simps)
qed

lemma entries_from_names:
  assumes "map fst es = map fst fs" and "distinct (map fst fs)"
  shows "map (\<lambda>f. (fst f, the (map_of es (fst f)))) fs = es"
proof -
  have "map (\<lambda>f. (fst f, the (map_of es (fst f)))) fs = map (\<lambda>n. (n, the (map_of es n))) (map fst fs)" by simp
  also have "\<dots> = map (\<lambda>n. (n, the (map_of es n))) (map fst es)" by (simp only: assms(1))
  also have "\<dots> = map (\<lambda>e. (fst e, the (map_of es (fst e)))) es" by simp
  also have "\<dots> = es"
  proof (rule map_idI)
    fix e assume "e \<in> set es"
    then have "map_of es (fst e) = Some (snd e)" using assms by (intro map_of_is_SomeI) simp_all
    then show "(fst e, the (map_of es (fst e))) = e" by simp
  qed
  finally show ?thesis .
qed

lemma distinct_concat_entry:
  "distinct (map fst es) \<Longrightarrow> distinct (map fst (concat (map (\<lambda>e. case h (fst e) (snd e) of None \<Rightarrow> [] | Some x \<Rightarrow> [(fst e, x)]) es)))"
proof (induction es)
  case (Cons e es)
  have "fst ` set (concat (map (\<lambda>e. case h (fst e) (snd e) of None \<Rightarrow> [] | Some x \<Rightarrow> [(fst e, x)]) es)) \<subseteq> fst ` set es"
    by (auto split: option.splits) force
  then show ?case using Cons by (auto split: option.split)
qed simp

definition written_fields :: "(string \<times> bool \<times> jtype) list \<Rightarrow> json \<Rightarrow> (string \<times> json) list" where
  "written_fields fs v = concat (map (\<lambda>f. case (case fld v (fst f) of None \<Rightarrow> None | Some x \<Rightarrow>
     if fst (snd f) \<and> jempty (snd (snd f)) x then None else Some (Marshal (snd (snd f)) x)) of None \<Rightarrow> [] | Some y \<Rightarrow> [(fst f, y)]) fs)"

lemma Marshal_struct: "Marshal (TStruct fs) v = JObj (written_fields fs v)"
proof -
  have "(case fld v (fst f) of None \<Rightarrow> [] | Some x \<Rightarrow> if fst (snd f) \<and> jempty (snd (snd f)) x then [] else [(fst f, Marshal (snd (snd f)) x)]) =
    (case (case fld v (fst f) of None \<Rightarrow> None | Some x \<Rightarrow>
     if fst (snd f) \<and> jempty (snd (snd f)) x then None else Some (Marshal (snd (snd f)) x)) of None \<Rightarrow> [] | Some y \<Rightarrow> [(fst f, y)])" for f
    by (cases "fld v (fst f)") simp_all
  then show ?thesis by (simp add: Marshal.simps written_fields_def)
qed

lemma written_field:
  assumes "distinct (map fst fs)" and "f \<in> set fs" and "fld v (fst f) = Some x"
  shows "map_of (written_fields fs v) (fst f) = (if fst (snd f) \<and> jempty (snd (snd f)) x then None else Some (Marshal (snd (snd f)) x))"
proof -
  let ?h = "\<lambda>n b. case fld v n of None \<Rightarrow> None | Some x \<Rightarrow> if fst b \<and> jempty (snd b) x then None else Some (Marshal (snd b) x)"
  have "map_of fs (fst f) = Some (snd f)" using assms(1,2) by (intro map_of_is_SomeI) simp_all
  moreover have "map_of (written_fields fs v) (fst f) = Option.bind (map_of fs (fst f)) (?h (fst f))"
    unfolding written_fields_def by (rule map_of_concat_entry [OF assms(1)])
  ultimately show ?thesis using assms(3) by simp
qed

lemma written_names: "fst ` set (written_fields fs v) \<subseteq> fst ` set fs"
  by (force simp: written_fields_def split: option.splits if_splits)

lemma written_distinct: "distinct (map fst fs) \<Longrightarrow> distinct (map fst (written_fields fs v))"
  unfolding written_fields_def by (rule distinct_concat_entry)

lemma fits_struct:
  assumes "fits (TStruct fs) v" and "distinct (map fst fs)"
  shows "v = JObj (map (\<lambda>f. (fst f, the (fld v (fst f)))) fs)"
    and "f \<in> set fs \<Longrightarrow> fld v (fst f) = Some (the (fld v (fst f))) \<and> fits (snd (snd f)) (the (fld v (fst f))) \<and>
      (fst (snd f) \<and> jempty (snd (snd f)) (the (fld v (fst f))) \<longrightarrow> the (fld v (fst f)) = jzero (snd (snd f)))"
proof -
  obtain es where v: "v = JObj es" and n: "map fst es = map fst fs" using assms(1) by (auto simp: fits.simps split: json.splits)
  show "v = JObj (map (\<lambda>f. (fst f, the (fld v (fst f)))) fs)" using entries_from_names [OF n assms(2)] v by simp
  show "fld v (fst f) = Some (the (fld v (fst f))) \<and> fits (snd (snd f)) (the (fld v (fst f))) \<and>
      (fst (snd f) \<and> jempty (snd (snd f)) (the (fld v (fst f))) \<longrightarrow> the (fld v (fst f)) = jzero (snd (snd f)))" if "f \<in> set fs"
  proof -
    have "case fld v (fst f) of None \<Rightarrow> False | Some x \<Rightarrow> fits (snd (snd f)) x \<and> (fst (snd f) \<and> jempty (snd (snd f)) x \<longrightarrow> x = jzero (snd (snd f)))"
      using assms(1) that by (simp add: fits.simps list_all_iff)
    then show ?thesis by (cases "fld v (fst f)") auto
  qed
qed

lemma Unmarshal_Marshal: "type_ok t \<Longrightarrow> fits t v \<Longrightarrow> Unmarshal t (Marshal t v) = Some v"
proof (induction t arbitrary: v rule: type_ok.induct)
  case (2 t)
  then show ?case by (cases v) (auto simp: fits.simps Unmarshal.simps Marshal.simps list_all_iff read_each_Some)
next
  case (3 t)
  then show ?case by (cases v) (auto simp: fits.simps Unmarshal.simps Marshal.simps list_all_iff read_each_Some)
next
  case (5 fs)
  have d: "distinct (map fst fs)" using 5(2) by simp
  note v = fits_struct(1) [OF 5(3) d] and each = fits_struct(2) [OF 5(3) d]
  have "Unmarshal (TStruct fs) (JObj (written_fields fs v)) = Some (JObj (map (\<lambda>f. (fst f, (\<lambda>n. the (fld v n)) (fst f))) fs))"
  proof (rule struct_reads [OF written_distinct [OF d]])
    show "\<forall>e\<in>set (written_fields fs v). fst e \<in> fst ` set fs \<or> matched fs (fst e) = None" using written_names [of fs v] by blast
    fix f assume f: "f \<in> set fs"
    have "type_ok (snd (snd f))" using 5(2) f by (simp add: list_all_iff)
    then show "case map_of (written_fields fs v) (fst f) of None \<Rightarrow> the (fld v (fst f)) = jzero (snd (snd f)) | Some y \<Rightarrow> Unmarshal (snd (snd f)) y = Some (the (fld v (fst f)))"
      using 5(1) [OF f] each [OF f] written_field [OF d f, of v "the (fld v (fst f))"] by simp
  qed
  then show ?case unfolding Marshal_struct using v by simp
qed (auto simp: fits.simps Unmarshal.simps Marshal.simps)

subsection \<open>What is saved is read back\<close>

lemma strip_distinct:
  assumes "jwf s" and "strip s und = Some u"
  obtains us where "u = JObj us" "distinct (map fst us)"
proof (cases s)
  case (JObj es)
  let ?h = "\<lambda>k x. case sub und k of None \<Rightarrow> Some x | Some kn \<Rightarrow> strip x (Some kn)"
  let ?out = "concat (map (\<lambda>e. case ?h (fst e) (snd e) of None \<Rightarrow> [] | Some x \<Rightarrow> [(fst e, x)]) es)"
  have "(case sub und k of None \<Rightarrow> [(k, x)] | Some known \<Rightarrow> (case strip x (Some known) of None \<Rightarrow> [] | Some inner \<Rightarrow> [(k, inner)])) =
      (case ?h k x of None \<Rightarrow> [] | Some x \<Rightarrow> [(k, x)])" for k x by (cases "sub und k") auto
  then have "strip s und = (if ?out = [] then None else Some (JObj ?out))" unfolding JObj strip.simps Let_def by simp
  then have "u = JObj ?out" using assms(2) by (auto split: if_splits)
  moreover have "distinct (map fst ?out)" by (rule distinct_concat_entry) (use assms(1) JObj in simp)
  ultimately show thesis by (rule that)
qed (use assms in auto)

lemma regraft_entry:
  assumes "jwf s" and "strip s und = Some (JObj us)"
  shows "(case map_of us n of None \<Rightarrow> x | Some y \<Rightarrow> graft x y (sub und n)) = (case fld s n of None \<Rightarrow> x | Some y \<Rightarrow> regraft y (sub und n) x)"
proof -
  have "map_of us n = (case fld s n of None \<Rightarrow> None | Some x \<Rightarrow> (case sub und n of None \<Rightarrow> Some x | Some kn \<Rightarrow> strip x (Some kn)))"
    using sub_strip [OF assms(1), of und n] assms(2) by simp
  then show ?thesis using regraft_None by (cases "fld s n"; cases "sub und n") (auto simp: regraft_def split: option.split)
qed

lemma regraft_entries:
  assumes "jwf s" and "distinct (map fst ws)"
  obtains extra where
    "regraft s und (JObj ws) = JObj (map (\<lambda>e. (fst e, case fld s (fst e) of None \<Rightarrow> snd e | Some y \<Rightarrow> regraft y (sub und (fst e)) (snd e))) ws @ extra)"
    "distinct (map fst ws @ map fst extra)" "\<forall>e \<in> set extra. sub und (fst e) = None \<and> fld s (fst e) \<noteq> None"
proof (cases "strip s und")
  case None
  have "(case fld s n of None \<Rightarrow> x | Some y \<Rightarrow> regraft y (sub und n) x) = x" for n x
    using sub_strip [OF assms(1), of und n] None by (auto simp: regraft_def split: option.splits)
  then have "regraft s und (JObj ws) = JObj (map (\<lambda>e. (fst e, case fld s (fst e) of None \<Rightarrow> snd e | Some y \<Rightarrow> regraft y (sub und (fst e)) (snd e))) ws @ [])"
    using None by (simp add: regraft_def)
  then show thesis by (rule that) (use assms(2) in auto)
next
  case (Some u)
  obtain us where u: "u = JObj us" and d: "distinct (map fst us)" using strip_distinct [OF assms(1) Some] .
  let ?ex = "filter (\<lambda>e. fst e \<notin> fst ` set ws \<and> sub und (fst e) = None) us"
  have st: "strip s und = Some (JObj us)" using Some u by simp
  have "regraft s und (JObj ws) = graft (JObj ws) (JObj us) und" by (simp add: regraft_def st)
  also have "\<dots> = JObj (map (\<lambda>e. (fst e, case fld s (fst e) of None \<Rightarrow> snd e | Some y \<Rightarrow> regraft y (sub und (fst e)) (snd e))) ws @ ?ex)"
    using regraft_entry [OF assms(1) st] by simp
  finally show thesis
  proof (rule that)
    have "distinct (map fst ?ex)" using d by (rule distinct_map_filter)
    moreover have "set (map fst ws) \<inter> set (map fst ?ex) = {}" by force
    ultimately show "distinct (map fst ws @ map fst ?ex)" using assms(2) by (simp only: distinct_append)
    show "\<forall>e \<in> set ?ex. sub und (fst e) = None \<and> fld s (fst e) \<noteq> None"
    proof
      fix e assume e: "e \<in> set ?ex"
      then have "map_of us (fst e) \<noteq> None" by (auto simp: map_of_eq_None_iff)
      then have "fld s (fst e) \<noteq> None" using sub_strip [OF assms(1), of und "fst e"] st by (cases "fld s (fst e)") auto
      then show "sub und (fst e) = None \<and> fld s (fst e) \<noteq> None" using e by simp
    qed
  qed
qed

lemma regraft_null: "regraft s und w = JNull \<longleftrightarrow> w = JNull"
proof (cases "strip s und")
  case (Some u)
  then show ?thesis by (cases w; cases u) (simp_all add: regraft_def)
qed (simp add: regraft_def)

lemma regraft_into_null: "regraft s und JNull = JNull"
  by (simp add: regraft_null)

lemma is_obj_JObj: "is_obj (JObj es) = True"
  by (simp add: is_obj_def)

lemma read_entry:
  "map (\<lambda>e. map_option (Pair (fst e)) (f (snd e))) es = map Some ks \<Longrightarrow> map_of es n = Some x \<Longrightarrow> \<exists>y. f x = Some y \<and> map_of ks n = Some y"
proof (induction es arbitrary: ks)
  case (Cons e es)
  obtain a b where e: "e = (a, b)" by force
  obtain y ks' where k: "ks = (a, y) # ks'" "f b = Some y" "map (\<lambda>e. map_option (Pair (fst e)) (f (snd e))) es = map Some ks'"
    using Cons.prems(1) e by (cases ks) auto
  then show ?case using Cons.IH [OF k(3)] Cons.prems(2) e by (cases "a = n") auto
qed simp

lemma regraft_reads_map:
  assumes IH: "\<And>v s k. fits t v \<Longrightarrow> jwf s \<Longrightarrow> plain t s \<Longrightarrow> Unmarshal t s = Some k \<Longrightarrow> Unmarshal t (regraft s (Some (Marshal t k)) (Marshal t v)) = Some v"
    and "type_ok t" and v: "fits (TMap t) (JObj vs)" and "jwf (JObj es)" and "plain (TMap t) (JObj es)"
    and k: "Unmarshal (TMap t) (JObj es) = Some k"
  shows "Unmarshal (TMap t) (regraft (JObj es) (Some (Marshal (TMap t) k)) (Marshal (TMap t) (JObj vs))) = Some (JObj vs)"
proof -
  obtain ks where ks: "k = JObj ks" "map (\<lambda>e. map_option (Pair (fst e)) (Unmarshal t (snd e))) es = map Some ks"
    using k by (auto simp: Unmarshal.simps read_each_Some)
  have at: "\<exists>y. Unmarshal t x = Some y \<and> map_of ks n = Some y" if "map_of es n = Some x" for n x
    using ks(2) that by (rule read_entry)
  let ?und = "Some (Marshal (TMap t) k)" and ?ws = "map (\<lambda>e. (fst e, Marshal t (snd e))) vs"
  have und: "sub ?und n = map_option (Marshal t) (map_of ks n)" for n
    unfolding ks(1) by (simp add: Marshal.simps map_of_map_entry [where h = "\<lambda>_. Marshal t"])
  have vs: "distinct (map fst vs)" "\<forall>e \<in> set vs. fits t (snd e)" using v by (auto simp: fits.simps list_all_iff)
  have dws: "distinct (map fst ?ws)" using vs(1) by (simp add: comp_def)
  obtain extra where r: "regraft (JObj es) ?und (JObj ?ws) =
      JObj (map (\<lambda>e. (fst e, case fld (JObj es) (fst e) of None \<Rightarrow> snd e | Some y \<Rightarrow> regraft y (sub ?und (fst e)) (snd e))) ?ws @ extra)"
    and "distinct (map fst ?ws @ map fst extra)" and ex: "\<forall>e \<in> set extra. sub ?und (fst e) = None \<and> fld (JObj es) (fst e) \<noteq> None"
    using regraft_entries [OF assms(4) dws, of ?und] by blast
  have "extra = []"
  proof (cases extra)
    case (Cons e rest)
    then have "sub ?und (fst e) = None" "map_of es (fst e) \<noteq> None" using ex by auto
    then show ?thesis using at [of "fst e"] und by auto
  qed
  have each: "Unmarshal t (case map_of es (fst e) of None \<Rightarrow> Marshal t (snd e) | Some y \<Rightarrow> regraft y (sub ?und (fst e)) (Marshal t (snd e))) = Some (snd e)"
    if e: "e \<in> set vs" for e
  proof (cases "map_of es (fst e)")
    case None
    then show ?thesis using Unmarshal_Marshal [OF assms(2)] vs(2) e by simp
  next
    case (Some x)
    then obtain y where y: "Unmarshal t x = Some y" "map_of ks (fst e) = Some y" using at by blast
    have "(fst e, x) \<in> set es" using Some by (rule map_of_SomeD)
    then have "plain t x" "jwf x" using assms(4,5) by (auto simp: plain.simps list_all_iff)
    then show ?thesis using IH [of "snd e" x y] vs(2) e Some y und [of "fst e"] by simp
  qed
  have E: "map (\<lambda>e. map_option (Pair (fst e)) (Unmarshal t (snd e))) (map (\<lambda>e. (fst e, case map_of es (fst e) of None \<Rightarrow> snd e | Some y \<Rightarrow> regraft y (sub ?und (fst e)) (snd e))) ?ws) = map Some vs"
    unfolding map_map by (rule map_cong [OF refl]) (simp only: comp_def fst_conv snd_conv each option.map prod.collapse)
  have M: "Marshal (TMap t) (JObj vs) = JObj ?ws" by (simp add: Marshal.simps)
  show ?thesis unfolding M r [unfolded \<open>extra = []\<close> append_Nil2 fld.simps] Unmarshal.simps json.case E [folded read_each_Some] by simp
qed

lemma plain_struct:
  assumes "plain (TStruct fs) (JObj es)" and "f \<in> set fs" and "map_of es (fst f) = Some y"
  shows "plain (snd (snd f)) y" and "fst (snd f) \<Longrightarrow> Unmarshal (snd (snd f)) y = Some k \<Longrightarrow> \<not> jempty (snd (snd f)) k"
proof -
  have "case map_of es (fst f) of None \<Rightarrow> True | Some y \<Rightarrow> plain (snd (snd f)) y \<and>
       (fst (snd f) \<longrightarrow> (case Unmarshal (snd (snd f)) y of None \<Rightarrow> True | Some k \<Rightarrow> \<not> jempty (snd (snd f)) k))"
    using assms(1,2) by (simp add: plain.simps list_all_iff)
  then show "plain (snd (snd f)) y" and "fst (snd f) \<Longrightarrow> Unmarshal (snd (snd f)) y = Some k \<Longrightarrow> \<not> jempty (snd (snd f)) k"
    using assms(3) by auto
qed

lemma read_fields:
  assumes "map (\<lambda>f. map_option (Pair (fst f)) (q f)) fs = map Some ks"
  shows "map fst ks = map fst fs" and "f \<in> set fs \<Longrightarrow> \<exists>x. q f = Some x \<and> (fst f, x) \<in> set ks"
proof -
  have "map fst ks = map fst fs \<and> (\<forall>f \<in> set fs. \<exists>x. q f = Some x \<and> (fst f, x) \<in> set ks)"
    using assms
  proof (induction fs arbitrary: ks)
    case (Cons g fs)
    obtain x ks' where k: "ks = (fst g, x) # ks'" "q g = Some x" "map (\<lambda>f. map_option (Pair (fst f)) (q f)) fs = map Some ks'"
      using Cons.prems by (cases ks) auto
    show ?case using Cons.IH [OF k(3)] k(1,2) by auto
  qed simp
  then show "map fst ks = map fst fs" and "f \<in> set fs \<Longrightarrow> \<exists>x. q f = Some x \<and> (fst f, x) \<in> set ks" by blast+
qed

definition field_read :: "(string \<times> bool \<times> jtype) list \<Rightarrow> (string \<times> json) list \<Rightarrow> string \<times> bool \<times> jtype \<Rightarrow> json option" where
  "field_read fs es f = map_option (\<lambda>xs. if xs = [] then jzero (snd (snd f)) else last xs) (read_each (Unmarshal (snd (snd f))) (spelled fs (fst f) es))"

lemma Unmarshal_struct: "Unmarshal (TStruct fs) (JObj es) = map_option JObj (read_each (\<lambda>f. map_option (Pair (fst f)) (field_read fs es f)) fs)"
proof -
  have "(\<lambda>f. map_option (\<lambda>xs. (fst f, if xs = [] then jzero (snd (snd f)) else last xs)) (read_each (Unmarshal (snd (snd f))) (spelled fs (fst f) es))) =
      (\<lambda>f. map_option (Pair (fst f)) (field_read fs es f))"
    by (simp add: field_read_def option.map_comp comp_def)
  then show ?thesis by (simp only: Unmarshal.simps json.case)
qed

lemma struct_known:
  assumes "plain (TStruct fs) (JObj es)" and "jwf (JObj es)" and "distinct (map fst fs)" and "Unmarshal (TStruct fs) (JObj es) = Some k"
    and f: "f \<in> set fs" and y: "map_of es (fst f) = Some y"
  obtains x where "Unmarshal (snd (snd f)) y = Some x" "fld k (fst f) = Some x"
proof -
  obtain ks where k: "k = JObj ks" and m: "map (\<lambda>f. map_option (Pair (fst f)) (field_read fs es f)) fs = map Some ks"
    using assms(4) unfolding Unmarshal_struct by (auto simp: read_each_Some)
  obtain x where x: "field_read fs es f = Some x" "(fst f, x) \<in> set ks" using read_fields(2) [OF m f] by blast
  have keys: "\<forall>e \<in> set es. matched fs (fst e) = Some (fst f) \<longrightarrow> fst e = fst f"
    using assms(1) by (auto simp: plain.simps list_all_iff matched_def)
  have sp: "spelled fs (fst f) es = [y]" using spelled_once [OF _ keys] assms(2) f y by simp
  have "Unmarshal (snd (snd f)) y = Some x" using x(1) unfolding field_read_def sp
    by (cases "Unmarshal (snd (snd f)) y") (simp_all add: read_each_def)
  moreover have "map_of ks (fst f) = Some x" using x(2) read_fields(1) [OF m] assms(3) by (intro map_of_is_SomeI) simp_all
  ultimately show thesis using that k by simp
qed

lemma regraft_reads_struct:
  assumes IH: "\<And>f v s k. f \<in> set fs \<Longrightarrow> fits (snd (snd f)) v \<Longrightarrow> jwf s \<Longrightarrow> plain (snd (snd f)) s \<Longrightarrow> Unmarshal (snd (snd f)) s = Some k \<Longrightarrow>
      Unmarshal (snd (snd f)) (regraft s (Some (Marshal (snd (snd f)) k)) (Marshal (snd (snd f)) v)) = Some v"
    and ok: "type_ok (TStruct fs)" and fit: "fits (TStruct fs) v" and wf: "jwf (JObj es)" and pl: "plain (TStruct fs) (JObj es)"
    and k: "Unmarshal (TStruct fs) (JObj es) = Some k"
  shows "Unmarshal (TStruct fs) (regraft (JObj es) (Some (Marshal (TStruct fs) k)) (Marshal (TStruct fs) v)) = Some v"
proof -
  have d: "distinct (map fst fs)" using ok by simp
  let ?und = "Some (JObj (written_fields fs k))" and ?ws = "written_fields fs v"
  note v = fits_struct(1) [OF fit d] and each = fits_struct(2) [OF fit d]
  have und: "\<exists>x. Unmarshal (snd (snd f)) y = Some x \<and> sub ?und (fst f) = Some (Marshal (snd (snd f)) x)"
    if f: "f \<in> set fs" and y: "map_of es (fst f) = Some y" for f y
  proof -
    obtain x where x: "Unmarshal (snd (snd f)) y = Some x" "fld k (fst f) = Some x" by (rule struct_known [OF pl wf d k f y])
    then show ?thesis using written_field [OF d f x(2)] plain_struct(2) [OF pl f y] by auto
  qed
  obtain extra where r: "regraft (JObj es) ?und (JObj ?ws) =
      JObj (map (\<lambda>e. (fst e, case fld (JObj es) (fst e) of None \<Rightarrow> snd e | Some y \<Rightarrow> regraft y (sub ?und (fst e)) (snd e))) ?ws @ extra)"
    and dr: "distinct (map fst ?ws @ map fst extra)" and ex: "\<forall>e \<in> set extra. sub ?und (fst e) = None \<and> fld (JObj es) (fst e) \<noteq> None"
    using regraft_entries [OF wf written_distinct [OF d, of v], of ?und] by blast
  let ?rs = "map (\<lambda>e. (fst e, case fld (JObj es) (fst e) of None \<Rightarrow> snd e | Some y \<Rightarrow> regraft y (sub ?und (fst e)) (snd e))) ?ws @ extra"
  have "Unmarshal (TStruct fs) (JObj ?rs) = Some (JObj (map (\<lambda>f. (fst f, (\<lambda>n. the (fld v n)) (fst f))) fs))"
  proof (rule struct_reads)
    show "distinct (map fst ?rs)" using dr by (simp add: comp_def)
    show "\<forall>e \<in> set ?rs. fst e \<in> fst ` set fs \<or> matched fs (fst e) = None"
    proof
      fix e assume "e \<in> set ?rs"
      then consider "fst e \<in> fst ` set ?ws" | "e \<in> set extra" by force
      then show "fst e \<in> fst ` set fs \<or> matched fs (fst e) = None"
      proof cases
        case 1
        then show ?thesis using written_names by blast
      next
        case 2
        then have "map_of es (fst e) \<noteq> None" using ex by simp
        then obtain e' where "e' \<in> set es" "fst e' = fst e" by (auto simp: map_of_eq_None_iff)
        moreover have "\<forall>e \<in> set es. fst e \<in> fst ` set fs \<or> matched fs (fst e) = None" using pl by (simp add: plain.simps list_all_iff)
        ultimately show ?thesis by metis
      qed
    qed
    fix f assume f: "f \<in> set fs"
    let ?t = "snd (snd f)" and ?x = "the (fld v (fst f))"
    have t: "type_ok ?t" using ok f by (simp add: list_all_iff)
    have val: "map_of ?rs (fst f) = (case map_of ?ws (fst f) of
        Some x \<Rightarrow> (case map_of es (fst f) of None \<Rightarrow> Some x | Some y \<Rightarrow> Some (regraft y (sub ?und (fst f)) x))
      | None \<Rightarrow> if sub ?und (fst f) = None then map_of es (fst f) else None)"
      using fld_regraft [OF wf, of ?und "JObj ?ws" "fst f"] unfolding r is_obj_JObj fld.simps(1) simp_thms .
    note w = written_field [OF d f, of v ?x]
    show "case map_of ?rs (fst f) of None \<Rightarrow> ?x = jzero ?t | Some y \<Rightarrow> Unmarshal ?t y = Some ?x"
    proof (cases "map_of es (fst f)")
      case None
      then show ?thesis using each [OF f] w Unmarshal_Marshal [OF t, of ?x] unfolding val by auto
    next
      case (Some y)
      obtain x where x: "Unmarshal ?t y = Some x" "sub ?und (fst f) = Some (Marshal ?t x)" using und [OF f Some] by blast
      have "(fst f, y) \<in> set es" using Some by (rule map_of_SomeD)
      then have "jwf y" using wf by (auto simp: list_all_iff)
      then have "Unmarshal ?t (regraft y (Some (Marshal ?t x)) (Marshal ?t ?x)) = Some ?x"
        using IH [OF f _ _ plain_struct(1) [OF pl f Some] x(1)] each [OF f] by blast
      then show ?thesis using each [OF f] w unfolding val Some x(2) by auto
    qed
  qed
  then show ?thesis unfolding Marshal_struct r using v by simp
qed

lemma regraft_reads:
  "type_ok t \<Longrightarrow> fits t v \<Longrightarrow> jwf s \<Longrightarrow> plain t s \<Longrightarrow> Unmarshal t s = Some k \<Longrightarrow> Unmarshal t (regraft s (Some (Marshal t k)) (Marshal t v)) = Some v"
proof (induction t arbitrary: v s k rule: type_ok.induct)
  case (1 rd z)
  then show ?case by (simp add: plain.simps fits.simps Unmarshal.simps Marshal.simps regraft_def)
next
  case (2 t)
  have "strip s und = None" for und using 2(6) by (cases s) (auto simp: Unmarshal.simps)
  then show ?case using Unmarshal_Marshal [OF 2(2,3)] by (simp add: regraft_def)
next
  case (3 t)
  show ?case
  proof (cases s)
    case (JObj es)
    show ?thesis
    proof (cases v)
      case (JObj vs)
      then show ?thesis using regraft_reads_map [of t vs es k] 3 \<open>s = JObj es\<close> by simp
    qed (use 3 in \<open>auto simp: fits.simps Marshal.simps Unmarshal.simps regraft_into_null\<close>)
  qed (use Unmarshal_Marshal [OF 3(2,3)] in \<open>simp_all add: regraft_def\<close>)
next
  case (4 t)
  show ?case
  proof (cases "s = JNull")
    case True
    then show ?thesis using Unmarshal_Marshal [OF 4(2,3)] by (simp add: regraft_def)
  next
    case False
    have kn: "k \<noteq> JNull" "Unmarshal t s = Some k" "plain t s" using 4(5,6) False by (auto simp: plain.simps Unmarshal.simps)
    show ?thesis
    proof (cases "v = JNull")
      case True
      then show ?thesis by (simp add: Marshal.simps Unmarshal.simps regraft_into_null)
    next
      case nn: False
      then have "fits t v" "Marshal t v \<noteq> JNull" "type_ok t" using 4(2,3) by (auto simp: fits.simps)
      then show ?thesis using 4(1) [of v s k] 4(4) kn nn by (simp add: Marshal.simps Unmarshal.simps regraft_null)
    qed
  qed
next
  case (5 fs)
  show ?case
  proof (cases s)
    case (JObj es)
    show ?thesis unfolding JObj
    proof (rule regraft_reads_struct [OF _ 5(2,3)])
      fix f v s k assume "f \<in> set fs" "fits (snd (snd f)) v" "jwf s" "plain (snd (snd f)) s" "Unmarshal (snd (snd f)) s = Some k"
      then show "Unmarshal (snd (snd f)) (regraft s (Some (Marshal (snd (snd f)) k)) (Marshal (snd (snd f)) v)) = Some v"
        using 5(1,2) by (simp add: list_all_iff)
    qed (use 5(4-6) JObj in auto)
  qed (use Unmarshal_Marshal [OF 5(2,3)] in \<open>simp_all add: regraft_def\<close>)
qed

lemma Keep_fresh: "Unmarshal t stored = None \<Longrightarrow> record_Keep t (Some stored) v = Marshal t v" "record_Keep t None v = Marshal t v"
  by (simp_all add: record_Keep_def Let_def)

lemma Keep_reads:
  assumes "type_ok t" and "fits t v" and "\<And>stored. old = Some stored \<Longrightarrow> jwf stored \<and> plain t stored"
  shows "Unmarshal t (record_Keep t old v) = Some v"
proof (cases old)
  case None
  then show ?thesis using Unmarshal_Marshal [OF assms(1,2)] by (simp add: Keep_fresh)
next
  case (Some stored)
  show ?thesis
  proof (cases "Unmarshal t stored")
    case None
    then show ?thesis using Unmarshal_Marshal [OF assms(1,2)] Some by (simp add: Keep_fresh)
  next
    case k: (Some known)
    then show ?thesis using regraft_reads [OF assms(1,2) _ _ k] assms(3) [OF Some] Keep_regraft [OF k] Some by simp
  qed
qed

subsection \<open>Properties\<close>

definition older_t :: jtype where
  "older_t = TStruct [(''Name'', False, string_t), (''Inner'', False, TStruct [(''Kept'', False, bool_t)]),
     (''Entries'', False, TMap (TStruct [(''Kept'', False, bool_t)])), (''Note'', True, string_t)]"

definition newer_text :: json where
  "newer_text = JObj [(''Name'', JStr ''before''), (''Added'', JNum ''1152921504606846976''),
     (''Inner'', JObj [(''Kept'', JBool True), (''Added'', JStr ''inside'')]),
     (''Entries'', JObj [(''gone'', JObj [(''Kept'', JBool True), (''Added'', JStr ''x'')]), (''stays'', JObj [(''Kept'', JBool True), (''Added'', JStr ''y'')])])]"

definition older_value :: json where
  "older_value = JObj [(''Name'', JStr ''after''), (''Inner'', JObj [(''Kept'', JBool False)]),
     (''Entries'', JObj [(''stays'', JObj [(''Kept'', JBool False)])]), (''Note'', JStr [])]"

text \<open>
  C21: a rewrite loses nothing of a newer version. Of a stored record this version could read: a field its
  type does not know comes back as it was stored, at every depth of objects the write still has; what the write
  says is what is there; and nothing comes back that the type knew and the write left out, such as a deleted
  entry of a map, or that was never stored.
\<close>

theorem Keep_carries:
  assumes "jwf stored" and "Unmarshal t stored = Some known"
  shows "(\<forall>p k x u ws. at_path p (Marshal t known) = Some u \<and> fld u k = None \<and> at_path p (Marshal t v) = Some (JObj ws) \<and> map_of ws k = None \<and>
      at_path (p @ [k]) stored = Some x \<longrightarrow> at_path (p @ [k]) (record_Keep t (Some stored) v) = Some x) \<and>
    (\<forall>p x. at_path p (Marshal t v) = Some x \<and> \<not> is_obj x \<longrightarrow> at_path p (record_Keep t (Some stored) v) = Some x) \<and>
    (\<forall>p. at_path p (Marshal t v) = None \<and> (at_path p (Marshal t known) \<noteq> None \<or> at_path p stored = None) \<longrightarrow>
      at_path p (record_Keep t (Some stored) v) = None)"
  unfolding Keep_regraft [OF assms(2)]
  using regraft_unknown [OF assms(1), of "Some (Marshal t known)" _ _ "Marshal t v"] regraft_written [OF assms(1), of _ "Marshal t v" _ "Some (Marshal t known)"]
    regraft_dropped [OF assms(1), of _ "Marshal t v" "Some (Marshal t known)"]
  by simp

theorem Keep_carries_witness:
  "at_path [''Inner'', ''Added''] (record_Keep older_t (Some newer_text) older_value) = Some (JStr ''inside'') \<and>
   at_path [''Entries'', ''stays'', ''Added''] (record_Keep older_t (Some newer_text) older_value) = Some (JStr ''y'') \<and>
   at_path [''Name''] (record_Keep older_t (Some newer_text) older_value) = Some (JStr ''after'') \<and>
   at_path [''Entries'', ''gone''] (record_Keep older_t (Some newer_text) older_value) = None"
proof -
  have wf: "jwf newer_text" by code_simp
  have "Unmarshal older_t newer_text \<noteq> None" by code_simp
  then obtain known where k: "Unmarshal older_t newer_text = Some known" by blast
  have kn: "Marshal older_t known = Marshal older_t (the (Unmarshal older_t newer_text))" using k by simp
  note c = Keep_carries [OF wf k, of older_value]
  have u: "at_path [''Inner''] (Marshal older_t known) = Some (JObj [(''Kept'', JBool True)])"
    "at_path [''Entries'', ''stays''] (Marshal older_t known) = Some (JObj [(''Kept'', JBool True)])"
    "at_path [''Entries'', ''gone''] (Marshal older_t known) \<noteq> None" unfolding kn by code_simp+
  have w: "at_path [''Inner''] (Marshal older_t older_value) = Some (JObj [(''Kept'', JBool False)])"
    "at_path [''Entries'', ''stays''] (Marshal older_t older_value) = Some (JObj [(''Kept'', JBool False)])"
    "at_path [''Name''] (Marshal older_t older_value) = Some (JStr ''after'')"
    "at_path [''Entries'', ''gone''] (Marshal older_t older_value) = None" by code_simp+
  have s: "at_path ([''Inner''] @ [''Added'']) newer_text = Some (JStr ''inside'')"
    "at_path ([''Entries'', ''stays''] @ [''Added'']) newer_text = Some (JStr ''y'')" by code_simp+
  have "at_path ([''Inner''] @ [''Added'']) (record_Keep older_t (Some newer_text) older_value) = Some (JStr ''inside'')"
    using c u(1) w(1) s(1) by (elim conjE allE [of _ "[''Inner'']"] allE [of _ "''Added''"]) simp
  moreover have "at_path ([''Entries'', ''stays''] @ [''Added'']) (record_Keep older_t (Some newer_text) older_value) = Some (JStr ''y'')"
    using c u(2) w(2) s(2) by (elim conjE allE [of _ "[''Entries'', ''stays'']"] allE [of _ "''Added''"]) simp
  moreover have "at_path [''Name''] (record_Keep older_t (Some newer_text) older_value) = Some (JStr ''after'')"
    using c w(3) by (simp add: is_obj_def del: at_path.simps)
  moreover have "at_path [''Entries'', ''gone''] (record_Keep older_t (Some newer_text) older_value) = None" using c u(3) w(4) by blast
  ultimately show ?thesis by (simp only: append_Cons append_Nil simp_thms)
qed



end
