(* ===== verification/Records.thy ===== *)
theory Records
  imports Record_Keep Keyring
begin

text \<open>
  The typed records of the data file (\<^verbatim>\<open>records.go\<close>, and the local settings of \<^verbatim>\<open>store.go\<close>): sessions kept across a
  restart, and the settings of accounts whose mail server keeps none, sealed under the key the ring gives the
  account.

  A sealed text is a JSON tree or bytes that are none (\<open>Garbled\<close>). A Go value of a type is the tree of
  \<open>Record_Keep\<close>. The settings live in a state of the data file and the ring, which its own cache changes. The WebAuthn
  credential of a passkey is a type of a library, the argument \<open>cred\<close>; what instant an RFC 3339 text names is the
  argument \<open>instant\<close>.
\<close>

datatype raw = Text json | Garbled string

type_synonym recordsDB = "(raw sealed, err) tx"

subsection \<open>The types kept\<close>

definition SwipeActions_t :: jtype where
  "SwipeActions_t = TStruct [(''left'', False, string_t), (''right'', False, string_t)]"

definition Gestures_t :: jtype where
  "Gestures_t = TStruct [(''mail'', False, SwipeActions_t), (''tasks'', False, SwipeActions_t), (''contacts'', False, SwipeActions_t),
     (''journal'', False, SwipeActions_t), (''events'', False, SwipeActions_t)]"

definition Place_t :: jtype where
  "Place_t = TStruct [(''Name'', False, string_t), (''Lat'', False, number_t), (''Lon'', False, number_t)]"

definition Reading_t :: jtype where
  "Reading_t = TStruct [(''StartPage'', False, string_t), (''MessagesPerPage'', False, number_t), (''Timezone'', False, string_t),
     (''FirstDayOfWeek'', False, number_t), (''PreferHTML'', False, bool_t), (''Primary'', False, string_t), (''Secondary'', False, string_t)]"

definition Writing_t :: jtype where
  "Writing_t = TStruct [(''PoolSignatures'', False, bool_t), (''NoAttribution'', False, bool_t), (''ReplyBelowQuote'', False, bool_t),
     (''NoDirectionPart'', False, bool_t)]"

definition Display_t :: jtype where
  "Display_t = TStruct [(''Theme'', False, string_t), (''TextSize'', False, string_t), (''AlignByScript'', False, bool_t),
     (''HideAccountNames'', False, bool_t), (''Language'', False, string_t), (''Status'', False, TList string_t), (''Addons'', False, TList string_t),
     (''PhoneBar'', False, bool_t)]"

definition Profile_t :: jtype where
  "Profile_t = TStruct [(''Reading'', False, Reading_t), (''Writing'', False, Writing_t), (''Display'', False, Display_t),
     (''Gestures'', False, Gestures_t), (''Toured'', False, bool_t), (''Place'', False, Place_t)]"

definition Passkey_t :: "jtype \<Rightarrow> jtype" where
  "Passkey_t cred = TStruct [(''Name'', False, string_t), (''Added'', False, time_t), (''LastUsed'', False, time_t), (''Credential'', False, cred)]"

definition Lock_t :: "jtype \<Rightarrow> jtype" where
  "Lock_t cred = TStruct [(''Passkeys'', False, TList (Passkey_t cred)), (''After'', False, number_t)]"

definition RememberedAccount_t :: jtype where
  "RememberedAccount_t = TStruct [(''Address'', False, string_t), (''Sealed'', False, bytes_t)]"

definition SessionRecord_t :: "jtype \<Rightarrow> jtype" where
  "SessionRecord_t cred = TStruct [(''ID'', False, string_t), (''Created'', False, time_t), (''Seen'', False, time_t), (''Expires'', False, time_t),
     (''Proof'', False, bytes_t), (''Accounts'', False, TList RememberedAccount_t), (''Profile'', False, TPtr Profile_t), (''Lock'', False, Lock_t cred),
     (''Device'', True, string_t), (''Address'', True, string_t)]"

subsection \<open>A vault\<close>

definition sessionsOwner :: string where
  "sessionsOwner = ''alborz.sessions''"

definition settingsOwner :: string where
  "settingsOwner = ''alborz.settings''"

definition sessionRecordKey :: "string \<Rightarrow> string" where
  "sessionRecordKey i = sessionsOwner @ ''/'' @ i"

definition vault_open :: "Key \<Rightarrow> raw sealed option \<Rightarrow> raw option" where
  "vault_open key v = Option.bind v (\<lambda>s. case Open key s of Inl _ \<Rightarrow> None | Inr raw \<Rightarrow> Some raw)"

definition text_of :: "raw \<Rightarrow> json option" where
  "text_of raw = (case raw of Text j \<Rightarrow> Some j | Garbled _ \<Rightarrow> None)"

definition vault_put :: "Key \<Rightarrow> string \<Rightarrow> raw \<Rightarrow> recordsDB \<Rightarrow> err + recordsDB" where
  "vault_put key k raw tx = kv_put k (Seal key raw) tx"

definition vault_read :: "Key \<Rightarrow> jtype \<Rightarrow> raw sealed option \<Rightarrow> json option" where
  "vault_read key t v = Option.bind (Option.bind (vault_open key v) text_of) (Unmarshal t)"

definition vault_load :: "Key \<Rightarrow> jtype \<Rightarrow> string \<Rightarrow> recordsDB \<Rightarrow> json option" where
  "vault_load key t k db = vault_read key t (kv_get k db)"

definition vault_save :: "Key \<Rightarrow> jtype \<Rightarrow> string \<Rightarrow> json \<Rightarrow> recordsDB \<Rightarrow> (err + unit) \<times> recordsDB" where
  "vault_save key t k rec1 db = Update (\<lambda>tx.
     bindE (vault_put key k (Text (record_Keep t (Option.bind (vault_open key (kv_get k tx)) text_of) rec1)) tx) (\<lambda>tx'. Inr ((), tx'))) db"

definition vault_remove :: "string \<Rightarrow> recordsDB \<Rightarrow> (err + unit) \<times> recordsDB" where
  "vault_remove k db = Update (\<lambda>tx. bindE (kv_delete k tx) (\<lambda>tx'. Inr ((), tx'))) db"

subsection \<open>The key of the file\<close>

definition keyCheckKey :: string where
  "keyCheckKey = ''alborz.keycheck''"

definition refused_file :: "string \<Rightarrow> err \<Rightarrow> err" where
  "refused_file path e = (if e = ErrFormat then ErrOther (path @ '' was written by an earlier alborz, in a format this one does not read: move the file aside'')
     else ErrOther (''the login key does not open '' @ path @ '': start alborz with the key that sealed it, or move the file aside''))"

definition opens_with :: "Key \<Rightarrow> (string \<times> raw sealed) list \<Rightarrow> err + unit" where
  "opens_with k es = foldE (\<lambda>e _. if Format (snd e) = ByAccount then Inr () else bindE (Open k (snd e)) (\<lambda>_. Inr ())) es ()"

definition CheckKey :: "crypto \<Rightarrow> string \<Rightarrow> Root \<Rightarrow> (string \<times> Key) list \<Rightarrow> recordsDB \<Rightarrow> (err + unit) \<times> recordsDB" where
  "CheckKey C path root sealed1 db = (let key = Root_Key C root keyCheckKey in Update (\<lambda>tx. case kv_get keyCheckKey tx of
       Some check \<Rightarrow> (case Open key check of Inl e \<Rightarrow> Inl (refused_file path e) | Inr _ \<Rightarrow> Inr ((), tx))
     | None \<Rightarrow> (case foldE (\<lambda>p _. opens_with (snd p) (kv_scan (fst p) tx)) sealed1 () of
           Inl e \<Rightarrow> Inl (refused_file path e)
         | Inr _ \<Rightarrow> bindE (kv_put keyCheckKey (Seal key (Garbled keyCheckKey)) tx) (\<lambda>tx'. Inr ((), tx')))) db)"

subsection \<open>Sessions\<close>

definition Load_session :: "jtype \<Rightarrow> Key \<Rightarrow> string \<Rightarrow> recordsDB \<Rightarrow> json option" where
  "Load_session cred key i db = vault_load key (SessionRecord_t cred) (sessionRecordKey i) db"

definition session_ID :: "json \<Rightarrow> string" where
  "session_ID rec1 = (case fld rec1 ''ID'' of Some (JStr i) \<Rightarrow> i | _ \<Rightarrow> [])"

definition Save_session :: "jtype \<Rightarrow> Key \<Rightarrow> json \<Rightarrow> recordsDB \<Rightarrow> (err + unit) \<times> recordsDB" where
  "Save_session cred key rec1 db = vault_save key (SessionRecord_t cred) (sessionRecordKey (session_ID rec1)) rec1 db"

definition Delete_session :: "string \<Rightarrow> recordsDB \<Rightarrow> (err + unit) \<times> recordsDB" where
  "Delete_session i db = vault_remove (sessionRecordKey i) db"

definition Each_session :: "jtype \<Rightarrow> Key \<Rightarrow> recordsDB \<Rightarrow> json list" where
  "Each_session cred key db = List.map_filter (\<lambda>e. vault_read key (SessionRecord_t cred) (Some (snd e))) (kv_scan (sessionsOwner @ ''/'') db)"

definition session_over :: "jtype \<Rightarrow> (string \<Rightarrow> time) \<Rightarrow> Key \<Rightarrow> time \<Rightarrow> raw sealed \<Rightarrow> bool" where
  "session_over cred instant key now v = (case vault_read key (SessionRecord_t cred) (Some v) of None \<Rightarrow> False
     | Some rec1 \<Rightarrow> (case fld rec1 ''Expires'' of Some (JStr x) \<Rightarrow> \<not> now < instant x | _ \<Rightarrow> False))"

definition Sweep_sessions :: "jtype \<Rightarrow> (string \<Rightarrow> time) \<Rightarrow> Key \<Rightarrow> time \<Rightarrow> recordsDB \<Rightarrow> (err + unit) \<times> recordsDB" where
  "Sweep_sessions cred instant key now db = Update (\<lambda>tx.
     bindE (DeleteUnder kv_scan kv_delete tx (sessionsOwner @ ''/'') (Some (\<lambda>_ v. session_over cred instant key now v))) (\<lambda>tx'. Inr ((), tx'))) db"

subsection \<open>Settings\<close>

text \<open>The file and the ring. A transaction that fails leaves the file as it was; what the ring has derived stays.\<close>

type_synonym settingsDB = "recordsDB \<times> ring"

definition ErrNoStoreEntry :: err where
  "ErrNoStoreEntry = ErrOther ''alborz: no such entry in store''"

definition settings_key :: "crypto \<Rightarrow> string \<Rightarrow> string \<Rightarrow> string" where
  "settings_key C names account = settingsOwner @ ''/'' @ Names_Of C names account"

definition keyEntryKey :: "crypto \<Rightarrow> string \<Rightarrow> string \<Rightarrow> string" where
  "keyEntryKey C names account = settingsOwner @ ''/key/'' @ Names_Of C names account"

text \<open>\<open>None\<close> is the nil map a text of \<^verbatim>\<open>null\<close> leaves.\<close>

definition read_entries :: "raw \<Rightarrow> err + (string \<times> json) list option" where
  "read_entries raw = (case Option.bind (text_of raw) (Unmarshal (TMap message_t)) of
       None \<Rightarrow> Inl ErrJSON
     | Some j \<Rightarrow> Inr (case j of JObj es \<Rightarrow> Some es | _ \<Rightarrow> None))"

definition settings_entries :: "crypto \<Rightarrow> string \<Rightarrow> time \<Rightarrow> string \<Rightarrow> (err, settingsDB, (string \<times> json) list option) prog" where
  "settings_entries C names now account = (\<lambda>(tx, r). case kv_get (settings_key C names account) tx of
       None \<Rightarrow> (Inr (Some []), tx, r)
     | Some sealed1 \<Rightarrow> (case Ring_Open C (Ring_Name C r account) settingsOwner sealed1 now r of
           (res, r1) \<Rightarrow> (bindE res read_entries, tx, r1)))"

definition settings_Get :: "crypto \<Rightarrow> string \<Rightarrow> time \<Rightarrow> string \<Rightarrow> string \<Rightarrow> jtype \<Rightarrow> (err, settingsDB, json) prog" where
  "settings_Get C names now account key t = (\<lambda>s. case settings_entries C names now account s of
       (Inl _, s1) \<Rightarrow> (Inl ErrNoStoreEntry, s1)
     | (Inr es, s1) \<Rightarrow> (case Option.bind es (\<lambda>es. map_of es key) of
           None \<Rightarrow> (Inl ErrNoStoreEntry, s1)
         | Some raw \<Rightarrow> (case Unmarshal t raw of None \<Rightarrow> (Inl ErrJSON, s1) | Some v \<Rightarrow> (Inr v, s1))))"

definition put_text :: "string \<Rightarrow> json \<Rightarrow> (string \<times> json) list \<Rightarrow> (string \<times> json) list" where
  "put_text key j es = (key, j) # filter (\<lambda>e. fst e \<noteq> key) es"

definition ring_For :: "crypto \<Rightarrow> time \<Rightarrow> string \<Rightarrow> (err, settingsDB, Key) prog" where
  "ring_For C now account = (\<lambda>(tx, r). case For C (Ring_Name C r account) settingsOwner now r of (res, r1) \<Rightarrow> (res, tx, r1))"

definition file_put :: "string \<Rightarrow> raw sealed \<Rightarrow> (err, settingsDB, unit) prog" where
  "file_put k v = (\<lambda>(tx, r). case kv_put k v tx of Inl e \<Rightarrow> (Inl e, tx, r) | Inr tx' \<Rightarrow> (Inr (), tx', r))"

definition file_delete :: "string \<Rightarrow> (err, settingsDB, unit) prog" where
  "file_delete k = (\<lambda>(tx, r). case kv_delete k tx of Inl e \<Rightarrow> (Inl e, tx, r) | Inr tx' \<Rightarrow> (Inr (), tx', r))"

definition settings_Update :: "(err, settingsDB, 'a) prog \<Rightarrow> (err, settingsDB, 'a) prog" where
  "settings_Update fn = (\<lambda>s. case fn s of (Inl e, s1) \<Rightarrow> (Inl e, fst s, snd s1) | (Inr a, s1) \<Rightarrow> (Inr a, s1))"

definition settings_Put :: "crypto \<Rightarrow> string \<Rightarrow> time \<Rightarrow> string \<Rightarrow> string \<Rightarrow> jtype \<Rightarrow> json \<Rightarrow> (err, settingsDB, unit) prog" where
  "settings_Put C names now account key t v = settings_Update (bindT (settings_entries C names now account) (\<lambda>x. case x of
       None \<Rightarrow> failT ErrPanic
     | Some es \<Rightarrow> (let merged = record_Keep t (map_of es key) v in
         bindT (ring_For C now account) (\<lambda>k.
           file_put (settings_key C names account) (Seal k (Text (JObj (put_text key merged es))))))))"

definition settings_Entries :: "crypto \<Rightarrow> string \<Rightarrow> time \<Rightarrow> string \<Rightarrow> (err, settingsDB, string list) prog" where
  "settings_Entries C names now account = bindT (settings_entries C names now account) (\<lambda>x.
     returnT (case x of None \<Rightarrow> [] | Some es \<Rightarrow> sort (map fst es)))"

definition settings_Forget :: "crypto \<Rightarrow> string \<Rightarrow> string \<Rightarrow> (err, settingsDB, unit) prog" where
  "settings_Forget C names account = settings_Update (file_delete (settings_key C names account))"

definition file_get :: "string \<Rightarrow> (err, settingsDB, raw sealed option) prog" where
  "file_get k = (\<lambda>(tx, r). (Inr (kv_get k tx), tx, r))"

definition ring_Open :: "crypto \<Rightarrow> time \<Rightarrow> string \<Rightarrow> raw sealed \<Rightarrow> settingsDB \<Rightarrow> (err + raw) \<times> settingsDB" where
  "ring_Open C now account v = (\<lambda>(tx, r). case Ring_Open C (Ring_Name C r account) settingsOwner v now r of (res, r1) \<Rightarrow> (res, tx, r1))"

definition ring_Stale :: "crypto \<Rightarrow> time \<Rightarrow> string \<Rightarrow> raw sealed \<Rightarrow> (err, settingsDB, bool) prog" where
  "ring_Stale C now account v = (\<lambda>(tx, r). case Stale C (Ring_Name C r account) settingsOwner v now r of (b, r1) \<Rightarrow> (Inr b, tx, r1))"

text \<open>The key is asked for before the record is looked at, and its error returned also where there is no record.\<close>

definition settings_reseal :: "crypto \<Rightarrow> string \<Rightarrow> time \<Rightarrow> string \<Rightarrow> (err, settingsDB, unit) prog" where
  "settings_reseal C names now account = settings_Update (bindT (file_get (settings_key C names account)) (\<lambda>x.
     bindT (ring_For C now account) (\<lambda>k. case x of None \<Rightarrow> returnT ()
       | Some sealed1 \<Rightarrow> bindT (ring_Stale C now account sealed1) (\<lambda>stale. if \<not> stale then returnT ()
           else bindT (ring_Open C now account sealed1) (\<lambda>raw. file_put (settings_key C names account) (Seal k raw))))))"

definition settings_drop :: "crypto \<Rightarrow> string \<Rightarrow> time \<Rightarrow> string \<Rightarrow> (err, settingsDB, unit) prog" where
  "settings_drop C names now account = settings_Update (bindT (file_get (settings_key C names account)) (\<lambda>x. case x of
       None \<Rightarrow> returnT ()
     | Some sealed1 \<Rightarrow> (\<lambda>s. case ring_Open C now account sealed1 s of
           (res, s1) \<Rightarrow> if res \<noteq> Inl ErrLocked then (Inr (), s1) else file_delete (settings_key C names account) s1)))"

subsection \<open>The store of an account\<close>

definition keyEntry :: string where
  "keyEntry = ''key''"

text \<open>\<open>None\<close> is an entry that is there and could not be read: it is noted, and the value asked for stays as it was.\<close>

definition local_Get :: "crypto \<Rightarrow> string \<Rightarrow> Key \<Rightarrow> time \<Rightarrow> string \<Rightarrow> string \<Rightarrow> jtype \<Rightarrow> (err, settingsDB, json option) prog" where
  "local_Get C names apart now account key t = (\<lambda>s.
     if key = keyEntry then (case vault_load apart t (keyEntryKey C names account) (fst s) of
         None \<Rightarrow> (Inl ErrNoStoreEntry, s) | Some v \<Rightarrow> (Inr (Some v), s))
     else (case settings_Get C names now account key t s of
         (Inr v, s1) \<Rightarrow> (Inr (Some v), s1)
       | (Inl e, s1) \<Rightarrow> (if e \<noteq> ErrNoStoreEntry then Inr None else Inl e, s1)))"

definition local_Put :: "crypto \<Rightarrow> string \<Rightarrow> Key \<Rightarrow> time \<Rightarrow> string \<Rightarrow> string \<Rightarrow> jtype \<Rightarrow> json \<Rightarrow> (err, settingsDB, unit) prog" where
  "local_Put C names apart now account key t v = (\<lambda>s.
     if key = keyEntry then (case vault_save apart t (keyEntryKey C names account) v (fst s) of (res, tx') \<Rightarrow> (res, tx', snd s))
     else settings_Put C names now account key t v s)"

subsection \<open>The ring keeps what it opens\<close>

lemma acc_locked_alike:
  assumes "coherent C a" and "acc_locked C root a = (l, a')"
  shows "acc_alike C root a a'"
proof (cases "on a \<and> own a \<noteq> None \<and> pub a \<noteq> None")
  case False
  then show ?thesis using assms acc_alike_refl by (auto simp: acc_locked_def split: if_splits)
next
  case True
  obtain p a1 where p: "privateKey C root a = (p, a1)" by force
  from privateKey_spec [OF assms(1) p] obtain a2 where "p = private_spec C root a" "cached C a a2" "a1 = a2\<lparr>opened := p\<rparr>" by blast
  then have "acc_alike C root a a1" using acc_alike_opened [of C a a2 p root] by simp
  then show ?thesis using True assms(2) p by (auto simp: acc_locked_def)
qed

lemma For_alike:
  assumes "ring_ok C r" and "For C n pu now r = (res, r')"
  shows "alike C now r r'"
proof -
  let ?a = "held_account n now r"
  have c: "coherent C ?a" by (rule coherent_held [OF assms(1)])
  have put: "acc_alike C (rroot r) ?a a \<Longrightarrow> alike C now r (put_account n a r)" for a by (rule alike_put [OF assms(1)])
  obtain l a1 where l: "acc_locked C (rroot r) ?a = (l, a1)" by force
  note al = acc_locked_alike [OF c l]
  have c1: "coherent C a1" using al by (simp add: acc_alike_def)
  show ?thesis
  proof (cases "on ?a")
    case False
    then have "r' = put_account n ?a r" using assms(2) by (simp add: For_def ring_get_eq)
    then show ?thesis using put [OF acc_alike_refl [OF c]] by simp
  next
    case on: True
    show ?thesis
    proof (cases "l \<or> own a1 = None")
      case True
      then have "r' = put_account n a1 r" using assms(2) on l by (cases l) (auto simp: For_def ring_get_eq split: option.splits)
      then show ?thesis using put [OF al] by simp
    next
      case False
      then obtain o1 where o1: "own a1 = Some o1" by auto
      obtain k a2 where k: "acc_key C o1 pu a1 = (k, a2)" by force
      have "cached C a1 a2" using acc_key_spec [OF c1 _ k] o1 by simp
      then have "acc_alike C (rroot r) ?a a2" by (rule acc_alike_trans [OF al acc_alike_cached])
      moreover have "r' = put_account n a2 r" using assms(2) on l False o1 k by (auto simp: For_def ring_get_eq)
      ultimately show ?thesis using put by simp
    qed
  qed
qed

lemma Ring_Open_alike:
  assumes "ring_ok C r" and "Ring_Open C n pu v now r = (res, r')"
  shows "alike C now r r'" and "res = open_spec C (rroot r) (at_hand (held_account n now r)) pu v"
proof -
  let ?a = "held_account n now r"
  obtain res1 a1 where o1: "acc_open C (rroot r) ?a pu v = (res1, a1)" by force
  note sp = acc_open_spec [OF coherent_held [OF assms(1)] o1]
  have r': "r' = put_account n a1 r" "res = res1" using assms(2) o1 by (auto simp: Ring_Open_def ring_get_eq)
  then show "alike C now r r'" using alike_put [OF assms(1) acc_alike_cached] sp by blast
  show "res = open_spec C (rroot r) (at_hand (held_account n now r)) pu v" using sp r' by simp
qed

lemma alike_view: "alike C now r r' \<Longrightarrow> rroot r' = rroot r \<and> at_hand (held_account n now r') = at_hand (held_account n now r)"
  unfolding alike_def acc_alike_def using at_hand_cong by metis

lemma For_opens:
  assumes "ring_ok C r" and "root_format (rroot r) = ByInstance" and "For C n pu now r = (Inr k, r')"
  shows "open_spec C (rroot r) (at_hand (held_account n now r)) pu (Seal k p) = Inr p"
proof -
  let ?a = "held_account n now r"
  have "Inr k = (if \<not> on ?a then Inr (Root_Key C (rroot r) pu)
       else if own ?a = None \<or> pub ?a \<noteq> None \<and> private_spec C (rroot r) ?a = None then Inl ErrLocked
       else Inr (Root_Key C (AccountRoot (the (own ?a))) pu))" using For_spec [OF assms(1,3)] unfolding Let_def by blast
  then show ?thesis using assms(2) by (cases "own ?a") (auto simp: open_spec_def at_hand_def Open_Seal split: if_splits)
qed

lemma For_again:
  assumes "ring_ok C r" and "For C n pu now r = (res, r1)" and "alike C now r r2"
  shows "fst (For C n pu now r2) = res"
proof -
  obtain res2 r3 where f: "For C n pu now r2 = (res2, r3)" by force
  let ?a = "held_account n now r" and ?b = "held_account n now r2"
  have "acc_alike C (rroot r) ?a ?b" "rroot r2 = rroot r" "ring_ok C r2" using assms(3) by (auto simp: alike_def)
  then have "on ?b = on ?a" "own ?b = own ?a" "pub ?b = pub ?a" "private_spec C (rroot r2) ?b = private_spec C (rroot r) ?a" "rroot r2 = rroot r"
    by (auto simp: acc_alike_def)
  moreover have "res = (if \<not> on ?a then Inr (Root_Key C (rroot r) pu)
       else if own ?a = None \<or> pub ?a \<noteq> None \<and> private_spec C (rroot r) ?a = None then Inl ErrLocked
       else Inr (Root_Key C (AccountRoot (the (own ?a))) pu))" using For_spec [OF assms(1,2)] unfolding Let_def by blast
  moreover have "res2 = (if \<not> on ?b then Inr (Root_Key C (rroot r2) pu)
       else if own ?b = None \<or> pub ?b \<noteq> None \<and> private_spec C (rroot r2) ?b = None then Inl ErrLocked
       else Inr (Root_Key C (AccountRoot (the (own ?b))) pu))" using For_spec [OF \<open>ring_ok C r2\<close> f] unfolding Let_def by blast
  ultimately have "res2 = res" by (simp only:)
  then show ?thesis using f by simp
qed

lemma key_format_For:
  assumes "ring_ok C r" and "root_format (rroot r) = ByInstance" and "For C n pu now r = (Inr k, r')"
  shows "key_format k = ByInstance \<or> key_format k = ByAccount"
  using For_spec [OF assms(1,3)] assms(2) by (auto simp: Let_def Root_Key_def AccountRoot_def split: if_splits)

subsection \<open>What the settings say\<close>

definition settings_view :: "crypto \<Rightarrow> string \<Rightarrow> time \<Rightarrow> string \<Rightarrow> settingsDB \<Rightarrow> err + (string \<times> json) list option" where
  "settings_view C names now account s = (case kv_get (settings_key C names account) (fst s) of None \<Rightarrow> Inr (Some [])
     | Some v \<Rightarrow> bindE (open_spec C (rroot (snd s)) (at_hand (held_account (Ring_Name C (snd s) account) now (snd s))) settingsOwner v) read_entries)"

lemma Ring_Name_alike: "alike C now r r' \<Longrightarrow> Ring_Name C r' account = Ring_Name C r account"
  by (simp add: Ring_Name_def alike_def)

lemma settings_view_alike: "alike C now r r' \<Longrightarrow> settings_view C names now account (tx, r') = settings_view C names now account (tx, r)"
  using alike_view [of C now r r' "Ring_Name C r account"] Ring_Name_alike [of C now r r' account]
  by (cases "kv_get (settings_key C names account) tx") (simp_all add: settings_view_def)

lemma entries_runs:
  assumes "ring_ok C r" and "settings_entries C names now account (tx, r) = (res, s')"
  shows "res = settings_view C names now account (tx, r) \<and> fst s' = tx \<and> alike C now r (snd s')"
proof (cases "kv_get (settings_key C names account) tx")
  case None
  then show ?thesis using assms alike_refl by (auto simp: settings_entries_def settings_view_def)
next
  case (Some v)
  obtain res1 r1 where o1: "Ring_Open C (Ring_Name C r account) settingsOwner v now r = (res1, r1)" by force
  then show ?thesis using Some assms(2) Ring_Open_alike [OF assms(1) o1] by (auto simp: settings_entries_def settings_view_def)
qed

lemma Get_view:
  assumes "ring_ok C (snd s)"
  shows "fst (settings_Get C names now account key t s) = (case settings_view C names now account s of
       Inl _ \<Rightarrow> Inl ErrNoStoreEntry
     | Inr es \<Rightarrow> (case Option.bind es (\<lambda>es. map_of es key) of None \<Rightarrow> Inl ErrNoStoreEntry
         | Some raw \<Rightarrow> (case Unmarshal t raw of None \<Rightarrow> Inl ErrJSON | Some v \<Rightarrow> Inr v)))"
proof -
  obtain tx r where s: "s = (tx, r)" by force
  obtain res s1 where e: "settings_entries C names now account s = (res, s1)" by (rule prod.exhaust)
  have v: "settings_view C names now account s = res" using entries_runs [of C r names now account tx res s1] e assms s by simp
  show ?thesis unfolding settings_Get_def e v by (auto split: sum.split option.split)
qed

lemma read_entries_JObj: "read_entries (Text (JObj es)) = Inr (Some es)"
proof -
  have "read_each (\<lambda>e. map_option (Pair (fst e)) (Unmarshal message_t (snd e))) es = Some es"
    by (simp add: message_t_def Unmarshal.simps read_each_Some)
  then show ?thesis by (simp add: read_entries_def text_of_def Unmarshal.simps)
qed

lemma settings_Update_returns: "settings_Update fn s = (Inr a, s') \<longleftrightarrow> fn s = (Inr a, s')"
  by (auto simp: settings_Update_def split: prod.splits sum.splits)

lemma ring_For_returns: "ring_For C now account (tx, r) = (Inr k, s') \<longleftrightarrow>
    (\<exists>r'. For C (Ring_Name C r account) settingsOwner now r = (Inr k, r') \<and> s' = (tx, r'))"
  by (auto simp: ring_For_def split: prod.splits)

lemma file_put_returns: "file_put k v (tx, r) = (Inr u, s') \<longleftrightarrow> (\<exists>tx'. kv_put k v tx = Inr tx' \<and> s' = (tx', r))"
  by (auto simp: file_put_def split: sum.splits)

lemma sealed_view:
  assumes "ring_ok C r" and "root_format (rroot r) = ByInstance" and "For C (Ring_Name C r account) settingsOwner now r = (Inr k, r')"
    and "alike C now r r2" and "ordered_tx tx" and "kv_put (settings_key C names account) (Seal k raw) tx = Inr tx'"
  shows "settings_view C names now account (tx', r2) = read_entries raw"
    and "\<And>k'. k' \<noteq> settings_key C names account \<Longrightarrow> kv_get k' tx' = kv_get k' tx"
proof -
  have "kv_get (settings_key C names account) tx' = Some (Seal k raw)" using bolt.put_get [OF assms(5,6)] by simp
  then have "settings_view C names now account (tx', r) = read_entries raw"
    using For_opens [OF assms(1,2,3), of raw] by (simp add: settings_view_def)
  then show "settings_view C names now account (tx', r2) = read_entries raw" using settings_view_alike [OF assms(4)] by simp
  show "\<And>k'. k' \<noteq> settings_key C names account \<Longrightarrow> kv_get k' tx' = kv_get k' tx" using bolt.put_get [OF assms(5,6)] by simp
qed

lemma settings_Put_runs:
  assumes "ring_ok C r" and "root_format (rroot r) = ByInstance" and "ordered_tx tx" and "settings_Put C names now account key t v (tx, r) = (Inr (), s')"
  obtains es where "settings_view C names now account (tx, r) = Inr (Some es)"
    "settings_view C names now account s' = Inr (Some (put_text key (record_Keep t (map_of es key) v) es))"
    "\<forall>k'. k' \<noteq> settings_key C names account \<longrightarrow> kv_get k' (fst s') = kv_get k' tx" "ring_ok C (snd s')"
proof -
  obtain x s1 where e: "settings_entries C names now account (tx, r) = (Inr x, s1)"
    and rest: "(case x of None \<Rightarrow> failT ErrPanic | Some es \<Rightarrow> (let merged = record_Keep t (map_of es key) v in
         bindT (ring_For C now account) (\<lambda>k. file_put (settings_key C names account) (Seal k (Text (JObj (put_text key merged es))))))) s1 = (Inr (), s')"
    using assms(4) unfolding settings_Put_def settings_Update_returns bindT_returns by blast
  obtain r1 where s1: "s1 = (tx, r1)" and al: "alike C now r r1" and x: "settings_view C names now account (tx, r) = Inr x"
    using entries_runs [OF assms(1) e] by (cases s1) auto
  obtain es where es: "x = Some es" using rest by (cases x) auto
  let ?j = "put_text key (record_Keep t (map_of es key) v) es"
  obtain k r2 tx' where f: "For C (Ring_Name C r1 account) settingsOwner now r1 = (Inr k, r2)" and s': "s' = (tx', r2)"
    and p: "kv_put (settings_key C names account) (Seal k (Text (JObj ?j))) tx = Inr tx'"
    using rest unfolding es s1 by (auto simp: Let_def bindT_returns ring_For_returns file_put_returns)
  have ok: "ring_ok C r1" and fm: "root_format (rroot r1) = ByInstance" using al assms(2) by (auto simp: alike_def)
  note sv = sealed_view [OF ok fm f For_alike [OF ok f] assms(3) p]
  show thesis
  proof (rule that)
    show "settings_view C names now account (tx, r) = Inr (Some es)" using x es by simp
    show "settings_view C names now account s' = Inr (Some ?j)" using sv(1) s' by (simp add: read_entries_JObj)
    show "\<forall>k'. k' \<noteq> settings_key C names account \<longrightarrow> kv_get k' (fst s') = kv_get k' tx" using sv(2) s' by simp
    show "ring_ok C (snd s')" using For_alike [OF ok f] s' alike_ring_ok by auto
  qed
qed

lemma settings_reseal_runs:
  assumes "ring_ok C r" and "root_format (rroot r) = ByInstance" and "ordered_tx tx" and "settings_reseal C names now account (tx, r) = (Inr (), s')"
  obtains k where "fst (For C (Ring_Name C r account) settingsOwner now r) = Inr k" "settings_view C names now account s' = settings_view C names now account (tx, r)"
    "\<forall>v. kv_get (settings_key C names account) (fst s') = Some v \<longrightarrow> Format v = key_format k \<and> \<not> isl (Open k v)"
    "\<forall>k'. k' \<noteq> settings_key C names account \<longrightarrow> kv_get k' (fst s') = kv_get k' tx" "ring_ok C (snd s')"
proof -
  obtain k r1 where f: "For C (Ring_Name C r account) settingsOwner now r = (Inr k, r1)" and rest: "(case kv_get (settings_key C names account) tx of None \<Rightarrow> returnT ()
       | Some sealed1 \<Rightarrow> bindT (ring_Stale C now account sealed1) (\<lambda>stale. if \<not> stale then returnT ()
           else bindT (ring_Open C now account sealed1) (\<lambda>raw. file_put (settings_key C names account) (Seal k raw)))) (tx, r1) = (Inr (), s')"
    using assms(4) unfolding settings_reseal_def settings_Update_returns bindT_returns by (auto simp: file_get_def ring_For_returns)
  have al: "alike C now r r1" by (rule For_alike [OF assms(1) f])
  have ok1: "ring_ok C r1" and fm1: "root_format (rroot r1) = ByInstance" using al assms(2) by (auto simp: alike_def)
  have nm: "Ring_Name C r1 account = Ring_Name C r account" by (rule Ring_Name_alike [OF al])
  show thesis
  proof (cases "kv_get (settings_key C names account) tx")
    case None
    then have "s' = (tx, r1)" using rest by simp
    then show thesis using that [of k] f settings_view_alike [OF al] None ok1 by simp
  next
    case (Some v)
    obtain st r2 where st: "Stale C (Ring_Name C r account) settingsOwner v now r1 = (st, r2)" by force
    obtain k2 r3 where f2: "For C (Ring_Name C r account) settingsOwner now r1 = (k2, r3)" by force
    have k2: "k2 = Inr k" using For_again [OF assms(1) f al] f2 by simp
    have st2: "st = (Format v \<noteq> key_format k \<or> isl (Open k v))" and r2: "r2 = r3" using st f2 k2 by (auto simp: Stale_def)
    have al2: "alike C now r r2" using alike_trans [OF al For_alike [OF ok1 f2]] r2 by simp
    have ok2: "ring_ok C r2" and fm2: "root_format (rroot r2) = ByInstance" using al2 assms(2) by (auto simp: alike_def)
    have rest2: "(if \<not> st then returnT () else bindT (ring_Open C now account v) (\<lambda>raw. file_put (settings_key C names account) (Seal k raw))) (tx, r2) = (Inr (), s')"
      using rest Some st by (auto simp: bindT_returns ring_Stale_def nm)
    show thesis
    proof (cases st)
      case False
      then have "s' = (tx, r2)" using rest2 by simp
      then show thesis using that [of k] f settings_view_alike [OF al2] Some st2 False ok2 by simp
    next
      case True
      obtain raw r4 tx' where op: "Ring_Open C (Ring_Name C r2 account) settingsOwner v now r2 = (Inr raw, r4)"
        and p: "kv_put (settings_key C names account) (Seal k raw) tx = Inr tx'" and s': "s' = (tx', r4)"
        using rest2 True by (auto simp: bindT_returns ring_Open_def file_put_returns split: prod.splits)
      note oa = Ring_Open_alike [OF ok2 op]
      have "settings_view C names now account (tx, r2) = read_entries raw" using oa(2) [symmetric] Some by (simp add: settings_view_def)
      moreover have sv: "settings_view C names now account (tx', r4) = read_entries raw" "\<And>k'. k' \<noteq> settings_key C names account \<Longrightarrow> kv_get k' tx' = kv_get k' tx"
        using sealed_view [OF assms(1,2) f alike_trans [OF al2 oa(1)] assms(3) p] by blast+
      ultimately have same: "settings_view C names now account s' = settings_view C names now account (tx, r)" using settings_view_alike [OF al2] s' by simp
      have "kv_get (settings_key C names account) tx' = Some (Seal k raw)" using bolt.put_get [OF assms(3) p] by simp
      moreover have "key_format k = ByInstance \<or> key_format k = ByAccount" using key_format_For [OF assms(1,2) f] .
      ultimately show thesis using that [of k] f same sv(2) s' Open_Seal [of k raw] alike_ring_ok [OF oa(1)] by (auto simp: Seal_def)
    qed
  qed
qed

lemma entries_answer: "ring_ok C (snd s) \<Longrightarrow> fst (settings_entries C names now account s) = settings_view C names now account s"
  using entries_runs [of C "snd s" names now account "fst s"] by (cases "settings_entries C names now account s") auto

lemma foldE_unit: "foldE (\<lambda>x _. f x) xs () = Inr () \<longleftrightarrow> (\<forall>x \<in> set xs. f x = Inr ())"
  by (induction xs) (auto simp: bindE_returns)

lemma CheckKey_returns: "CheckKey C path root sealed1 db = (Inr (), db') \<longleftrightarrow>
    (case kv_get keyCheckKey db of Some check \<Rightarrow> \<not> isl (Open (Root_Key C root keyCheckKey) check) \<and> db' = db
     | None \<Rightarrow> foldE (\<lambda>p _. opens_with (snd p) (kv_scan (fst p) db)) sealed1 () = Inr () \<and>
         kv_put keyCheckKey (Seal (Root_Key C root keyCheckKey) (Garbled keyCheckKey)) db = Inr db')"
  by (auto simp: CheckKey_def Let_def Update_def bindE_returns split: option.splits sum.splits)

lemma opens_with_iff: "opens_with k es = Inr () \<longleftrightarrow> (\<forall>e \<in> set es. Format (snd e) = ByAccount \<or> \<not> isl (Open k (snd e)))"
proof -
  have "(if Format v = ByAccount then Inr () else bindE (Open k v) (\<lambda>_. Inr ())) = (Inr () :: err + unit) \<longleftrightarrow> Format v = ByAccount \<or> \<not> isl (Open k v)" for v
    by (cases "Open k v") auto
  then show ?thesis unfolding opens_with_def foldE_unit by blast
qed

lemma check_left:
  assumes "ordered_tx db" and "root_format root = ByInstance" and "CheckKey C path root sealed1 db = (Inr (), db')"
  obtains check where "kv_get keyCheckKey db' = Some check" "\<not> isl (Open (Root_Key C root keyCheckKey) check)"
proof (cases "kv_get keyCheckKey db")
  case None
  let ?key = "Root_Key C root keyCheckKey"
  have put: "kv_put keyCheckKey (Seal ?key (Garbled keyCheckKey)) db = Inr db'" using assms(3) None unfolding CheckKey_returns by simp
  have "key_format ?key = ByInstance" using assms(2) by (simp add: Root_Key_def)
  then have "Open ?key (Seal ?key (Garbled keyCheckKey)) = Inr (Garbled keyCheckKey)" by (intro Open_Seal) simp
  then show thesis using that [of "Seal ?key (Garbled keyCheckKey)"] bolt.put_get [OF assms(1) put] by simp
next
  case (Some c)
  then show thesis using that [of c] assms(3) unfolding CheckKey_returns by simp
qed

lemma check_again:
  assumes "ordered_tx db" and "root_format root = ByInstance" and "CheckKey C path root sealed1 db = (Inr (), db')"
  shows "fst (CheckKey C path' root' sealed' db') = Inr () \<longleftrightarrow> key_secret (Root_Key C root' keyCheckKey) = key_secret (Root_Key C root keyCheckKey)"
proof -
  let ?key = "Root_Key C root keyCheckKey"
  obtain check where check: "kv_get keyCheckKey db' = Some check" "\<not> isl (Open ?key check)" using check_left [OF assms] .
  obtain p where "Open ?key check = Inr p" using check(2) by (cases "Open ?key check") auto
  then obtain f where c: "check = Sealed f (key_secret ?key) f p" "f = ByInstance \<or> f = ByAccount" unfolding Open_Inr by (elim exE conjE) (rule that)
  let ?new = "Root_Key C root' keyCheckKey"
  have o1: "Open ?new check = (if key_secret ?new = key_secret ?key then Inr p else Inl ErrOpen)" using c(2) unfolding c(1) Open_def by auto
  have "CheckKey C path' root' sealed' db' = (case Open ?new check of Inl e \<Rightarrow> (Inl (refused_file path' e), db') | Inr _ \<Rightarrow> (Inr (), db'))"
    unfolding CheckKey_def Let_def Update_def check(1) by (cases "Open ?new check") simp_all
  then show ?thesis unfolding o1 by simp
qed

lemma check_scanned:
  assumes "ordered_tx db" and "CheckKey C path root sealed1 db = (Inr (), db')" and "kv_get keyCheckKey db = None"
    and "(p, k) \<in> set sealed1" and "prefix p key" and "kv_get key db = Some v"
  shows "Format v = ByAccount \<or> \<not> isl (Open k v)"
proof -
  have "foldE (\<lambda>p _. opens_with (snd p) (kv_scan (fst p) db)) sealed1 () = Inr ()" using assms(2,3) unfolding CheckKey_returns by simp
  then have "opens_with (snd (p, k)) (kv_scan (fst (p, k)) db) = Inr ()" using assms(4) unfolding foldE_unit by (rule bspec)
  then have each: "\<forall>e \<in> set (kv_scan p db). Format (snd e) = ByAccount \<or> \<not> isl (Open k (snd e))" by (simp only: opens_with_iff fst_conv snd_conv)
  have "(key, v) \<in> set (kv_scan p db)" unfolding bolt.scan_iff [OF assms(1)] using assms(5,6) by (rule conjI)
  from bspec [OF each this] show ?thesis by (simp only: snd_conv)
qed

lemma check_rest:
  assumes "ordered_tx db" and "CheckKey C path root sealed1 db = (Inr (), db')" and "k \<noteq> keyCheckKey"
  shows "kv_get k db' = kv_get k db"
proof (cases "kv_get keyCheckKey db")
  case None
  then have "kv_put keyCheckKey (Seal (Root_Key C root keyCheckKey) (Garbled keyCheckKey)) db = Inr db'" using assms(2) unfolding CheckKey_returns by simp
  then show ?thesis using bolt.put_get [OF assms(1)] assms(3) by simp
next
  case (Some c)
  then show ?thesis using assms(2) unfolding CheckKey_returns by simp
qed

text \<open>The account's own key is not a setting: forgetting the settings leaves it where it is.\<close>

lemma key_apart: "settings_key C names a \<noteq> keyEntryKey C names b"
proof
  assume "settings_key C names a = keyEntryKey C names b"
  then have "Names_Of C names a = ''key/'' @ Names_Of C names b" by (simp add: settings_key_def keyEntryKey_def)
  then have "CHR ''/'' \<in> set (Names_Of C names a)" by simp
  then show False by simp
qed

lemma Forget_keeps_own_key:
  assumes "ordered_tx tx" and "settings_Forget C names account (tx, r) = (Inr (), s')" and "ring_ok C r"
  shows "local_Get C names apart now account keyEntry t s' = (fst (local_Get C names apart now account keyEntry t (tx, r)), s')"
    and "fst (settings_Get C names now account key t s') = Inl ErrNoStoreEntry"
proof -
  obtain tx' where d: "kv_delete (settings_key C names account) tx = Inr tx'" "s' = (tx', r)"
    using assms(2) by (auto simp: settings_Forget_def settings_Update_returns file_delete_def split: sum.splits)
  note g = bolt.del_get [OF assms(1) d(1)]
  have "kv_get (keyEntryKey C names account) tx' = kv_get (keyEntryKey C names account) tx" using g key_apart by metis
  then show "local_Get C names apart now account keyEntry t s' = (fst (local_Get C names apart now account keyEntry t (tx, r)), s')"
    using d(2) by (simp add: local_Get_def vault_load_def split: option.split)
  have "settings_view C names now account s' = Inr (Some [])" using g d(2) by (simp add: settings_view_def)
  then show "fst (settings_Get C names now account key t s') = Inl ErrNoStoreEntry" using Get_view [of C s'] assms(3) d(2) by simp
qed

text \<open>A session is loaded as it was saved, for every credential type whose fields differ in name.\<close>

lemma session_types_ok: "type_ok cred \<Longrightarrow> type_ok (SessionRecord_t cred)"
  by (simp add: SessionRecord_t_def Lock_t_def Passkey_t_def RememberedAccount_t_def Profile_t_def Reading_t_def Writing_t_def Display_t_def
      Gestures_t_def SwipeActions_t_def Place_t_def string_t_def number_t_def bool_t_def bytes_t_def time_t_def)

lemma session_saved_loaded:
  assumes "ordered_tx db" and "key_format key = ByInstance \<or> key_format key = ByAccount" and "type_ok cred" and "fits (SessionRecord_t cred) rec1"
    and "Save_session cred key rec1 db = (Inr (), db')"
    and "\<And>j. Option.bind (vault_open key (kv_get (sessionRecordKey (session_ID rec1)) db)) text_of = Some j \<Longrightarrow> jwf j \<and> plain (SessionRecord_t cred) j"
  shows "Load_session cred key (session_ID rec1) db' = Some rec1"
proof -
  let ?t = "SessionRecord_t cred" and ?k = "sessionRecordKey (session_ID rec1)"
  let ?j = "record_Keep ?t (Option.bind (vault_open key (kv_get ?k db)) text_of) rec1"
  have put: "kv_put ?k (Seal key (Text ?j)) db = Inr db'"
    using assms(5) by (auto simp: Save_session_def vault_save_def vault_put_def Update_def bindE_returns split: sum.splits prod.splits)
  have "Unmarshal ?t ?j = Some rec1" using assms(6) by (intro Keep_reads [OF session_types_ok [OF assms(3)] assms(4)])
  then show ?thesis using bolt.put_get [OF assms(1) put] Open_Seal [OF assms(2), of "Text ?j"]
    by (simp add: Load_session_def vault_load_def vault_read_def vault_open_def text_of_def)
qed

lemma Sweep_exact:
  assumes "ordered_tx db" and "Sweep_sessions cred instant key now db = (Inr (), db')"
  shows "kv_get k db' = (case kv_get k db of None \<Rightarrow> None
    | Some v \<Rightarrow> if prefix (sessionsOwner @ ''/'') k \<and> session_over cred instant key now v then None else Some v)"
proof -
  have "DeleteUnder kv_scan kv_delete db (sessionsOwner @ ''/'') (Some (\<lambda>_ v. session_over cred instant key now v)) = Inr db'"
    using assms(2) by (auto simp: Sweep_sessions_def Update_def bindE_returns split: sum.splits prod.splits)
  then show ?thesis using bolt.delete_under_get [OF _ assms(1)] by (auto simp: KV.accepts_def split: option.split)
qed

subsection \<open>Properties\<close>

definition empty_file :: recordsDB where
  "empty_file = \<lparr>entries = [], put_refused = (\<lambda>_ _. None), delete_refused = (\<lambda>_. None)\<rparr>"

lemma ordered_empty_file: "ordered_tx empty_file"
  by (simp add: ordered_tx_def ordered_def empty_file_def)

definition chosen_place :: json where
  "chosen_place = JObj [(''Name'', JStr ''Tehran''), (''Lat'', JNum ''35.7''), (''Lon'', JNum ''51.4'')]"

text \<open>
  C23: a setting that was written is read back, and only it changed. After a \<^verbatim>\<open>Put\<close> that returns, \<^verbatim>\<open>Get\<close>
  gives the value that was put, over whatever a newer version had in the entry; every other entry of the account
  answers as before, for every type it is asked in; and no other record of the file is touched.
\<close>

theorem settings_put_get:
  assumes "ring_ok C r" and "root_format (rroot r) = ByInstance" and "ordered_tx tx" and "type_ok t" and "fits t v"
    and "settings_Put C names now account key t v (tx, r) = (Inr (), s')"
    and "\<forall>es j. fst (settings_entries C names now account (tx, r)) = Inr (Some es) \<and> map_of es key = Some j \<longrightarrow> jwf j \<and> plain t j"
  shows "fst (settings_Get C names now account key t s') = Inr v \<and>
    (\<forall>key' t'. key' \<noteq> key \<longrightarrow> fst (settings_Get C names now account key' t' s') = fst (settings_Get C names now account key' t' (tx, r))) \<and>
    (\<forall>k. k \<noteq> settings_key C names account \<longrightarrow> kv_get k (fst s') = kv_get k tx)"
proof -
  obtain es where es: "settings_view C names now account (tx, r) = Inr (Some es)"
    and es': "settings_view C names now account s' = Inr (Some (put_text key (record_Keep t (map_of es key) v) es))"
    and other: "\<forall>k'. k' \<noteq> settings_key C names account \<longrightarrow> kv_get k' (fst s') = kv_get k' tx" and ok: "ring_ok C (snd s')"
    using settings_Put_runs [OF assms(1-3,6)] .
  have "fst (settings_entries C names now account (tx, r)) = Inr (Some es)" using entries_answer [of C "(tx, r)"] assms(1) es by simp
  then have "Unmarshal t (record_Keep t (map_of es key) v) = Some v" using assms(7) by (intro Keep_reads [OF assms(4,5)]) auto
  then have "fst (settings_Get C names now account key t s') = Inr v" unfolding Get_view [OF ok] es' by (simp add: put_text_def)
  moreover have "fst (settings_Get C names now account key' t' s') = fst (settings_Get C names now account key' t' (tx, r))" if "key' \<noteq> key" for key' t'
  proof -
    have "map_of (put_text key (record_Keep t (map_of es key) v) es) key' = map_of es key'"
      using that map_of_filter_fst [of "\<lambda>n. n \<noteq> key" es key'] by (simp add: put_text_def)
    then show ?thesis using Get_view [OF ok] Get_view [of C "(tx, r)"] es es' assms(1) by simp
  qed
  ultimately show ?thesis using other by blast
qed

theorem settings_put_get_witness:
  "\<exists>s'. settings_Put sample_crypto ''n'' 5 ''ann@example.org'' ''place'' Place_t chosen_place (empty_file, sample_ring) = (Inr (), s') \<and>
     fst (settings_Get sample_crypto ''n'' 5 ''ann@example.org'' ''place'' Place_t s') = Inr chosen_place"
proof -
  let ?put = "settings_Put sample_crypto ''n'' 5 ''ann@example.org'' ''place'' Place_t chosen_place (empty_file, sample_ring)"
  have "fst ?put = Inr ()" by code_simp
  then obtain s' where run: "?put = (Inr (), s')" by (cases ?put) auto
  have "root_format (rroot sample_ring) = ByInstance" by code_simp
  moreover have "type_ok Place_t" "fits Place_t chosen_place" by code_simp+
  moreover have "\<forall>es j. fst (settings_entries sample_crypto ''n'' 5 ''ann@example.org'' (empty_file, sample_ring)) = Inr (Some es) \<and> map_of es ''place'' = Some j \<longrightarrow>
      jwf j \<and> plain Place_t j" by (simp add: settings_entries_def empty_file_def kv_get_def)
  ultimately show ?thesis using settings_put_get [OF ring_ok_sample(1) _ ordered_empty_file _ _ run] run by blast
qed

definition turned_ring :: ring where
  "turned_ring = snd (turn sample_crypto (Inr ''first'') (Ring_Name sample_crypto sample_ring ''a'') (Some sample_own) True True 100 sample_ring)"

lemma ring_ok_turned: "ring_ok sample_crypto turned_ring"
  unfolding turned_ring_def by (rule turn_ring_ok [OF ring_ok_sample(1)]) (rule prod.collapse [symmetric])

definition written_file :: recordsDB where
  "written_file = empty_file\<lparr>entries := [(settings_key sample_crypto ''n'' ''a'',
     Seal (Root_Key sample_crypto sample_root settingsOwner) (Text (JObj [(''place'', chosen_place)])))]\<rparr>"

lemma ordered_written_file: "ordered_tx written_file"
  by (simp add: ordered_tx_def ordered_def empty_file_def written_file_def)

text \<open>
  C39: changing the key of an account moves its settings whole. A reseal that returns leaves every entry as it
  was, under the key the ring gives the account now, and touches no other record; so it can be run again after a
  stop at any point.
\<close>

theorem settings_reseal_moves:
  assumes "ring_ok C r" and "root_format (rroot r) = ByInstance" and "ordered_tx tx" and "settings_reseal C names now account (tx, r) = (Inr (), s')"
  shows "fst (settings_entries C names now account s') = fst (settings_entries C names now account (tx, r)) \<and>
    (\<exists>k. fst (For C (Ring_Name C r account) settingsOwner now r) = Inr k \<and>
      (\<forall>v. kv_get (settings_key C names account) (fst s') = Some v \<longrightarrow> Format v = key_format k \<and> \<not> isl (Open k v))) \<and>
    (\<forall>k. k \<noteq> settings_key C names account \<longrightarrow> kv_get k (fst s') = kv_get k tx)"
proof -
  obtain k where k: "fst (For C (Ring_Name C r account) settingsOwner now r) = Inr k" "settings_view C names now account s' = settings_view C names now account (tx, r)"
    "\<forall>v. kv_get (settings_key C names account) (fst s') = Some v \<longrightarrow> Format v = key_format k \<and> \<not> isl (Open k v)"
    "\<forall>k'. k' \<noteq> settings_key C names account \<longrightarrow> kv_get k' (fst s') = kv_get k' tx" and ok: "ring_ok C (snd s')"
    using settings_reseal_runs [OF assms(1-4)] .
  have "fst (settings_entries C names now account s') = fst (settings_entries C names now account (tx, r))"
    using entries_answer [of C s'] entries_answer [of C "(tx, r)"] assms(1) ok k(2) by simp
  then show ?thesis using k by blast
qed

theorem settings_reseal_moves_witness:
  "\<exists>s'. settings_reseal sample_crypto ''n'' 100 ''a'' (written_file, turned_ring) = (Inr (), s') \<and>
     fst (settings_entries sample_crypto ''n'' 100 ''a'' s') = fst (settings_entries sample_crypto ''n'' 100 ''a'' (written_file, turned_ring))"
proof -
  let ?run = "settings_reseal sample_crypto ''n'' 100 ''a'' (written_file, turned_ring)"
  have "fst ?run = Inr ()" by code_simp
  then obtain s' where run: "?run = (Inr (), s')" by (cases ?run) auto
  have fm: "root_format (rroot turned_ring) = ByInstance" by code_simp
  show ?thesis using settings_reseal_moves [OF ring_ok_turned fm ordered_written_file run] run by blast
qed

text \<open>
  C40: a file is opened by the key that sealed it and no other. Once \<^verbatim>\<open>CheckKey\<close> has accepted a file, it
  accepts it again exactly under roots that derive the same check key, whatever is written under the other keys; and a
  file it saw for the first time it accepted only because every value under the named prefixes opened, those under
  an account's own key apart. It changes nothing else.
\<close>

theorem CheckKey_guards:
  assumes "ordered_tx db" and "root_format root = ByInstance" and "CheckKey C path root sealed1 db = (Inr (), db')"
  shows "(\<forall>path' root' sealed'. fst (CheckKey C path' root' sealed' db') = Inr () \<longleftrightarrow>
      key_secret (Root_Key C root' keyCheckKey) = key_secret (Root_Key C root keyCheckKey)) \<and>
    (kv_get keyCheckKey db = None \<longrightarrow> (\<forall>p k key v. (p, k) \<in> set sealed1 \<and> prefix p key \<and> kv_get key db = Some v \<longrightarrow>
      Format v = ByAccount \<or> \<not> isl (Open k v))) \<and>
    (\<forall>k. k \<noteq> keyCheckKey \<longrightarrow> kv_get k db' = kv_get k db)"
proof (intro conjI allI impI)
  show "(fst (CheckKey C path' root' sealed' db') = Inr ()) = (key_secret (Root_Key C root' keyCheckKey) = key_secret (Root_Key C root keyCheckKey))" for path' root' sealed'
    by (rule check_again [OF assms])
  show "Format v = ByAccount \<or> \<not> isl (Open k v)" if "kv_get keyCheckKey db = None" "(p, k) \<in> set sealed1 \<and> prefix p key \<and> kv_get key db = Some v" for p k key v
    using check_scanned [OF assms(1,3) that(1)] that(2) by blast
  show "kv_get k db' = kv_get k db" if "k \<noteq> keyCheckKey" for k by (rule check_rest [OF assms(1,3) that])
qed

theorem CheckKey_guards_witness:
  "\<exists>db'. CheckKey sample_crypto ''alborz.db'' sample_root [(settingsOwner @ ''/'', Root_Key sample_crypto sample_root settingsOwner)] written_file = (Inr (), db') \<and>
     fst (CheckKey sample_crypto ''alborz.db'' (sample_root\<lparr>root_secret := ''other''\<rparr>) [] db') \<noteq> Inr ()"
proof -
  let ?run = "CheckKey sample_crypto ''alborz.db'' sample_root [(settingsOwner @ ''/'', Root_Key sample_crypto sample_root settingsOwner)] written_file"
  have "fst ?run = Inr ()" by code_simp
  then obtain db' where run: "?run = (Inr (), db')" by (cases ?run) auto
  have fm: "root_format sample_root = ByInstance" by (simp add: sample_root_def)
  have "key_secret (Root_Key sample_crypto (sample_root\<lparr>root_secret := ''other''\<rparr>) keyCheckKey) \<noteq> key_secret (Root_Key sample_crypto sample_root keyCheckKey)" by code_simp
  then show ?thesis using CheckKey_guards [OF ordered_written_file fm run] run by blast
qed

end
