(* ===== verification/Settings_Meta.thy ===== *)
theory Settings_Meta
  imports Records
begin

text \<open>
  The settings an account keeps on its own mail server, in METADATA (\<^verbatim>\<open>store.go\<close>), and the changes of one entry,
  which take turns (\<^verbatim>\<open>Login.Update\<close>).

  The server is the argument \<open>metadata\<close>, with what RFC 5464 promises as \<open>metadata_contract\<close>: it has no compare-and-set, and a
  write it answered with an error may have been made. A request may carry a memo of what it has read. What a failed
  \<^verbatim>\<open>json.Unmarshal\<close> leaves in the value it was reading into is the argument \<open>left\<close>.
\<close>

datatype meta_err = MdRefused string | MdFailed string

datatype store_err = NoStoreEntry | KeyUnread | FetchFailed string meta_err | StoreRefused string | PutFailed string string
  | ListFailed meta_err | RemoveFailed meta_err | EditFailed string

record 's metadata =
  mdGet :: "string \<Rightarrow> 's \<Rightarrow> (meta_err + (string \<times> raw option) list) \<times> 's"
  mdList :: "string \<Rightarrow> 's \<Rightarrow> (meta_err + (string \<times> raw option) list) \<times> 's"
  mdSet :: "(string \<times> raw option) list \<Rightarrow> 's \<Rightarrow> (meta_err + unit) \<times> 's"

text \<open>\<open>None\<close> is a context without a memo; an entry memoised as absent is \<open>Some None\<close>.\<close>

type_synonym memo = "(string \<rightharpoonup> raw option) option"

type_synonym 's meta_state = "memo \<times> 's"

definition vendorRoot :: string where
  "vendorRoot = ''/private/vendor/alborz''"

definition meta_key :: "string \<Rightarrow> string" where
  "meta_key key = vendorRoot @ ''/'' @ key"

definition memo_forget :: "string \<Rightarrow> memo \<Rightarrow> memo" where
  "memo_forget key m = map_option (\<lambda>m. m(key := None)) m"

definition meta_fetch :: "'s metadata \<Rightarrow> string \<Rightarrow> (store_err, 's meta_state, raw option) prog" where
  "meta_fetch c key = (\<lambda>(m, s). case mdGet c (meta_key key) s of
       (Inl e, s1) \<Rightarrow> (Inl (FetchFailed key e), m, s1)
     | (Inr es, s1) \<Rightarrow> (Inr (Option.bind (map_of es (meta_key key)) id), m, s1))"

definition memo_read :: "string \<Rightarrow> memo \<Rightarrow> raw option option" where
  "memo_read key m = Option.bind m (\<lambda>m. m key)"

definition memo_keep :: "string \<Rightarrow> raw option \<Rightarrow> memo \<Rightarrow> memo" where
  "memo_keep key v m = map_option (\<lambda>m. m(key \<mapsto> v)) m"

definition meta_raw :: "'s metadata \<Rightarrow> string \<Rightarrow> (store_err, 's meta_state, raw option) prog" where
  "meta_raw c key = (\<lambda>(m, s). case memo_read key m of
       Some v \<Rightarrow> (Inr v, m, s)
     | None \<Rightarrow> bindT (meta_fetch c key) (\<lambda>v. \<lambda>(m1, s1). (Inr v, memo_keep key v m1, s1)) (m, s))"

definition decoded :: "(jtype \<Rightarrow> raw \<Rightarrow> json) \<Rightarrow> string \<Rightarrow> jtype \<Rightarrow> raw option \<Rightarrow> store_err + json" where
  "decoded left key t v = (case v of None \<Rightarrow> Inl NoStoreEntry
     | Some raw \<Rightarrow> (case Option.bind (text_of raw) (Unmarshal t) of Some x \<Rightarrow> Inr x
         | None \<Rightarrow> if key = keyEntry then Inl KeyUnread else Inr (left t raw)))"

definition meta_Get :: "'s metadata \<Rightarrow> (jtype \<Rightarrow> raw \<Rightarrow> json) \<Rightarrow> string \<Rightarrow> jtype \<Rightarrow> (store_err, 's meta_state, json) prog" where
  "meta_Get c left key t = bindT (meta_raw c key) (\<lambda>v. liftT (decoded left key t v))"

definition meta_set :: "'s metadata \<Rightarrow> (meta_err \<Rightarrow> store_err) \<Rightarrow> (string \<times> raw option) list \<Rightarrow> (store_err, 's meta_state, unit) prog" where
  "meta_set c wrap es = (\<lambda>(m, s). case mdSet c es s of (Inl e, s1) \<Rightarrow> (Inl (wrap e), m, s1) | (Inr _, s1) \<Rightarrow> (Inr (), m, s1))"

text \<open>\<^verbatim>\<open>defer\<close>: the memo forgets the entry however the call ends.\<close>

definition forgetting :: "string list \<Rightarrow> (store_err, 's meta_state, 'a) prog \<Rightarrow> (store_err, 's meta_state, 'a) prog" where
  "forgetting keys p = (\<lambda>st. case p st of (res, m, s) \<Rightarrow> (res, fold memo_forget keys m, s))"

definition put_failed :: "string \<Rightarrow> meta_err \<Rightarrow> store_err" where
  "put_failed key e = (case e of MdRefused why \<Rightarrow> StoreRefused why | MdFailed why \<Rightarrow> PutFailed key why)"

definition meta_Put :: "'s metadata \<Rightarrow> string \<Rightarrow> jtype \<Rightarrow> json \<Rightarrow> (store_err, 's meta_state, unit) prog" where
  "meta_Put c key t v = forgetting [key] (bindT (meta_fetch c key) (\<lambda>was.
     meta_set c (put_failed key) [(meta_key key, Some (Text (record_Keep t (Option.bind was text_of) v)))]))"

definition meta_Entries :: "'s metadata \<Rightarrow> (store_err, 's meta_state, string list) prog" where
  "meta_Entries c = (\<lambda>(m, s). case mdList c vendorRoot s of
       (Inl e, s1) \<Rightarrow> (Inl (ListFailed e), m, s1)
     | (Inr es, s1) \<Rightarrow> (Inr (sort (map fst (filter (\<lambda>e. snd e \<noteq> None) es))), m, s1))"

definition meta_Forget :: "'s metadata \<Rightarrow> (store_err, 's meta_state, unit) prog" where
  "meta_Forget c = bindT (meta_Entries c) (\<lambda>all. let names = filter (\<lambda>n. n \<noteq> meta_key keyEntry) all in
     if names = [] then returnT ()
     else forgetting (map (TrimPrefix (vendorRoot @ ''/'')) names) (meta_set c RemoveFailed (map (\<lambda>n. (n, None)) names)))"

text \<open>\<^verbatim>\<open>Login.Update\<close> between taking and releasing the turn: the parts a change is made of, and the whole.\<close>

definition update_read :: "'s metadata \<Rightarrow> (jtype \<Rightarrow> raw \<Rightarrow> json) \<Rightarrow> string \<Rightarrow> jtype \<Rightarrow> (store_err, 's meta_state, json) prog" where
  "update_read c left key t = (\<lambda>st. case meta_Get c left key t st of
       (Inl e, st1) \<Rightarrow> (if e \<noteq> NoStoreEntry then Inl e else Inr (jzero t), st1)
     | (Inr v, st1) \<Rightarrow> (Inr v, st1))"

definition update_edit :: "(json \<Rightarrow> string + json) \<Rightarrow> json \<Rightarrow> store_err + json" where
  "update_edit edit v = map_sum EditFailed id (edit v)"

definition Login_Update :: "'s metadata \<Rightarrow> (jtype \<Rightarrow> raw \<Rightarrow> json) \<Rightarrow> string \<Rightarrow> jtype \<Rightarrow> (json \<Rightarrow> string + json) \<Rightarrow> (store_err, 's meta_state, unit) prog" where
  "Login_Update c left key t edit = (\<lambda>(m, s). bindT (update_read c left key t) (\<lambda>v.
     bindT (liftT (update_edit edit v)) (meta_Put c key t)) (memo_forget key m, s))"

subsection \<open>What a server promises\<close>

definition overridden :: "(string \<times> raw option) list \<Rightarrow> (string \<Rightarrow> raw option) \<Rightarrow> string \<Rightarrow> raw option" where
  "overridden es view n = (case map_of es n of None \<Rightarrow> view n | Some v \<Rightarrow> v)"

definition metadata_contract :: "'s metadata \<Rightarrow> ('s \<Rightarrow> string \<Rightarrow> raw option) \<Rightarrow> bool" where
  "metadata_contract c view \<longleftrightarrow>
     (\<forall>n s res s'. mdGet c n s = (res, s') \<longrightarrow> view s' = view s \<and> (\<forall>es. res = Inr es \<longrightarrow> Option.bind (map_of es n) id = view s n)) \<and>
     (\<forall>n s res s'. mdList c n s = (res, s') \<longrightarrow> view s' = view s \<and>
        (\<forall>es. res = Inr es \<longrightarrow> (\<forall>m v. (m, Some v) \<in> set es \<longleftrightarrow> prefix (n @ ''/'') m \<and> view s m = Some v))) \<and>
     (\<forall>es s res s'. mdSet c es s = (res, s') \<longrightarrow> view s' = overridden es (view s) \<or> isl res \<and> view s' = view s)"

subsection \<open>Changes that take turns\<close>

text \<open>
  Any number of requests change one entry, each with its own memo, which may hold anything when it begins; a request
  may also just read at any time. \<open>tTurn\<close> is who holds the mutex of the entry, \<open>tMade\<close> lists the changes that reached the
  server, in order, and \<open>tTold\<close> the requests that were told theirs did.
\<close>

datatype phase = Away | Holding | Reading json | Edited json

record 's turns =
  tServer :: 's
  tTurn :: "nat option"
  tMemo :: "nat \<Rightarrow> memo"
  tPhase :: "nat \<Rightarrow> phase"
  tMade :: "nat list"
  tTold :: "nat list"

definition leaves :: "nat \<Rightarrow> memo \<Rightarrow> 's \<Rightarrow> 's turns \<Rightarrow> 's turns" where
  "leaves i m s st = st\<lparr>tServer := s, tTurn := None, tMemo := (tMemo st)(i := m), tPhase := (tPhase st)(i := Away)\<rparr>"

inductive turn_step :: "'s metadata \<Rightarrow> ('s \<Rightarrow> string \<Rightarrow> raw option) \<Rightarrow> (jtype \<Rightarrow> raw \<Rightarrow> json) \<Rightarrow> string \<Rightarrow> jtype \<Rightarrow>
    (nat \<Rightarrow> json \<Rightarrow> string + json) \<Rightarrow> 's turns \<Rightarrow> 's turns \<Rightarrow> bool" for c view left key t edits where
  begins: "tTurn st = None \<Longrightarrow> tPhase st i = Away \<Longrightarrow> turn_step c view left key t edits st
     (st\<lparr>tTurn := Some i, tMemo := (tMemo st)(i := memo_forget key (tMemo st i)), tPhase := (tPhase st)(i := Holding)\<rparr>)"
| reads: "tPhase st i = Holding \<Longrightarrow> update_read c left key t (tMemo st i, tServer st) = (Inr v, m, s) \<Longrightarrow>
     turn_step c view left key t edits st (st\<lparr>tServer := s, tMemo := (tMemo st)(i := m), tPhase := (tPhase st)(i := Reading v)\<rparr>)"
| unread: "tPhase st i = Holding \<Longrightarrow> update_read c left key t (tMemo st i, tServer st) = (Inl e, m, s) \<Longrightarrow>
     turn_step c view left key t edits st (leaves i m s st)"
| edits: "tPhase st i = Reading v \<Longrightarrow> update_edit (edits i) v = Inr v' \<Longrightarrow>
     turn_step c view left key t edits st (st\<lparr>tPhase := (tPhase st)(i := Edited v')\<rparr>)"
| unedited: "tPhase st i = Reading v \<Longrightarrow> update_edit (edits i) v = Inl e \<Longrightarrow>
     turn_step c view left key t edits st (leaves i (tMemo st i) (tServer st) st)"
| writes: "tPhase st i = Edited v \<Longrightarrow> meta_Put c key t v (tMemo st i, tServer st) = (Inr (), m, s) \<Longrightarrow>
     turn_step c view left key t edits st ((leaves i m s st)\<lparr>tMade := tMade st @ [i], tTold := tTold st @ [i]\<rparr>)"
| unwritten: "tPhase st i = Edited v \<Longrightarrow> meta_Put c key t v (tMemo st i, tServer st) = (Inl e, m, s) \<Longrightarrow>
     view s (meta_key key) = view (tServer st) (meta_key key) \<Longrightarrow> turn_step c view left key t edits st (leaves i m s st)"
| written_untold: "tPhase st i = Edited v \<Longrightarrow> meta_Put c key t v (tMemo st i, tServer st) = (Inl e, m, s) \<Longrightarrow>
     view s (meta_key key) \<noteq> view (tServer st) (meta_key key) \<Longrightarrow>
     turn_step c view left key t edits st ((leaves i m s st)\<lparr>tMade := tMade st @ [i]\<rparr>)"
| peeks: "meta_Get c left key t' (tMemo st j, tServer st) = (res, m, s) \<Longrightarrow>
     turn_step c view left key t edits st (st\<lparr>tServer := s, tMemo := (tMemo st)(j := m)\<rparr>)"

inductive turn_run :: "'s metadata \<Rightarrow> ('s \<Rightarrow> string \<Rightarrow> raw option) \<Rightarrow> (jtype \<Rightarrow> raw \<Rightarrow> json) \<Rightarrow> string \<Rightarrow> jtype \<Rightarrow>
    (nat \<Rightarrow> json \<Rightarrow> string + json) \<Rightarrow> 's \<Rightarrow> 's turns \<Rightarrow> bool" for c view left key t edits s0 where
  first: "tServer st = s0 \<Longrightarrow> tTurn st = None \<Longrightarrow> tPhase st = (\<lambda>_. Away) \<Longrightarrow> tMade st = [] \<Longrightarrow> tTold st = [] \<Longrightarrow> turn_run c view left key t edits s0 st"
| next_step: "turn_run c view left key t edits s0 st \<Longrightarrow> turn_step c view left key t edits st st' \<Longrightarrow> turn_run c view left key t edits s0 st'"

text \<open>One change made whole: read, edited and written over what is there.\<close>

definition found :: "(jtype \<Rightarrow> raw \<Rightarrow> json) \<Rightarrow> string \<Rightarrow> jtype \<Rightarrow> raw option \<Rightarrow> store_err + json" where
  "found left key t v = (case decoded left key t v of Inl e \<Rightarrow> if e \<noteq> NoStoreEntry then Inl e else Inr (jzero t) | Inr x \<Rightarrow> Inr x)"

definition changed :: "(jtype \<Rightarrow> raw \<Rightarrow> json) \<Rightarrow> string \<Rightarrow> jtype \<Rightarrow> (json \<Rightarrow> string + json) \<Rightarrow> raw option \<Rightarrow> raw option" where
  "changed left key t edit v = (case bindE (found left key t v) (update_edit edit) of Inl _ \<Rightarrow> v
     | Inr x \<Rightarrow> Some (Text (record_Keep t (Option.bind v text_of) x)))"

lemma overridden_other: "map_of es n = None \<Longrightarrow> overridden es view n = view n"
  by (simp add: overridden_def)

lemma md_get:
  assumes "metadata_contract c view" and "mdGet c n s = (res, s')"
  shows "view s' = view s" and "res = Inr es \<Longrightarrow> Option.bind (map_of es n) id = view s n"
proof -
  have "\<forall>n s res s'. mdGet c n s = (res, s') \<longrightarrow> view s' = view s \<and> (\<forall>es. res = Inr es \<longrightarrow> Option.bind (map_of es n) id = view s n)"
    using assms(1) unfolding metadata_contract_def by (elim conjE)
  then show "view s' = view s" and "res = Inr es \<Longrightarrow> Option.bind (map_of es n) id = view s n" using assms(2) by blast+
qed

lemma md_set:
  assumes "metadata_contract c view" and "mdSet c es s = (res, s')"
  shows "view s' = overridden es (view s) \<or> isl res \<and> view s' = view s"
proof -
  have "\<forall>es s res s'. mdSet c es s = (res, s') \<longrightarrow> view s' = overridden es (view s) \<or> isl res \<and> view s' = view s"
    using assms(1) unfolding metadata_contract_def by (elim conjE)
  then show ?thesis using assms(2) by blast
qed

lemma fetch_view:
  assumes "metadata_contract c view" and "meta_fetch c key (m, s) = (res, st')"
  shows "view (snd st') = view s \<and> fst st' = m \<and> (\<forall>v. res = Inr v \<longrightarrow> v = view s (meta_key key))"
proof -
  obtain r1 s1 where g: "mdGet c (meta_key key) s = (r1, s1)" by (rule prod.exhaust)
  show ?thesis
  proof (cases r1)
    case (Inl e)
    then show ?thesis using assms(2) g md_get(1) [OF assms(1) g] by (auto simp: meta_fetch_def)
  next
    case (Inr es)
    then show ?thesis using assms(2) g md_get(1) [OF assms(1) g] md_get(2) [OF assms(1) g Inr] by (auto simp: meta_fetch_def)
  qed
qed

definition fresh_memo :: "string \<Rightarrow> raw option \<Rightarrow> memo \<Rightarrow> bool" where
  "fresh_memo key v m \<longleftrightarrow> memo_read key m = None \<or> memo_read key m = Some v"

lemma fresh_forget: "fresh_memo key v (memo_forget key m)"
  by (cases m) (auto simp: fresh_memo_def memo_read_def memo_forget_def)

lemma fresh_keep: "fresh_memo key v (memo_keep key v m)"
  by (cases m) (auto simp: fresh_memo_def memo_read_def memo_keep_def)

lemma raw_view:
  assumes "metadata_contract c view" and "meta_raw c key (m, s) = (res, m', s')"
  shows "view s' = view s" and "fresh_memo key (view s (meta_key key)) m \<Longrightarrow> fresh_memo key (view s (meta_key key)) m'"
    and "fresh_memo key (view s (meta_key key)) m \<Longrightarrow> res = Inr v \<Longrightarrow> v = view s (meta_key key)"
proof -
  have "view s' = view s \<and> (fresh_memo key (view s (meta_key key)) m \<longrightarrow> fresh_memo key (view s (meta_key key)) m' \<and> (\<forall>v. res = Inr v \<longrightarrow> v = view s (meta_key key)))"
  proof (cases "memo_read key m")
    case (Some v)
    then show ?thesis using assms(2) by (auto simp: meta_raw_def fresh_memo_def)
  next
    case None
    then have "bindT (meta_fetch c key) (\<lambda>v. \<lambda>(m1, s1). (Inr v, memo_keep key v m1, s1)) (m, s) = (res, m', s')" using assms(2) by (simp add: meta_raw_def)
    then show ?thesis
    proof (cases rule: bindT_cases)
      case (fails e)
      then show ?thesis using fetch_view [OF assms(1) fails(1)] by auto
    next
      case (goes v st1)
      then show ?thesis using fetch_view [OF assms(1) goes(1)] fresh_keep by (cases st1) auto
    qed
  qed
  then show "view s' = view s" and "fresh_memo key (view s (meta_key key)) m \<Longrightarrow> fresh_memo key (view s (meta_key key)) m'"
    and "fresh_memo key (view s (meta_key key)) m \<Longrightarrow> res = Inr v \<Longrightarrow> v = view s (meta_key key)" by auto
qed

lemma meta_Get_runs:
  assumes "metadata_contract c view" and "meta_Get c left key t (m, s) = (res, m', s')"
  shows "view s' = view s" and "fresh_memo key (view s (meta_key key)) m \<Longrightarrow> fresh_memo key (view s (meta_key key)) m'"
    and "fresh_memo key (view s (meta_key key)) m \<Longrightarrow> (\<exists>e. res = Inl (FetchFailed key e)) \<or> res = decoded left key t (view s (meta_key key))"
proof -
  obtain r1 m1 s1 where r: "meta_raw c key (m, s) = (r1, m1, s1)" by (metis prod.exhaust)
  have st: "m' = m1" "s' = s1" and res: "res = (case r1 of Inl e \<Rightarrow> Inl e | Inr v \<Rightarrow> decoded left key t v)"
    using assms(2) r by (auto simp: meta_Get_def bindT_def liftT_def split: sum.splits)
  show "view s' = view s" and "fresh_memo key (view s (meta_key key)) m \<Longrightarrow> fresh_memo key (view s (meta_key key)) m'"
    using raw_view(1,2) [OF assms(1) r] st by auto
  assume f: "fresh_memo key (view s (meta_key key)) m"
  show "(\<exists>e. res = Inl (FetchFailed key e)) \<or> res = decoded left key t (view s (meta_key key))"
  proof (cases r1)
    case (Inl e)
    then have "memo_read key m = None" using r by (auto simp: meta_raw_def split: option.splits)
    then have "\<exists>e'. e = FetchFailed key e'" using r Inl
      by (auto simp: meta_raw_def meta_fetch_def bindT_def split: prod.splits sum.splits)
    then show ?thesis using res Inl by simp
  next
    case (Inr v)
    then show ?thesis using raw_view(3) [OF assms(1) r f Inr] res by simp
  qed
qed

lemma update_read_runs:
  assumes "metadata_contract c view" and "update_read c left key t (m, s) = (res, m', s')"
  shows "view s' = view s" and "fresh_memo key (view s (meta_key key)) m \<Longrightarrow> res = Inr v \<Longrightarrow> found left key t (view s (meta_key key)) = Inr v"
proof -
  obtain r1 m1 s1 where g: "meta_Get c left key t (m, s) = (r1, m1, s1)" by (metis prod.exhaust)
  have st: "s' = s1" and res: "res = (case r1 of Inl e \<Rightarrow> if e \<noteq> NoStoreEntry then Inl e else Inr (jzero t) | Inr v \<Rightarrow> Inr v)"
    using assms(2) g by (auto simp: update_read_def split: sum.splits if_splits)
  show "view s' = view s" using meta_Get_runs(1) [OF assms(1) g] st by simp
  assume f: "fresh_memo key (view s (meta_key key)) m" and v: "res = Inr v"
  consider e where "r1 = Inl (FetchFailed key e)" | "r1 = decoded left key t (view s (meta_key key))" using meta_Get_runs(3) [OF assms(1) g f] by blast
  then show "found left key t (view s (meta_key key)) = Inr v"
  proof cases
    case 1
    then show ?thesis using res v by simp
  next
    case 2
    then show ?thesis using res v by (simp add: found_def)
  qed
qed

lemma meta_Put_runs:
  assumes "metadata_contract c view" and "meta_Put c key t v (m, s) = (res, m', s')"
  shows "view s' (meta_key key) = Some (Text (record_Keep t (Option.bind (view s (meta_key key)) text_of) v)) \<or> isl res \<and> view s' (meta_key key) = view s (meta_key key)"
proof -
  let ?p = "bindT (meta_fetch c key) (\<lambda>was. meta_set c (put_failed key) [(meta_key key, Some (Text (record_Keep t (Option.bind was text_of) v)))])"
  obtain m1 where p: "?p (m, s) = (res, m1, s')" using assms(2) by (auto simp: meta_Put_def forgetting_def split: prod.splits)
  then show ?thesis
  proof (cases rule: bindT_cases)
    case (fails e)
    then show ?thesis using fetch_view [OF assms(1) fails(1)] by auto
  next
    case (goes was st1)
    obtain m2 s2 where st1: "st1 = (m2, s2)" by force
    have was: "was = view s (meta_key key)" "view s2 = view s" using fetch_view [OF assms(1) goes(1)] st1 by auto
    let ?es = "[(meta_key key, Some (Text (record_Keep t (Option.bind was text_of) v)))]"
    obtain r3 s3 where w: "mdSet c ?es s2 = (r3, s3)" by (rule prod.exhaust)
    have "s' = s3" "isl res = isl r3" using goes(2) w st1 by (auto simp: meta_set_def split: sum.splits)
    then show ?thesis using md_set [OF assms(1) w] was by (auto simp: overridden_def)
  qed
qed

subsection \<open>Turns keep every change\<close>

definition phase_ok :: "(jtype \<Rightarrow> raw \<Rightarrow> json) \<Rightarrow> string \<Rightarrow> jtype \<Rightarrow> (json \<Rightarrow> string + json) \<Rightarrow> raw option \<Rightarrow> memo \<Rightarrow> phase \<Rightarrow> bool" where
  "phase_ok left key t edit v m p = (case p of Away \<Rightarrow> True | Holding \<Rightarrow> fresh_memo key v m | Reading x \<Rightarrow> found left key t v = Inr x
     | Edited x \<Rightarrow> bindE (found left key t v) (update_edit edit) = Inr x)"

definition turns_inv :: "('s \<Rightarrow> string \<Rightarrow> raw option) \<Rightarrow> (jtype \<Rightarrow> raw \<Rightarrow> json) \<Rightarrow> string \<Rightarrow> jtype \<Rightarrow> (nat \<Rightarrow> json \<Rightarrow> string + json) \<Rightarrow> raw option \<Rightarrow> 's turns \<Rightarrow> bool" where
  "turns_inv view left key t edits v0 st \<longleftrightarrow>
     view (tServer st) (meta_key key) = foldl (\<lambda>v i. changed left key t (edits i) v) v0 (tMade st) \<and>
     (\<forall>j. tPhase st j \<noteq> Away \<longrightarrow> tTurn st = Some j) \<and>
     (\<forall>j. phase_ok left key t (edits j) (view (tServer st) (meta_key key)) (tMemo st j) (tPhase st j)) \<and> set (tTold st) \<subseteq> set (tMade st)"

lemma phase_ok_Away [simp]: "phase_ok left key t edit v m Away"
  by (simp add: phase_ok_def)

lemma turns_invD:
  assumes "turns_inv view left key t edits v0 st"
  shows "view (tServer st) (meta_key key) = foldl (\<lambda>v i. changed left key t (edits i) v) v0 (tMade st)"
    and "tPhase st j \<noteq> Away \<Longrightarrow> tTurn st = Some j"
    and "phase_ok left key t (edits j) (view (tServer st) (meta_key key)) (tMemo st j) (tPhase st j)" and "set (tTold st) \<subseteq> set (tMade st)"
  using assms unfolding turns_inv_def by blast+

lemma phase_alone: "turns_inv view left key t edits v0 st \<Longrightarrow> tPhase st i \<noteq> Away \<Longrightarrow> j \<noteq> i \<Longrightarrow> tPhase st j = Away"
  using turns_invD(2) by (metis option.inject)

lemma phase_memo: "p \<noteq> Holding \<Longrightarrow> phase_ok left key t edit v m p = phase_ok left key t edit v m' p"
  by (cases p) (simp_all add: phase_ok_def)

lemma leaves_inv:
  assumes inv: "turns_inv view left key t edits v0 st" and "tPhase st i \<noteq> Away"
    and "view s (meta_key key) = foldl (\<lambda>v i. changed left key t (edits i) v) v0 made" and "set told1 \<subseteq> set made"
  shows "turns_inv view left key t edits v0 ((leaves i m s st)\<lparr>tMade := made, tTold := told1\<rparr>)"
  unfolding turns_inv_def using assms(3,4) phase_alone [OF inv assms(2)] by (auto simp: leaves_def)

lemma leaves_same: "(leaves i m s st)\<lparr>tMade := tMade st, tTold := tTold st\<rparr> = leaves i m s st"
  by (simp add: leaves_def)

lemma turn_step_inv:
  assumes con: "metadata_contract c view" and "turn_step c view left key t edits st st'" and inv: "turns_inv view left key t edits v0 st"
  shows "turns_inv view left key t edits v0 st'"
  using assms(2)
proof cases
  case (begins i)
  have "tPhase st j = Away" for j using turns_invD(2) [OF inv, of j] begins(2) by auto
  then show ?thesis unfolding turns_inv_def begins(1) using turns_invD(1,4) [OF inv] fresh_forget by (auto simp: phase_ok_def)
next
  case (reads i v m s)
  have v: "view s = view (tServer st)" by (rule update_read_runs(1) [OF con reads(3)])
  have "fresh_memo key (view (tServer st) (meta_key key)) (tMemo st i)" using turns_invD(3) [OF inv, of i] reads(2) by (simp add: phase_ok_def)
  then have f: "found left key t (view (tServer st) (meta_key key)) = Inr v" by (rule update_read_runs(2) [OF con reads(3) _ refl])
  have a: "tPhase st j = Away" if "j \<noteq> i" for j using phase_alone [OF inv _ that] reads(2) by simp
  show ?thesis unfolding turns_inv_def reads(1) using turns_invD(1,4) [OF inv] turns_invD(2) [OF inv, of i] reads(2) v f a by (auto simp: phase_ok_def)
next
  case (unread i e m s)
  have "view s = view (tServer st)" by (rule update_read_runs(1) [OF con unread(3)])
  then show ?thesis using leaves_inv [OF inv, of i s "tMade st" "tTold st" m] turns_invD(1,4) [OF inv] unread(1,2) by (simp add: leaves_same)
next
  case (edits i v v')
  have a: "tPhase st j = Away" if "j \<noteq> i" for j using phase_alone [OF inv _ that] edits(2) by simp
  have "found left key t (view (tServer st) (meta_key key)) = Inr v" using turns_invD(3) [OF inv, of i] edits(2) by (simp add: phase_ok_def)
  then show ?thesis unfolding turns_inv_def edits(1) using turns_invD(1,4) [OF inv] turns_invD(2) [OF inv, of i] edits(2,3) a by (auto simp: phase_ok_def)
next
  case (unedited i v e)
  then show ?thesis using leaves_inv [OF inv, of i "tServer st" "tMade st" "tTold st" "tMemo st i"] turns_invD(1,4) [OF inv] by (simp add: leaves_same)
next
  case (writes i v m s)
  have "bindE (found left key t (view (tServer st) (meta_key key))) (update_edit (edits i)) = Inr v" using turns_invD(3) [OF inv, of i] writes(2) by (simp add: phase_ok_def)
  then have "view s (meta_key key) = changed left key t (edits i) (view (tServer st) (meta_key key))"
    using meta_Put_runs [OF con writes(3)] by (simp add: changed_def)
  then show ?thesis using leaves_inv [OF inv, of i s "tMade st @ [i]" "tTold st @ [i]" m] turns_invD(1,4) [OF inv] writes(1,2) by auto
next
  case (unwritten i v e m s)
  then show ?thesis using leaves_inv [OF inv, of i s "tMade st" "tTold st" m] turns_invD(1,4) [OF inv] by (simp add: leaves_same)
next
  case (written_untold i v e m s)
  have "bindE (found left key t (view (tServer st) (meta_key key))) (update_edit (edits i)) = Inr v" using turns_invD(3) [OF inv, of i] written_untold(2) by (simp add: phase_ok_def)
  then have "view s (meta_key key) = changed left key t (edits i) (view (tServer st) (meta_key key))"
    using meta_Put_runs [OF con written_untold(3)] written_untold(4) by (simp add: changed_def)
  then have "turns_inv view left key t edits v0 ((leaves i m s st)\<lparr>tMade := tMade st @ [i], tTold := tTold st\<rparr>)"
    using leaves_inv [OF inv, of i s "tMade st @ [i]" "tTold st" m] turns_invD(1,4) [OF inv] written_untold(2) by auto
  then show ?thesis unfolding written_untold(1) by (simp add: leaves_def)
next
  case (peeks t' j res m s)
  have v: "view s = view (tServer st)" by (rule meta_Get_runs(1) [OF con peeks(2)])
  have "phase_ok left key t (edits j) (view (tServer st) (meta_key key)) m (tPhase st j)"
  proof (cases "tPhase st j = Holding")
    case True
    then show ?thesis using turns_invD(3) [OF inv, of j] meta_Get_runs(2) [OF con peeks(2)] by (simp add: phase_ok_def)
  next
    case False
    then show ?thesis using turns_invD(3) [OF inv, of j] phase_memo by blast
  qed
  then show ?thesis unfolding turns_inv_def peeks(1) using turns_invD [OF inv] v by auto
qed

lemma turn_run_inv:
  assumes con: "metadata_contract c view" and "turn_run c view left key t edits s0 st"
  shows "turns_inv view left key t edits (view s0 (meta_key key)) st"
  using assms(2)
proof (induction rule: turn_run.induct)
  case (first st)
  then show ?case by (simp add: turns_inv_def)
next
  case (next_step st st')
  then show ?case using turn_step_inv [OF con] by blast
qed

text \<open>A call of \<^verbatim>\<open>Login.Update\<close> that returns is a run of these steps.\<close>

lemma Login_Update_steps:
  assumes "turn_run c view left key t edits s0 st" and "tTurn st = None" and "tPhase st = (\<lambda>_. Away)"
    and "Login_Update c left key t (edits i) (tMemo st i, tServer st) = (Inr (), m, s)"
  shows "\<exists>st'. turn_run c view left key t edits s0 st' \<and> tTurn st' = None \<and> tPhase st' = (\<lambda>_. Away) \<and> tServer st' = s \<and> tMemo st' = (tMemo st)(i := m) \<and>
    tMade st' = tMade st @ [i] \<and> tTold st' = tTold st @ [i]"
proof -
  obtain v m1 s1 v' where r: "update_read c left key t (memo_forget key (tMemo st i), tServer st) = (Inr v, m1, s1)" and e: "update_edit (edits i) v = Inr v'"
    and p: "meta_Put c key t v' (m1, s1) = (Inr (), m, s)"
    using assms(4) by (auto simp: Login_Update_def bindT_returns)
  define st1 where "st1 = st\<lparr>tTurn := Some i, tMemo := (tMemo st)(i := memo_forget key (tMemo st i)), tPhase := (tPhase st)(i := Holding)\<rparr>"
  define st2 where "st2 = st1\<lparr>tServer := s1, tMemo := (tMemo st1)(i := m1), tPhase := (tPhase st1)(i := Reading v)\<rparr>"
  define st3 where "st3 = st2\<lparr>tPhase := (tPhase st2)(i := Edited v')\<rparr>"
  define st4 where "st4 = (leaves i m s st3)\<lparr>tMade := tMade st3 @ [i], tTold := tTold st3 @ [i]\<rparr>"
  have 1: "turn_run c view left key t edits s0 st1" unfolding st1_def using turn_run.next_step [OF assms(1) turn_step.begins] assms(2,3) by simp
  have 2: "turn_run c view left key t edits s0 st2" unfolding st2_def by (rule turn_run.next_step [OF 1 turn_step.reads]) (simp_all add: st1_def r)
  have 3: "turn_run c view left key t edits s0 st3" unfolding st3_def by (rule turn_run.next_step [OF 2 turn_step.edits [where edits = edits, OF _ e]]) (simp add: st2_def)
  have 4: "turn_run c view left key t edits s0 st4" unfolding st4_def
  proof (rule turn_run.next_step [OF 3 turn_step.writes])
    show "tPhase st3 i = Edited v'" by (simp add: st3_def)
    have "tMemo st3 i = m1" "tServer st3 = s1" by (simp_all add: st3_def st2_def)
    then show "meta_Put c key t v' (tMemo st3 i, tServer st3) = (Inr (), m, s)" using p by (simp only:)
  qed
  have "tPhase st4 = (\<lambda>_. Away)" using assms(3) by (auto simp: st4_def st3_def st2_def st1_def leaves_def)
  then show ?thesis using 4 by (intro exI [of _ st4]) (simp add: st4_def st3_def st2_def st1_def leaves_def)
qed

text \<open>Forgetting the settings leaves the account's own key on the server.\<close>

lemma meta_Forget_keeps_key:
  assumes con: "metadata_contract c view" and "meta_Forget c (m, s) = (res, m', s')"
  shows "view s' (meta_key keyEntry) = view s (meta_key keyEntry)"
  using assms(2) unfolding meta_Forget_def
proof (cases rule: bindT_cases)
  case (fails e)
  then show ?thesis using con by (auto simp: meta_Entries_def metadata_contract_def split: prod.splits sum.splits)
next
  case (goes all st1)
  let ?ns = "filter (\<lambda>n. n \<noteq> meta_key keyEntry) all"
  obtain m1 s1 where st1: "st1 = (m1, s1)" by force
  have v1: "view s1 = view s" using goes(1) con st1 by (auto simp: meta_Entries_def metadata_contract_def split: prod.splits sum.splits)
  show ?thesis
  proof (cases "?ns = []")
    case True
    then show ?thesis using goes(2) v1 st1 by (simp add: returnT_def)
  next
    case False
    obtain r2 s2 where w: "mdSet c (map (\<lambda>n. (n, None)) ?ns) s1 = (r2, s2)" by (rule prod.exhaust)
    have "s' = s2" using goes(2) False w st1 by (auto simp: forgetting_def meta_set_def Let_def split: sum.splits)
    moreover have "map_of (map (\<lambda>n. (n, None)) ?ns) (meta_key keyEntry) = None" unfolding map_of_eq_None_iff by auto
    then have "overridden (map (\<lambda>n. (n, None)) ?ns) (view s1) (meta_key keyEntry) = view s1 (meta_key keyEntry)" by (rule overridden_other)
    ultimately show ?thesis using md_set [OF con w] v1 by metis
  qed
qed

subsection \<open>Properties\<close>

text \<open>A server that keeps its entries in a list.\<close>

definition list_server :: "(string \<times> raw) list metadata" where
  "list_server = \<lparr>mdGet = (\<lambda>n s. (Inr [(n, map_of s n)], s)),
     mdList = (\<lambda>n s. (Inr (map (\<lambda>m. (m, map_of s m)) (filter (prefix (n @ ''/'')) (map fst s))), s)),
     mdSet = (\<lambda>es s. (Inr (), List.map_filter (\<lambda>n. map_option (Pair n) (overridden es (map_of s) n)) (remdups (map fst es @ map fst s))))\<rparr>"

lemma map_of_listed: "(\<And>n. f n \<noteq> None \<Longrightarrow> n \<in> set ns) \<Longrightarrow> map_of (List.map_filter (\<lambda>n. map_option (Pair n) (f n)) ns) = f"
proof
  fix n assume n: "\<And>n. f n \<noteq> None \<Longrightarrow> n \<in> set ns"
  have "map_of (List.map_filter (\<lambda>n. map_option (Pair n) (f n)) ns) n = (if n \<in> set ns then f n else None)"
    by (induction ns) (auto simp: List.map_filter_simps split: option.split)
  then show "map_of (List.map_filter (\<lambda>n. map_option (Pair n) (f n)) ns) n = f n" using n [of n] by (cases "f n") auto
qed

lemma list_server_contract: "metadata_contract list_server map_of"
proof -
  have "overridden es (map_of s) n \<noteq> None \<Longrightarrow> n \<in> set (remdups (map fst es @ map fst s))" for es and s :: "(string \<times> raw) list" and n
    by (auto simp: overridden_def split: option.splits dest: map_of_SomeD intro: rev_image_eqI)
  then have "map_of (List.map_filter (\<lambda>n. map_option (Pair n) (overridden es (map_of s) n)) (remdups (map fst es @ map fst s))) = overridden es (map_of s)"
    for es and s :: "(string \<times> raw) list" by (intro map_of_listed) auto
  moreover have "(m, Some v) \<in> (\<lambda>m. (m, map_of s m)) ` {m \<in> fst ` set s. prefix p m} \<longleftrightarrow> prefix p m \<and> map_of s m = Some v"
    for p m v and s :: "(string \<times> raw) list"
  proof -
    have "map_of s m = Some v \<Longrightarrow> m \<in> fst ` set s" using map_of_SomeD by force
    then show ?thesis by auto
  qed
  ultimately show ?thesis by (simp add: metadata_contract_def list_server_def)
qed


definition set_field :: "string \<Rightarrow> string \<Rightarrow> json \<Rightarrow> string + json" where
  "set_field n x v = (case v of JObj es \<Rightarrow> Inr (JObj (map (\<lambda>e. if fst e = n then (n, JStr x) else e) es)) | _ \<Rightarrow> Inl ''no record'')"

definition two_edits :: "nat \<Rightarrow> json \<Rightarrow> string + json" where
  "two_edits i = (if i = 0 then set_field ''left'' ''archive'' else set_field ''right'' ''delete'')"

definition stale_start :: "(string \<times> raw) list turns" where
  "stale_start = \<lparr>tServer = [], tTurn = None, tMemo = (\<lambda>_. Some (\<lambda>_. Some None)), tPhase = (\<lambda>_. Away), tMade = [], tTold = []\<rparr>"


end
