(* ===== verification/Public_Feed.thy ===== *)
theory Public_Feed
  imports Collections
begin

text \<open>
  What anyone with the address of a published calendar is served (\<^verbatim>\<open>pim/store/public.go\<close>).

  An iCalendar component is its name, its properties by name and its children. The library's decoder, encoder, its writing
  of a text property and its removal of repeated time zones are the fields of \<open>ical\<close>, an argument. The calendar is looked
  up in one transaction and its objects are read in another, so they are read in two states of the store.
\<close>

record Prop =
  prName :: string
  prParams :: "(string \<times> string list) list"
  prValue :: string

datatype component = Component (cmName: string) (cmProps: "(string \<times> Prop list) list") (cmChildren: "component list")

record ical =
  icDecode :: "string \<Rightarrow> err + component"
  icEncode :: "component \<Rightarrow> err + string"
  icText :: "string \<Rightarrow> string \<Rightarrow> Prop"
  icZones :: "component \<Rightarrow> component"

definition PublicPrefix :: string where
  "PublicPrefix = ''/pub/''"

definition publicExt :: string where
  "publicExt = ''.ics''"

definition prodID :: string where
  "prodID = ''-//mehdix.org//Alborz//EN''"

definition PublicPath :: "string \<Rightarrow> string" where
  "PublicPath secret = PublicPrefix @ secret @ publicExt"

definition classPublic :: string where
  "classPublic = ''PUBLIC''"

definition prop_get :: "component \<Rightarrow> string \<Rightarrow> Prop option" where
  "prop_get c n = (case map_of (cmProps c) n of Some (p # _) \<Rightarrow> Some p | _ \<Rightarrow> None)"

definition guarded :: "component \<Rightarrow> bool" where
  "guarded cal = list_ex (\<lambda>child. case prop_get child ''CLASS'' of None \<Rightarrow> False | Some p \<Rightarrow> \<not> EqualFold (prValue p) classPublic) (cmChildren cal)"

definition anonymous :: "component \<Rightarrow> component" where
  "anonymous comp1 = Component (cmName comp1) (filter (\<lambda>e. fst e \<noteq> ''ATTENDEE'' \<and> fst e \<noteq> ''ORGANIZER'') (cmProps comp1))
     (filter (\<lambda>child. cmName child \<noteq> ''VALARM'') (cmChildren comp1))"

definition feed_props :: "ical \<Rightarrow> string \<Rightarrow> (string \<times> Prop list) list" where
  "feed_props I name = [(''VERSION'', [icText I ''VERSION'' ''2.0'']), (''PRODID'', [icText I ''PRODID'' prodID]), (''NAME'', [icText I ''NAME'' name]),
     (''X-WR-CALNAME'', [let p = icText I ''X-WR-CALNAME'' name in p\<lparr>prParams := filter (\<lambda>e. fst e \<noteq> ''VALUE'') (prParams p)\<rparr>])]"

text \<open>The loop over the objects: the components of each that is not guarded, without the people in them.\<close>

definition feed_object :: "ical \<Rightarrow> Object \<Rightarrow> component list \<Rightarrow> err + component list" where
  "feed_object I ob acc = bindE (icDecode I (oData ob)) (\<lambda>cal. Inr (if guarded cal then acc else acc @ map anonymous (cmChildren cal)))"

definition emptyFeed :: string where
  "emptyFeed = (let crlf = [CHR 0x0D, CHR 0x0A] in ''BEGIN:VCALENDAR'' @ crlf @ ''VERSION:2.0'' @ crlf @ ''PRODID:'' @ prodID @ crlf @ ''END:VCALENDAR'' @ crlf)"

definition feed_of :: "ical \<Rightarrow> Collection \<Rightarrow> Object list \<Rightarrow> err + string" where
  "feed_of I c objects = bindE (foldE (feed_object I) objects []) (\<lambda>children.
     let feed = icZones I (Component ''VCALENDAR'' (feed_props I (cName c)) children) in
     if cmChildren feed = [] then Inr emptyFeed else icEncode I feed)"

definition store_feed :: "'t txops \<Rightarrow> naming \<Rightarrow> ical \<Rightarrow> Collection \<Rightarrow> 't \<Rightarrow> err + string" where
  "store_feed X nm I c t = bindE (fst (Objects X nm (Collection_Ref c) t)) (feed_of I c)"

datatype answer = NotAllowed | NotFound | Failed nat err | NotModified string | Served string string

record request =
  rqMethod :: string
  rqPath :: string
  rqIfNoneMatch :: string

fun status_of :: "err \<Rightarrow> nat" where
  "status_of (ErrHTTP code _) = code"
| "status_of _ = 500"

definition serveError :: "err \<Rightarrow> answer" where
  "serveError e = Failed (status_of e) e"

definition CutExt :: "string \<Rightarrow> string \<times> bool" where
  "CutExt s = (if suffix publicExt s then (take (length s - length publicExt) s, True) else (s, False))"

definition public_secret :: "string \<Rightarrow> string \<times> bool" where
  "public_secret p = CutExt (TrimPrefix PublicPrefix p)"

definition feed_etag :: "Collection \<Rightarrow> string" where
  "feed_etag c = [CHR 0x22] @ FormatUint (unat (CTag c)) @ [CHR 0x22]"

definition ServePublic :: "'t txops \<Rightarrow> naming \<Rightarrow> ical \<Rightarrow> request \<Rightarrow> 't \<Rightarrow> 't \<Rightarrow> answer" where
  "ServePublic X nm I rq t1 t2 =
     (if rqMethod rq \<noteq> ''GET'' \<and> rqMethod rq \<noteq> ''HEAD'' then NotAllowed
      else (case public_secret (rqPath rq) of (secret, ok) \<Rightarrow>
        (case fst (ByPublic X nm secret t1) of
           Inl e \<Rightarrow> if \<not> ok \<or> e = ErrNotFound then NotFound else serveError e
         | Inr c \<Rightarrow> if \<not> ok \<or> cKind c \<noteq> Calendar then NotFound
             else if rqIfNoneMatch rq = feed_etag c then NotModified (feed_etag c)
             else (case store_feed X nm I c t2 of Inl e \<Rightarrow> serveError e | Inr body \<Rightarrow> Served (feed_etag c) body))))"

subsection \<open>What is served\<close>

text \<open>What the library promises of removing repeated time zones: nothing is added, and nothing but time zones is removed.\<close>

definition zones_ok :: "ical \<Rightarrow> bool" where
  "zones_ok I \<longleftrightarrow> (\<forall>n ps cs. \<exists>cs'. icZones I (Component n ps cs) = Component n ps cs' \<and> set cs' \<subseteq> set cs \<and>
     filter (\<lambda>x. cmName x \<noteq> ''VTIMEZONE'') cs' = filter (\<lambda>x. cmName x \<noteq> ''VTIMEZONE'') cs)"

definition feed_children :: "component list \<Rightarrow> component list" where
  "feed_children cals = concat (map (\<lambda>cal. map anonymous (cmChildren cal)) (filter (\<lambda>cal. \<not> guarded cal) cals))"

lemma feed_loop:
  "foldE (feed_object I) obs acc = Inr cs \<Longrightarrow> \<exists>cals. map (\<lambda>ob. icDecode I (oData ob)) obs = map Inr cals \<and> cs = acc @ feed_children cals"
proof (induction obs arbitrary: acc)
  case Nil
  then show ?case by (simp add: feed_children_def)
next
  case (Cons ob obs)
  obtain cal where cal: "icDecode I (oData ob) = Inr cal"
    and rest: "foldE (feed_object I) obs (if guarded cal then acc else acc @ map anonymous (cmChildren cal)) = Inr cs"
  proof -
    obtain acc' where "feed_object I ob acc = Inr acc'" "foldE (feed_object I) obs acc' = Inr cs" using Cons.prems by (auto simp: bindE_returns)
    then show thesis using that by (auto simp: feed_object_def [of I ob acc] bindE_returns)
  qed
  obtain cals where "map (\<lambda>ob. icDecode I (oData ob)) obs = map Inr cals"
    "cs = (if guarded cal then acc else acc @ map anonymous (cmChildren cal)) @ feed_children cals" using Cons.IH [OF rest] by blast
  then show ?case using cal by (intro exI [of _ "cal # cals"]) (simp add: feed_children_def)
qed

lemma anonymous_nobody:
  "map_of (cmProps (anonymous x)) ''ATTENDEE'' = None" "map_of (cmProps (anonymous x)) ''ORGANIZER'' = None"
  "y \<in> set (cmChildren (anonymous x)) \<Longrightarrow> cmName y \<noteq> ''VALARM''"
  by (auto simp: anonymous_def map_of_eq_None_iff)

lemma served_runs:
  assumes "ServePublic X nm I rq t1 t2 = Served etag body"
  obtains c obs where "fst (ByPublic X nm (fst (public_secret (rqPath rq))) t1) = Inr c" "cKind c = Calendar" "etag = feed_etag c"
    "fst (Objects X nm (Collection_Ref c) t2) = Inr obs" "feed_of I c obs = Inr body"
  using assms by (auto simp: ServePublic_def serveError_def store_feed_def bindE_returns split: if_splits prod.splits sum.splits)

lemma public_secret_path: "public_secret (PublicPath secret) = (secret, True)"
  by (simp add: public_secret_def PublicPath_def CutExt_def suffix_def)

subsection \<open>Properties\<close>

text \<open>A store of plain entries and a calendar library of a few texts.\<close>

definition list_ops :: "(string \<times> stored) list txops" where
  "list_ops = \<lparr>Get = (\<lambda>k t. (map_of t k, t)), Put = (\<lambda>k v t. (Inr (), (k, v) # t)), Delete = (\<lambda>k t. (Inr (), filter (\<lambda>e. fst e \<noteq> k) t)),
     Scan = (\<lambda>p t. ((filter (\<lambda>e. prefix p (fst e)) t, None), t)), WrapTo = (\<lambda>_ _. returnT ()), UnwrapFrom = (\<lambda>_ _. returnT ()),
     PublicWrap = (\<lambda>_ _. returnT ()), Encrypt = (\<lambda>_ _ _. returnT ()), DropKey = (\<lambda>_. returnT ()), RingOn = (\<lambda>_. returnT False)\<rparr>"

definition meeting :: component where
  "meeting = Component ''VEVENT'' [(''SUMMARY'', [\<lparr>prName = ''SUMMARY'', prParams = [], prValue = ''Tea''\<rparr>]),
     (''ATTENDEE'', [\<lparr>prName = ''ATTENDEE'', prParams = [], prValue = ''mailto:bob''\<rparr>])] [Component ''VALARM'' [] []]"

definition secret_meeting :: component where
  "secret_meeting = Component ''VEVENT'' [(''CLASS'', [\<lparr>prName = ''CLASS'', prParams = [], prValue = ''private''\<rparr>])] []"

definition small_ical :: ical where
  "small_ical = \<lparr>icDecode = (\<lambda>s. Inr (Component ''VCALENDAR'' [] [if s = ''open'' then meeting else secret_meeting])),
     icEncode = (\<lambda>c. Inr (concat (map (\<lambda>x. cmName x @ concat (map fst (cmProps x))) (cmChildren c)))),
     icText = (\<lambda>n v. \<lparr>prName = n, prParams = [], prValue = v\<rparr>), icZones = id\<rparr>"


definition plain_nm :: naming where
  "plain_nm s = s"

definition published :: Collection where
  "published = zero_Collection\<lparr>cID := ''cal'', cOwner := ''ann'', cKind := Calendar, cName := ''Calendar'', CTag := 4\<rparr>"

definition kept_text :: "string \<Rightarrow> string \<Rightarrow> Object" where
  "kept_text n s = \<lparr>oName = n, oUID = n, oData = s, oETag = s, oModified = 1, oCreator = [], oCreated = 1, oEditor = []\<rparr>"

definition published_store :: "(string \<times> stored) list" where
  "published_store = [(publicKey plain_nm ''s3cret'', VText (collectionKey plain_nm (Collection_Ref published))),
     (collectionKey plain_nm (Collection_Ref published), VCollection published [] []),
     (objectKey plain_nm (Collection_Ref published) ''a'', VObject (kept_text ''a'' ''open'') []),
     (objectKey plain_nm (Collection_Ref published) ''b'', VObject (kept_text ''b'' ''hidden'') [])]"


end
