(* ===== verification/Spec2Isabelle.thy ===== *)
theory Spec2Isabelle
  imports Prelude KV Imap_Queue Seal Keyring Pim_Data Sealed_Tx Collections Collections_Live Collection_Props Reseal Dav_Paths Dav_Backend
    Search_Query Memo Send_Claim Imap_Search Mirror_Hot Dav_Pull Dav_Mirror Mirror_Sync Mirror_Run Sieve_Account Record_Keep Records Settings_Meta Public_Feed
begin

text \<open>
  Alborz is a webmail, calendar and contacts server: pages over an account's IMAP, SMTP and ManageSieve
  servers, collections of calendars and address books it keeps itself and serves over CalDAV and CardDAV,
  copies of the collections of remote servers, and encryption of what it stores under keys only a login
  opens. This library models the parts that hold state or decide something, in Isabelle/HOL, from the Go
  sources, and proves what makes them correct. File names below are under \<^verbatim>\<open>src/\<close>.

  \<^bold>\<open>The parts and their theories.\<close>

  \<^item> \<open>Prelude\<close>: results with errors (\<open>bindE\<close>, \<open>foldE\<close>), programs over a transaction (\<open>bindT\<close>, \<open>forT\<close>), instants, and
    the functions of Go's \<^verbatim>\<open>strings\<close> and \<^verbatim>\<open>path\<close> packages the sources call.
  \<^item> \<open>KV\<close>: the key-value store (\<^verbatim>\<open>internal/kv/kv.go\<close>, \<^verbatim>\<open>internal/kv/bolt/bolt.go\<close>). A transaction is the bucket in
    key order with what its disk refuses. The locale \<open>kv_tx\<close> is the interface every client is proved against;
    \<open>bolt\<close> interprets it.
  \<^item> \<open>Seal\<close>, \<open>Keyring\<close>: sealed values and keyed names (\<^verbatim>\<open>internal/seal/seal.go\<close>), and the ring that gives each account the
    key its encryption asks for (\<^verbatim>\<open>internal/keyring/keyring.go\<close>), with the wraps of other secrets to an account's key
    pair. A sealed value is the term of its format, key and payload; the ciphers and derivations are arguments.
  \<^item> \<open>Pim_Data\<close>, \<open>Sealed_Tx\<close>, \<open>Collections\<close>, \<open>Collections_Live\<close>, \<open>Collection_Props\<close>, \<open>Reseal\<close>: the collection store
    (\<^verbatim>\<open>pim/store/store.go\<close>, \<^verbatim>\<open>pim/store/sealed.go\<close>): its records and keys, transactions that seal each
    collection under its own key, every method of \<^verbatim>\<open>Store\<close>, and the moves between keys. The store's methods are written
    over the operations of a transaction as arguments (\<open>txops\<close>), as the Go code is over the interface; a locale states
    what they promise, and the sealed transaction interprets it.
  \<^item> \<open>Dav_Paths\<close>, \<open>Dav_Backend\<close>: the DAV server on top of the store (\<^verbatim>\<open>pim/store/paths.go\<close>, \<^verbatim>\<open>caldav.go\<close>, \<^verbatim>\<open>carddav.go\<close>).
  \<^item> \<open>Dav_Pull\<close>, \<open>Mirror_Hot\<close>, \<open>Dav_Mirror\<close>, \<open>Mirror_Sync\<close>, \<open>Mirror_Run\<close>: the copies of remote collections
    (\<^verbatim>\<open>pim/dav/sync.go\<close>, \<^verbatim>\<open>pim/dav/mirror.go\<close>): what a sync learns, the collections kept opened in memory, the file of
    copies and every operation on it, what each does to the copies, and all of them interleaved.
  \<^item> \<open>Imap_Queue\<close>: the queue for the one IMAP connection of a login (\<^verbatim>\<open>imap_queue.go\<close>).
  \<^item> \<open>Memo\<close>: values loaded once per user (\<^verbatim>\<open>internal/memo/memo.go\<close>).
  \<^item> \<open>Send_Claim\<close>: the claims that keep a message from being submitted twice (\<^verbatim>\<open>mail/send_claim.go\<close>), \<^verbatim>\<open>Submit\<close>
    (\<^verbatim>\<open>mail/send.go\<close>) and the phases of a delivery (\<^verbatim>\<open>mail/smtp.go\<close>, \<^verbatim>\<open>login.go\<close>).
  \<^item> \<open>Search_Query\<close>, \<open>Imap_Search\<close>: the query language (\<^verbatim>\<open>search/query.go\<close>) and what it asks of an IMAP server
    (\<^verbatim>\<open>mail/imapsearch\<close>).
  \<^item> \<open>Public_Feed\<close>: what anyone with the address of a published calendar is served (\<^verbatim>\<open>pim/store/public.go\<close>), over the
    collection store.
  \<^item> \<open>Record_Keep\<close>, \<open>Records\<close>, \<open>Settings_Meta\<close>: records that keep the fields a newer version put there
    (\<^verbatim>\<open>internal/record/record.go\<close>), with what \<^verbatim>\<open>encoding/json\<close> does with the shape of a Go type; the sessions and settings of the data
    file and the check of its key (\<^verbatim>\<open>records.go\<close>), over the key-value store and the ring; the settings an account keeps on
    its mail server, and changes of one entry that take turns (\<^verbatim>\<open>store.go\<close>).
  \<^item> \<open>Sieve_Script\<close>, \<open>Sieve_Account\<close>: the filter scripts the pages write and read back, and the operations on the scripts
    of an account (\<^verbatim>\<open>filters/rules.go\<close>, \<^verbatim>\<open>filters/forwarding.go\<close>, \<^verbatim>\<open>filters/composed.go\<close>).

  \<^bold>\<open>How code is modelled.\<close> A struct is a record and a method a function from the state to a result and the state. A
  critical section under a mutex is one definition; where several callers interleave, an \<open>inductive\<close> relation has one
  rule per section and the theorem is an invariant of all reachable states (\<open>Imap_Queue\<close>, \<open>Memo\<close>, \<open>Send_Claim\<close>,
  \<open>Mirror_Hot\<close>, \<open>Mirror_Run\<close>, \<open>Settings_Meta\<close>). A Go map that is only looked up is a function, one that is ranged over an association list in the
  order the iteration takes. Objects compared as pointers live on a heap. Counters are \<open>64 word\<close>: where a theorem needs
  that one does not wrap around between two sections, the rule says so. The clock is an argument. A disk that refuses a
  write, a server that answers anything and a failing random source are arguments too, so every error return of the sources is a branch.

  \<^bold>\<open>What the lemmas show.\<close> For each component: an invariant of its state kept by every operation; what each operation
  leaves, on success and on every error; and the property its callers rely on. The main ones: one holder of the IMAP connection
  in every interleaving, and no interactive caller starved; at most one submission of a message within the time a
  claim is kept; no secret lost and none left readable when encryption is turned on or off, and no record lost
  when a collection gets a new key; UIDs unique and ctags rising under every write; the DAV server answers exactly what
  the abstract access check allows; a copy of a remote collection is in step with its sync token in every interleaving;
  a query read back from its text, and the IMAP criteria finding exactly the messages that answer every term;
  a rewritten record carrying over every field it does not know and read back as it was saved; no change of a setting lost
  however requests interleave; a file opened by no other key than its own; filter rules read back from the script written
  for them, and the reader's own script kept through every save; a public feed that names nobody and shows nothing
  private.

  \<^bold>\<open>Loops.\<close> Recursion over data is structural or has a termination proof. The loops whose end depends on the outside are
  partial functions to \<open>option\<close>: the continuation pages of a sync (\<open>sync_pages\<close>, which ends when the server says so) and the
  eviction of opened collections (\<open>hold_loop\<close>, proved to end). No definition uses fuel.

  \<^bold>\<open>What is assumed.\<close> Keyed names are hashes: the theorems about the file of copies hold on a set of names without
  collision (\<open>names_apart\<close>). Sealing is ideal: a value opens under the key and format it was sealed with and no other. A DAV
  server keeps the promises of RFC 6578 and RFC 4791 (\<open>sync_contract\<close>), a ManageSieve server those of RFC 5804
  (\<open>sieve_contract\<close>) and a METADATA server those of RFC 5464 (\<open>metadata_contract\<close>, where a write answered with an error may have
  been made). Each such hypothesis has a witness. Strings are bytes;
  lower case is that of ASCII.

  \<^bold>\<open>Not modelled.\<close> The pages and their handlers (\<^verbatim>\<open>web\<close>, \<^verbatim>\<open>mail/web\<close>, \<^verbatim>\<open>pim/web\<close>, \<^verbatim>\<open>settings/web\<close>, \<^verbatim>\<open>auth/web\<close>, \<^verbatim>\<open>filters/web\<close>)
  and what they render; the IMAP, SMTP, ManageSieve and HTTP exchanges themselves (\<^verbatim>\<open>mail/imap.go\<close>, \<^verbatim>\<open>sieve.go\<close>, \<^verbatim>\<open>server.go\<close>), which
  are calls of client libraries; parsing and writing of MIME, iCalendar and vCard, which libraries do; the caches and listings of
  mail (\<^verbatim>\<open>mail/cache.go\<close>, \<^verbatim>\<open>mail/listing.go\<close>); the providers of calendars and contacts; automatic answers (\<^verbatim>\<open>filters/vacation.go\<close>, a MIME entity in quoted-printable), reminders, push,
  the desktop program, the configuration, the add-ons, the test servers. These hold little state of their own: they
  pass between the pages, the libraries and the parts above.
\<close>

end
